(* ===== verification/Prelude.thy ===== *)
theory Prelude
  imports Main "HOL-Library.Word"
begin

text \<open>
  The shared base of the development: the names of the machine types of the code, the fact
  collections its proofs use, and the generic lemmas about words, intervals of words and lists that
  several components need.
\<close>

unbundle bit_operations_syntax

section \<open>Machine types\<close>

text \<open>
  \<open>GLuint\<close> and \<open>unsigned int\<close> are 32-bit words, \<open>GLint\<close> and \<open>int\<close> are 32-bit words read as
  two's complement where their arithmetic may wrap and \<open>int\<close> where the code keeps it in range,
  \<open>size_t\<close> is a natural number where the code only counts elements of memory it holds.
\<close>

type_synonym u8 = "8 word"
type_synonym u16 = "16 word"
type_synonym u32 = "32 word"
type_synonym u64 = "64 word"

abbreviation u32_max :: u32 where
  "u32_max \<equiv> - 1"

text \<open>The value of an integer that is stored in a 32-bit \<open>int\<close>.\<close>

definition int32 :: "int \<Rightarrow> int" where
  "int32 x = (x + 2 ^ 31) mod 2 ^ 32 - 2 ^ 31"

lemma int32_id: "\<lbrakk>- (2 ^ 31) \<le> x; x < 2 ^ 31\<rbrakk> \<Longrightarrow> int32 x = x"
  by (simp add: int32_def)

section \<open>Fact collections\<close>

named_theorems inv_intro \<open>preservation of the components' invariants\<close>
named_theorems word_step \<open>stepping a word up or down by one without wrapping around\<close>
named_theorems op_defs \<open>definitions of small operations, unfolded together\<close>

section \<open>Words\<close>

lemma uint_pred: "uint (h - 1) = uint h - 1" if "l < h" for h l :: "'a::len word"
  using that by (metis uint_minus_simple_alt uint_0_iff uint_1 word_less_1 word_not_simps(1) not_less)

lemma uint_succ: "uint (h + 1) = uint h + 1" if "h < u" for h u :: "'a::len word"
proof -
  have "uint h < uint u" "uint u < 2 ^ LENGTH('a)"
    using that by (simp_all add: word_less_def)
  then have "uint h + 1 < 2 ^ LENGTH('a)"
    by linarith
  then have "(uint h + 1) mod 2 ^ LENGTH('a) = uint h + 1"
    by (intro mod_pos_pos_trivial) simp_all
  then show ?thesis
    by (simp add: uint_word_ariths mod_add_right_eq)
qed

lemma word_le_pred [word_step]: "x \<le> h - 1 \<longleftrightarrow> x < h" if "l < h" for h l x :: "'a::len word"
  using that by (simp add: word_le_def word_less_def uint_pred)

lemma word_succ_le [word_step]: "h + 1 \<le> x \<longleftrightarrow> h < x" if "h < u" for h u x :: "'a::len word"
  using that by (simp add: word_le_def word_less_def uint_succ add1_zle_eq)

lemma word_less_succ [word_step]: "h < h + 1" if "h < u" for h u :: "'a::len word"
  using that by (metis word_succ_le order_refl)

lemma word_pred_less [word_step]: "h - 1 < h" if "l < h" for h l :: "'a::len word"
  using that by (metis word_le_pred order_refl)

lemma word_succ_pos: "0 < h + 1" if "h < u" for h u :: "'a::len word"
  using word_less_succ [OF that] by (metis word_gt_0 word_not_simps(1))

lemma word_less_succ_iff: "h < h + 1 \<longleftrightarrow> h + 1 \<noteq> 0" for h :: "'a::len word"
proof (cases "h = - 1")
  case True
  then show ?thesis by simp
next
  case False
  then have "h < - 1"
    by (simp add: word_order.not_eq_extremum)
  then show ?thesis
    using word_less_succ word_succ_pos by (metis word_not_simps(1))
qed

lemma word_nonzero_uint: "x \<noteq> 0 \<longleftrightarrow> 0 < uint x" for x :: "'a::len word"
  by (metis uint_0_iff uint_ge_0 order.strict_iff_order)

section \<open>Sets\<close>

lemma partition_complement: "\<lbrakk>L \<inter> F = {}; L \<union> F = - {z}\<rbrakk> \<Longrightarrow> - F = insert z L"
  by blast

end
