(* ===== verification/Name_Supply.thy ===== *)
theory Name_Supply
  imports Prelude
begin

text \<open>
  The contract between an allocator of object names and the code that uses it (the resource managers
  of src/src/libANGLE/ResourceManager.{h,cpp}): the locale \<open>name_supply\<close>. A client allocates names,
  gives back names it holds, and reserves names the application chose itself; \<open>name_use\<close> is any
  interleaving of these steps. The locale's lemmas hold for every allocator that keeps the contract;
  \<open>HandleAllocator\<close> and \<open>HandleRangeAllocator\<close> are shown to.
\<close>

section \<open>Steps of a client\<close>

text \<open>
  A client's configuration is the allocator's state and the set of names the client holds. It
  releases only a name it holds, and reserves only a nonzero name it does not hold, as
  \<open>TypedResourceManager\<close> does.
\<close>

inductive name_use ::
  "('s \<Rightarrow> (u32 \<times> 's) option) \<Rightarrow> (u32 \<Rightarrow> 's \<Rightarrow> 's) \<Rightarrow> (u32 \<Rightarrow> 's \<Rightarrow> 's option)
    \<Rightarrow> 's \<times> u32 set \<Rightarrow> 's \<times> u32 set \<Rightarrow> bool"
  for alloc rel reserve where
  use_alloc: "alloc s = Some (h, s') \<Longrightarrow> name_use alloc rel reserve (s, L) (s', insert h L)"
| use_release: "h \<in> L \<Longrightarrow> name_use alloc rel reserve (s, L) (rel h s, L - {h})"
| use_reserve: "\<lbrakk>h \<notin> L; h \<noteq> 0; reserve h s = Some s'\<rbrakk>
    \<Longrightarrow> name_use alloc rel reserve (s, L) (s', insert h L)"

inductive_cases name_useE: "name_use alloc rel reserve c c'"

section \<open>The contract\<close>

locale name_supply =
  fixes inv :: "'s \<Rightarrow> bool"
    and free :: "'s \<Rightarrow> u32 set"
    and alloc :: "'s \<Rightarrow> (u32 \<times> 's) option"
    and rel :: "u32 \<Rightarrow> 's \<Rightarrow> 's"
    and reserve :: "u32 \<Rightarrow> 's \<Rightarrow> 's option"
  assumes free_pos: "inv s \<Longrightarrow> 0 \<notin> free s"
    and alloc_None: "inv s \<Longrightarrow> alloc s = None \<longleftrightarrow> free s = {}"
    and alloc_Some: "\<lbrakk>inv s; alloc s = Some (h, s')\<rbrakk>
      \<Longrightarrow> inv s' \<and> h \<in> free s \<and> free s' = free s - {h}"
    and release_law: "\<lbrakk>inv s; h \<notin> free s; h \<noteq> 0\<rbrakk>
      \<Longrightarrow> inv (rel h s) \<and> free (rel h s) = insert h (free s)"
    and reserve_law: "\<lbrakk>inv s; h \<in> free s\<rbrakk>
      \<Longrightarrow> \<exists>s'. reserve h s = Some s' \<and> inv s' \<and> free s' = free s - {h}"
begin

definition balanced :: "u32 set \<Rightarrow> 's \<times> u32 set \<Rightarrow> bool" where
  "balanced U c \<longleftrightarrow> inv (fst c) \<and> snd c \<inter> free (fst c) = {} \<and> snd c \<union> free (fst c) = U \<and> 0 \<notin> U"

lemma balanced_step:
  assumes "name_use alloc rel reserve c c'" and "balanced U c"
    and "\<And>h. h \<notin> U \<Longrightarrow> h \<noteq> 0 \<Longrightarrow> reserve h (fst c) = None"
  shows "balanced U c'"
  using assms(1)
proof cases
  case (use_alloc s h s' L)
  then show ?thesis
    using assms(2) alloc_Some [of s h s'] by (auto simp: balanced_def)
next
  case (use_release h L s)
  then have "inv s" "h \<notin> free s" "h \<noteq> 0"
    using assms(2) by (auto simp: balanced_def)
  then show ?thesis
    using assms(2) use_release release_law [of s h] by (auto simp: balanced_def)
next
  case (use_reserve h L s s')
  then have "h \<in> U"
    using assms(3) [of h] by auto
  with use_reserve have "h \<in> free s" "inv s"
    using assms(2) by (auto simp: balanced_def)
  then show ?thesis
    using assms(2) use_reserve reserve_law [of s h] by (auto simp: balanced_def)
qed

end

text \<open>
  An allocator that manages every nonzero name: nothing a client could reserve is outside its range.
\<close>

locale full_name_supply = name_supply +
  fixes s0 :: 'a
  assumes start: "inv s0" and start_free: "free s0 = - {0}"
begin

lemma reachable_balanced:
  assumes "(name_use alloc rel reserve)\<^sup>*\<^sup>* (s0, {}) c"
  shows "balanced (- {0}) c"
  using assms
proof (induction rule: rtranclp_induct)
  case base
  then show ?case by (simp add: balanced_def start start_free)
next
  case (step c c')
  then show ?case
    using balanced_step [of c c' "- {0}"] by auto
qed

lemma held_or_free:
  assumes "(name_use alloc rel reserve)\<^sup>*\<^sup>* (s0, {}) (s, L)"
  shows "L \<inter> free s = {}" and "L \<union> free s = - {0}" and "inv s"
  using reachable_balanced [OF assms] by (auto simp: balanced_def)

lemma alloc_is_fresh:
  assumes "(name_use alloc rel reserve)\<^sup>*\<^sup>* (s0, {}) (s, L)" and "alloc s = Some (h, s')"
  shows "h \<notin> L" and "h \<noteq> 0"
  using held_or_free [OF assms(1)] alloc_Some [OF _ assms(2)] free_pos [of s] by auto

lemma alloc_fails_only_when_full:
  assumes "(name_use alloc rel reserve)\<^sup>*\<^sup>* (s0, {}) (s, L)"
  shows "alloc s = None \<longleftrightarrow> L = - {0}"
  using held_or_free [OF assms] alloc_None [of s] by auto

lemma reserve_succeeds:
  assumes "(name_use alloc rel reserve)\<^sup>*\<^sup>* (s0, {}) (s, L)" and "h \<notin> L" and "h \<noteq> 0"
  shows "\<exists>s'. reserve h s = Some s'"
  using held_or_free [OF assms(1)] reserve_law [of s h] assms(2,3) by auto

end

end
