(* ===== verification/Handle_Allocator.thy ===== *)
theory Handle_Allocator
  imports Name_Supply
begin

text \<open>
  \<open>gl::HandleAllocator\<close> (src/src/libANGLE/HandleAllocator.{h,cpp}): the allocator of GL object names.
  A free name is either in a list of never-allocated ranges, sorted and disjoint, or in the heap of
  released names.

  \<open>mReleasedList\<close> is a \<open>std::vector\<close> kept as a min-heap by \<open>push_heap\<close>, \<open>pop_heap\<close> and
  \<open>make_heap\<close>. The standard fixes its contents and that \<open>pop_heap\<close> moves the least element to the
  back, not its layout, and the code reads nothing else of it; the model keeps the same elements in
  ascending order. \<open>ASSERT\<close> is no check in a release build: where the code would go on and read
  through the end of a vector the model returns \<^term>\<open>None\<close>.

  The abstract view is the set of free names, \<open>ha_free\<close>. The lemmas show that every operation keeps
  the invariant and what it does to that set; the locale \<open>name_supply\<close> is the interface the resource
  managers use, and its lemmas about runs of operations hold for every allocator that provides it.
\<close>

section \<open>State\<close>

record handle_range =
  hr_begin :: u32
  hr_end :: u32

record handle_allocator =
  mBaseValue :: u32
  mNextValue :: u32
  mUnallocatedList :: "handle_range list"
  mReleasedList :: "u32 list"
  mLoggingEnabled :: bool

definition HandleRange :: "u32 \<Rightarrow> u32 \<Rightarrow> handle_range" where
  "HandleRange b e = \<lparr>hr_begin = b, hr_end = e\<rparr>"

definition HandleAllocator :: handle_allocator where
  "HandleAllocator =
     \<lparr>mBaseValue = 1, mNextValue = 1, mUnallocatedList = [HandleRange 1 u32_max],
      mReleasedList = [], mLoggingEnabled = False\<rparr>"

definition HandleAllocator_max :: "u32 \<Rightarrow> handle_allocator" where
  "HandleAllocator_max maximumHandleValue =
     \<lparr>mBaseValue = 1, mNextValue = 1, mUnallocatedList = [HandleRange 1 maximumHandleValue],
      mReleasedList = [], mLoggingEnabled = False\<rparr>"

section \<open>Operations\<close>

definition setBaseHandle :: "u32 \<Rightarrow> handle_allocator \<Rightarrow> handle_allocator" where
  "setBaseHandle value s = s\<lparr>mBaseValue := value, mNextValue := value\<rparr>"

definition ha_allocate :: "handle_allocator \<Rightarrow> (u32 \<times> handle_allocator) option" where
  "ha_allocate s =
     (case mReleasedList s of
        reusedHandle # rest \<Rightarrow> Some (reusedHandle, s\<lparr>mReleasedList := rest\<rparr>)
      | [] \<Rightarrow>
          (case mUnallocatedList s of
             [] \<Rightarrow> None
           | r # rs \<Rightarrow>
               Some (hr_begin r,
                     s\<lparr>mUnallocatedList :=
                         (if hr_begin r = hr_end r then rs
                          else r\<lparr>hr_begin := hr_begin r + 1\<rparr> # rs)\<rparr>)))"

definition ha_release :: "u32 \<Rightarrow> handle_allocator \<Rightarrow> handle_allocator" where
  "ha_release handle s = s\<lparr>mReleasedList := insort handle (mReleasedList s)\<rparr>"

text \<open>
  \<open>std::lower_bound\<close> with \<open>HandleRangeComparator\<close> on the sorted range list: the first range whose
  end is not below the handle. \<open>reserve_range\<close> is the rest of \<open>reserve\<close>, the list before that
  range given: it removes the handle from the range, splitting the range where it must.
\<close>

definition reserve_range :: "u32 \<Rightarrow> handle_range \<Rightarrow> handle_range list" where
  "reserve_range handle r =
     (if handle = hr_begin r \<or> handle = hr_end r
      then (if hr_begin r = hr_end r then []
            else if handle = hr_begin r then [r\<lparr>hr_begin := hr_begin r + 1\<rparr>]
            else [r\<lparr>hr_end := hr_end r - 1\<rparr>])
      else [HandleRange (hr_begin r) (handle - 1), HandleRange (handle + 1) (hr_end r)])"

definition ha_reserve :: "u32 \<Rightarrow> handle_allocator \<Rightarrow> handle_allocator option" where
  "ha_reserve handle s =
     (if handle \<in> set (mReleasedList s)
      then Some (s\<lparr>mReleasedList := remove1 handle (mReleasedList s)\<rparr>)
      else
        (case dropWhile (\<lambda>r. hr_end r < handle) (mUnallocatedList s) of
           [] \<Rightarrow> None
         | r # rs \<Rightarrow>
             Some (s\<lparr>mUnallocatedList :=
                       takeWhile (\<lambda>r. hr_end r < handle) (mUnallocatedList s)
                       @ reserve_range handle r @ rs\<rparr>)))"

definition ha_reset :: "handle_allocator \<Rightarrow> handle_allocator" where
  "ha_reset s =
     s\<lparr>mUnallocatedList := [HandleRange 1 u32_max], mReleasedList := [],
       mBaseValue := 1, mNextValue := 1\<rparr>"

definition enableLogging :: "bool \<Rightarrow> handle_allocator \<Rightarrow> handle_allocator" where
  "enableLogging enabled s = s\<lparr>mLoggingEnabled := enabled\<rparr>"

section \<open>Abstract view and invariant\<close>

definition range_set :: "handle_range \<Rightarrow> u32 set" where
  "range_set r = {hr_begin r .. hr_end r}"

definition ranges_set :: "handle_range list \<Rightarrow> u32 set" where
  "ranges_set rs = (\<Union>r\<in>set rs. range_set r)"

definition ha_free :: "handle_allocator \<Rightarrow> u32 set" where
  "ha_free s = set (mReleasedList s) \<union> ranges_set (mUnallocatedList s)"

definition range_ok :: "handle_range \<Rightarrow> bool" where
  "range_ok r \<longleftrightarrow> 0 < hr_begin r \<and> hr_begin r \<le> hr_end r"

definition ranges_ok :: "handle_range list \<Rightarrow> bool" where
  "ranges_ok rs \<longleftrightarrow> (\<forall>r\<in>set rs. range_ok r) \<and> sorted_wrt (\<lambda>a b. hr_end a < hr_begin b) rs"

definition ha_inv :: "handle_allocator \<Rightarrow> bool" where
  "ha_inv s \<longleftrightarrow>
     ranges_ok (mUnallocatedList s) \<and> sorted (mReleasedList s) \<and> distinct (mReleasedList s) \<and>
     0 \<notin> set (mReleasedList s) \<and> set (mReleasedList s) \<inter> ranges_set (mUnallocatedList s) = {}"

lemma HandleRange_sel [simp]: "hr_begin (HandleRange b e) = b" "hr_end (HandleRange b e) = e"
  by (simp_all add: HandleRange_def)

lemma ranges_set_simps [simp]:
  "ranges_set [] = {}"
  "ranges_set (r # rs) = range_set r \<union> ranges_set rs"
  "ranges_set (rs @ qs) = ranges_set rs \<union> ranges_set qs"
  by (auto simp: ranges_set_def)

lemma ranges_ok_simps:
  "ranges_ok []"
  "ranges_ok (r # rs) \<longleftrightarrow> range_ok r \<and> (\<forall>q\<in>set rs. hr_end r < hr_begin q) \<and> ranges_ok rs"
  "ranges_ok (rs @ qs) \<longleftrightarrow>
     ranges_ok rs \<and> ranges_ok qs \<and> (\<forall>r\<in>set rs. \<forall>q\<in>set qs. hr_end r < hr_begin q)"
  by (auto simp: ranges_ok_def sorted_wrt_append)

lemma ranges_set_pos: "ranges_ok rs \<Longrightarrow> x \<in> ranges_set rs \<Longrightarrow> 0 < x"
  by (force simp: ranges_ok_def ranges_set_def range_set_def range_ok_def)

lemma ranges_before: "\<lbrakk>\<forall>q\<in>set rs. b < hr_begin q; x \<le> b\<rbrakk> \<Longrightarrow> x \<notin> ranges_set rs"
  by (force simp: ranges_set_def range_set_def)

lemma ranges_after: "\<lbrakk>\<forall>q\<in>set rs. hr_end q < b; b \<le> x\<rbrakk> \<Longrightarrow> x \<notin> ranges_set rs"
  by (force simp: ranges_set_def range_set_def)

lemma ha_free_pos: "ha_inv s \<Longrightarrow> h \<in> ha_free s \<Longrightarrow> 0 < h"
  by (auto simp: ha_inv_def ha_free_def intro: ranges_set_pos) (metis word_gt_0)


section \<open>Each operation on the abstract view\<close>

lemma HandleAllocator_ok: "ha_inv HandleAllocator" "ha_free HandleAllocator = {1..u32_max}"
  by (simp_all add: HandleAllocator_def ha_inv_def ha_free_def ranges_ok_simps range_ok_def range_set_def)

lemma ha_reset_ok: "ha_inv (ha_reset s)" "ha_free (ha_reset s) = {1..u32_max}"
  by (simp_all add: ha_reset_def ha_inv_def ha_free_def ranges_ok_simps range_ok_def range_set_def)

lemma range_advance:
  assumes "range_ok r" and "hr_begin r \<noteq> hr_end r"
  shows "range_set (r\<lparr>hr_begin := hr_begin r + 1\<rparr>) = range_set r - {hr_begin r}"
    and "range_ok (r\<lparr>hr_begin := hr_begin r + 1\<rparr>)"
    and "hr_begin r \<le> hr_begin r + 1"
proof -
  have less: "hr_begin r < hr_end r"
    using assms by (auto simp: range_ok_def order.strict_iff_order)
  show "range_set (r\<lparr>hr_begin := hr_begin r + 1\<rparr>) = range_set r - {hr_begin r}"
    by (auto simp: range_set_def word_succ_le [OF less])
  show "range_ok (r\<lparr>hr_begin := hr_begin r + 1\<rparr>)"
    using less by (simp add: range_ok_def word_succ_le [OF less] word_succ_pos [OF less])
  show "hr_begin r \<le> hr_begin r + 1"
    using word_less_succ [OF less] by simp
qed

lemma ha_allocate_None: "ha_allocate s = None \<longleftrightarrow> mReleasedList s = [] \<and> mUnallocatedList s = []"
  by (auto simp: ha_allocate_def split: list.splits)

lemma ha_allocate_None_free: "ha_inv s \<Longrightarrow> ha_allocate s = None \<longleftrightarrow> ha_free s = {}"
  by (auto simp: ha_allocate_None ha_free_def ha_inv_def ranges_ok_def ranges_set_def range_ok_def
      range_set_def)

lemma ha_allocate_Some:
  assumes "ha_inv s" and "ha_allocate s = Some (h, s')"
  shows "ha_inv s' \<and> h \<in> ha_free s \<and> ha_free s' = ha_free s - {h}"
proof (cases "mReleasedList s")
  case (Cons x xs)
  with assms show ?thesis
    by (auto simp: ha_allocate_def ha_inv_def ha_free_def)
next
  case Nil
  with assms(2) obtain r rs where u: "mUnallocatedList s = r # rs" and h: "h = hr_begin r"
    and s': "s' = s\<lparr>mUnallocatedList :=
       (if hr_begin r = hr_end r then rs else r\<lparr>hr_begin := hr_begin r + 1\<rparr> # rs)\<rparr>"
    by (auto simp: ha_allocate_def split: list.splits)
  from assms(1) u have ok: "range_ok r" "\<forall>q\<in>set rs. hr_end r < hr_begin q" "ranges_ok rs"
    by (auto simp: ha_inv_def ranges_ok_simps)
  then have fresh: "hr_begin r \<notin> ranges_set rs" "hr_begin r \<in> range_set r"
    by (auto simp: range_ok_def range_set_def dest: ranges_before)
  show ?thesis
  proof (cases "hr_begin r = hr_end r")
    case True
    with ok have "range_set r = {hr_begin r}"
      by (simp add: range_set_def)
    with True Nil u s' h ok fresh show ?thesis
      by (auto simp: ha_inv_def ha_free_def)
  next
    case False
    with Nil u s' h ok fresh show ?thesis
      by (auto simp: ha_inv_def ha_free_def ranges_ok_simps range_advance)
  qed
qed

text \<open>Released names are reused first, the least of them; then the least never-allocated one.\<close>

lemma ha_allocate_least:
  assumes "ha_inv s" and "ha_allocate s = Some (h, s')"
  shows "h = (if mReleasedList s = [] then Min (ha_free s) else Min (set (mReleasedList s)))"
proof (cases "mReleasedList s")
  case (Cons x xs)
  with assms show ?thesis
    by (auto simp: ha_allocate_def ha_inv_def intro!: Min_eqI [symmetric])
next
  case Nil
  with assms obtain r rs where u: "mUnallocatedList s = r # rs" and h: "h = hr_begin r"
    by (auto simp: ha_allocate_def split: list.splits)
  with assms(1) have ok: "range_ok r" "\<forall>q\<in>set rs. hr_end r < hr_begin q"
    by (auto simp: ha_inv_def ranges_ok_simps)
  have "Min (ha_free s) = hr_begin r"
  proof (rule Min_eqI)
    show "finite (ha_free s)" by simp
    show "hr_begin r \<in> ha_free s"
      using u ok by (auto simp: ha_free_def range_set_def range_ok_def)
    fix y assume "y \<in> ha_free s"
    then have "y \<in> range_set r \<or> y \<in> ranges_set rs"
      using u Nil by (simp add: ha_free_def)
    then show "hr_begin r \<le> y"
      using ok ranges_before [of rs "hr_end r" y]
      by (force simp: range_set_def range_ok_def)
  qed
  with Nil h show ?thesis by simp
qed

lemma ha_release_ok:
  assumes "ha_inv s" and "h \<notin> ha_free s" and "h \<noteq> 0"
  shows "ha_inv (ha_release h s) \<and> ha_free (ha_release h s) = insert h (ha_free s)"
  using assms by (auto simp: ha_inv_def ha_free_def ha_release_def set_insort_key distinct_insort
      sorted_insort)

lemma reserve_range_ok:
  assumes "range_ok r" and "h \<in> range_set r"
  shows "ranges_ok (reserve_range h r) \<and> ranges_set (reserve_range h r) = range_set r - {h} \<and>
    (\<forall>q\<in>set (reserve_range h r). hr_begin r \<le> hr_begin q \<and> hr_end q \<le> hr_end r)"
proof -
  consider (one) "hr_begin r = hr_end r" | (first) "h = hr_begin r" "hr_begin r < hr_end r"
    | (last) "h = hr_end r" "hr_begin r < hr_end r" | (mid) "hr_begin r < h" "h < hr_end r"
    using assms by (force simp: range_set_def range_ok_def)
  then show ?thesis
  proof cases
    case one
    with assms show ?thesis
      by (auto simp: reserve_range_def range_set_def ranges_ok_simps)
  next
    case first
    with assms show ?thesis
      by (auto simp: reserve_range_def ranges_ok_simps range_advance)
  next
    case last
    with assms show ?thesis
      by (auto simp: reserve_range_def range_ok_def ranges_ok_simps range_set_def
          word_le_pred [of "hr_begin r"])
         (metis last(2) less_imp_le word_le_pred order_refl)
  next
    case mid
    then have less: "h - 1 < h" "h < h + 1"
      by (metis word_le_pred order_refl, metis word_succ_le order_refl)
    with mid assms show ?thesis
      by (auto simp: reserve_range_def range_ok_def ranges_ok_simps range_set_def
          word_le_pred [of "hr_begin r"] word_succ_le [of _ "hr_end r"])
  qed
qed

lemma ranges_in_split:
  assumes "ranges_ok rs" and "h \<in> ranges_set rs"
  obtains ps r qs where "rs = ps @ r # qs" and "h \<in> range_set r" and "\<forall>p\<in>set ps. hr_end p < h"
    and "takeWhile (\<lambda>r. hr_end r < h) rs = ps" and "dropWhile (\<lambda>r. hr_end r < h) rs = r # qs"
proof -
  from assms(2) obtain r where r: "r \<in> set rs" "h \<in> range_set r"
    by (auto simp: ranges_set_def)
  then obtain ps qs where rs: "rs = ps @ r # qs"
    by (meson split_list)
  from assms(1) rs r have ps: "\<forall>p\<in>set ps. hr_end p < h"
    by (force simp: ranges_ok_simps range_set_def)
  from r have "\<not> hr_end r < h"
    by (simp add: range_set_def not_less)
  with ps rs have "takeWhile (\<lambda>r. hr_end r < h) rs = ps" "dropWhile (\<lambda>r. hr_end r < h) rs = r # qs"
    by (simp_all add: takeWhile_append dropWhile_append)
  with that rs r ps show thesis by blast
qed

lemma ranges_replace:
  assumes "ranges_ok (ps @ r # qs)" and "h \<in> range_set r"
  shows "ranges_ok (ps @ reserve_range h r @ qs) \<and>
    ranges_set (ps @ reserve_range h r @ qs) = ranges_set (ps @ r # qs) - {h}"
proof -
  from assms(1) have ok: "ranges_ok ps" "range_ok r" "ranges_ok qs"
    and before: "\<forall>p\<in>set ps. hr_end p < hr_begin r" and after: "\<forall>q\<in>set qs. hr_end r < hr_begin q"
    and across: "\<forall>p\<in>set ps. \<forall>q\<in>set qs. hr_end p < hr_begin q"
    by (auto simp: ranges_ok_simps)
  from reserve_range_ok [OF ok(2) assms(2)]
  have new: "ranges_ok (reserve_range h r)" "ranges_set (reserve_range h r) = range_set r - {h}"
    and within: "\<forall>q\<in>set (reserve_range h r). hr_begin r \<le> hr_begin q \<and> hr_end q \<le> hr_end r"
    by blast+
  have "ranges_ok (ps @ reserve_range h r @ qs)"
    using ok new(1) within before after across by (fastforce simp: ranges_ok_simps)
  moreover have "h \<notin> ranges_set ps" "h \<notin> ranges_set qs"
    using before after assms(2)
    by (auto simp: range_set_def dest: ranges_after [of ps "hr_begin r" h] ranges_before [of qs "hr_end r" h])
  ultimately show ?thesis
    using new(2) by auto
qed

lemma ha_reserve_ok:
  assumes "ha_inv s" and "h \<in> ha_free s"
  shows "\<exists>s'. ha_reserve h s = Some s' \<and> ha_inv s' \<and> ha_free s' = ha_free s - {h}"
proof (cases "h \<in> set (mReleasedList s)")
  case True
  with assms(1) have "h \<notin> ranges_set (mUnallocatedList s)"
    by (auto simp: ha_inv_def)
  with True assms(1) show ?thesis
    by (auto simp: ha_reserve_def ha_inv_def ha_free_def sorted_remove1 set_remove1_eq
        dest: notin_set_remove1)
next
  case False
  with assms have ok: "ranges_ok (mUnallocatedList s)" and h: "h \<in> ranges_set (mUnallocatedList s)"
    by (auto simp: ha_inv_def ha_free_def)
  from ranges_in_split [OF this] obtain ps r qs
    where u: "mUnallocatedList s = ps @ r # qs" and r: "h \<in> range_set r"
      and split: "takeWhile (\<lambda>r. hr_end r < h) (mUnallocatedList s) = ps"
        "dropWhile (\<lambda>r. hr_end r < h) (mUnallocatedList s) = r # qs"
    by metis
  from ok u r have new: "ranges_ok (ps @ reserve_range h r @ qs)"
    "ranges_set (ps @ reserve_range h r @ qs) = ranges_set (mUnallocatedList s) - {h}"
    using ranges_replace by metis+
  have "ha_reserve h s = Some (s\<lparr>mUnallocatedList := ps @ reserve_range h r @ qs\<rparr>)"
    using False split by (simp add: ha_reserve_def)
  moreover have "ha_inv (s\<lparr>mUnallocatedList := ps @ reserve_range h r @ qs\<rparr>)"
    using assms(1) new by (auto simp: ha_inv_def simp del: ranges_set_simps)
  moreover have "ha_free (s\<lparr>mUnallocatedList := ps @ reserve_range h r @ qs\<rparr>) = ha_free s - {h}"
    using False new(2) by (auto simp: ha_free_def simp del: ranges_set_simps)
  ultimately show ?thesis by blast
qed

section \<open>The allocator keeps the contract\<close>

lemma u32_positive: "{1..u32_max} = - {0}"
proof -
  have "1 \<le> x \<longleftrightarrow> x \<noteq> 0" for x :: u32
    using unat_eq_0 [of x] by (auto simp: word_le_nat_alt)
  moreover have "x \<le> u32_max" for x :: u32
    by (rule word_order.extremum)
  ultimately show ?thesis
    unfolding set_eq_iff atLeastAtMost_iff Compl_iff singleton_iff by blast
qed

interpretation ha: full_name_supply ha_inv ha_free ha_allocate ha_release ha_reserve HandleAllocator
proof unfold_locales
  fix s h s'
  show "ha_inv s \<Longrightarrow> 0 \<notin> ha_free s"
    using ha_free_pos word_gt_0 by blast
  show "ha_inv s \<Longrightarrow> ha_allocate s = None \<longleftrightarrow> ha_free s = {}"
    by (rule ha_allocate_None_free)
  show "\<lbrakk>ha_inv s; ha_allocate s = Some (h, s')\<rbrakk> \<Longrightarrow> ha_inv s' \<and> h \<in> ha_free s \<and> ha_free s' = ha_free s - {h}"
    by (rule ha_allocate_Some)
  show "\<lbrakk>ha_inv s; h \<notin> ha_free s; h \<noteq> 0\<rbrakk> \<Longrightarrow> ha_inv (ha_release h s) \<and> ha_free (ha_release h s) = insert h (ha_free s)"
    by (rule ha_release_ok)
  show "\<lbrakk>ha_inv s; h \<in> ha_free s\<rbrakk> \<Longrightarrow> \<exists>s'. ha_reserve h s = Some s' \<and> ha_inv s' \<and> ha_free s' = ha_free s - {h}"
    by (rule ha_reserve_ok)
  show "ha_inv HandleAllocator" and "ha_free HandleAllocator = - {0}"
    by (simp_all only: HandleAllocator_ok u32_positive)
qed

section \<open>Properties\<close>

text \<open>
  The comment at the constructor in HandleAllocator.h says that the maximum handle is \<open>MAX_UINT-1\<close>. The code manages
  \<open>MAX_UINT\<close> too: it is free in a new allocator, and it can be reserved.
\<close>

lemma last_name_is_max_uint: "u32_max \<in> ha_free HandleAllocator \<and> ha_reserve u32_max HandleAllocator \<noteq> None"
  using ha.start_free ha.reserve_succeeds [OF rtranclp.rtrancl_refl, of u32_max] by simp

text \<open>
  C1. Whatever a client does - allocate, release what it holds, reserve names it does not hold, in any
  order - the names it holds and the free names partition the nonzero names, \<open>MAX_UINT\<close> included: no name is ever handed
  out twice, 0 is never handed out, allocation fails only when every name is held, and reserving a
  name that is not held succeeds.
\<close>

theorem handle_allocator_fresh:
  assumes "(name_use ha_allocate ha_release ha_reserve)\<^sup>*\<^sup>* (HandleAllocator, {}) (s, L)"
  shows "L \<inter> ha_free s = {} \<and> L \<union> ha_free s = - {0}
    \<and> (\<forall>h s'. ha_allocate s = Some (h, s') \<longrightarrow> h \<notin> L \<and> h \<noteq> 0)
    \<and> (ha_allocate s = None \<longleftrightarrow> L = - {0})
    \<and> (\<forall>h. h \<notin> L \<longrightarrow> h \<noteq> 0 \<longrightarrow> ha_reserve h s \<noteq> None)"
  using ha.held_or_free(1,2) [OF assms] ha.alloc_is_fresh [OF assms]
    ha.alloc_fails_only_when_full [OF assms] ha.reserve_succeeds [OF assms] by blast

lemma handle_allocator_sample_run:
  "(name_use ha_allocate ha_release ha_reserve)\<^sup>*\<^sup>* (HandleAllocator, {})
     (\<lparr>mBaseValue = 1, mNextValue = 1, mUnallocatedList = [HandleRange 2 6, HandleRange 8 u32_max],
       mReleasedList = [1], mLoggingEnabled = False\<rparr>, {7})" (is "?R\<^sup>*\<^sup>* ?c0 ?c3")
proof -
  let ?s1 = "HandleAllocator\<lparr>mUnallocatedList := [HandleRange 2 u32_max]\<rparr>"
  let ?s2 = "HandleAllocator\<lparr>mUnallocatedList := [HandleRange 2 6, HandleRange 8 u32_max]\<rparr>"
  have "ha_allocate HandleAllocator = Some (1, ?s1)"
    by (simp add: ha_allocate_def HandleAllocator_def HandleRange_def)
  then have "?R ?c0 (?s1, {1})"
    by (rule use_alloc)
  moreover have "ha_reserve 7 ?s1 = Some ?s2"
    by (simp add: ha_reserve_def reserve_range_def HandleAllocator_def HandleRange_def)
  then have "?R (?s1, {1}) (?s2, {7, 1})"
    by (intro use_reserve) simp_all
  moreover have "?R (?s2, {7, 1}) (ha_release 1 ?s2, {7, 1} - {1})"
    by (rule use_release) simp
  moreover have "(ha_release 1 ?s2, {7, 1} - {1}) = ?c3"
    by (auto simp: ha_release_def HandleAllocator_def)
  ultimately show ?thesis by (metis (no_types, lifting) converse_rtranclp_into_rtranclp rtranclp.rtrancl_refl)
qed

theorem handle_allocator_fresh_witness:
  "{7} \<inter> ha_free \<lparr>mBaseValue = 1, mNextValue = 1,
       mUnallocatedList = [HandleRange 2 6, HandleRange 8 u32_max],
       mReleasedList = [1], mLoggingEnabled = False\<rparr> = {}"
  by (rule handle_allocator_fresh [OF handle_allocator_sample_run, THEN conjunct1])

text \<open>
  C2. \<open>allocate\<close> is deterministic: the least released name when there is one, else the least name
  never allocated.
\<close>

theorem handle_allocator_order:
  assumes "ha_inv s" and "ha_allocate s = Some (h, s')"
  shows "h = (if mReleasedList s = [] then Min (ha_free s) else Min (set (mReleasedList s)))
    \<and> ha_inv s' \<and> ha_free s' = ha_free s - {h}"
  using ha_allocate_least [OF assms] ha_allocate_Some [OF assms] by blast

theorem handle_allocator_order_witness:
  "ha_inv (ha_release 9 (ha_release 4 (HandleAllocator_max 0xFF\<lparr>mUnallocatedList := []\<rparr>))) \<and>
   (4::u32) = Min (set (mReleasedList (ha_release 9 (ha_release 4 (HandleAllocator_max 0xFF\<lparr>mUnallocatedList := []\<rparr>)))))"
proof -
  let ?s = "ha_release 9 (ha_release 4 (HandleAllocator_max 0xFF\<lparr>mUnallocatedList := []\<rparr>))"
  have inv: "ha_inv ?s"
    by (simp add: ha_inv_def ha_release_def HandleAllocator_max_def ranges_ok_simps)
  have "ha_allocate ?s = Some (4, ?s\<lparr>mReleasedList := [9]\<rparr>)" "mReleasedList ?s \<noteq> []"
    by (simp_all add: ha_allocate_def ha_release_def HandleAllocator_max_def)
  with handle_allocator_order [OF inv] inv show ?thesis by presburger
qed

end
