(* ===== verification/Handle_Range_Allocator.thy ===== *)
theory Handle_Range_Allocator
  imports Name_Supply
begin

text \<open>
  \<open>gl::HandleRangeAllocator\<close> (src/src/libANGLE/HandleRangeAllocator.{h,cpp}): the allocator behind path
  names, which must hand out contiguous blocks. Its state is a \<open>std::map\<close> from the first to the last
  name of each used range; the model keeps the map's entries in key order, and an iterator into it is
  a split of the list into the entries before, the entry, and the entries after. The entry \<open>0 \<mapsto> 0\<close>
  the constructor inserts keeps every iterator the code decrements away from \<open>begin()\<close>;
  decrementing \<open>begin()\<close> is the value \<^term>\<open>None\<close> of \<open>seek\<close>.

  The abstract view is the set of used names, \<open>hr_used\<close>. All arithmetic is on 32-bit words, with the
  code's wrap-around checks.
\<close>

section \<open>State\<close>

type_synonym entry = "u32 \<times> u32"

record handle_range_allocator =
  mUsed :: "entry list"

definition HandleRangeAllocator :: handle_range_allocator where
  "HandleRangeAllocator = \<lparr>mUsed = [(0, 0)]\<rparr>"

definition kInvalidHandle :: u32 where
  "kInvalidHandle = 0"

section \<open>Operations\<close>

text \<open>
  \<open>mUsed.lower_bound(h)\<close>, stepped back by one when it is the end or a larger key: the entry with the
  greatest key that is at most \<open>h\<close>.
\<close>

definition seek :: "u32 \<Rightarrow> entry list \<Rightarrow> (entry list \<times> entry \<times> entry list) option" where
  "seek h m =
     (let before = takeWhile (\<lambda>e. fst e < h) m; after = dropWhile (\<lambda>e. fst e < h) m
      in case after of
           e # es \<Rightarrow>
             if fst e = h then Some (before, e, es)
             else if before = [] then None else Some (butlast before, last before, after)
         | [] \<Rightarrow> if before = [] then None else Some (butlast before, last before, []))"

text \<open>
  Ending the current entry at \<open>lastId\<close> and merging it with the next one when they have become
  adjacent, the common tail of the allocating operations.
\<close>

definition extend :: "entry \<Rightarrow> u32 \<Rightarrow> entry list \<Rightarrow> entry list" where
  "extend current lastId after =
     (case after of
        [] \<Rightarrow> [(fst current, lastId)]
      | (nextFirst, nextLast) # rest \<Rightarrow>
          if nextFirst - 1 = lastId then (fst current, nextLast) # rest
          else (fst current, lastId) # after)"

text \<open>
  A handle that does not touch the current entry: put before the next entry, in it when the two are
  adjacent and as an entry of its own when not.
\<close>

definition place :: "u32 \<Rightarrow> entry list \<Rightarrow> entry list" where
  "place handle after =
     (case after of
        [] \<Rightarrow> [(handle, handle)]
      | (nextFirst, nextLast) # rest \<Rightarrow>
          if nextFirst - 1 = handle then (handle, nextLast) # rest else (handle, handle) # after)"

text \<open>The loop of \<open>allocateRange\<close>: the first entry followed by a gap of \<open>range\<close> names, or the last one.\<close>

fun findGap :: "u32 \<Rightarrow> entry list \<Rightarrow> entry \<Rightarrow> entry list \<Rightarrow> entry list \<times> entry \<times> entry list" where
  "findGap rng before current [] = (before, current, [])"
| "findGap rng before current (nxt # rest) =
     (if fst nxt - snd current > rng then (before, current, nxt # rest)
      else findGap rng (before @ [current]) nxt rest)"

definition allocateRange :: "u32 \<Rightarrow> handle_range_allocator \<Rightarrow> (u32 \<times> handle_range_allocator) option" where
  "allocateRange rng s =
     (case mUsed s of
        [] \<Rightarrow> None
      | e # es \<Rightarrow>
          (case findGap rng [] e es of
             (before, current, after) \<Rightarrow>
               let firstId = snd current + 1; lastId = firstId + rng - 1
               in if firstId = 0 \<or> lastId < firstId then Some (kInvalidHandle, s)
                  else Some (firstId, s\<lparr>mUsed := before @ extend current lastId after\<rparr>)))"

definition hr_allocate :: "handle_range_allocator \<Rightarrow> (u32 \<times> handle_range_allocator) option" where
  "hr_allocate s = allocateRange 1 s"

definition allocateAtOrAbove ::
  "u32 \<Rightarrow> handle_range_allocator \<Rightarrow> (u32 \<times> handle_range_allocator) option" where
  "allocateAtOrAbove wanted s =
     (if wanted = 0 \<or> wanted = 1 then allocateRange 1 s
      else
        (case seek wanted (mUsed s) of
           None \<Rightarrow> None
         | Some (before, current, after) \<Rightarrow>
             if wanted - 1 \<le> snd current
             then
               (let lastId = snd current + 1
                in if lastId = 0 then allocateRange 1 s
                   else Some (lastId, s\<lparr>mUsed := before @ extend current lastId after\<rparr>))
             else Some (wanted, s\<lparr>mUsed := before @ current # place wanted after\<rparr>)))"

definition markAsUsed :: "u32 \<Rightarrow> handle_range_allocator \<Rightarrow> (bool \<times> handle_range_allocator) option" where
  "markAsUsed handle s =
     (case seek handle (mUsed s) of
        None \<Rightarrow> None
      | Some (before, current, after) \<Rightarrow>
          if fst current = handle then Some (False, s)
          else if handle \<le> snd current then Some (False, s)
          else if snd current + 1 = handle
          then Some (True, s\<lparr>mUsed := before @ extend current handle after\<rparr>)
          else Some (True, s\<lparr>mUsed := before @ current # place handle after\<rparr>))"

text \<open>
  The loop of \<open>releaseRange\<close>. Each turn looks at the entry with the greatest key that is at most
  \<open>lst\<close> and cuts \<open>[frst, lst]\<close> out of it; the number of entries that meet the interval falls.
\<close>

lemma seek_parts:
  obtains ps qs where "m = ps @ qs" and "\<forall>e\<in>set ps. fst e < h" and "\<forall>e es. qs = e # es \<longrightarrow> h \<le> fst e"
    and "seek h m =
      (case qs of
         e # es \<Rightarrow>
           if fst e = h then Some (ps, e, es)
           else if ps = [] then None else Some (butlast ps, last ps, qs)
       | [] \<Rightarrow> if ps = [] then None else Some (butlast ps, last ps, []))"
proof -
  let ?ps = "takeWhile (\<lambda>e. fst e < h) m" and ?qs = "dropWhile (\<lambda>e. fst e < h) m"
  have "h \<le> fst e" if "?qs = e # es" for e es
    using that by (metis hd_dropWhile list.distinct(1) list.sel(1) not_less)
  then show thesis
    by (intro that [of ?ps ?qs]) (auto simp only: seek_def Let_def takeWhile_dropWhile_id dest: set_takeWhileD)
qed

lemma seek_split:
  assumes "seek h m = Some (before, current, after)"
  shows "m = before @ current # after \<and> fst current \<le> h"
proof -
  obtain ps qs where m: "m = ps @ qs" and low: "\<forall>e\<in>set ps. fst e < h"
    and sk: "seek h m =
      (case qs of
         e # es \<Rightarrow>
           if fst e = h then Some (ps, e, es)
           else if ps = [] then None else Some (butlast ps, last ps, qs)
       | [] \<Rightarrow> if ps = [] then None else Some (butlast ps, last ps, []))"
    by (rule seek_parts [of m h]) blast
  have "butlast ps @ last ps # qs = m \<and> fst (last ps) < h" if "ps \<noteq> []"
    using that m low by (metis append_butlast_last_id append.assoc append_Cons append_Nil last_in_set)
  with assms sk m show ?thesis
    by (force split: list.splits if_splits)
qed

function releaseLoop :: "u32 \<Rightarrow> u32 \<Rightarrow> entry list \<Rightarrow> entry list option" where
  "releaseLoop frst lst m =
     (case seek lst m of
        None \<Rightarrow> None
      | Some (before, current, after) \<Rightarrow>
          if snd current < frst then Some m
          else if frst \<le> fst current
          then releaseLoop frst lst
                 (before @ (if lst < snd current then [(lst + 1, snd current)] else []) @ after)
          else if snd current \<le> lst
          then releaseLoop frst lst (before @ (fst current, frst - 1) # after)
          else releaseLoop frst lst
                 (before @ (fst current, frst - 1) # (lst + 1, snd current) # after))"
  by pat_completeness auto
termination
proof (relation "measure (\<lambda>(f, l, m). length (filter (\<lambda>e. fst e \<le> l \<and> f \<le> snd e) m))", goal_cases)
  case 1
  show ?case by simp
next
  case (2 f l m x before y current after)
  then have "m = before @ current # after" "fst current \<le> l" "f \<le> snd current"
    using seek_split [of l m before current after] by auto
  moreover have "l < snd current \<Longrightarrow> \<not> l + 1 \<le> l"
    using word_less_succ [of l "snd current"] by (simp add: not_le)
  ultimately show ?case by auto
next
  case (3 f l m x before y current after)
  then have "m = before @ current # after" "fst current \<le> l" "f \<le> snd current" "fst current < f"
    using seek_split [of l m before current after] by auto
  moreover from this(4) have "\<not> f \<le> f - 1"
    using word_pred_less [of "fst current" f] by (simp add: not_le)
  ultimately show ?case by auto
next
  case (4 f l m x before y current after)
  then have m: "m = before @ current # after" "fst current \<le> l" "f \<le> snd current" "fst current < f"
      "l < snd current"
    using seek_split [of l m before current after] by auto
  moreover from m(4) have "\<not> f \<le> f - 1"
    using word_pred_less [of "fst current" f] by (simp add: not_le)
  moreover from m(5) have "\<not> l + 1 \<le> l"
    using word_less_succ [of l "snd current"] by (simp add: not_le)
  ultimately show ?case by auto
qed

declare releaseLoop.simps [simp del]

definition releaseRange :: "u32 \<Rightarrow> u32 \<Rightarrow> handle_range_allocator \<Rightarrow> handle_range_allocator option" where
  "releaseRange frst rng s =
     (if rng = 0 \<or> (frst = 0 \<and> rng = 1) then Some s
      else
        let f = (if frst = 0 then 1 else frst);
            r = (if frst = 0 then rng - 1 else rng);
            l = f + r - 1;
            l' = (if l < f then u32_max else l)
        in map_option (\<lambda>m. s\<lparr>mUsed := m\<rparr>) (releaseLoop f l' (mUsed s)))"

definition hr_release :: "u32 \<Rightarrow> handle_range_allocator \<Rightarrow> handle_range_allocator option" where
  "hr_release handle s = releaseRange handle 1 s"

definition isUsed :: "u32 \<Rightarrow> handle_range_allocator \<Rightarrow> bool option" where
  "isUsed handle s =
     (if handle = kInvalidHandle then Some False
      else
        (case seek handle (mUsed s) of
           None \<Rightarrow> None
         | Some (before, current, after) \<Rightarrow> Some (fst current = handle \<or> handle \<le> snd current)))"

section \<open>Abstract view and invariant\<close>

definition entry_set :: "entry \<Rightarrow> u32 set" where
  "entry_set e = {fst e .. snd e}"

definition hr_used :: "entry list \<Rightarrow> u32 set" where
  "hr_used m = (\<Union>e\<in>set m. entry_set e)"

definition gap :: "entry \<Rightarrow> entry \<Rightarrow> bool" where
  "gap a b \<longleftrightarrow> uint (snd a) + 1 < uint (fst b)"

definition map_ok :: "entry list \<Rightarrow> bool" where
  "map_ok m \<longleftrightarrow> (\<forall>e\<in>set m. fst e \<le> snd e) \<and> sorted_wrt gap m"

definition map_inv :: "entry list \<Rightarrow> bool" where
  "map_inv m \<longleftrightarrow> map_ok m \<and> m \<noteq> [] \<and> fst (hd m) = 0"

definition hr_inv :: "handle_range_allocator \<Rightarrow> bool" where
  "hr_inv s \<longleftrightarrow> map_inv (mUsed s)"

lemma hr_used_simps [simp]:
  "hr_used [] = {}"
  "hr_used (e # es) = entry_set e \<union> hr_used es"
  "hr_used (es @ fs) = hr_used es \<union> hr_used fs"
  by (auto simp: hr_used_def)

lemma map_ok_simps:
  "map_ok []"
  "map_ok (e # es) \<longleftrightarrow> fst e \<le> snd e \<and> (\<forall>f\<in>set es. gap e f) \<and> map_ok es"
  "map_ok (es @ fs) \<longleftrightarrow> map_ok es \<and> map_ok fs \<and> (\<forall>e\<in>set es. \<forall>f\<in>set fs. gap e f)"
  by (auto simp: map_ok_def sorted_wrt_append)

lemma gap_less: "gap a b \<Longrightarrow> snd a < fst b"
  by (simp add: gap_def word_less_def)

lemma gap_iff: "gap a b \<longleftrightarrow> snd a < fst b \<and> snd a + 1 \<noteq> fst b"
proof (cases "snd a < fst b")
  case True
  then have "uint (snd a + 1) = uint (snd a) + 1"
    by (rule uint_succ)
  with True show ?thesis
    by (auto simp: gap_def word_less_def word_uint_eq_iff)
next
  case False
  then show ?thesis
    by (auto simp: gap_def word_less_def)
qed

lemma gap_extend_left: "\<lbrakk>gap n f; fst n \<le> snd n; l < fst n\<rbrakk> \<Longrightarrow> gap (c, l) f"
  by (simp add: gap_def word_less_def word_le_def)

lemma gap_extend_right: "\<lbrakk>gap e c; fst c \<le> h\<rbrakk> \<Longrightarrow> gap e (h, y)"
  by (simp add: gap_def word_less_def word_le_def)

lemma entries_above: "\<lbrakk>map_ok m; \<forall>e\<in>set m. h < fst e; x \<le> h\<rbrakk> \<Longrightarrow> x \<notin> hr_used m"
  by (force simp: hr_used_def entry_set_def)

lemma entries_below: "\<lbrakk>\<forall>e\<in>set m. snd e < h; h \<le> x\<rbrakk> \<Longrightarrow> x \<notin> hr_used m"
  by (force simp: hr_used_def entry_set_def)

lemma map_keys_after:
  assumes "map_ok m" and "m = before @ e # es" and "f \<in> set es"
  shows "fst e < fst f"
proof -
  from assms have "fst e \<le> snd e" "gap e f"
    by (auto simp: map_ok_simps)
  then show ?thesis
    using gap_less by (blast intro: le_less_trans)
qed

lemma seek_ok:
  assumes "map_inv m"
  obtains before current after where "seek h m = Some (before, current, after)"
    and "m = before @ current # after" and "fst current \<le> h" and "\<forall>e\<in>set after. h < fst e"
proof -
  have ok: "map_ok m"
    using assms by (simp add: map_inv_def)
  obtain ps qs where m: "m = ps @ qs" and low: "\<forall>e\<in>set ps. fst e < h"
    and high: "\<forall>e es. qs = e # es \<longrightarrow> h \<le> fst e"
    and sk: "seek h m =
      (case qs of
         e # es \<Rightarrow>
           if fst e = h then Some (ps, e, es)
           else if ps = [] then None else Some (butlast ps, last ps, qs)
       | [] \<Rightarrow> if ps = [] then None else Some (butlast ps, last ps, []))"
    by (rule seek_parts [of m h]) blast
  have ne: "\<exists>e es. qs = e # es \<and> fst e = h" if "ps = []"
    using that assms m high by (cases qs) (auto simp: map_inv_def)
  have above: "h < fst f" if "qs = e # es" "f \<in> set es" for e es f
  proof -
    have "fst e < fst f"
      using map_keys_after [OF ok, of ps e es f] m that by blast
    moreover have "h \<le> fst e"
      using high that by blast
    ultimately show ?thesis by simp
  qed
  obtain b c a where bca: "seek h m = Some (b, c, a)" and "\<forall>e\<in>set a. h < fst e"
  proof (cases qs)
    case Nil
    with ne sk have "seek h m = Some (butlast ps, last ps, [])" by auto
    then show thesis by (rule that) simp
  next
    case (Cons e es)
    show thesis
    proof (cases "fst e = h")
      case True
      with Cons sk above that show thesis by auto
    next
      case False
      then have "h < fst e"
        using high Cons by (simp add: order.strict_iff_order)
      moreover from False Cons sk ne have "seek h m = Some (butlast ps, last ps, e # es)"
        by auto
      moreover from above [OF Cons] \<open>h < fst e\<close> have "\<forall>f\<in>set (e # es). h < fst f"
        by simp
      ultimately show thesis
        by (intro that)
    qed
  qed
  with seek_split [OF bca] that show thesis by blast
qed

lemma used_seek:
  assumes "map_ok (before @ current # after)" and "fst current \<le> h" and "\<forall>e\<in>set after. h < fst e"
  shows "h \<in> hr_used (before @ current # after) \<longleftrightarrow> h \<le> snd current"
proof -
  have "h \<notin> hr_used after"
    using assms by (intro entries_above [of after h]) (auto simp: map_ok_simps)
  moreover have "h \<notin> hr_used before"
    using assms by (intro entries_below [of before "fst current"]) (auto simp: map_ok_simps dest: gap_less)
  ultimately show ?thesis
    using assms(2) by (auto simp: entry_set_def)
qed

section \<open>Adding names\<close>

lemma interval_join: "\<lbrakk>a \<le> b; b < c\<rbrakk> \<Longrightarrow> {a..b} \<union> {b + 1..c} = {a..c}" for a b c :: u32
  by (auto simp: word_succ_le [of b c])

lemma pred_eq_iff: "n - 1 = l \<longleftrightarrow> n = l + 1" for n l :: u32
  by auto

lemma extend_ok:
  assumes "map_ok (before @ current # after)" and "snd current < lastId"
    and "\<forall>e\<in>set after. lastId < fst e"
  shows "map_ok (before @ extend current lastId after) \<and>
    hr_used (before @ extend current lastId after)
      = hr_used (before @ current # after) \<union> {snd current + 1..lastId}"
proof -
  obtain cf cl where cur: "current = (cf, cl)"
    by (cases current)
  have ok: "map_ok before" "map_ok after" "cf \<le> cl" "\<forall>e\<in>set before. gap e (cf, cl)"
    "\<forall>e\<in>set before. \<forall>f\<in>set after. gap e f"
    using assms(1) cur by (auto simp: map_ok_simps)
  then have left: "\<forall>e\<in>set before. gap e (cf, y)" for y
    by (auto intro: gap_extend_right)
  have join: "{cf..cl} \<union> {cl + 1..lastId} = {cf..lastId}" and le: "cf \<le> lastId"
    using ok(3) assms(2) cur by (auto intro!: interval_join)
  show ?thesis
  proof (cases after)
    case Nil
    with ok left le cur join show ?thesis
      by (auto simp: extend_def map_ok_simps entry_set_def)
  next
    case (Cons n rest)
    obtain nf nl where n: "n = (nf, nl)"
      by (cases n)
    from Cons n ok(2) assms(3) have nxt: "nf \<le> nl" "lastId < nf" "\<forall>f\<in>set rest. gap (nf, nl) f"
      by (auto simp: map_ok_simps)
    show ?thesis
    proof (cases "nf = lastId + 1")
      case True
      then have "{cf..lastId} \<union> {nf..nl} = {cf..nl}"
        using le nxt by (metis interval_join less_le_trans)
      moreover have "\<forall>f\<in>set rest. gap (cf, nl) f"
        using nxt by (simp add: gap_def)
      ultimately show ?thesis
        using True Cons n ok left le cur join nxt
        by (simp add: extend_def map_ok_simps entry_set_def pred_eq_iff Un_assoc)
           (auto intro: order.trans less_imp_le)
    next
      case False
      then have "gap (cf, lastId) n"
        using nxt n by (simp add: gap_iff)
      moreover have "\<forall>f\<in>set rest. gap (cf, lastId) f"
        using nxt n gap_extend_left [of n _ lastId cf] by simp
      ultimately show ?thesis
        using False Cons n ok left le cur join nxt
        by (simp add: extend_def map_ok_simps entry_set_def pred_eq_iff) auto
    qed
  qed
qed

lemma place_ok:
  assumes "map_ok (before @ current # after)" and "snd current < h" and "snd current + 1 \<noteq> h"
    and "\<forall>e\<in>set after. h < fst e"
  shows "map_ok (before @ current # place h after) \<and>
    hr_used (before @ current # place h after) = insert h (hr_used (before @ current # after))"
proof -
  have ok: "map_ok before" "map_ok after" "fst current \<le> snd current" "\<forall>e\<in>set before. gap e current"
    "\<forall>e\<in>set before. \<forall>f\<in>set after. gap e f" "\<forall>f\<in>set after. gap current f"
    using assms(1) by (auto simp: map_ok_simps)
  have "fst current \<le> h"
    using ok(3) assms(2) by simp
  then have gh: "gap current (h, y)" "\<forall>e\<in>set before. gap e (h, y)" for y
    using ok(4) assms(2,3) by (auto simp: gap_iff [of current] intro: gap_extend_right)
  show ?thesis
  proof (cases after)
    case Nil
    with ok gh show ?thesis
      by (auto simp: place_def map_ok_simps entry_set_def)
  next
    case (Cons n rest)
    obtain nf nl where n: "n = (nf, nl)"
      by (cases n)
    from Cons n ok(2) assms(4) have nxt: "nf \<le> nl" "h < nf" "\<forall>f\<in>set rest. gap (nf, nl) f"
      by (auto simp: map_ok_simps)
    show ?thesis
    proof (cases "nf = h + 1")
      case True
      then have "{h..nl} = insert h {nf..nl}"
        using interval_join [of h h nl] nxt by (metis atLeastAtMost_singleton insert_is_Un less_le_trans order_refl)
      moreover have "\<forall>f\<in>set rest. gap (h, nl) f"
        using nxt by (simp add: gap_def)
      ultimately show ?thesis
        using True Cons n ok gh nxt
        by (auto simp: place_def map_ok_simps entry_set_def pred_eq_iff)
    next
      case False
      then have "gap (h, h) n"
        using nxt n by (simp add: gap_iff)
      moreover have "\<forall>f\<in>set rest. gap (h, h) f"
        using nxt n gap_extend_left [of n _ h h] by simp
      ultimately show ?thesis
        using False Cons n ok gh nxt
        by (auto simp: place_def map_ok_simps entry_set_def pred_eq_iff)
    qed
  qed
qed

section \<open>Blocks\<close>

text \<open>A block of \<open>n\<close> names from \<open>f\<close>, not wrapping around.\<close>

definition block :: "u32 \<Rightarrow> u32 \<Rightarrow> u32 set" where
  "block f n = {f..f + (n - 1)}"

definition is_block :: "u32 \<Rightarrow> u32 \<Rightarrow> bool" where
  "is_block f n \<longleftrightarrow> f \<noteq> 0 \<and> n \<noteq> 0 \<and> f \<le> f + (n - 1)"

lemma is_block_uint:
  "is_block f n \<Longrightarrow> uint (f + (n - 1)) = uint f + uint n - 1"
proof -
  assume b: "is_block f n"
  then have "uint (n - 1) = uint n - 1"
    by (intro uint_pred [of 0]) (simp add: is_block_def word_gt_0)
  moreover have "uint (f + (n - 1)) = uint f + uint (n - 1)"
    using b uint_plus_simple_iff [of f "n - 1"] by (simp add: is_block_def)
  ultimately show ?thesis by simp
qed

lemma findGap_split:
  "findGap n before current after = (b, c, a) \<Longrightarrow>
     b @ c # a = before @ current # after \<and> (\<forall>x xs. a = x # xs \<longrightarrow> n < fst x - snd c)"
  by (induction n before current after rule: findGap.induct) (auto split: if_splits)

lemma uint_diff: "y \<le> x \<Longrightarrow> uint (x - y) = uint x - uint y" for x y :: u32
  using uint_minus_simple_alt by blast

lemma findGap_first:
  assumes "findGap n before current after = (b, c, a)" and "map_ok (before @ current # after)"
    and "is_block g n" and "block g n \<inter> hr_used after = {}" and "snd current < g"
  shows "snd c < g"
  using assms
proof (induction n before current after rule: findGap.induct)
  case (1 n before current)
  then show ?case by simp
next
  case (2 n before current nxt rest)
  show ?case
  proof (cases "n < fst nxt - snd current")
    case True
    with 2 show ?thesis by simp
  next
    case False
    have entry: "fst nxt \<le> snd nxt" "snd current < fst nxt"
      using 2 by (auto simp: map_ok_simps dest: gap_less)
    have "snd nxt < g"
    proof (rule ccontr)
      assume "\<not> snd nxt < g"
      moreover have "g \<in> block g n" and "g \<notin> entry_set nxt"
        using 2 by (auto simp: block_def is_block_def)
      ultimately have "g < fst nxt"
        by (auto simp: entry_set_def)
      moreover have "uint (fst nxt) \<le> uint (snd current) + uint n"
        using False uint_diff [of "snd current" "fst nxt"] entry(2)
        by (simp add: word_less_def not_less word_le_def)
      ultimately have "fst nxt \<in> block g n"
        using is_block_uint [of g n] 2 by (simp add: block_def word_le_def word_less_def)
      moreover have "fst nxt \<in> entry_set nxt"
        using entry by (simp add: entry_set_def)
      ultimately show False
        using 2 by auto
    qed
    with False 2 show ?thesis by auto
  qed
qed

lemma allocateRange_ok:
  assumes "hr_inv s" and "n \<noteq> 0"
  obtains f s' where "allocateRange n s = Some (f, s')" and "hr_inv s'"
    and "f = 0 \<Longrightarrow> s' = s"
    and "f \<noteq> 0 \<Longrightarrow> is_block f n \<and> block f n \<inter> hr_used (mUsed s) = {} \<and>
       hr_used (mUsed s') = hr_used (mUsed s) \<union> block f n"
    and "\<And>g. is_block g n \<Longrightarrow> block g n \<inter> hr_used (mUsed s) = {} \<Longrightarrow> f \<noteq> 0 \<and> f \<le> g"
proof -
  obtain e es where m: "mUsed s = e # es" and e0: "fst e = 0" and ok: "map_ok (e # es)"
    using assms(1) by (cases "mUsed s") (auto simp: hr_inv_def map_inv_def)
  obtain b c a where fg: "findGap n [] e es = (b, c, a)"
    by (metis prod_cases3)
  from findGap_split [OF fg] have split: "b @ c # a = e # es"
    and room: "a = x # xs \<Longrightarrow> n < fst x - snd c" for x xs
    by auto
  then have okc: "map_ok (b @ c # a)"
    using ok by simp
  define lst where "lst = snd c + 1 + (n - 1)"
  have first: "snd c < g" if "is_block g n" "block g n \<inter> hr_used (mUsed s) = {}" for g
  proof (rule findGap_first [OF fg _ that(1)])
    show "map_ok ([] @ e # es)" "block g n \<inter> hr_used es = {}"
      using ok that m by auto
    have "g \<notin> entry_set e"
      using that m by (auto simp: block_def is_block_def)
    with e0 show "snd e < g"
      by (simp add: entry_set_def)
  qed
  show thesis
  proof (cases "snd c + 1 = 0 \<or> lst < snd c + 1")
    case True
    have "False" if "is_block g n" "block g n \<inter> hr_used (mUsed s) = {}" for g
    proof -
      have g: "snd c < g"
        using first that by blast
      then have "uint (snd c + 1) = uint (snd c) + 1"
        by (rule uint_succ)
      moreover have "uint g + uint n - 1 < 2 ^ 32"
        using is_block_uint [OF that(1)] uint_lt2p [of "g + (n - 1)"] by simp
      moreover have "uint (n - 1) = uint n - 1"
        using assms(2) by (intro uint_pred [of 0]) (simp add: word_gt_0)
      ultimately have "uint (snd c + 1) + uint (n - 1) < 2 ^ LENGTH(32)"
        using g by (simp add: word_less_def)
      then have "uint lst = uint (snd c + 1) + uint (n - 1)"
        unfolding lst_def by (rule uint_add_lem [THEN iffD1])
      then have "\<not> lst < snd c + 1"
        using uint_ge_0 [of "n - 1"] unfolding word_less_def by linarith
      moreover have "snd c + 1 \<noteq> 0"
        using word_succ_pos [OF g] by auto
      ultimately show False
        using True by blast
    qed
    moreover have "allocateRange n s = Some (0, s)"
      using True m fg by (simp add: allocateRange_def lst_def kInvalidHandle_def algebra_simps)
    ultimately show thesis
      using that [of 0 s] assms(1) by blast
  next
    case False
    then have blk: "is_block (snd c + 1) n" and bset: "block (snd c + 1) n = {snd c + 1..lst}"
      using assms(2) by (auto simp: is_block_def block_def lst_def)
    have c1: "uint (snd c + 1) = uint (snd c) + 1"
      using False by (metis linorder_not_le uint_succ word_order.extremum_strict
          word_order.extremum_uniqueI add.left_inverse add_diff_cancel_left' max_word_wrap)
    have lst: "uint lst = uint (snd c) + uint n"
      using is_block_uint [OF blk] c1 by (simp add: lst_def)
    have above: "\<forall>x\<in>set a. lst < fst x"
    proof (cases a)
      case (Cons x xs)
      have "snd c < fst x"
        using okc Cons by (auto simp: map_ok_simps dest: gap_less)
      then have "lst < fst x"
        using room [OF Cons] uint_diff [of "snd c" "fst x"] lst by (simp add: word_less_def word_le_def)
      moreover have "fst x < fst f" if "f \<in> set xs" for f
        using map_keys_after [OF okc, of "b @ [c]" x xs f] Cons that by simp
      ultimately show ?thesis
        using Cons by (auto intro: less_trans)
    qed simp
    have "snd c < lst"
      using lst assms(2) uint_0_iff [of n] uint_ge_0 [of n] unfolding word_less_def by linarith
    from extend_ok [OF okc this above] bset
    have new: "map_ok (b @ extend c lst a)"
      "hr_used (b @ extend c lst a) = hr_used (mUsed s) \<union> block (snd c + 1) n"
      using split m by simp_all
    have "b @ extend c lst a \<noteq> [] \<and> fst (hd (b @ extend c lst a)) = 0"
      using split e0 by (cases b) (auto simp: extend_def split: list.splits prod.splits)
    moreover have "block (snd c + 1) n \<inter> hr_used (mUsed s) = {}"
    proof -
      have "x \<notin> hr_used (b @ c # a)" if x: "snd c < x" "x \<le> lst" for x
      proof -
        have ok': "map_ok a" "fst c \<le> snd c" "\<forall>e\<in>set b. snd e < fst c"
          using okc by (auto simp: map_ok_simps dest: gap_less)
        have "x \<notin> hr_used a"
          using ok'(1) above x(2) by (rule entries_above)
        moreover have "x \<notin> hr_used b"
          using ok' x(1) by (intro entries_below [of b "fst c"]) auto
        ultimately show ?thesis
          using x by (auto simp: entry_set_def)
      qed
      then show ?thesis
        using split m False by (auto simp: bset word_le_def word_less_def c1)
    qed
    ultimately have inv: "map_inv (b @ extend c lst a)"
      and disj: "block (snd c + 1) n \<inter> hr_used (mUsed s) = {}"
      using new by (simp_all add: map_inv_def)
    show thesis
    proof (rule that)
      have "snd c + 1 + n - 1 = lst"
        by (simp add: lst_def)
      then show "allocateRange n s = Some (snd c + 1, s\<lparr>mUsed := b @ extend c lst a\<rparr>)"
        using False m fg by (simp add: allocateRange_def Let_def)
      show "hr_inv (s\<lparr>mUsed := b @ extend c lst a\<rparr>)"
        using inv by (simp add: hr_inv_def)
      show "snd c + 1 \<noteq> 0 \<and> snd c + 1 \<le> g"
        if "is_block g n" "block g n \<inter> hr_used (mUsed s) = {}" for g
        using first [OF that] False word_succ_le by blast
    qed (use False blk disj new(2) in auto)
  qed
qed

section \<open>Removing names\<close>

lemma map_ok_replace:
  assumes "map_ok (b @ c # a)" and "map_ok cs" and "\<forall>x\<in>set cs. fst c \<le> fst x \<and> snd x \<le> snd c"
  shows "map_ok (b @ cs @ a)"
proof -
  have ok: "map_ok b" "map_ok a" "\<forall>e\<in>set b. gap e c" "\<forall>f\<in>set a. gap c f"
    "\<forall>e\<in>set b. \<forall>f\<in>set a. gap e f"
    using assms(1) by (simp_all add: map_ok_simps)
  have "gap e x" if "e \<in> set b" "x \<in> set cs" for e x
  proof -
    have "gap e c" "fst c \<le> fst x"
      using ok(3) assms(3) that by blast+
    then show ?thesis
      unfolding gap_def word_le_def by linarith
  qed
  moreover have "gap x f" if "x \<in> set cs" "f \<in> set a" for x f
  proof -
    have "gap c f" "snd x \<le> snd c"
      using ok(4) assms(3) that by blast+
    then show ?thesis
      unfolding gap_def word_le_def by linarith
  qed
  ultimately show ?thesis
    unfolding map_ok_simps(3) set_append using ok assms(2) by blast
qed

text \<open>The entries that one turn of the loop leaves of the current one.\<close>

definition cut :: "u32 \<Rightarrow> u32 \<Rightarrow> entry \<Rightarrow> entry list" where
  "cut f l e =
     (if fst e < f then [(fst e, f - 1)] else []) @ (if l < snd e then [(l + 1, snd e)] else [])"

lemma entry_set_cut:
  shows "fst e < f \<Longrightarrow> entry_set (fst e, f - 1) = {x. fst e \<le> x \<and> x < f}"
    and "l < snd e \<Longrightarrow> entry_set (l + 1, snd e) = {x. l < x \<and> x \<le> snd e}"
  by (simp_all only: entry_set_def atLeastAtMost_def atLeast_def atMost_def fst_conv snd_conv
      word_le_pred word_succ_le Int_def mem_Collect_eq)

lemma cut_used:
  assumes "fst e \<le> l" and "f \<le> snd e" and "f \<le> l"
  shows "hr_used (cut f l e) = entry_set e - {f..l}"
proof -
  have "hr_used (cut f l e) = {x. fst e \<le> x \<and> x < f} \<union> {x. l < x \<and> x \<le> snd e}"
    using entry_set_cut(1) [of e f] entry_set_cut(2) [of l e]
    by (auto simp: cut_def dest: le_less_trans less_le_trans)
  also have "\<dots> = entry_set e - {f..l}"
    using assms by (auto simp: entry_set_def)
  finally show ?thesis .
qed

lemma cut_ok:
  assumes "fst e \<le> snd e" and "f \<le> snd e" and "fst e \<le> l" and "f \<le> l"
  shows "map_ok (cut f l e)" and "\<forall>x\<in>set (cut f l e). fst e \<le> fst x \<and> snd x \<le> snd e"
proof -
  have up: "l + 1 \<le> snd e" "fst e \<le> l + 1" "uint (l + 1) = uint l + 1" if "l < snd e"
    using word_succ_le [OF that, of "snd e"] word_less_succ [OF that] uint_succ [OF that] that assms(3)
    by auto
  have down: "fst e \<le> f - 1" "f - 1 \<le> snd e" "uint (f - 1) = uint f - 1" if "fst e < f"
    using word_le_pred [OF that, of "fst e"] word_pred_less [OF that] uint_pred [OF that] that assms(2)
    by auto
  have "gap (fst e, f - 1) (l + 1, snd e)" if "fst e < f" "l < snd e"
    using up(3) [OF that(2)] down(3) [OF that(1)] assms(4) by (simp add: gap_def word_le_def)
  then show "map_ok (cut f l e)"
    using up(1) down(1) by (simp add: cut_def map_ok_simps)
  show "\<forall>x\<in>set (cut f l e). fst e \<le> fst x \<and> snd x \<le> snd e"
    using up(2) down(2) by (auto simp: cut_def)
qed

lemma releaseLoop_cut:
  assumes "seek l m = Some (b, c, a)" and "f \<le> snd c"
  shows "releaseLoop f l m = releaseLoop f l (b @ cut f l c @ a)"
proof -
  have "\<not> snd c < f"
    using assms(2) by (rule leD)
  with assms(1) have "releaseLoop f l m =
     (if f \<le> fst c then releaseLoop f l (b @ (if l < snd c then [(l + 1, snd c)] else []) @ a)
      else if snd c \<le> l then releaseLoop f l (b @ (fst c, f - 1) # a)
      else releaseLoop f l (b @ (fst c, f - 1) # (l + 1, snd c) # a))"
    by (subst releaseLoop.simps) simp
  moreover have "f \<le> fst c \<longleftrightarrow> \<not> fst c < f" "snd c \<le> l \<longleftrightarrow> \<not> l < snd c"
    by (simp_all only: not_less)
  ultimately show ?thesis
    by (simp add: cut_def)
qed

lemma releaseLoop_ok:
  assumes "map_inv m" and "0 < f" and "f \<le> l"
  shows "\<exists>m'. releaseLoop f l m = Some m' \<and> map_inv m' \<and> hr_used m' = hr_used m - {f..l}"
  using assms(1)
proof (induction "length (filter (\<lambda>e. fst e \<le> l \<and> f \<le> snd e) m)" arbitrary: m rule: less_induct)
  case less
  obtain b c a where sk: "seek l m = Some (b, c, a)" and m: "m = b @ c # a" and cl: "fst c \<le> l"
    and above: "\<forall>e\<in>set a. l < fst e"
    using seek_ok [OF less.prems] by metis
  from less.prems m have ok: "map_ok (b @ c # a)" and c: "fst c \<le> snd c"
    and below: "\<forall>e\<in>set b. snd e < fst c" and oka: "map_ok a"
    by (auto simp: map_inv_def map_ok_simps dest: gap_less)
  show ?case
  proof (cases "snd c < f")
    case True
    have "x \<notin> hr_used m" if "f \<le> x" "x \<le> l" for x
      using that m True c entries_above [OF oka above] entries_below [OF below, of x]
      by (auto simp: entry_set_def)
    then have "hr_used m = hr_used m - {f..l}"
      by auto
    with True sk less.prems show ?thesis
      by (subst releaseLoop.simps) simp
  next
    case False
    then have fc: "f \<le> snd c"
      by simp
    note cut = cut_ok [OF c fc cl assms(3)]
    let ?m = "b @ cut f l c @ a"
    have "map_ok ?m"
      by (rule map_ok_replace [OF ok cut(1,2)])
    moreover have "?m \<noteq> [] \<and> fst (hd ?m) = 0"
      using less.prems m assms(2) by (cases b) (auto simp: map_inv_def cut_def)
    ultimately have inv: "map_inv ?m"
      by (simp add: map_inv_def)
    have "x \<in> hr_used ?m - {f..l} \<longleftrightarrow> x \<in> hr_used m - {f..l}" for x
      using m by (auto simp: cut_used [OF cl fc assms(3)])
    then have used: "hr_used ?m - {f..l} = hr_used m - {f..l}"
      by blast
    have "filter (\<lambda>e. fst e \<le> l \<and> f \<le> snd e) (cut f l c) = []"
      using word_less_succ [of l "snd c"] word_pred_less [of "fst c" f]
      by (auto simp: cut_def not_le)
    then have "length (filter (\<lambda>e. fst e \<le> l \<and> f \<le> snd e) ?m)
        < length (filter (\<lambda>e. fst e \<le> l \<and> f \<le> snd e) m)"
      using m cl fc by simp
    from less.hyps [OF this inv] show ?thesis
      using used releaseLoop_cut [OF sk fc] by simp
  qed
qed

section \<open>Each operation on the abstract view\<close>

lemma HandleRangeAllocator_ok: "hr_inv HandleRangeAllocator" "hr_used (mUsed HandleRangeAllocator) = {0}"
  by (simp_all add: hr_inv_def map_inv_def map_ok_simps HandleRangeAllocator_def entry_set_def)

lemma zero_used: "hr_inv s \<Longrightarrow> 0 \<in> hr_used (mUsed s)"
  by (cases "mUsed s") (auto simp: hr_inv_def map_inv_def entry_set_def)

lemma isUsed_ok:
  assumes "hr_inv s"
  shows "isUsed h s = Some (h \<noteq> 0 \<and> h \<in> hr_used (mUsed s))"
proof -
  obtain b c a where sk: "seek h (mUsed s) = Some (b, c, a)" and m: "mUsed s = b @ c # a"
    and le: "fst c \<le> h" and above: "\<forall>e\<in>set a. h < fst e"
    using seek_ok assms unfolding hr_inv_def by metis
  have ok: "map_ok (b @ c # a)" and "fst c \<le> snd c"
    using assms m by (auto simp: hr_inv_def map_inv_def map_ok_simps)
  then have "fst c = h \<or> h \<le> snd c \<longleftrightarrow> h \<in> hr_used (mUsed s)"
    using used_seek [OF ok le above] m by auto
  with sk show ?thesis
    by (simp add: isUsed_def kInvalidHandle_def)
qed

lemma hd_kept:
  "map_inv (b @ c # a) \<Longrightarrow> fst x = fst c \<Longrightarrow> b @ x # y \<noteq> [] \<and> fst (hd (b @ x # y)) = 0"
  by (cases b) (auto simp: map_inv_def)

lemma extend_inv:
  assumes "map_inv (b @ c # a)" and "snd c < l" and "\<forall>e\<in>set a. l < fst e"
  shows "map_inv (b @ extend c l a)"
    and "hr_used (b @ extend c l a) = hr_used (b @ c # a) \<union> {snd c + 1..l}"
proof -
  have "\<exists>x y. extend c l a = x # y \<and> fst x = fst c"
    by (simp add: extend_def split: list.split)
  with hd_kept [OF assms(1)] extend_ok [OF _ assms(2,3)] assms(1)
  show "map_inv (b @ extend c l a)"
    "hr_used (b @ extend c l a) = hr_used (b @ c # a) \<union> {snd c + 1..l}"
    unfolding map_inv_def by metis+
qed

lemma place_inv:
  assumes "map_inv (b @ c # a)" and "snd c < h" and "snd c + 1 \<noteq> h" and "\<forall>e\<in>set a. h < fst e"
  shows "map_inv (b @ c # place h a)"
    and "hr_used (b @ c # place h a) = insert h (hr_used (b @ c # a))"
  using hd_kept [OF assms(1) refl] place_ok [OF _ assms(2-4)] assms(1) unfolding map_inv_def by metis+

lemma markAsUsed_ok:
  assumes "hr_inv s"
  obtains s' where "markAsUsed h s = Some (h \<notin> hr_used (mUsed s), s')" and "hr_inv s'"
    and "hr_used (mUsed s') = insert h (hr_used (mUsed s))"
proof -
  obtain b c a where sk: "seek h (mUsed s) = Some (b, c, a)" and m: "mUsed s = b @ c # a"
    and le: "fst c \<le> h" and above: "\<forall>e\<in>set a. h < fst e"
    using seek_ok assms unfolding hr_inv_def by metis
  have inv: "map_inv (b @ c # a)" and ok: "map_ok (b @ c # a)" and c: "fst c \<le> snd c"
    using assms m by (auto simp: hr_inv_def map_inv_def map_ok_simps)
  note used = used_seek [OF ok le above]
  show thesis
  proof (cases "h \<le> snd c")
    case True
    with used m have "h \<in> hr_used (mUsed s)" by simp
    with True sk m that [of s] assms show thesis
      by (auto simp: markAsUsed_def insert_absorb)
  next
    case False
    with c have gt: "snd c < h" "fst c \<noteq> h" and new: "h \<notin> hr_used (mUsed s)"
      using used m by auto
    show thesis
    proof (cases "snd c + 1 = h")
      case True
      have "markAsUsed h s = Some (True, s\<lparr>mUsed := b @ extend c h a\<rparr>)"
        using sk gt False True by (simp add: markAsUsed_def)
      then show thesis
        using that [of "s\<lparr>mUsed := b @ extend c h a\<rparr>"] extend_inv [OF inv gt(1) above] new m True
        by (simp add: hr_inv_def)
    next
      case neq: False
      have "markAsUsed h s = Some (True, s\<lparr>mUsed := b @ c # place h a\<rparr>)"
        using sk gt False neq by (simp add: markAsUsed_def)
      then show thesis
        using that [of "s\<lparr>mUsed := b @ c # place h a\<rparr>"] place_inv [OF inv gt(1) neq above] new m
        by (simp add: hr_inv_def)
    qed
  qed
qed

lemma hr_allocate_ok:
  assumes "hr_inv s"
  obtains f s' where "hr_allocate s = Some (f, s')" and "hr_inv s'" and "f = 0 \<Longrightarrow> s' = s"
    and "f \<noteq> 0 \<Longrightarrow> f \<notin> hr_used (mUsed s) \<and> hr_used (mUsed s') = insert f (hr_used (mUsed s))"
    and "\<And>g. g \<notin> hr_used (mUsed s) \<Longrightarrow> f \<noteq> 0 \<and> f \<le> g"
proof -
  obtain f s' where f: "allocateRange 1 s = Some (f, s')" "hr_inv s'" "f = 0 \<Longrightarrow> s' = s"
    "f \<noteq> 0 \<Longrightarrow> is_block f 1 \<and> block f 1 \<inter> hr_used (mUsed s) = {} \<and>
       hr_used (mUsed s') = hr_used (mUsed s) \<union> block f 1"
    and least: "\<And>g. is_block g 1 \<Longrightarrow> block g 1 \<inter> hr_used (mUsed s) = {} \<Longrightarrow> f \<noteq> 0 \<and> f \<le> g"
    using allocateRange_ok [OF assms, of 1] by (metis one_neq_zero)
  have single: "block g 1 = {g}" "is_block g 1 \<longleftrightarrow> g \<noteq> 0" for g
    by (simp_all add: block_def is_block_def)
  have "f \<noteq> 0 \<and> f \<le> g" if "g \<notin> hr_used (mUsed s)" for g
  proof (rule least)
    show "is_block g 1"
      using that zero_used [OF assms] by (auto simp: single)
    show "block g 1 \<inter> hr_used (mUsed s) = {}"
      using that by (simp add: single)
  qed
  with f show thesis
    by (intro that [of f s']) (auto simp: hr_allocate_def single)
qed

lemma allocateAtOrAbove_ok:
  assumes "hr_inv s"
  obtains h s' where "allocateAtOrAbove w s = Some (h, s')" and "hr_inv s'" and "h = 0 \<Longrightarrow> s' = s"
    and "h \<noteq> 0 \<Longrightarrow> h \<notin> hr_used (mUsed s) \<and> hr_used (mUsed s') = insert h (hr_used (mUsed s))"
    and "\<And>g. g \<notin> hr_used (mUsed s) \<Longrightarrow>
      h \<noteq> 0 \<and> (w \<le> g \<longrightarrow> w \<le> h \<and> h \<le> g) \<and> ((\<forall>x. w \<le> x \<longrightarrow> x \<in> hr_used (mUsed s)) \<longrightarrow> h \<le> g)"
proof -
  obtain f s1 where first: "allocateRange 1 s = Some (f, s1)" "hr_inv s1" "f = 0 \<Longrightarrow> s1 = s"
    "f \<noteq> 0 \<Longrightarrow> f \<notin> hr_used (mUsed s) \<and> hr_used (mUsed s1) = insert f (hr_used (mUsed s))"
    "\<And>g. g \<notin> hr_used (mUsed s) \<Longrightarrow> f \<noteq> 0 \<and> f \<le> g"
    using hr_allocate_ok [OF assms] unfolding hr_allocate_def by metis
  obtain b c a where sk: "seek w (mUsed s) = Some (b, c, a)" and m: "mUsed s = b @ c # a"
    and le: "fst c \<le> w" and above: "\<forall>e\<in>set a. w < fst e"
    using seek_ok assms unfolding hr_inv_def by metis
  have inv: "map_inv (b @ c # a)" and ok: "map_ok (b @ c # a)" and c: "fst c \<le> snd c"
    and oka: "map_ok a" and next_gap: "\<forall>e\<in>set a. gap c e" and below: "\<forall>e\<in>set b. snd e < fst c"
    using assms m by (auto simp: hr_inv_def map_inv_def map_ok_simps dest: gap_less)
  consider (low) "w = 0 \<or> w = 1"
    | (full) "w \<noteq> 0" "w \<noteq> 1" "w - 1 \<le> snd c" "snd c + 1 = 0"
    | (append) "w \<noteq> 0" "w \<noteq> 1" "w - 1 \<le> snd c" "snd c + 1 \<noteq> 0"
    | (own) "w \<noteq> 0" "w \<noteq> 1" "snd c < w - 1"
    by fastforce
  then show thesis
  proof cases
    case low
    then have "w \<le> f" if "f \<noteq> 0"
      using that by (auto simp: word_le_nat_alt simp flip: unat_gt_0)
    with low first show thesis
      by (intro that [of f s1]) (auto simp: allocateAtOrAbove_def)
  next
    case full
    then have "snd c = u32_max"
      by (simp add: eq_neg_iff_add_eq_0)
    then have "g \<in> hr_used (mUsed s)" if "w \<le> g" for g
      using that le m by (auto simp: entry_set_def intro: order_trans)
    with full sk first show thesis
      by (intro that [of f s1]) (auto simp: allocateAtOrAbove_def)
  next
    case append
    let ?l = "snd c + 1"
    have lt: "snd c < ?l"
      using append(4) word_less_succ_iff by blast
    have far: "\<forall>e\<in>set a. ?l < fst e"
      using next_gap uint_succ [OF lt] by (auto simp: gap_def word_less_def)
    have wl: "w \<le> ?l"
      using append(3) word_le_pred [of 0 w] uint_succ [OF lt] uint_pred [of 0 w] append(1)
      by (auto simp: word_le_def word_gt_0)
    have free: "?l \<notin> hr_used (mUsed s)"
      using entries_above [OF oka far order_refl] entries_below [OF below, of ?l] c lt m
      by (auto simp: entry_set_def)
    have first_free: "?l \<le> g" if "g \<notin> hr_used (mUsed s)" "w \<le> g" for g
    proof -
      have "snd c < g"
        using that le m by (auto simp: entry_set_def not_le [symmetric] dest: order_trans)
      then show ?thesis
        using word_succ_le [OF lt] by blast
    qed
    have "allocateAtOrAbove w s = Some (?l, s\<lparr>mUsed := b @ extend c ?l a\<rparr>)"
      using append sk by (simp add: allocateAtOrAbove_def Let_def)
    then show thesis
      using extend_inv [OF inv lt far] m append(4) wl free first_free
      by (intro that [of ?l "s\<lparr>mUsed := b @ extend c ?l a\<rparr>"]) (auto simp: hr_inv_def)
  next
    case own
    have "w - 1 < w"
      using own(1) by (intro word_pred_less [of 0]) (simp add: word_gt_0)
    then have lt: "snd c < w" and neq: "snd c + 1 \<noteq> w"
      using own(3) by auto
    then have "w \<notin> hr_used (mUsed s)"
      using used_seek [OF ok le above] m by simp
    moreover have "allocateAtOrAbove w s = Some (w, s\<lparr>mUsed := b @ c # place w a\<rparr>)"
      using own sk by (simp add: allocateAtOrAbove_def not_le [symmetric])
    ultimately show thesis
      using place_inv [OF inv lt neq above] m own(1)
      by (intro that [of w "s\<lparr>mUsed := b @ c # place w a\<rparr>"]) (auto simp: hr_inv_def)
  qed
qed

text \<open>The names a call of \<open>releaseRange\<close> frees: the block, without 0, cut off at the last name.\<close>

definition released :: "u32 \<Rightarrow> u32 \<Rightarrow> u32 set" where
  "released f n = {x. x \<noteq> 0 \<and> uint f \<le> uint x \<and> uint x < uint f + uint n}"

lemma released_interval:
  assumes "f \<noteq> 0" and "n \<noteq> 0"
  shows "f \<le> (if f + n - 1 < f then u32_max else f + n - 1)"
    and "released f n = {f..(if f + n - 1 < f then u32_max else f + n - 1)}"
proof -
  have n: "uint (n - 1) = uint n - 1" "0 < uint f" "0 < uint n"
    using assms by (auto intro!: uint_pred [of 0] simp: word_gt_0 uint_0_iff order.strict_iff_order)
  have last: "f + n - 1 = f + (n - 1)"
    by simp
  have wrap: "f + n - 1 < f \<longleftrightarrow> 2 ^ 32 \<le> uint f + (uint n - 1)"
    using uint_plus_simple_iff [of f "n - 1"] uint_add_lem [of f "n - 1"] n(1)
    by (auto simp: last not_le [symmetric] no_olen_add)
  show "f \<le> (if f + n - 1 < f then u32_max else f + n - 1)"
    by (auto simp: word_order.extremum)
  have "x \<in> released f n \<longleftrightarrow> uint f \<le> uint x \<and> uint x \<le> uint f + (uint n - 1)" for x
    using n by (auto simp: released_def word_nonzero_uint)
  moreover have "x \<le> (if f + n - 1 < f then u32_max else f + n - 1)
      \<longleftrightarrow> uint x \<le> uint f + (uint n - 1)" for x
  proof (cases "f + n - 1 < f")
    case True
    then have "uint x \<le> uint f + (uint n - 1)"
      using wrap uint_lt2p [of x] by simp
    with True show ?thesis
      by (simp only: if_True word_order.extremum)
  next
    case False
    then have "uint (f + n - 1) = uint f + (uint n - 1)"
      using wrap uint_add_lem [of f "n - 1"] n(1) by (simp add: last)
    with False show ?thesis
      by (simp add: word_le_def)
  qed
  ultimately show "released f n = {f..(if f + n - 1 < f then u32_max else f + n - 1)}"
    unfolding set_eq_iff atLeastAtMost_iff by (simp only: word_le_def simp_thms)
qed

lemma releaseRange_ok:
  assumes "hr_inv s"
  obtains s' where "releaseRange f n s = Some s'" and "hr_inv s'"
    and "hr_used (mUsed s') = hr_used (mUsed s) - released f n"
proof (cases "n = 0 \<or> (f = 0 \<and> n = 1)")
  case True
  then have "released f n = {}"
    by (auto simp: released_def word_nonzero_uint)
  with True assms that [of s] show thesis
    by (auto simp: releaseRange_def)
next
  case False
  define g where "g = (if f = 0 then 1 else f)"
  define k where "k = (if f = 0 then n - 1 else n)"
  have k: "uint k = (if f = 0 then uint n - 1 else uint n)"
    using False by (auto simp: k_def intro!: uint_pred [of 0] simp: word_gt_0)
  have "uint n \<noteq> 1" if "n \<noteq> 1"
    using that by (metis uint_1 word_uint_eq_iff)
  then have gk: "g \<noteq> 0" "k \<noteq> 0" "released f n = released g k"
    using False k by (auto simp: g_def k_def released_def word_nonzero_uint)
  define l where "l = (if g + k - 1 < g then u32_max else g + k - 1)"
  have l: "g \<le> l" "released f n = {g..l}"
    using released_interval [OF gk(1,2)] gk(3) by (simp_all only: l_def)
  obtain m where m: "releaseLoop g l (mUsed s) = Some m" "map_inv m" "hr_used m = hr_used (mUsed s) - {g..l}"
    using releaseLoop_ok [of "mUsed s" g l] assms gk(1) l(1) by (auto simp: hr_inv_def word_gt_0)
  have "releaseRange f n s = Some (s\<lparr>mUsed := m\<rparr>)"
    unfolding releaseRange_def Let_def if_not_P [OF False] g_def [symmetric] k_def [symmetric]
      l_def [symmetric] m(1) by simp
  then show thesis
    using m l(2) by (intro that [of "s\<lparr>mUsed := m\<rparr>"]) (auto simp: hr_inv_def)
qed

lemma hr_release_ok:
  assumes "hr_inv s"
  obtains s' where "hr_release h s = Some s'" and "hr_inv s'"
    and "hr_used (mUsed s') = (if h = 0 then hr_used (mUsed s) else hr_used (mUsed s) - {h})"
proof -
  have "released h 1 = (if h = 0 then {} else {h})"
    by (auto simp: released_def word_nonzero_uint word_uint_eq_iff)
  with releaseRange_ok [OF assms, of h 1] that show thesis
    unfolding hr_release_def by (metis Diff_empty)
qed

section \<open>Runs of calls\<close>

text \<open>
  Any sequence of calls of the public operations, and what each of them does to the set of the names
  in use (without the name 0, which is never handed out). The answer of a call is a name, or a truth
  value as 0 or 1. The two assertions of the code are \<open>asserted\<close>.
\<close>

datatype range_call =
    Allocate
  | AllocateRange u32
  | AllocateAtOrAbove u32
  | MarkAsUsed u32
  | Release u32
  | ReleaseRange u32 u32
  | IsUsed u32

definition asserted :: "range_call \<Rightarrow> bool" where
  "asserted c = (case c of AllocateRange n \<Rightarrow> n \<noteq> 0 | MarkAsUsed h \<Rightarrow> h \<noteq> 0 | _ \<Rightarrow> True)"

fun answer_call :: "range_call \<Rightarrow> handle_range_allocator \<Rightarrow> (u32 \<times> handle_range_allocator) option" where
  "answer_call Allocate s = hr_allocate s"
| "answer_call (AllocateRange n) s = allocateRange n s"
| "answer_call (AllocateAtOrAbove w) s = allocateAtOrAbove w s"
| "answer_call (MarkAsUsed h) s = map_option (\<lambda>(r, s'). (of_bool r, s')) (markAsUsed h s)"
| "answer_call (Release h) s = map_option (\<lambda>s'. (0, s')) (hr_release h s)"
| "answer_call (ReleaseRange f n) s = map_option (\<lambda>s'. (0, s')) (releaseRange f n s)"
| "answer_call (IsUsed h) s = map_option (\<lambda>r. (of_bool r, s)) (isUsed h s)"

fun answer_calls :: "range_call list \<Rightarrow> handle_range_allocator \<Rightarrow> (u32 list \<times> handle_range_allocator) option" where
  "answer_calls [] s = Some ([], s)"
| "answer_calls (c # cs) s =
     (case answer_call c s of
        None \<Rightarrow> None
      | Some (a, s') \<Rightarrow> map_option (\<lambda>(as, s''). (a # as, s'')) (answer_calls cs s'))"

text \<open>The specification: a set of names, with a block of names taken or given back.\<close>

definition takes_block :: "u32 \<Rightarrow> u32 set \<Rightarrow> u32 \<Rightarrow> u32 set \<Rightarrow> bool" where
  "takes_block n U f U' \<longleftrightarrow>
     (if f = kInvalidHandle then U' = U \<and> (\<forall>g. is_block g n \<longrightarrow> block g n \<inter> U \<noteq> {})
      else is_block f n \<and> block f n \<inter> U = {} \<and> U' = U \<union> block f n \<and>
        (\<forall>g. is_block g n \<longrightarrow> block g n \<inter> U = {} \<longrightarrow> f \<le> g))"

definition call_spec :: "range_call \<Rightarrow> u32 set \<Rightarrow> u32 \<Rightarrow> u32 set \<Rightarrow> bool" where
  "call_spec c U a U' =
     (case c of
        Allocate \<Rightarrow> takes_block 1 U a U'
      | AllocateRange n \<Rightarrow> takes_block n U a U'
      | AllocateAtOrAbove w \<Rightarrow>
          (if a = kInvalidHandle then U' = U \<and> U = - {0}
           else a \<notin> U \<and> U' = insert a U \<and>
             (if \<exists>g. w \<le> g \<and> g \<notin> insert 0 U
              then w \<le> a \<and> (\<forall>g. w \<le> g \<longrightarrow> g \<notin> insert 0 U \<longrightarrow> a \<le> g)
              else \<forall>g. g \<notin> insert 0 U \<longrightarrow> a \<le> g))
      | MarkAsUsed h \<Rightarrow> a = of_bool (h \<notin> U) \<and> U' = insert h U
      | Release h \<Rightarrow> U' = U - {h}
      | ReleaseRange f n \<Rightarrow> U' = {x \<in> U. uint x < uint f \<or> uint f + uint n \<le> uint x}
      | IsUsed h \<Rightarrow> a = of_bool (h \<in> U) \<and> U' = U)"

fun calls_spec :: "range_call list \<Rightarrow> u32 set \<Rightarrow> u32 list \<Rightarrow> u32 set \<Rightarrow> bool" where
  "calls_spec [] U as U' \<longleftrightarrow> as = [] \<and> U' = U"
| "calls_spec (c # cs) U as U' \<longleftrightarrow> (\<exists>a as' V. as = a # as' \<and> call_spec c U a V \<and> calls_spec cs V as' U')"

definition names_in_use :: "handle_range_allocator \<Rightarrow> u32 set" where
  "names_in_use s = hr_used (mUsed s) - {0}"

lemma block_positive: "is_block g n \<Longrightarrow> 0 \<notin> block g n"
  by (auto simp: block_def is_block_def)

lemma takes_block_used:
  assumes "hr_inv s" "n \<noteq> 0"
  obtains f s' where "allocateRange n s = Some (f, s')" "hr_inv s'" "takes_block n (names_in_use s) f (names_in_use s')"
proof (rule allocateRange_ok [OF assms])
  fix f s' assume a: "allocateRange n s = Some (f, s')" "hr_inv s'" "f = 0 \<Longrightarrow> s' = s"
    "f \<noteq> 0 \<Longrightarrow> is_block f n \<and> block f n \<inter> hr_used (mUsed s) = {} \<and>
       hr_used (mUsed s') = hr_used (mUsed s) \<union> block f n"
    "\<And>g. is_block g n \<Longrightarrow> block g n \<inter> hr_used (mUsed s) = {} \<Longrightarrow> f \<noteq> 0 \<and> f \<le> g"
  have meet: "block g n \<inter> hr_used (mUsed s) = block g n \<inter> names_in_use s" if "is_block g n" for g
    using block_positive [OF that] by (auto simp: names_in_use_def)
  have "takes_block n (names_in_use s) f (names_in_use s')"
    using a(3,4,5) meet block_positive [of f n]
    by (cases "f = 0") (auto simp: takes_block_def kInvalidHandle_def names_in_use_def)
  with a(1,2) show thesis by (rule that)
qed

lemma call_refines:
  assumes inv: "hr_inv s" and c: "asserted c"
  obtains a s' where "answer_call c s = Some (a, s')" "hr_inv s'" "call_spec c (names_in_use s) a (names_in_use s')"
proof (cases c)
  case Allocate
  then show thesis
    using takes_block_used [OF inv, of 1] that by (auto simp: hr_allocate_def call_spec_def)
next
  case (AllocateRange n)
  then show thesis
    using takes_block_used [OF inv, of n] that c by (auto simp: asserted_def call_spec_def)
next
  case (AllocateAtOrAbove w)
  obtain h s' where h: "allocateAtOrAbove w s = Some (h, s')" "hr_inv s'" "h = 0 \<Longrightarrow> s' = s"
    "h \<noteq> 0 \<Longrightarrow> h \<notin> hr_used (mUsed s) \<and> hr_used (mUsed s') = insert h (hr_used (mUsed s))"
    "\<And>g. g \<notin> hr_used (mUsed s) \<Longrightarrow>
       h \<noteq> 0 \<and> (w \<le> g \<longrightarrow> w \<le> h \<and> h \<le> g) \<and> ((\<forall>x. w \<le> x \<longrightarrow> x \<in> hr_used (mUsed s)) \<longrightarrow> h \<le> g)"
    by (rule allocateAtOrAbove_ok [OF inv, of w]) blast
  have used: "insert 0 (names_in_use s) = hr_used (mUsed s)" "insert 0 (names_in_use s') = hr_used (mUsed s')"
    using zero_used inv h(2) by (auto simp: names_in_use_def)
  have "call_spec c (names_in_use s) h (names_in_use s')"
  proof (cases "h = 0")
    case True
    then have "hr_used (mUsed s) = UNIV" using h(5) by blast
    then show ?thesis
      using True h(3) by (auto simp: AllocateAtOrAbove call_spec_def kInvalidHandle_def names_in_use_def)
  next
    case False
    then have "h \<notin> names_in_use s" "names_in_use s' = insert h (names_in_use s)"
      using h(4) by (auto simp: names_in_use_def)
    then show ?thesis
      unfolding AllocateAtOrAbove call_spec_def range_call.case used kInvalidHandle_def if_not_P [OF False]
      using h(5) by auto
  qed
  with h(1,2) show thesis by (intro that [of h s']) (simp_all add: AllocateAtOrAbove)
next
  case (MarkAsUsed h)
  show thesis
  proof (rule markAsUsed_ok [OF inv, of h])
    fix s' assume "markAsUsed h s = Some (h \<notin> hr_used (mUsed s), s')" "hr_inv s'"
      "hr_used (mUsed s') = insert h (hr_used (mUsed s))"
    then show thesis
      using c by (intro that [of "of_bool (h \<notin> hr_used (mUsed s))" s'])
        (auto simp: MarkAsUsed call_spec_def names_in_use_def asserted_def)
  qed
next
  case (Release h)
  show thesis
  proof (rule hr_release_ok [OF inv, of h])
    fix s' assume "hr_release h s = Some s'" "hr_inv s'"
      "hr_used (mUsed s') = (if h = 0 then hr_used (mUsed s) else hr_used (mUsed s) - {h})"
    then show thesis
      by (intro that [of 0 s']) (auto simp: Release call_spec_def names_in_use_def split: if_splits)
  qed
next
  case (ReleaseRange f n)
  show thesis
  proof (rule releaseRange_ok [OF inv, of f n])
    fix s' assume "releaseRange f n s = Some s'" "hr_inv s'" "hr_used (mUsed s') = hr_used (mUsed s) - released f n"
    moreover have "U - released f n - {0} = {x \<in> U - {0}. uint x < uint f \<or> uint f + uint n \<le> uint x}" for U
      by (rule set_eqI) (simp only: released_def Diff_iff mem_Collect_eq de_Morgan_conj not_le not_less not_not
          singleton_iff, argo)
    ultimately have "call_spec c (names_in_use s) 0 (names_in_use s')"
      by (simp only: ReleaseRange call_spec_def names_in_use_def range_call.case)
    with \<open>releaseRange f n s = Some s'\<close> \<open>hr_inv s'\<close> show thesis
      by (intro that [of 0 s']) (simp_all add: ReleaseRange)
  qed
next
  case (IsUsed h)
  then show thesis
    using isUsed_ok [OF inv, of h] inv
    by (intro that [of "of_bool (h \<in> names_in_use s)" s]) (auto simp: call_spec_def names_in_use_def)
qed

lemma calls_refine:
  "\<lbrakk>hr_inv s; \<forall>c\<in>set cs. asserted c\<rbrakk> \<Longrightarrow>
   \<exists>as s'. answer_calls cs s = Some (as, s') \<and> hr_inv s' \<and> calls_spec cs (names_in_use s) as (names_in_use s')"
proof (induction cs arbitrary: s)
  case (Cons c cs)
  then obtain a s' where a: "answer_call c s = Some (a, s')" "hr_inv s'" "call_spec c (names_in_use s) a (names_in_use s')"
    using call_refines [of s c] by auto
  then obtain as s'' where "answer_calls cs s' = Some (as, s'')" "hr_inv s''"
    "calls_spec cs (names_in_use s') as (names_in_use s'')"
    using Cons.IH [of s'] Cons.prems(2) by auto
  with a show ?case by auto
qed simp

section \<open>Properties\<close>

text \<open>
  C3. \<open>allocateRange\<close> is first fit and complete: it always returns; a nonzero result is the start of a
  block of \<open>range\<close> names, none of which was in use and all of which are in use afterwards, and no free
  block of that size starts lower; the result is \<open>kInvalidHandle\<close> only when there is no free block of
  that size, and then nothing has changed.
\<close>

theorem allocateRange_first_fit:
  assumes "hr_inv s" and "n \<noteq> 0"
  shows "\<exists>f s'. allocateRange n s = Some (f, s') \<and> hr_inv s' \<and>
    (if f = kInvalidHandle
     then s' = s \<and> (\<forall>g. is_block g n \<longrightarrow> block g n \<inter> hr_used (mUsed s) \<noteq> {})
     else is_block f n \<and> block f n \<inter> hr_used (mUsed s) = {} \<and>
       hr_used (mUsed s') = hr_used (mUsed s) \<union> block f n \<and>
       (\<forall>g. is_block g n \<longrightarrow> block g n \<inter> hr_used (mUsed s) = {} \<longrightarrow> f \<le> g))"
proof (rule allocateRange_ok [OF assms])
  fix f s' assume "allocateRange n s = Some (f, s')" "hr_inv s'" "f = 0 \<Longrightarrow> s' = s"
    "f \<noteq> 0 \<Longrightarrow> is_block f n \<and> block f n \<inter> hr_used (mUsed s) = {} \<and>
       hr_used (mUsed s') = hr_used (mUsed s) \<union> block f n"
    "\<And>g. is_block g n \<Longrightarrow> block g n \<inter> hr_used (mUsed s) = {} \<Longrightarrow> f \<noteq> 0 \<and> f \<le> g"
  then show ?thesis
    by (intro exI [of _ f] exI [of _ s']) (auto simp: kInvalidHandle_def)
qed

theorem allocateRange_first_fit_witness:
  "\<exists>f s'. allocateRange 3 \<lparr>mUsed = [(0, 1), (4, 9), (20, 30)]\<rparr> = Some (f, s') \<and> hr_inv s'"
proof -
  have "hr_inv \<lparr>mUsed = [(0, 1), (4, 9), (20, 30)]\<rparr>"
    by (simp add: hr_inv_def map_inv_def map_ok_simps gap_def)
  from allocateRange_first_fit [OF this, of 3] show ?thesis
    by auto
qed

text \<open>
  C4. \<open>allocateAtOrAbove\<close> always returns. While a free name at or above the wanted one exists, the result
  is the first of them; when there is none, it is the first free name of all; the result is the only
  name that becomes used. It is 0 only when every name is used, and then nothing has changed.
\<close>

theorem allocateAtOrAbove_correct:
  assumes "hr_inv s"
  shows "\<exists>h s'. allocateAtOrAbove w s = Some (h, s') \<and> hr_inv s' \<and>
    (if h = kInvalidHandle then s' = s \<and> hr_used (mUsed s) = UNIV
     else h \<notin> hr_used (mUsed s) \<and> hr_used (mUsed s') = insert h (hr_used (mUsed s)) \<and>
       (if \<exists>g. w \<le> g \<and> g \<notin> hr_used (mUsed s)
        then w \<le> h \<and> (\<forall>g. w \<le> g \<longrightarrow> g \<notin> hr_used (mUsed s) \<longrightarrow> h \<le> g)
        else \<forall>g. g \<notin> hr_used (mUsed s) \<longrightarrow> h \<le> g))"
proof (rule allocateAtOrAbove_ok [OF assms, of w])
  fix h s' assume "allocateAtOrAbove w s = Some (h, s')" "hr_inv s'" "h = 0 \<Longrightarrow> s' = s"
    "h \<noteq> 0 \<Longrightarrow> h \<notin> hr_used (mUsed s) \<and> hr_used (mUsed s') = insert h (hr_used (mUsed s))"
    "\<And>g. g \<notin> hr_used (mUsed s) \<Longrightarrow>
       h \<noteq> 0 \<and> (w \<le> g \<longrightarrow> w \<le> h \<and> h \<le> g) \<and> ((\<forall>x. w \<le> x \<longrightarrow> x \<in> hr_used (mUsed s)) \<longrightarrow> h \<le> g)"
  then show ?thesis
    by (intro exI [of _ h] exI [of _ s']) (auto simp: kInvalidHandle_def)
qed

theorem allocateAtOrAbove_correct_witness:
  "\<exists>h s'. allocateAtOrAbove 8 \<lparr>mUsed = [(0, 1), (4, 9), (11, 30)]\<rparr> = Some (h, s') \<and> hr_inv s'"
proof -
  have "hr_inv \<lparr>mUsed = [(0, 1), (4, 9), (11, 30)]\<rparr>"
    by (simp add: hr_inv_def map_inv_def map_ok_simps gap_def)
  from allocateAtOrAbove_correct [OF this, of 8] show ?thesis
    by auto
qed

text \<open>
  C5. \<open>releaseRange\<close> terminates and frees exactly the names of the block it is given - cut off at the
  largest name where the block would wrap around, and never the name 0 - however the block overlaps
  the ranges in use.
\<close>

theorem releaseRange_exact:
  assumes "hr_inv s"
  shows "\<exists>s'. releaseRange f n s = Some s' \<and> hr_inv s' \<and>
    hr_used (mUsed s')
      = {x \<in> hr_used (mUsed s). x = 0 \<or> uint x < uint f \<or> uint f + uint n \<le> uint x}"
proof (rule releaseRange_ok [OF assms, of f n])
  fix s' assume "releaseRange f n s = Some s'" "hr_inv s'"
    "hr_used (mUsed s') = hr_used (mUsed s) - released f n"
  moreover have "U - released f n = {x \<in> U. x = 0 \<or> uint x < uint f \<or> uint f + uint n \<le> uint x}" for U
    by (rule set_eqI) (simp only: released_def Diff_iff mem_Collect_eq de_Morgan_conj not_le not_less not_not)
  ultimately show ?thesis
    by (metis (no_types))
qed

theorem releaseRange_exact_witness:
  "\<exists>s'. releaseRange 5 20 \<lparr>mUsed = [(0, 1), (4, 9), (11, 30)]\<rparr> = Some s' \<and> hr_inv s'"
proof -
  have "hr_inv \<lparr>mUsed = [(0, 1), (4, 9), (11, 30)]\<rparr>"
    by (simp add: hr_inv_def map_inv_def map_ok_simps gap_def)
  from releaseRange_exact [OF this, of 5 20] show ?thesis
    by auto
qed

text \<open>
  C6. In any sequence of calls of the operations of \<open>HandleRangeAllocator\<close> on a new allocator (single
  names, blocks, wanted names, marking, releases of anything, queries; a block has at least one name,
  and the name 0 is not marked), every call returns, and the calls act on the set of the names in use
  as the specification says: a block is free before, does not wrap around, and is the first that fits;
  a wanted name gives the first free name from it on, or the first of all;
  a call is refused only when no free block is left, or no free name; marking a name reports whether
  it was free and always takes it; a release gives back exactly its names; a query tells whether the
  name is in use.
\<close>

theorem handle_range_allocator_fresh:
  assumes "\<forall>c\<in>set cs. asserted c"
  shows "\<exists>as s. answer_calls cs HandleRangeAllocator = Some (as, s) \<and> calls_spec cs {} as (names_in_use s)"
  using calls_refine [OF HandleRangeAllocator_ok(1) assms]
  by (auto simp: names_in_use_def HandleRangeAllocator_ok(2))

theorem handle_range_allocator_fresh_witness:
  "\<exists>s. answer_calls [AllocateRange 4, ReleaseRange 2 2, Allocate, IsUsed 3] HandleRangeAllocator = Some ([1, 0, 2, 0], s) \<and>
       calls_spec [AllocateRange 4, ReleaseRange 2 2, Allocate, IsUsed 3] {} [1, 0, 2, 0] (names_in_use s)"
proof -
  have "answer_calls [AllocateRange 4, ReleaseRange 2 2, Allocate, IsUsed 3] HandleRangeAllocator =
      Some ([1, 0, 2, 0], \<lparr>mUsed = [(0, 2), (4, 4)]\<rparr>)"
    by code_simp
  then show ?thesis
    using handle_range_allocator_fresh [of "[AllocateRange 4, ReleaseRange 2 2, Allocate, IsUsed 3]"]
    by (auto simp: asserted_def)
qed

end
