(* ===== verification/Resource_Table.thy ===== *)
theory Resource_Table
  imports Prelude
begin

text \<open>
  The contract between the resource managers and the table they keep their objects in: a finite map
  from names to object pointers, where the null pointer (\<^term>\<open>None\<close>) marks a name that is reserved
  but has no object yet. \<open>table_op\<close> is a call of a client, \<open>run\<close> a sequence of calls.
\<close>

datatype 'r table_op =
    Assign u32 "'r option"
  | Erase u32
  | Clear

fun table_spec :: "'r table_op \<Rightarrow> (u32 \<rightharpoonup> 'r option) \<Rightarrow> (u32 \<rightharpoonup> 'r option)" where
  "table_spec (Assign h r) t = t(h \<mapsto> r)"
| "table_spec (Erase h) t = t(h := None)"
| "table_spec Clear t = Map.empty"

fun table_call ::
  "(u32 \<Rightarrow> 'r option \<Rightarrow> 's \<Rightarrow> 's option) \<Rightarrow> (u32 \<Rightarrow> 's \<Rightarrow> ('r option \<times> 's) option) \<Rightarrow>
   ('s \<Rightarrow> 's) \<Rightarrow> 'r table_op \<Rightarrow> 's \<Rightarrow> 's option" where
  "table_call assign erase clear (Assign h r) s = assign h r s"
| "table_call assign erase clear (Erase h) s =
     (case erase h s of None \<Rightarrow> Some s | Some (_, s') \<Rightarrow> Some s')"
| "table_call assign erase clear Clear s = Some (clear s)"

fun table_run :: "('c \<Rightarrow> 's \<Rightarrow> 's option) \<Rightarrow> 'c list \<Rightarrow> 's \<Rightarrow> 's option" where
  "table_run step [] s = Some s"
| "table_run step (c # cs) s = Option.bind (step c s) (table_run step cs)"

locale resource_table =
  fixes inv :: "'s \<Rightarrow> bool"
    and table :: "'s \<Rightarrow> u32 \<rightharpoonup> 'r option"
    and start :: 's
    and assign :: "u32 \<Rightarrow> 'r option \<Rightarrow> 's \<Rightarrow> 's option"
    and erase :: "u32 \<Rightarrow> 's \<Rightarrow> ('r option \<times> 's) option"
    and clear :: "'s \<Rightarrow> 's"
    and contains :: "u32 \<Rightarrow> 's \<Rightarrow> bool"
    and query :: "u32 \<Rightarrow> 's \<Rightarrow> 'r option"
  assumes start_ok: "inv start" "table start = Map.empty"
    and assign_ok: "inv s \<Longrightarrow> \<exists>s'. assign h r s = Some s' \<and> inv s' \<and> table s' = (table s)(h \<mapsto> r)"
    and erase_miss: "inv s \<Longrightarrow> table s h = None \<Longrightarrow> erase h s = None"
    and erase_hit: "inv s \<Longrightarrow> table s h = Some r \<Longrightarrow>
          \<exists>s'. erase h s = Some (r, s') \<and> inv s' \<and> table s' = (table s)(h := None)"
    and clear_ok: "inv s \<Longrightarrow> inv (clear s)" "inv s \<Longrightarrow> table (clear s) = Map.empty"
    and contains_ok: "inv s \<Longrightarrow> contains h s \<longleftrightarrow> h \<in> dom (table s)"
    and query_ok: "inv s \<Longrightarrow> query h s = (case table s h of None \<Rightarrow> None | Some r \<Rightarrow> r)"
begin

abbreviation call :: "'r table_op \<Rightarrow> 's \<Rightarrow> 's option" where
  "call \<equiv> table_call assign erase clear"

abbreviation run :: "'r table_op list \<Rightarrow> 's \<Rightarrow> 's option" where
  "run \<equiv> table_run call"

lemma call_ok:
  assumes "inv s"
  shows "\<exists>s'. call c s = Some s' \<and> inv s' \<and> table s' = table_spec c (table s)"
proof (cases c)
  case (Assign h r)
  with assign_ok [OF assms, of h r] show ?thesis by auto
next
  case (Erase h)
  show ?thesis
  proof (cases "table s h")
    case None
    with erase_miss [OF assms None] assms Erase show ?thesis by (auto simp: fun_upd_idem)
  next
    case (Some r)
    with erase_hit [OF assms Some] Erase show ?thesis by auto
  qed
next
  case Clear
  with clear_ok [OF assms] show ?thesis by auto
qed

lemma run_ok:
  assumes "inv s"
  shows "\<exists>s'. run cs s = Some s' \<and> inv s' \<and> table s' = fold table_spec cs (table s)"
  using assms
proof (induction cs arbitrary: s)
  case (Cons c cs)
  from call_ok [OF Cons.prems, of c] obtain s' where
    "call c s = Some s'" "inv s'" "table s' = table_spec c (table s)" by blast
  with Cons.IH [of s'] show ?case by simp
qed simp

lemma run_refines:
  "\<exists>s'. run cs start = Some s' \<and> inv s' \<and>
     (\<forall>h. (contains h s' \<longleftrightarrow> fold table_spec cs Map.empty h \<noteq> None) \<and>
          query h s' = Option.bind (fold table_spec cs Map.empty h) id)"
proof -
  from run_ok [OF start_ok(1), of cs] obtain s' where
    s': "run cs start = Some s'" "inv s'" "table s' = fold table_spec cs Map.empty"
    by (auto simp: start_ok(2))
  have "query h s' = Option.bind (fold table_spec cs Map.empty h) id" for h
    using query_ok [OF s'(2), of h] s'(3) by (cases "fold table_spec cs Map.empty h") auto
  with s' contains_ok [OF s'(2)] show ?thesis by (auto simp: dom_def)
qed

lemma query_contains: "inv s \<Longrightarrow> query h s \<noteq> None \<Longrightarrow> contains h s"
  by (auto simp: query_ok contains_ok split: option.splits)

end

end
