(* ===== verification/Resource_Map.thy ===== *)
theory Resource_Map
  imports Resource_Table "HOL-Library.AList"
begin

text \<open>
  \<open>gl::ResourceMap\<close> (src/src/libANGLE/ResourceMap.h): the table from object names to objects. Names
  below a limit are stored in a flat array that doubles on demand, all others in a hash map.

  A pointer to a resource is an option, \<^term>\<open>None\<close> being \<open>nullptr\<close>; a cell of the flat array holds a
  pointer or the \<open>InvalidPointer\<close> marker, which clients never assign. The hash map is an association
  list with distinct keys; a \<open>const_iterator\<close> is a position in it, the length being \<open>end()\<close>. The
  C++ standard leaves the order of iteration open, and no lemma below depends on it. The growth loop
  would not end from size 0: it is a partial function, and \<open>assign\<close> is proved to return.

  The lemmas show that the structure refines a finite map (locale \<open>resource_table\<close>) and that iteration
  visits every object once.
\<close>

section \<open>State\<close>

datatype 'r cell = InvalidPointer | Cell "'r option"

record 'r resource_map =
  mFlatResourcesSize :: nat
  mFlatResources :: "'r cell list"
  mHashedResources :: "(u32 \<times> 'r option) list"

definition kInitialFlatResourcesSize :: nat where
  "kInitialFlatResourcesSize = 0x20"

definition kFlatResourcesLimit :: nat where
  "kFlatResourcesLimit = 0x4000"

definition ResourceMap :: "'r resource_map" where
  "ResourceMap =
     \<lparr>mFlatResourcesSize = kInitialFlatResourcesSize,
      mFlatResources = replicate kInitialFlatResourcesSize InvalidPointer,
      mHashedResources = []\<rparr>"

section \<open>Operations\<close>

definition rm_query :: "u32 \<Rightarrow> 'r resource_map \<Rightarrow> 'r option" where
  "rm_query handle s =
     (if unat handle < mFlatResourcesSize s
      then (case mFlatResources s ! unat handle of InvalidPointer \<Rightarrow> None | Cell value \<Rightarrow> value)
      else (case map_of (mHashedResources s) handle of None \<Rightarrow> None | Some value \<Rightarrow> value))"

definition rm_contains :: "u32 \<Rightarrow> 'r resource_map \<Rightarrow> bool" where
  "rm_contains handle s =
     (if unat handle < mFlatResourcesSize s
      then mFlatResources s ! unat handle \<noteq> InvalidPointer
      else map_of (mHashedResources s) handle \<noteq> None)"

text \<open>The result \<^term>\<open>None\<close> is the return value false, with \<open>*resourceOut\<close> and the map unchanged.\<close>

definition rm_erase :: "u32 \<Rightarrow> 'r resource_map \<Rightarrow> ('r option \<times> 'r resource_map) option" where
  "rm_erase handle s =
     (if unat handle < mFlatResourcesSize s
      then (case mFlatResources s ! unat handle of
              InvalidPointer \<Rightarrow> None
            | Cell value \<Rightarrow>
                Some (value,
                      s\<lparr>mFlatResources := (mFlatResources s)[unat handle := InvalidPointer]\<rparr>))
      else (case map_of (mHashedResources s) handle of
              None \<Rightarrow> None
            | Some value \<Rightarrow>
                Some (value,
                      s\<lparr>mHashedResources := AList.delete handle (mHashedResources s)\<rparr>)))"

partial_function (option) growSize :: "nat \<Rightarrow> nat \<Rightarrow> nat option" where
  "growSize handle newSize =
     (if newSize \<le> handle then growSize handle (newSize * 2) else Some newSize)"

definition rm_grow :: "nat \<Rightarrow> 'r resource_map \<Rightarrow> 'r resource_map" where
  "rm_grow newSize s =
     s\<lparr>mFlatResources :=
         take (mFlatResourcesSize s) (mFlatResources s)
         @ replicate (newSize - mFlatResourcesSize s) InvalidPointer,
       mFlatResourcesSize := newSize\<rparr>"

definition rm_assign :: "u32 \<Rightarrow> 'r option \<Rightarrow> 'r resource_map \<Rightarrow> 'r resource_map option" where
  "rm_assign handle resource s =
     (if unat handle < kFlatResourcesLimit
      then
        Option.bind
          (if mFlatResourcesSize s \<le> unat handle
           then map_option (\<lambda>n. rm_grow n s) (growSize (unat handle) (mFlatResourcesSize s))
           else Some s)
          (\<lambda>s. Some (s\<lparr>mFlatResources := (mFlatResources s)[unat handle := Cell resource]\<rparr>))
      else Some (s\<lparr>mHashedResources := AList.update handle resource (mHashedResources s)\<rparr>))"

definition rm_clear :: "'r resource_map \<Rightarrow> 'r resource_map" where
  "rm_clear s =
     s\<lparr>mFlatResources :=
         replicate kInitialFlatResourcesSize InvalidPointer
         @ drop kInitialFlatResourcesSize (mFlatResources s),
       mFlatResourcesSize := kInitialFlatResourcesSize,
       mHashedResources := []\<rparr>"

section \<open>Iteration\<close>

record 'r rm_iterator =
  mFlatIndex :: u32
  mHashIndex :: nat
  mValue :: "u32 \<times> 'r option"

function nextNonNullResource :: "'r resource_map \<Rightarrow> nat \<Rightarrow> u32" where
  "nextNonNullResource s index =
     (if index < mFlatResourcesSize s
      then (if mFlatResources s ! index \<noteq> Cell None \<and> mFlatResources s ! index \<noteq> InvalidPointer
            then of_nat index
            else nextNonNullResource s (index + 1))
      else of_nat (mFlatResourcesSize s))"
  by pat_completeness auto

termination nextNonNullResource
  by (relation "measure (\<lambda>(s, i). mFlatResourcesSize s - i)") auto

declare nextNonNullResource.simps [simp del]

definition updateValue :: "'r resource_map \<Rightarrow> 'r rm_iterator \<Rightarrow> 'r rm_iterator" where
  "updateValue s it =
     (if mFlatIndex it < of_nat (mFlatResourcesSize s)
      then it\<lparr>mValue := (mFlatIndex it,
                case mFlatResources s ! unat (mFlatIndex it) of
                  InvalidPointer \<Rightarrow> None | Cell r \<Rightarrow> r)\<rparr>
      else if mHashIndex it \<noteq> length (mHashedResources s)
      then it\<lparr>mValue := mHashedResources s ! mHashIndex it\<rparr>
      else it)"

text \<open>\<open>mValue\<close> is value-initialised to a null pair before \<open>updateValue\<close> runs.\<close>

definition Iterator :: "'r resource_map \<Rightarrow> u32 \<Rightarrow> nat \<Rightarrow> 'r rm_iterator" where
  "Iterator s flatIndex hashIndex =
     updateValue s \<lparr>mFlatIndex = flatIndex, mHashIndex = hashIndex, mValue = (0, None)\<rparr>"

definition rm_begin :: "'r resource_map \<Rightarrow> 'r rm_iterator" where
  "rm_begin s = Iterator s (nextNonNullResource s 0) 0"

definition rm_end :: "'r resource_map \<Rightarrow> 'r rm_iterator" where
  "rm_end s = Iterator s (of_nat (mFlatResourcesSize s)) (length (mHashedResources s))"

definition iterator_eq :: "'r rm_iterator \<Rightarrow> 'r rm_iterator \<Rightarrow> bool" where
  "iterator_eq a b \<longleftrightarrow> mFlatIndex a = mFlatIndex b \<and> mHashIndex a = mHashIndex b"

definition iterator_next :: "'r resource_map \<Rightarrow> 'r rm_iterator \<Rightarrow> 'r rm_iterator" where
  "iterator_next s it =
     updateValue s
       (if mFlatIndex it < of_nat (mFlatResourcesSize s)
        then it\<lparr>mFlatIndex := nextNonNullResource s (unat (mFlatIndex it + 1))\<rparr>
        else it\<lparr>mHashIndex := mHashIndex it + 1\<rparr>)"

definition rm_empty :: "'r resource_map \<Rightarrow> bool" where
  "rm_empty s \<longleftrightarrow> iterator_eq (rm_begin s) (rm_end s)"

text \<open>A range-based loop over the map: the values seen from an iterator to \<open>end()\<close>.\<close>

partial_function (option) visit ::
  "'r resource_map \<Rightarrow> 'r rm_iterator \<Rightarrow> (u32 \<times> 'r option) list option" where
  "visit s it =
     (if iterator_eq it (rm_end s) then Some []
      else Option.bind (visit s (iterator_next s it)) (\<lambda>vs. Some (mValue it # vs)))"

section \<open>Abstract view and invariant\<close>

definition rm_table :: "'r resource_map \<Rightarrow> u32 \<rightharpoonup> 'r option" where
  "rm_table s h =
     (if unat h < mFlatResourcesSize s
      then (case mFlatResources s ! unat h of InvalidPointer \<Rightarrow> None | Cell r \<Rightarrow> Some r)
      else map_of (mHashedResources s) h)"

definition rm_inv :: "'r resource_map \<Rightarrow> bool" where
  "rm_inv s \<longleftrightarrow>
     (\<exists>k \<le> 9. mFlatResourcesSize s = 2 ^ (5 + k)) \<and>
     mFlatResourcesSize s \<le> length (mFlatResources s) \<and>
     distinct (map fst (mHashedResources s)) \<and>
     (\<forall>h \<in> fst ` set (mHashedResources s). kFlatResourcesLimit \<le> unat h)"

lemma rm_inv_size:
  assumes "rm_inv s"
  shows "0 < mFlatResourcesSize s" "mFlatResourcesSize s \<le> kFlatResourcesLimit"
proof -
  from assms obtain k where k: "k \<le> 9" "mFlatResourcesSize s = 2 ^ (5 + k)"
    by (auto simp: rm_inv_def)
  then show "0 < mFlatResourcesSize s" by simp
  have "(2::nat) ^ (5 + k) \<le> 2 ^ 14" using k(1) by (intro power_increasing) auto
  with k show "mFlatResourcesSize s \<le> kFlatResourcesLimit" by (simp add: kFlatResourcesLimit_def)
qed

lemma rm_inv_hashed:
  assumes "rm_inv s" "unat h < kFlatResourcesLimit"
  shows "map_of (mHashedResources s) h = None"
  using assms by (auto simp: rm_inv_def map_of_eq_None_iff)

lemma growSize_ok:
  assumes "sz = 2 ^ (5 + k)" "k \<le> 9" "h < kFlatResourcesLimit"
  shows "\<exists>k' \<le> 9. growSize h sz = Some (2 ^ (5 + k')) \<and> h < 2 ^ (5 + k') \<and> sz \<le> 2 ^ (5 + k')"
  using assms
proof (induction "9 - k" arbitrary: k sz)
  case 0
  then have "k = 9" by simp
  with 0 show ?case by (auto simp: growSize.simps kFlatResourcesLimit_def intro!: exI [of _ 9])
next
  case (Suc d)
  show ?case
  proof (cases "h < sz")
    case True
    then have "growSize h sz = Some sz" by (simp add: growSize.simps [of h sz])
    with Suc.prems True show ?thesis by (intro exI [of _ k]) simp
  next
    case False
    from Suc have "d = 9 - Suc k" "sz * 2 = 2 ^ (5 + Suc k)" "Suc k \<le> 9"
      by (simp_all del: power_Suc add: power_Suc2 [symmetric])
    from Suc.hyps(1) [OF this Suc.prems(3)] obtain k' where
      "k' \<le> 9" "growSize h (sz * 2) = Some (2 ^ (5 + k'))" "h < 2 ^ (5 + k')" "sz * 2 \<le> 2 ^ (5 + k')"
      by blast
    with False show ?thesis by (intro exI [of _ k']) (simp add: growSize.simps [of h sz])
  qed
qed

lemma rm_grow_ok:
  assumes "rm_inv s" "mFlatResourcesSize s \<le> 2 ^ (5 + k)" "k \<le> 9"
  shows "rm_inv (rm_grow (2 ^ (5 + k)) s)" "rm_table (rm_grow (2 ^ (5 + k)) s) = rm_table s"
proof -
  let ?n = "2 ^ (5 + k) :: nat"
  from assms show "rm_inv (rm_grow ?n s)"
    by (auto simp: rm_inv_def rm_grow_def)
  have len: "mFlatResourcesSize s \<le> length (mFlatResources s)" using assms by (simp add: rm_inv_def)
  have "(2::nat) ^ (5 + k) \<le> 2 ^ 14" using assms(3) by (intro power_increasing) auto
  then have lim: "?n \<le> kFlatResourcesLimit" by (simp add: kFlatResourcesLimit_def)
  show "rm_table (rm_grow ?n s) = rm_table s"
  proof
    fix h :: u32
    consider "unat h < mFlatResourcesSize s" | "mFlatResourcesSize s \<le> unat h" "unat h < ?n" | "?n \<le> unat h"
      by linarith
    then show "rm_table (rm_grow ?n s) h = rm_table s h"
    proof cases
      case 1
      with assms(2) have "unat h < ?n" by linarith
      with 1 len show ?thesis by (simp add: rm_table_def rm_grow_def nth_append)
    next
      case 2
      with len rm_inv_hashed [OF assms(1)] lim show ?thesis
        by (simp add: rm_table_def rm_grow_def nth_append)
    next
      case 3
      with assms(2) show ?thesis by (simp add: rm_table_def rm_grow_def)
    qed
  qed
qed

lemma flat_update_ok:
  assumes "rm_inv s" "unat h < mFlatResourcesSize s"
  shows "rm_inv (s\<lparr>mFlatResources := (mFlatResources s)[unat h := c]\<rparr>)"
    and "rm_table (s\<lparr>mFlatResources := (mFlatResources s)[unat h := c]\<rparr>)
         = (rm_table s)(h := case c of InvalidPointer \<Rightarrow> None | Cell r \<Rightarrow> Some r)"
proof -
  show "rm_inv (s\<lparr>mFlatResources := (mFlatResources s)[unat h := c]\<rparr>)"
    using assms(1) by (simp add: rm_inv_def)
  have "unat h < length (mFlatResources s)" using assms by (simp add: rm_inv_def)
  with assms(2) show "rm_table (s\<lparr>mFlatResources := (mFlatResources s)[unat h := c]\<rparr>)
         = (rm_table s)(h := case c of InvalidPointer \<Rightarrow> None | Cell r \<Rightarrow> Some r)"
    by (intro ext) (simp add: rm_table_def nth_list_update word_unat_eq_iff)
qed

lemma rm_assign_ok:
  assumes "rm_inv s"
  shows "\<exists>s'. rm_assign h r s = Some s' \<and> rm_inv s' \<and> rm_table s' = (rm_table s)(h \<mapsto> r)"
proof (cases "unat h < kFlatResourcesLimit")
  case True
  obtain s0 where s0: "(if mFlatResourcesSize s \<le> unat h
           then map_option (\<lambda>n. rm_grow n s) (growSize (unat h) (mFlatResourcesSize s))
           else Some s) = Some s0" "rm_inv s0" "rm_table s0 = rm_table s" "unat h < mFlatResourcesSize s0"
  proof (cases "mFlatResourcesSize s \<le> unat h")
    case grow: True
    from assms obtain k where "mFlatResourcesSize s = 2 ^ (5 + k)" "k \<le> 9" by (auto simp: rm_inv_def)
    from growSize_ok [OF this True] obtain k' where k': "k' \<le> 9"
      "growSize (unat h) (mFlatResourcesSize s) = Some (2 ^ (5 + k'))" "unat h < 2 ^ (5 + k')"
      "mFlatResourcesSize s \<le> 2 ^ (5 + k')" by blast
    show ?thesis
      by (rule that [of "rm_grow (2 ^ (5 + k')) s"])
        (use k' grow rm_grow_ok [OF assms k'(4,1)] in \<open>simp_all add: rm_grow_def\<close>)
  qed (use assms that in auto)
  from True flat_update_ok [OF s0(2,4), of "Cell r"] s0 show ?thesis
    by (simp add: rm_assign_def)
next
  case False
  have "distinct (map fst (AList.update h r (mHashedResources s)))"
    using assms by (simp add: rm_inv_def distinct_update)
  moreover have "fst ` set (AList.update h r (mHashedResources s)) = insert h (fst ` set (mHashedResources s))"
    by (simp add: dom_update)
  ultimately have "rm_inv (s\<lparr>mHashedResources := AList.update h r (mHashedResources s)\<rparr>)"
    using assms False by (simp add: rm_inv_def)
  moreover have "\<not> unat h < mFlatResourcesSize s"
    using False rm_inv_size(2) [OF assms] by linarith
  then have "rm_table (s\<lparr>mHashedResources := AList.update h r (mHashedResources s)\<rparr>) = (rm_table s)(h \<mapsto> r)"
    by (intro ext) (auto simp: rm_table_def update_conv)
  ultimately show ?thesis using False by (simp add: rm_assign_def)
qed

lemma rm_erase_miss: "rm_table s h = None \<Longrightarrow> rm_erase h s = None"
  by (auto simp: rm_table_def rm_erase_def split: if_splits cell.splits option.splits)

lemma rm_erase_hit:
  assumes "rm_inv s" "rm_table s h = Some r"
  shows "\<exists>s'. rm_erase h s = Some (r, s') \<and> rm_inv s' \<and> rm_table s' = (rm_table s)(h := None)"
proof (cases "unat h < mFlatResourcesSize s")
  case True
  with assms(2) have "mFlatResources s ! unat h = Cell r"
    by (simp add: rm_table_def split: cell.splits)
  with True flat_update_ok [OF assms(1) True, of InvalidPointer] show ?thesis
    by (simp add: rm_erase_def)
next
  case False
  let ?s = "s\<lparr>mHashedResources := AList.delete h (mHashedResources s)\<rparr>"
  have "\<forall>k \<in> fst ` set (AList.delete h (mHashedResources s)). kFlatResourcesLimit \<le> unat k"
    using assms(1) dom_delete_subset [of h "mHashedResources s"] unfolding rm_inv_def by (meson subsetD)
  then have "rm_inv ?s"
    using assms(1) by (simp add: rm_inv_def distinct_delete)
  moreover have "rm_table ?s = (rm_table s)(h := None)"
    using False by (intro ext) (auto simp: rm_table_def delete_conv)
  ultimately show ?thesis using assms(2) False by (simp add: rm_erase_def rm_table_def)
qed

lemma rm_clear_ok:
  assumes "rm_inv s"
  shows "rm_inv (rm_clear s)" "rm_table (rm_clear s) = Map.empty"
proof -
  show "rm_inv (rm_clear s)"
    by (auto simp: rm_inv_def rm_clear_def kInitialFlatResourcesSize_def intro!: exI [of _ 0])
  show "rm_table (rm_clear s) = Map.empty"
    by (rule ext) (simp add: rm_table_def rm_clear_def nth_append)
qed

lemma ResourceMap_ok: "rm_inv ResourceMap" "rm_table ResourceMap = Map.empty"
proof -
  show "rm_inv ResourceMap"
    by (auto simp: rm_inv_def ResourceMap_def kInitialFlatResourcesSize_def intro!: exI [of _ 0])
  show "rm_table ResourceMap = Map.empty"
    by (rule ext) (simp add: rm_table_def ResourceMap_def)
qed

interpretation rm: resource_table rm_inv rm_table ResourceMap rm_assign rm_erase rm_clear rm_contains rm_query
proof
  fix s :: "'r resource_map" and h and r :: "'r option"
  show "rm_inv (ResourceMap :: 'r resource_map)" "rm_table (ResourceMap :: 'r resource_map) = Map.empty"
    by (rule ResourceMap_ok)+
  show "rm_table s h = None \<Longrightarrow> rm_erase h s = None"
    by (rule rm_erase_miss)
  assume inv: "rm_inv s"
  show "\<exists>s'. rm_assign h r s = Some s' \<and> rm_inv s' \<and> rm_table s' = (rm_table s)(h \<mapsto> r)"
    by (rule rm_assign_ok [OF inv])
  show "rm_table s h = Some r \<Longrightarrow>
      \<exists>s'. rm_erase h s = Some (r, s') \<and> rm_inv s' \<and> rm_table s' = (rm_table s)(h := None)"
    by (rule rm_erase_hit [OF inv])
  show "rm_inv (rm_clear s)" "rm_table (rm_clear s) = Map.empty"
    by (rule rm_clear_ok [OF inv])+
  show "rm_contains h s \<longleftrightarrow> h \<in> dom (rm_table s)"
    by (auto simp: rm_contains_def rm_table_def split: cell.splits)
  show "rm_query h s = (case rm_table s h of None \<Rightarrow> None | Some r \<Rightarrow> r)"
    by (auto simp: rm_query_def rm_table_def split: cell.splits option.splits)
qed

section \<open>Iteration visits every object once\<close>

definition flat_objects :: "'r resource_map \<Rightarrow> nat \<Rightarrow> (u32 \<times> 'r option) list" where
  "flat_objects s i =
     concat (map (\<lambda>j. case mFlatResources s ! j of Cell (Some r) \<Rightarrow> [(of_nat j, Some r)] | _ \<Rightarrow> [])
       [i..<mFlatResourcesSize s])"

lemma flat_objects_step:
  "i < mFlatResourcesSize s \<Longrightarrow>
   flat_objects s i =
     (case mFlatResources s ! i of Cell (Some r) \<Rightarrow> [(of_nat i, Some r)] | _ \<Rightarrow> []) @ flat_objects s (i + 1)"
  by (simp add: flat_objects_def upt_conv_Cons)

lemma flat_objects_end: "mFlatResourcesSize s \<le> i \<Longrightarrow> flat_objects s i = []"
  by (simp add: flat_objects_def)

lemma rm_unat_index:
  "rm_inv s \<Longrightarrow> i \<le> mFlatResourcesSize s \<Longrightarrow> unat (of_nat i :: u32) = i"
  using rm_inv_size(2) [of s] by (simp add: unat_of_nat take_bit_nat_eq_self kFlatResourcesLimit_def)

lemma rm_index_less:
  assumes "rm_inv s"
  shows "(x :: u32) < of_nat (mFlatResourcesSize s) \<longleftrightarrow> unat x < mFlatResourcesSize s"
  using rm_unat_index [OF assms order_refl] by (simp add: word_less_nat_alt)

lemma updateValue_index [simp]:
  "mFlatIndex (updateValue s it) = mFlatIndex it" "mHashIndex (updateValue s it) = mHashIndex it"
  by (simp_all add: updateValue_def)

lemma rm_end_index [simp]:
  "mFlatIndex (rm_end s) = of_nat (mFlatResourcesSize s)" "mHashIndex (rm_end s) = length (mHashedResources s)"
  by (simp_all add: rm_end_def Iterator_def)

lemma visit_hashed:
  assumes "j \<le> length (mHashedResources s)" "mFlatIndex it = of_nat (mFlatResourcesSize s)"
    "mHashIndex it = j"
  shows "visit s (updateValue s it) = Some (drop j (mHashedResources s))"
  using assms
proof (induction "length (mHashedResources s) - j" arbitrary: j it)
  case 0
  then show ?case by (simp add: visit.simps iterator_eq_def)
next
  case (Suc d)
  let ?it = "updateValue s it"
  have "visit s (iterator_next s ?it) = Some (drop (j + 1) (mHashedResources s))"
    unfolding iterator_next_def using Suc by simp
  moreover have "mValue ?it = mHashedResources s ! j"
    using Suc(2-) by (auto simp: updateValue_def)
  ultimately show ?case
    using Suc(2-) by (simp add: visit.simps [of s ?it] iterator_eq_def Cons_nth_drop_Suc)
qed

lemma visit_flat:
  assumes "rm_inv s" "mFlatIndex it = nextNonNullResource s i" "mHashIndex it = 0" "i \<le> mFlatResourcesSize s"
  shows "visit s (updateValue s it) = Some (flat_objects s i @ mHashedResources s)"
  using assms(2-)
proof (induction "mFlatResourcesSize s - i" arbitrary: i it)
  case 0
  then show ?case
    using visit_hashed [of 0 s it] by (simp add: nextNonNullResource.simps [of s i] flat_objects_end)
next
  case (Suc d)
  then have i: "i < mFlatResourcesSize s" by simp
  have next_i: "d = mFlatResourcesSize s - (i + 1)" "i + 1 \<le> mFlatResourcesSize s" using Suc by auto
  show ?case
  proof (cases "mFlatResources s ! i \<noteq> Cell None \<and> mFlatResources s ! i \<noteq> InvalidPointer")
    case False
    then have "nextNonNullResource s i = nextNonNullResource s (i + 1)"
      using i by (auto simp: nextNonNullResource.simps [of s i])
    then have "visit s (updateValue s it) = Some (flat_objects s (i + 1) @ mHashedResources s)"
      using Suc.hyps(1) [OF next_i(1)] Suc.prems next_i(2) by simp
    with False i show ?thesis by (auto simp: flat_objects_step)
  next
    case True
    then obtain r where r: "mFlatResources s ! i = Cell (Some r)"
      by (cases "mFlatResources s ! i") auto
    have flat: "mFlatIndex it = of_nat i"
      using True i Suc.prems(1) by (simp add: nextNonNullResource.simps [of s i])
    have ui: "unat (of_nat i :: u32) = i"
      using rm_unat_index [OF assms(1), of i] i by simp
    have less: "of_nat i < (of_nat (mFlatResourcesSize s) :: u32)"
      using i by (simp add: rm_index_less [OF assms(1)] ui)
    have "unat (of_nat i + 1 :: u32) = i + 1"
      using rm_unat_index [OF assms(1), of "i + 1"] i by (simp add: add.commute)
    then have "visit s (iterator_next s (updateValue s it)) = Some (flat_objects s (i + 1) @ mHashedResources s)"
      unfolding iterator_next_def using Suc.hyps(1) [OF next_i(1)] Suc.prems(2) next_i(2) less
      by (simp add: flat)
    moreover have "mValue (updateValue s it) = (of_nat i, Some r)"
      using less r by (simp add: updateValue_def flat ui)
    moreover from less have "of_nat i \<noteq> (of_nat (mFlatResourcesSize s) :: u32)" by (simp only: less_imp_neq not_False_eq_True)
    ultimately show ?thesis
      by (simp add: visit.simps [of s "updateValue s it"] iterator_eq_def flat
          flat_objects_step [OF i] r)
  qed
qed

lemma set_flat_objects:
  assumes "rm_inv s"
  shows "(h, r) \<in> set (flat_objects s 0) \<longleftrightarrow>
    unat h < mFlatResourcesSize s \<and> r \<noteq> None \<and> rm_table s h = Some r"
proof -
  have "(h, r) \<in> set (flat_objects s 0) \<longleftrightarrow>
      (\<exists>j < mFlatResourcesSize s. h = of_nat j \<and> (\<exists>x. r = Some x \<and> mFlatResources s ! j = Cell (Some x)))"
    by (auto simp: flat_objects_def split: cell.splits option.splits) force
  also have "\<dots> \<longleftrightarrow> unat h < mFlatResourcesSize s \<and> (\<exists>x. r = Some x \<and> mFlatResources s ! unat h = Cell (Some x))"
    using rm_unat_index [OF assms] by (metis less_imp_le word_unat_eq_iff)
  finally show ?thesis
    by (auto simp: rm_table_def split: cell.splits)
qed

lemma distinct_flat_objects:
  assumes "rm_inv s"
  shows "distinct (map fst (flat_objects s i))"
proof -
  let ?f = "\<lambda>j. case mFlatResources s ! j of Cell (Some r) \<Rightarrow> [of_nat j] | _ \<Rightarrow> ([] :: u32 list)"
  have "map fst (flat_objects s i) = concat (map ?f [i..<mFlatResourcesSize s])"
    by (auto simp: flat_objects_def map_concat comp_def intro!: arg_cong [of _ _ concat] split: cell.splits option.splits)
  moreover have "concat (map ?f js) = map of_nat (filter (\<lambda>j. case mFlatResources s ! j of Cell (Some r) \<Rightarrow> True | _ \<Rightarrow> False) js)" for js
    by (induction js) (auto split: cell.splits option.splits)
  moreover have "inj_on (of_nat :: nat \<Rightarrow> u32) {i..<mFlatResourcesSize s}"
    by (rule inj_on_inverseI [of _ unat]) (use rm_unat_index [OF assms] in auto)
  ultimately show ?thesis by (auto simp: distinct_map intro: inj_on_subset)
qed

lemma visit_all:
  assumes "rm_inv s"
  shows "\<exists>vs. visit s (rm_begin s) = Some vs \<and> distinct (map fst vs) \<and>
    (\<forall>h r. (h, r) \<in> set vs \<longleftrightarrow>
       rm_table s h = Some r \<and> (r \<noteq> None \<or> mFlatResourcesSize s \<le> unat h))"
proof (intro exI conjI allI)
  let ?vs = "flat_objects s 0 @ mHashedResources s"
  show "visit s (rm_begin s) = Some ?vs"
    unfolding rm_begin_def Iterator_def using visit_flat [OF assms] by simp
  have hashed: "(h, r) \<in> set (mHashedResources s) \<longleftrightarrow> mFlatResourcesSize s \<le> unat h \<and> rm_table s h = Some r" for h r
  proof -
    have "mFlatResourcesSize s \<le> unat h" if "(h, r) \<in> set (mHashedResources s)"
      using assms that rm_inv_size(2) [OF assms] unfolding rm_inv_def by force
    moreover have "map_of (mHashedResources s) h = Some r \<longleftrightarrow> (h, r) \<in> set (mHashedResources s)"
      using assms by (intro map_of_eq_Some_iff) (simp add: rm_inv_def)
    ultimately show ?thesis by (auto simp: rm_table_def)
  qed
  show "(h, r) \<in> set ?vs \<longleftrightarrow> rm_table s h = Some r \<and> (r \<noteq> None \<or> mFlatResourcesSize s \<le> unat h)" for h r
    by (auto simp: set_flat_objects [OF assms] hashed)
  have "x \<notin> fst ` set (mHashedResources s)" if "x \<in> fst ` set (flat_objects s 0)" for x
    using that by (auto simp: set_flat_objects [OF assms] hashed)
  with distinct_flat_objects [OF assms] assms show "distinct (map fst ?vs)"
    by (auto simp: rm_inv_def)
qed

lemma visit_Nil: "visit s it = Some [] \<longleftrightarrow> iterator_eq it (rm_end s)"
  by (subst visit.simps) (auto simp: Option.bind_eq_Some_conv)

section \<open>Properties\<close>

text \<open>
  C7. After any sequence of \<open>assign\<close>, \<open>erase\<close> and \<open>clear\<close> calls, whichever names they use and
  however often the flat array grows, every call has returned and \<open>contains\<close> and \<open>query\<close> answer
  as a finite map updated by the same calls.
\<close>

theorem resource_map_refines:
  "\<exists>s. table_run (table_call rm_assign rm_erase rm_clear) cs ResourceMap = Some s \<and> rm_inv s \<and>
     (\<forall>h. (rm_contains h s \<longleftrightarrow> fold table_spec cs Map.empty h \<noteq> None) \<and>
          rm_query h s = Option.bind (fold table_spec cs Map.empty h) id)"
  by (rule rm.run_refines)

text \<open>
  C8. A loop from \<open>begin()\<close> to \<open>end()\<close> terminates and yields every name at most once: all names with
  an object, and of the names that are only reserved those stored in the hash map but none of those
  stored in the flat array. \<open>empty()\<close> holds exactly when the loop yields nothing.
\<close>

theorem resource_map_iteration:
  assumes "rm_inv s"
  shows "\<exists>vs. visit s (rm_begin s) = Some vs \<and> distinct (map fst vs) \<and>
    (\<forall>h r. (h, r) \<in> set vs \<longleftrightarrow>
       rm_table s h = Some r \<and> (r \<noteq> None \<or> mFlatResourcesSize s \<le> unat h)) \<and>
    (rm_empty s \<longleftrightarrow> vs = [])"
  using visit_all [OF assms] visit_Nil [of s "rm_begin s"] by (auto simp: rm_empty_def)

text \<open>A reserved name: skipped below the limit, visited above it.\<close>

theorem resource_map_iteration_witness:
  "\<exists>s. rm_assign 0x4000 None (ResourceMap :: nat resource_map) = Some s \<and> \<not> rm_empty s"
proof -
  obtain s where s: "rm_assign 0x4000 None (ResourceMap :: nat resource_map) = Some s" "rm_inv s"
    "rm_table s = (rm_table ResourceMap)(0x4000 \<mapsto> None)"
    using rm_assign_ok [OF ResourceMap_ok(1)] by blast
  from resource_map_iteration [OF s(2)] obtain vs where
    "\<forall>h r. (h, r) \<in> set vs \<longleftrightarrow> rm_table s h = Some r \<and> (r \<noteq> None \<or> mFlatResourcesSize s \<le> unat h)"
    "rm_empty s \<longleftrightarrow> vs = []" by blast
  moreover have "mFlatResourcesSize s \<le> unat (0x4000 :: u32)"
    using rm_inv_size(2) [OF s(2)] by (simp add: kFlatResourcesLimit_def)
  ultimately have "(0x4000, None) \<in> set vs" "rm_empty s \<longleftrightarrow> vs = []" using s(3) by simp_all
  then have "\<not> rm_empty s" by auto
  with s(1) show ?thesis by blast
qed

end
