(* ===== verification/Object_Store.thy ===== *)
theory Object_Store
  imports Prelude "HOL-Library.Multiset"
begin

text \<open>
  \<open>angle::RefCountObject\<close> and \<open>angle::BindingPointer\<close> (src/src/libANGLE/RefCountObject.h): objects
  shared by several owners, destroyed when the last reference goes.

  The heap of objects is explicit: an object is an address, and the store maps the address of a live
  object to its count. A use of an address that is not live, and a release at count 0 (where the
  counter would wrap), are \<^term>\<open>None\<close>. A count is a \<open>size_t\<close> that counts references that exist in
  memory at the same time, so it cannot wrap on the way up and is a natural number.

  \<open>store_ok st M\<close> says that \<open>M\<close> is the multiset of all references held anywhere: the count of
  every object is its multiplicity in \<open>M\<close>, and an object without a reference is not alive.
\<close>

section \<open>Operations\<close>

record object_store =
  next_object :: nat
  mRefCount :: "nat \<rightharpoonup> nat"

definition empty_store :: object_store where
  "empty_store = \<lparr>next_object = 0, mRefCount = Map.empty\<rparr>"

definition new_object :: "object_store \<Rightarrow> nat \<times> object_store" where
  "new_object st =
     (next_object st,
      st\<lparr>next_object := next_object st + 1, mRefCount := (mRefCount st)(next_object st \<mapsto> 0)\<rparr>)"

definition rc_addRef :: "nat \<Rightarrow> object_store \<Rightarrow> object_store option" where
  "rc_addRef a st =
     (case mRefCount st a of
        None \<Rightarrow> None
      | Some n \<Rightarrow> Some (st\<lparr>mRefCount := (mRefCount st)(a \<mapsto> n + 1)\<rparr>))"

definition rc_release :: "nat \<Rightarrow> object_store \<Rightarrow> object_store option" where
  "rc_release a st =
     (case mRefCount st a of
        None \<Rightarrow> None
      | Some n \<Rightarrow>
          (if n = 0 then None
           else if n - 1 = 0 then Some (st\<lparr>mRefCount := (mRefCount st)(a := None)\<rparr>)
           else Some (st\<lparr>mRefCount := (mRefCount st)(a \<mapsto> n - 1)\<rparr>)))"

definition rc_getRefCount :: "nat \<Rightarrow> object_store \<Rightarrow> nat option" where
  "rc_getRefCount a st = mRefCount st a"

text \<open>A \<open>BindingPointer\<close> is its \<open>mObject\<close>; the operations return the new pointer and the store.\<close>

definition BindingPointer :: "nat option \<Rightarrow> object_store \<Rightarrow> (nat option \<times> object_store) option" where
  "BindingPointer p st =
     (case p of
        None \<Rightarrow> Some (None, st)
      | Some a \<Rightarrow> map_option (\<lambda>st. (Some a, st)) (rc_addRef a st))"

definition BindingPointer_set ::
  "nat option \<Rightarrow> nat option \<Rightarrow> object_store \<Rightarrow> (nat option \<times> object_store) option" where
  "BindingPointer_set newObject mObject st =
     Option.bind (case newObject of None \<Rightarrow> Some st | Some a \<Rightarrow> rc_addRef a st)
       (\<lambda>st. Option.bind (case mObject of None \<Rightarrow> Some st | Some a \<Rightarrow> rc_release a st)
         (\<lambda>st. Some (newObject, st)))"

section \<open>References and counts\<close>

definition store_ok :: "object_store \<Rightarrow> nat multiset \<Rightarrow> bool" where
  "store_ok st M \<longleftrightarrow>
     (\<forall>a. mRefCount st a = (if a \<in># M then Some (count M a) else None)) \<and>
     (\<forall>a \<in># M. a < next_object st)"

lemma empty_store_ok: "store_ok empty_store {#}"
  by (simp add: store_ok_def empty_store_def)

lemma rc_addRef_ok:
  assumes "store_ok st M" "a \<in># M"
  shows "\<exists>st'. rc_addRef a st = Some st' \<and> store_ok st' (add_mset a M)"
  using assms by (auto simp: store_ok_def rc_addRef_def)

lemma rc_release_ok:
  assumes "store_ok st (add_mset a M)"
  shows "\<exists>st'. rc_release a st = Some st' \<and> store_ok st' M"
  using assms by (auto simp: store_ok_def rc_release_def not_in_iff)

lemma new_addRef_ok:
  assumes "store_ok st M" "new_object st = (a, st1)"
  shows "\<exists>st'. rc_addRef a st1 = Some st' \<and> store_ok st' (add_mset a M) \<and> a \<notin># M"
proof -
  have "next_object st \<notin># M" using assms(1) by (auto simp: store_ok_def)
  then show ?thesis
    using assms by (auto simp: store_ok_def rc_addRef_def new_object_def count_eq_zero_iff less_Suc_eq)
qed

text \<open>\<open>refs_of\<close>: the references a list of \<open>BindingPointer\<close>s holds.\<close>

definition refs_of :: "nat option list \<Rightarrow> nat multiset" where
  "refs_of ps = mset (concat (map (\<lambda>p. case p of None \<Rightarrow> [] | Some a \<Rightarrow> [a]) ps))"

lemma refs_of_simps [simp]:
  "refs_of [] = {#}"
  "refs_of (None # ps) = refs_of ps"
  "refs_of (Some a # ps) = add_mset a (refs_of ps)"
  "refs_of (ps @ qs) = refs_of ps + refs_of qs"
  by (simp_all add: refs_of_def)

lemma refs_of_Cons: "refs_of (p # ps) = refs_of [p] + refs_of ps"
  by (cases p) simp_all

lemma refs_of_update:
  assumes "i < length ps"
  shows "refs_of (ps[i := p]) + refs_of [ps ! i] = refs_of ps + refs_of [p]"
  using assms
proof (induction ps arbitrary: i)
  case (Cons q ps)
  show ?case
  proof (cases i)
    case 0
    then show ?thesis using refs_of_Cons [of p ps] refs_of_Cons [of q ps] by (simp add: ac_simps)
  next
    case (Suc j)
    with Cons have "refs_of (ps[j := p]) + refs_of [ps ! j] = refs_of ps + refs_of [p]" by simp
    then show ?thesis
      using Suc refs_of_Cons [of q ps] refs_of_Cons [of q "ps[j := p]"] by (simp add: ac_simps)
  qed
qed simp

text \<open>Rebinding: the count of the new object goes up before that of the old one goes down.\<close>

lemma BindingPointer_set_ok:
  assumes ok: "store_ok st (refs_of [p] + M)" and live: "\<And>a. q = Some a \<Longrightarrow> a \<in># refs_of [p] + M"
  shows "\<exists>st'. BindingPointer_set q p st = Some (q, st') \<and> store_ok st' (refs_of [q] + M)"
proof -
  obtain st1 where st1: "(case q of None \<Rightarrow> Some st | Some a \<Rightarrow> rc_addRef a st) = Some st1"
    "store_ok st1 (refs_of [q] + (refs_of [p] + M))"
  proof (cases q)
    case (Some a)
    from rc_addRef_ok [OF ok live [OF Some]] Some that show ?thesis by auto
  qed (use ok that in simp)
  obtain st2 where "(case p of None \<Rightarrow> Some st1 | Some a \<Rightarrow> rc_release a st1) = Some st2"
    "store_ok st2 (refs_of [q] + M)"
  proof (cases p)
    case (Some a)
    with st1(2) have "store_ok st1 (add_mset a (refs_of [q] + M))" by simp
    from rc_release_ok [OF this] Some that show ?thesis by auto
  qed (use st1 that in simp)
  with st1(1) show ?thesis by (simp add: BindingPointer_set_def)
qed

lemma BindingPointer_ok:
  assumes "store_ok st M" "\<And>a. p = Some a \<Longrightarrow> a \<in># M"
  shows "\<exists>st'. BindingPointer p st = Some (p, st') \<and> store_ok st' (refs_of [p] + M)"
  using assms rc_addRef_ok [OF assms(1)] by (cases p) (force simp: BindingPointer_def)+

end
