(* ===== verification/Resource_Manager.thy ===== *)
theory Resource_Manager
  imports Handle_Allocator Resource_Map Object_Store
begin

text \<open>
  \<open>gl::TypedResourceManager\<close> and \<open>gl::ResourceManagerBase\<close> (src/src/libANGLE/ResourceManager.{h,cpp}):
  the objects of one kind in a share group, by name. The model is the manager of a reference-counted
  kind (buffers, textures, renderbuffers, samplers, program pipelines), whose \<open>AllocateNewObject\<close> is
  \<open>new\<close> followed by \<open>addRef\<close> and whose \<open>DeleteObject\<close> is \<open>release\<close>; what the object itself holds is not
  modelled. \<^term>\<open>None\<close> is an exhausted name space or a use of memory that is not alive.

  A world adds the binding points of the contexts that share the manager. \<open>exec\<close> is what a context
  does for an entry point after validation; the lemmas show that no sequence of such calls touches a
  dead object, loses a name or leaks an object.
\<close>

section \<open>State and operations\<close>

record typed_manager =
  mHandleAllocator :: handle_allocator
  mObjectMap :: "nat resource_map"
  mManagerRefCount :: nat

definition TypedResourceManager :: typed_manager where
  "TypedResourceManager =
     \<lparr>mHandleAllocator = HandleAllocator, mObjectMap = ResourceMap, mManagerRefCount = 1\<rparr>"

definition AllocateEmptyObject :: "typed_manager \<Rightarrow> (u32 \<times> typed_manager) option" where
  "AllocateEmptyObject m =
     Option.bind (ha_allocate (mHandleAllocator m)) (\<lambda>(handle, alloc).
       Option.bind (rm_assign handle None (mObjectMap m)) (\<lambda>objs.
         Some (handle, m\<lparr>mHandleAllocator := alloc, mObjectMap := objs\<rparr>)))"

definition isHandleGenerated :: "u32 \<Rightarrow> typed_manager \<Rightarrow> bool" where
  "isHandleGenerated handle m \<longleftrightarrow> handle = 0 \<or> rm_contains handle (mObjectMap m)"

definition getObject :: "u32 \<Rightarrow> typed_manager \<Rightarrow> nat option" where
  "getObject handle m = rm_query handle (mObjectMap m)"

definition AllocateNewObject :: "object_store \<Rightarrow> (nat \<times> object_store) option" where
  "AllocateNewObject st =
     (case new_object st of (a, st) \<Rightarrow> map_option (\<lambda>st. (a, st)) (rc_addRef a st))"

definition checkObjectAllocationImpl ::
  "u32 \<Rightarrow> typed_manager \<Rightarrow> object_store \<Rightarrow> (nat option \<times> typed_manager \<times> object_store) option" where
  "checkObjectAllocationImpl handle m st =
     Option.bind (AllocateNewObject st) (\<lambda>(object, st).
       Option.bind
         (if \<not> rm_contains handle (mObjectMap m)
          then ha_reserve handle (mHandleAllocator m)
          else Some (mHandleAllocator m)) (\<lambda>alloc.
         Option.bind (rm_assign handle (Some object) (mObjectMap m)) (\<lambda>objs.
           Some (Some object, m\<lparr>mHandleAllocator := alloc, mObjectMap := objs\<rparr>, st))))"

definition checkObjectAllocation ::
  "u32 \<Rightarrow> typed_manager \<Rightarrow> object_store \<Rightarrow> (nat option \<times> typed_manager \<times> object_store) option" where
  "checkObjectAllocation handle m st =
     (case rm_query handle (mObjectMap m) of
        Some value \<Rightarrow> Some (Some value, m, st)
      | None \<Rightarrow>
          (if handle = 0 then Some (None, m, st)
           else checkObjectAllocationImpl handle m st))"

definition deleteObject ::
  "u32 \<Rightarrow> typed_manager \<Rightarrow> object_store \<Rightarrow> (typed_manager \<times> object_store) option" where
  "deleteObject handle m st =
     (case rm_erase handle (mObjectMap m) of
        None \<Rightarrow> Some (m, st)
      | Some (resource, objs) \<Rightarrow>
          let m = m\<lparr>mObjectMap := objs,
                    mHandleAllocator := ha_release handle (mHandleAllocator m)\<rparr>
          in (case resource of
                None \<Rightarrow> Some (m, st)
              | Some object \<Rightarrow> map_option (\<lambda>st. (m, st)) (rc_release object st)))"

fun release_all :: "(u32 \<times> nat option) list \<Rightarrow> object_store \<Rightarrow> object_store option" where
  "release_all [] st = Some st"
| "release_all ((h, None) # vs) st = release_all vs st"
| "release_all ((h, Some object) # vs) st = Option.bind (rc_release object st) (release_all vs)"

definition tm_reset :: "typed_manager \<Rightarrow> object_store \<Rightarrow> (typed_manager \<times> object_store) option" where
  "tm_reset m st =
     Option.bind (visit (mObjectMap m) (rm_begin (mObjectMap m))) (\<lambda>resources.
       Option.bind (release_all resources st) (\<lambda>st.
         Some (m\<lparr>mHandleAllocator := ha_reset (mHandleAllocator m),
                 mObjectMap := rm_clear (mObjectMap m)\<rparr>, st)))"

definition tm_addRef :: "typed_manager \<Rightarrow> typed_manager" where
  "tm_addRef m = m\<lparr>mManagerRefCount := mManagerRefCount m + 1\<rparr>"

text \<open>The first result is whether the manager itself has been deleted.\<close>

definition tm_release ::
  "typed_manager \<Rightarrow> object_store \<Rightarrow> (bool \<times> typed_manager \<times> object_store) option" where
  "tm_release m st =
     (let m = m\<lparr>mManagerRefCount := mManagerRefCount m - 1\<rparr>
      in if mManagerRefCount m = 0
         then map_option (\<lambda>(m, st). (True, m, st)) (tm_reset m st)
         else Some (False, m, st))"

section \<open>Contexts that share the manager\<close>

record world =
  manager :: typed_manager
  store :: object_store
  bindings :: "nat option list"

definition fresh_world :: "nat \<Rightarrow> world" where
  "fresh_world n =
     \<lparr>manager = TypedResourceManager, store = empty_store, bindings = replicate n None\<rparr>"

text \<open>
  \<open>Gen\<close> is \<open>glGen*\<close> for one name, \<open>Bind h i\<close> is \<open>glBind*\<close> of the name \<open>h\<close> at binding point \<open>i\<close>, which
  creates the object on first use, \<open>Copy i j\<close> binds the object of point \<open>i\<close> at \<open>j\<close> as well, \<open>Unbind\<close>
  resets a point, \<open>Delete\<close> is \<open>glDelete*\<close> for one name. A binding point that does not exist is
  rejected by validation.
\<close>

datatype command = Gen | Bind u32 nat | Copy nat nat | Unbind nat | Delete u32

definition set_binding :: "nat \<Rightarrow> nat option \<Rightarrow> world \<Rightarrow> world option" where
  "set_binding i p w =
     (if i < length (bindings w)
      then map_option (\<lambda>(q, st). w\<lparr>store := st, bindings := (bindings w)[i := q]\<rparr>)
             (BindingPointer_set p (bindings w ! i) (store w))
      else Some w)"

fun exec :: "command \<Rightarrow> world \<Rightarrow> world option" where
  "exec Gen w = map_option (\<lambda>(h, m). w\<lparr>manager := m\<rparr>) (AllocateEmptyObject (manager w))"
| "exec (Bind h i) w =
     Option.bind (checkObjectAllocation h (manager w) (store w))
       (\<lambda>(p, m, st). set_binding i p (w\<lparr>manager := m, store := st\<rparr>))"
| "exec (Copy i j) w = (if i < length (bindings w) then set_binding j (bindings w ! i) w else Some w)"
| "exec (Unbind i) w = set_binding i None w"
| "exec (Delete h) w =
     map_option (\<lambda>(m, st). w\<lparr>manager := m, store := st\<rparr>) (deleteObject h (manager w) (store w))"

section \<open>Invariant\<close>

text \<open>The references held by a table: one for every name that has an object.\<close>

definition owned :: "(u32 \<rightharpoonup> nat option) \<Rightarrow> nat multiset" where
  "owned t = image_mset (\<lambda>h. the (the (t h))) (mset_set {h. \<exists>a. t h = Some (Some a)})"

lemma owned_empty [simp]: "owned Map.empty = {#}"
  by (simp add: owned_def)

lemma owned_other:
  assumes "\<And>a. t h \<noteq> Some (Some a)" "\<And>a. p \<noteq> Some (Some a)"
  shows "owned (t(h := p)) = owned t"
proof -
  have eq: "{x. \<exists>a. (t(h := p)) x = Some (Some a)} = {x. \<exists>a. t x = Some (Some a)}"
    using assms by auto
  show ?thesis unfolding owned_def eq
    using assms(1) by (intro image_mset_cong) auto
qed

lemma owned_add:
  assumes "\<And>b. t h \<noteq> Some (Some b)"
  shows "owned (t(h \<mapsto> Some a)) = add_mset a (owned t)"
proof -
  have eq: "{x. \<exists>b. (t(h \<mapsto> Some a)) x = Some (Some b)} = insert h {x. \<exists>b. t x = Some (Some b)}"
    by auto
  have "image_mset (\<lambda>x. the (the ((t(h \<mapsto> Some a)) x))) (mset_set {x. \<exists>b. t x = Some (Some b)}) = owned t"
    unfolding owned_def using assms by (intro image_mset_cong) auto
  then show ?thesis
    unfolding owned_def eq using assms by simp
qed

lemma owned_remove:
  assumes "t h = Some (Some a)" "\<And>b. p \<noteq> Some (Some b)"
  shows "owned t = add_mset a (owned (t(h := p)))"
  using owned_add [of "t(h := p)" h a] assms by (simp add: fun_upd_idem)

lemma owned_mem: "t h = Some (Some a) \<Longrightarrow> a \<in># owned t"
  using owned_remove [of t h a None] by simp

lemma owned_list:
  assumes "distinct (map fst vs)" "\<And>h a. (h, Some a) \<in> set vs \<longleftrightarrow> t h = Some (Some a)"
  shows "owned t = refs_of (map snd vs)"
  using assms
proof (induction vs arbitrary: t)
  case (Cons v vs)
  obtain h p where v: "v = (h, p)" by (cases v)
  have h: "(h, q) \<notin> set vs" for q using Cons.prems(1) v by force
  have "owned (t(h := None)) = refs_of (map snd vs)"
  proof (rule Cons.IH)
    show "(x, Some a) \<in> set vs \<longleftrightarrow> (t(h := None)) x = Some (Some a)" for x a
      using Cons.prems(2) [of x a] h [of "Some a"] v by auto
  qed (use Cons.prems(1) in simp)
  moreover have "owned t = refs_of [p] + owned (t(h := None))"
  proof (cases p)
    case None
    then have "t h \<noteq> Some (Some a)" for a using Cons.prems(2) [of h a] h [of "Some a"] v by auto
    then show ?thesis using None owned_other [of t h None] by simp
  next
    case (Some a)
    then have "t h = Some (Some a)" using Cons.prems(2) [of h a] v by simp
    then show ?thesis using Some owned_remove [of t h a None] by simp
  qed
  ultimately show ?case using refs_of_Cons [of p "map snd vs"] v by simp
qed (simp add: owned_def)

definition manager_ok :: "typed_manager \<Rightarrow> bool" where
  "manager_ok m \<longleftrightarrow>
     ha_inv (mHandleAllocator m) \<and> rm_inv (mObjectMap m) \<and>
     0 \<notin> dom (rm_table (mObjectMap m)) \<and>
     ha_free (mHandleAllocator m) = - insert 0 (dom (rm_table (mObjectMap m)))"

definition world_ok :: "world \<Rightarrow> bool" where
  "world_ok w \<longleftrightarrow>
     manager_ok (manager w) \<and>
     store_ok (store w) (refs_of (bindings w) + owned (rm_table (mObjectMap (manager w))))"

section \<open>Every operation keeps the invariant\<close>

lemma manager_okD:
  assumes "manager_ok m"
  shows "ha_inv (mHandleAllocator m)" "rm_inv (mObjectMap m)" "rm_table (mObjectMap m) 0 = None"
    "ha_free (mHandleAllocator m) = - insert 0 (dom (rm_table (mObjectMap m)))"
  using assms by (simp_all add: manager_ok_def domIff)

lemma TypedResourceManager_ok:
  "manager_ok TypedResourceManager" "rm_table (mObjectMap TypedResourceManager) = Map.empty"
proof -
  have t: "rm_table (mObjectMap TypedResourceManager) = Map.empty"
    using rm.start_ok(2) by (simp add: TypedResourceManager_def)
  show "rm_table (mObjectMap TypedResourceManager) = Map.empty" by (rule t)
  show "manager_ok TypedResourceManager"
    unfolding manager_ok_def t using rm.start_ok(1) ha.start ha.start_free
    by (simp add: TypedResourceManager_def)
qed

lemma rm_query_table: "rm_inv s \<Longrightarrow> rm_query h s = Some a \<longleftrightarrow> rm_table s h = Some (Some a)"
  by (simp add: rm.query_ok split: option.splits)

lemma rm_contains_table: "rm_inv s \<Longrightarrow> rm_contains h s \<longleftrightarrow> rm_table s h \<noteq> None"
  by (simp add: rm.contains_ok domIff)

lemma AllocateEmptyObject_None:
  assumes "manager_ok m"
  shows "AllocateEmptyObject m = None \<longleftrightarrow> dom (rm_table (mObjectMap m)) = - {0}"
proof -
  note m = manager_okD [OF assms]
  have "ha_free (mHandleAllocator m) = {} \<longleftrightarrow> dom (rm_table (mObjectMap m)) = - {0}"
    unfolding m(4) using m(3) by (auto simp: domIff)
  moreover have "AllocateEmptyObject m = None \<longleftrightarrow> ha_allocate (mHandleAllocator m) = None"
  proof (cases "ha_allocate (mHandleAllocator m)")
    case (Some r)
    obtain h al where "r = (h, al)" by (cases r)
    moreover obtain objs where "rm_assign h None (mObjectMap m) = Some objs"
      using rm.assign_ok [OF m(2), of h None] by blast
    ultimately show ?thesis using Some by (simp add: AllocateEmptyObject_def)
  qed (simp add: AllocateEmptyObject_def)
  ultimately show ?thesis using ha.alloc_None [OF m(1)] by simp
qed

lemma AllocateEmptyObject_Some:
  assumes "manager_ok m" "AllocateEmptyObject m = Some (h, m')"
  shows "manager_ok m'" "h \<noteq> 0" "rm_table (mObjectMap m) h = None"
    "rm_table (mObjectMap m') = (rm_table (mObjectMap m))(h \<mapsto> None)"
proof -
  note m = manager_okD [OF assms(1)]
  obtain al objs where al: "ha_allocate (mHandleAllocator m) = Some (h, al)"
    and objs: "rm_assign h None (mObjectMap m) = Some objs"
    and m': "m' = m\<lparr>mHandleAllocator := al, mObjectMap := objs\<rparr>"
    using assms(2) by (auto simp: AllocateEmptyObject_def Option.bind_eq_Some_conv)
  from ha.alloc_Some [OF m(1) al] have al': "ha_inv al" "h \<in> ha_free (mHandleAllocator m)"
    "ha_free al = ha_free (mHandleAllocator m) - {h}" by blast+
  from al'(2) m(4) show h: "h \<noteq> 0" "rm_table (mObjectMap m) h = None" by (auto simp: domIff)
  from rm.assign_ok [OF m(2), of h None] objs
  have objs': "rm_inv objs" "rm_table objs = (rm_table (mObjectMap m))(h \<mapsto> None)" by auto
  then show "rm_table (mObjectMap m') = (rm_table (mObjectMap m))(h \<mapsto> None)" by (simp add: m')
  show "manager_ok m'"
    using al' objs' m h by (auto simp: manager_ok_def m' domIff)
qed

lemma new_entry_ok:
  assumes "manager_ok m" "h \<noteq> 0" and no: "\<And>b. rm_table (mObjectMap m) h \<noteq> Some (Some b)"
  shows "\<exists>al objs. (if \<not> rm_contains h (mObjectMap m) then ha_reserve h (mHandleAllocator m)
            else Some (mHandleAllocator m)) = Some al
     \<and> rm_assign h (Some a) (mObjectMap m) = Some objs
     \<and> manager_ok (m\<lparr>mHandleAllocator := al, mObjectMap := objs\<rparr>)
     \<and> rm_table objs = (rm_table (mObjectMap m))(h \<mapsto> Some a)"
proof -
  note m = manager_okD [OF assms(1)]
  obtain objs where objs: "rm_assign h (Some a) (mObjectMap m) = Some objs" "rm_inv objs"
    "rm_table objs = (rm_table (mObjectMap m))(h \<mapsto> Some a)"
    using rm.assign_ok [OF m(2), of h "Some a"] by blast
  obtain al where al: "(if \<not> rm_contains h (mObjectMap m) then ha_reserve h (mHandleAllocator m)
            else Some (mHandleAllocator m)) = Some al" "ha_inv al"
    "ha_free al = ha_free (mHandleAllocator m) - {h}"
  proof (cases "rm_contains h (mObjectMap m)")
    case True
    then have "ha_free (mHandleAllocator m) - {h} = ha_free (mHandleAllocator m)"
      using m(4) rm_contains_table [OF m(2), of h] by (auto simp: domIff)
    with True m(1) that show ?thesis by simp
  next
    case False
    then have "h \<in> ha_free (mHandleAllocator m)"
      using m(4) rm_contains_table [OF m(2), of h] assms(2) by (auto simp: domIff)
    from ha.reserve_law [OF m(1) this] False that show ?thesis by auto
  qed
  have "manager_ok (m\<lparr>mHandleAllocator := al, mObjectMap := objs\<rparr>)"
    using al objs m assms(2) by (auto simp: manager_ok_def domIff)
  with al objs show ?thesis by blast
qed

lemma checkObjectAllocation_ok:
  assumes m: "manager_ok m" and st: "store_ok st (B + owned (rm_table (mObjectMap m)))"
  shows "\<exists>p m' st'. checkObjectAllocation h m st = Some (p, m', st') \<and> manager_ok m' \<and>
    store_ok st' (B + owned (rm_table (mObjectMap m'))) \<and>
    (if h = 0 then p = None \<and> m' = m \<and> st' = st
     else \<exists>a. p = Some a \<and> rm_table (mObjectMap m') = (rm_table (mObjectMap m))(h \<mapsto> Some a) \<and>
       (rm_table (mObjectMap m) h = Some (Some a) \<or> a \<notin># B + owned (rm_table (mObjectMap m))))"
proof (cases "rm_query h (mObjectMap m)")
  case (Some a)
  then have t: "rm_table (mObjectMap m) h = Some (Some a)"
    using rm_query_table [OF manager_okD(2) [OF m]] by blast
  then have "h \<noteq> 0" using manager_okD(3) [OF m] by auto
  moreover have "(rm_table (mObjectMap m))(h \<mapsto> Some a) = rm_table (mObjectMap m)"
    using t by (rule fun_upd_idem)
  moreover have "checkObjectAllocation h m st = Some (Some a, m, st)"
    using Some by (simp add: checkObjectAllocation_def)
  ultimately show ?thesis using m st t by simp
next
  case None
  show ?thesis
  proof (cases "h = 0")
    case True
    with None m st show ?thesis by (simp add: checkObjectAllocation_def)
  next
    case False
    have no: "rm_table (mObjectMap m) h \<noteq> Some (Some b)" for b
      using None rm_query_table [OF manager_okD(2) [OF m], of h b] by simp
    obtain a st1 where new: "new_object st = (a, st1)" by fastforce
    from new_addRef_ok [OF st new] obtain st' where st': "rc_addRef a st1 = Some st'"
      "store_ok st' (add_mset a (B + owned (rm_table (mObjectMap m))))"
      "a \<notin># B + owned (rm_table (mObjectMap m))" by blast
    from new_entry_ok [OF m False no, of a] obtain al objs where
      al: "(if \<not> rm_contains h (mObjectMap m) then ha_reserve h (mHandleAllocator m)
            else Some (mHandleAllocator m)) = Some al"
      and objs: "rm_assign h (Some a) (mObjectMap m) = Some objs"
      "rm_table objs = (rm_table (mObjectMap m))(h \<mapsto> Some a)"
      and m': "manager_ok (m\<lparr>mHandleAllocator := al, mObjectMap := objs\<rparr>)" by blast
    have "checkObjectAllocation h m st
        = Some (Some a, m\<lparr>mHandleAllocator := al, mObjectMap := objs\<rparr>, st')"
      using None False al objs new st'
      by (simp add: checkObjectAllocation_def checkObjectAllocationImpl_def AllocateNewObject_def)
    with m' st' objs owned_add [of "rm_table (mObjectMap m)" h a, OF no] False show ?thesis by simp
  qed
qed

lemma deleteObject_ok:
  assumes m: "manager_ok m" and st: "store_ok st (B + owned (rm_table (mObjectMap m)))"
  shows "\<exists>m' st'. deleteObject h m st = Some (m', st') \<and> manager_ok m' \<and>
    rm_table (mObjectMap m') = (rm_table (mObjectMap m))(h := None) \<and>
    store_ok st' (B + owned (rm_table (mObjectMap m')))"
proof (cases "rm_table (mObjectMap m) h")
  case None
  with m st rm.erase_miss [OF manager_okD(2) [OF m] None] show ?thesis
    by (simp add: deleteObject_def fun_upd_idem)
next
  case (Some r)
  note M = manager_okD [OF m]
  from rm.erase_hit [OF M(2) Some] obtain objs where objs:
    "rm_erase h (mObjectMap m) = Some (r, objs)" "rm_inv objs"
    "rm_table objs = (rm_table (mObjectMap m))(h := None)" by blast
  have h: "h \<noteq> 0" using Some M(3) by auto
  have "h \<notin> ha_free (mHandleAllocator m)" using M(4) Some by auto
  from ha.release_law [OF M(1) this h] have al: "ha_inv (ha_release h (mHandleAllocator m))"
    "ha_free (ha_release h (mHandleAllocator m)) = insert h (ha_free (mHandleAllocator m))" by blast+
  let ?m = "m\<lparr>mObjectMap := objs, mHandleAllocator := ha_release h (mHandleAllocator m)\<rparr>"
  have m': "manager_ok ?m"
    using al objs M h by (auto simp: manager_ok_def domIff)
  show ?thesis
  proof (cases r)
    case None
    with Some have "owned (rm_table objs) = owned (rm_table (mObjectMap m))"
      unfolding objs(3) by (intro owned_other) auto
    with m' st objs None show ?thesis by (simp add: deleteObject_def)
  next
    case r: (Some a)
    with Some have "owned (rm_table (mObjectMap m)) = add_mset a (owned (rm_table objs))"
      unfolding objs(3) by (intro owned_remove) auto
    with st have "store_ok st (add_mset a (B + owned (rm_table objs)))" by simp
    from rc_release_ok [OF this] m' objs r show ?thesis by (auto simp: deleteObject_def)
  qed
qed

lemma set_binding_ok:
  assumes "world_ok w" "\<And>a. p = Some a \<Longrightarrow> a \<in># refs_of (bindings w) + owned (rm_table (mObjectMap (manager w)))"
  shows "\<exists>w'. set_binding i p w = Some w' \<and> world_ok w' \<and> manager w' = manager w
    \<and> bindings w' = (bindings w)[i := p]"
proof (cases "i < length (bindings w)")
  case False
  with assms(1) show ?thesis by (simp add: set_binding_def list_update_beyond)
next
  case True
  let ?bs = "bindings w" and ?O = "owned (rm_table (mObjectMap (manager w)))"
  have split: "refs_of ?bs + ?O = refs_of [?bs ! i] + (refs_of (?bs[i := None]) + ?O)"
    using refs_of_update [OF True, of None] by (simp add: ac_simps)
  have "refs_of (?bs[i := p]) = refs_of [p] + refs_of (?bs[i := None])"
    using refs_of_update [of i "?bs[i := None]" p] True by (simp add: add.commute)
  then have new: "refs_of [p] + (refs_of (?bs[i := None]) + ?O) = refs_of (?bs[i := p]) + ?O"
    by simp
  have "\<exists>st'. BindingPointer_set p (?bs ! i) (store w) = Some (p, st') \<and>
      store_ok st' (refs_of [p] + (refs_of (?bs[i := None]) + ?O))"
    by (rule BindingPointer_set_ok) (use assms split in \<open>simp_all add: world_ok_def\<close>)
  then obtain st' where "BindingPointer_set p (?bs ! i) (store w) = Some (p, st')"
    "store_ok st' (refs_of (?bs[i := p]) + ?O)" using new by auto
  with True assms(1) show ?thesis by (simp add: set_binding_def world_ok_def)
qed

lemma refs_of_mem: "i < length ps \<Longrightarrow> ps ! i = Some a \<Longrightarrow> a \<in># refs_of ps"
  using refs_of_update [of i ps None] by (auto dest!: arg_cong [of _ _ "\<lambda>M. a \<in># M"])

lemma exec_ok:
  assumes "world_ok w" "c = Gen \<Longrightarrow> dom (rm_table (mObjectMap (manager w))) \<noteq> - {0}"
  shows "\<exists>w'. exec c w = Some w' \<and> world_ok w'"
proof (cases c)
  note m = assms(1) [unfolded world_ok_def, THEN conjunct1]
    and st = assms(1) [unfolded world_ok_def, THEN conjunct2]
  case Gen
  from assms(2) [OF Gen] have "AllocateEmptyObject (manager w) \<noteq> None"
    by (simp only: AllocateEmptyObject_None [OF m] not_False_eq_True)
  then obtain h m' where new: "AllocateEmptyObject (manager w) = Some (h, m')" by auto
  note new' = AllocateEmptyObject_Some [OF m new]
  have "owned (rm_table (mObjectMap m')) = owned (rm_table (mObjectMap (manager w)))"
    unfolding new'(4) using new'(3) by (intro owned_other) auto
  with new new' st Gen show ?thesis by (simp add: world_ok_def)
next
  note m = assms(1) [unfolded world_ok_def, THEN conjunct1]
    and st = assms(1) [unfolded world_ok_def, THEN conjunct2]
  case (Bind h i)
  from checkObjectAllocation_ok [OF m st, of h] obtain p m' st' where
    p: "checkObjectAllocation h (manager w) (store w) = Some (p, m', st')" "manager_ok m'"
    "store_ok st' (refs_of (bindings w) + owned (rm_table (mObjectMap m')))"
    "p = None \<or> (\<exists>a. p = Some a \<and> rm_table (mObjectMap m') h = Some (Some a))"
    by (cases "h = 0") auto
  have "\<exists>w'. set_binding i p (w\<lparr>manager := m', store := st'\<rparr>) = Some w' \<and> world_ok w' \<and>
      manager w' = manager (w\<lparr>manager := m', store := st'\<rparr>) \<and>
      bindings w' = (bindings (w\<lparr>manager := m', store := st'\<rparr>))[i := p]"
    by (rule set_binding_ok) (use p owned_mem in \<open>auto simp: world_ok_def\<close>)
  with p Bind show ?thesis by auto
next
  case (Copy i j)
  show ?thesis
  proof (cases "i < length (bindings w)")
    case True
    have "\<exists>w'. set_binding j (bindings w ! i) w = Some w' \<and> world_ok w' \<and>
      manager w' = manager w \<and> bindings w' = (bindings w)[j := bindings w ! i]"
      by (rule set_binding_ok [OF assms(1)]) (use refs_of_mem True in auto)
    with Copy True show ?thesis by auto
  qed (use Copy assms in simp)
next
  case (Unbind i)
  with set_binding_ok [OF assms(1), of None i] show ?thesis by auto
next
  note m = assms(1) [unfolded world_ok_def, THEN conjunct1]
    and st = assms(1) [unfolded world_ok_def, THEN conjunct2]
  case (Delete h)
  with deleteObject_ok [OF m st, of h] show ?thesis by (auto simp: world_ok_def)
qed

lemma release_all_ok:
  "store_ok st (B + refs_of (map snd vs)) \<Longrightarrow> \<exists>st'. release_all vs st = Some st' \<and> store_ok st' B"
proof (induction vs st rule: release_all.induct)
  case (3 h a vs st)
  from 3(2) have "store_ok st (add_mset a (B + refs_of (map snd vs)))" by simp
  from rc_release_ok [OF this] obtain st1 where "rc_release a st = Some st1"
    "store_ok st1 (B + refs_of (map snd vs))" by blast
  with 3(1) [of st1] show ?case by simp
qed simp_all

lemma tm_reset_ok:
  assumes m: "manager_ok m" and st: "store_ok st (B + owned (rm_table (mObjectMap m)))"
  shows "\<exists>m' st'. tm_reset m st = Some (m', st') \<and> manager_ok m' \<and>
    rm_table (mObjectMap m') = Map.empty \<and> store_ok st' B"
proof -
  note M = manager_okD [OF m]
  obtain vs where vs: "visit (mObjectMap m) (rm_begin (mObjectMap m)) = Some vs" "distinct (map fst vs)"
    "\<And>h a. (h, Some a) \<in> set vs \<longleftrightarrow> rm_table (mObjectMap m) h = Some (Some a)"
    using visit_all [OF M(2)] by auto
  from st have "store_ok st (B + refs_of (map snd vs))"
    unfolding owned_list [OF vs(2,3)] .
  from release_all_ok [OF this] obtain st' where st': "release_all vs st = Some st'" "store_ok st' B"
    by blast
  let ?m = "m\<lparr>mHandleAllocator := ha_reset (mHandleAllocator m), mObjectMap := rm_clear (mObjectMap m)\<rparr>"
  have "manager_ok ?m" "rm_table (mObjectMap ?m) = Map.empty"
    using rm.clear_ok [OF M(2)] ha_reset_ok [of "mHandleAllocator m"] u32_positive
    by (simp_all add: manager_ok_def)
  with vs(1) st' show ?thesis by (simp add: tm_reset_def)
qed

lemma fresh_world_ok: "world_ok (fresh_world n)"
proof -
  have "refs_of (replicate n None) = {#}" by (induction n) simp_all
  then show ?thesis
    using TypedResourceManager_ok empty_store_ok by (simp add: world_ok_def fresh_world_def)
qed

lemma world_run_ok:
  assumes "world_ok w"
  shows "(\<exists>w'. table_run exec cs w = Some w' \<and> world_ok w') \<or>
    (\<exists>cs1 cs2 w'. cs = cs1 @ Gen # cs2 \<and> table_run exec cs1 w = Some w' \<and> world_ok w' \<and>
       dom (rm_table (mObjectMap (manager w'))) = - {0})"
  using assms
proof (induction cs arbitrary: w)
  case (Cons c cs)
  show ?case
  proof (cases "c = Gen \<and> dom (rm_table (mObjectMap (manager w))) = - {0}")
    case True
    then have "c # cs = [] @ Gen # cs \<and> table_run exec [] w = Some w \<and> world_ok w \<and>
       dom (rm_table (mObjectMap (manager w))) = - {0}" using Cons.prems by simp
    then show ?thesis by blast
  next
    case False
    with exec_ok [OF Cons.prems, of c] obtain w1 where w1: "exec c w = Some w1" "world_ok w1" by blast
    from Cons.IH [OF w1(2)] show ?thesis
    proof (elim disjE exE conjE)
      fix w' assume "table_run exec cs w1 = Some w'" "world_ok w'"
      with w1 show ?thesis by simp
    next
      fix cs1 cs2 w' assume "cs = cs1 @ Gen # cs2" "table_run exec cs1 w1 = Some w'" "world_ok w'"
        "dom (rm_table (mObjectMap (manager w'))) = - {0}"
      then have "c # cs = (c # cs1) @ Gen # cs2 \<and> table_run exec (c # cs1) w = Some w' \<and> world_ok w' \<and>
        dom (rm_table (mObjectMap (manager w'))) = - {0}" using w1 by simp
      then show ?thesis by blast
    qed
  qed
qed simp

lemma count_refs_of: "count (refs_of ps) a = count_list ps (Some a)"
proof (induction ps)
  case (Cons p ps)
  then show ?case by (cases p) auto
qed simp

lemma count_owned: "count (owned t) a = card {h. t h = Some (Some a)}"
proof -
  have "count (owned t) a = card {h \<in> {h. \<exists>b. t h = Some (Some b)}. the (the (t h)) = a}"
    unfolding owned_def count_image_mset' by (simp add: conj_commute eq_commute)
  also have "{h \<in> {h. \<exists>b. t h = Some (Some b)}. the (the (t h)) = a} = {h. t h = Some (Some a)}"
    by auto
  finally show ?thesis .
qed

definition references :: "world \<Rightarrow> nat \<Rightarrow> nat" where
  "references w a =
     count_list (bindings w) (Some a) + card {h. getObject h (manager w) = Some a}"

lemma world_ok_count:
  assumes "world_ok w"
  shows "rc_getRefCount a (store w) = (if references w a = 0 then None else Some (references w a))"
proof -
  have inv: "rm_inv (mObjectMap (manager w))"
    using assms by (simp add: world_ok_def manager_ok_def)
  let ?M = "refs_of (bindings w) + owned (rm_table (mObjectMap (manager w)))"
  have refs: "references w a = count ?M a"
    by (simp add: references_def count_refs_of count_owned getObject_def rm_query_table [OF inv])
  have "store_ok (store w) ?M" using assms by (simp add: world_ok_def)
  then have "rc_getRefCount a (store w) = (if a \<in># ?M then Some (count ?M a) else None)"
    unfolding store_ok_def rc_getRefCount_def by blast
  then show ?thesis unfolding refs count_eq_zero_iff by (simp only: if_not_P if_P split: if_split) blast
qed

lemma exec_preserves:
  assumes "world_ok w" "exec c w = Some w'"
  shows "world_ok w'"
proof -
  have "dom (rm_table (mObjectMap (manager w))) \<noteq> - {0}" if "c = Gen"
  proof -
    have "AllocateEmptyObject (manager w) \<noteq> None" using assms(2) that by auto
    then show ?thesis
      using AllocateEmptyObject_None [OF assms(1) [unfolded world_ok_def, THEN conjunct1]]
      by (simp only: not_False_eq_True)
  qed
  from exec_ok [of w c, OF assms(1) this] assms(2) show ?thesis by auto
qed

lemma run_preserves:
  "world_ok w \<Longrightarrow> table_run exec cs w = Some w' \<Longrightarrow> world_ok w'"
  by (induction cs arbitrary: w) (auto simp: Option.bind_eq_Some_conv dest: exec_preserves)

lemmas reachable_ok = run_preserves [OF fresh_world_ok]

lemma deleteObject_idem:
  assumes "manager_ok m" "rm_table (mObjectMap m) h = None"
  shows "deleteObject h m st = Some (m, st)"
  using rm.erase_miss [OF manager_okD(2) [OF assms(1)] assms(2)] by (simp add: deleteObject_def)

section \<open>Properties\<close>

text \<open>
  C9. Take any sequence of Gen, Bind, Copy, Unbind and Delete calls from a fresh share group. It runs
  to its end - no call touches an object that has been destroyed - unless a Gen finds every nonzero
  name in use. At the end the count of every object is the number of binding points and names that
  refer to it, and exactly the objects without a reference have been destroyed.
\<close>

theorem resource_manager_safe:
  "(\<exists>w. table_run exec cs (fresh_world n) = Some w \<and>
      (\<forall>a. rc_getRefCount a (store w)
         = (if references w a = 0 then None else Some (references w a)))) \<or>
   (\<exists>cs1 cs2 w. cs = cs1 @ Gen # cs2 \<and> table_run exec cs1 (fresh_world n) = Some w \<and>
      (\<forall>h. isHandleGenerated h (manager w)))"
  using world_run_ok [OF fresh_world_ok, of cs n]
proof (elim disjE exE conjE)
  fix w assume "table_run exec cs (fresh_world n) = Some w" "world_ok w"
  with world_ok_count [of w] show ?thesis by auto
next
  fix cs1 cs2 w assume w: "cs = cs1 @ Gen # cs2" "table_run exec cs1 (fresh_world n) = Some w"
    "world_ok w" "dom (rm_table (mObjectMap (manager w))) = - {0}"
  have inv: "rm_inv (mObjectMap (manager w))"
    using w(3) by (simp add: world_ok_def manager_ok_def)
  have "isHandleGenerated h (manager w)" for h
    unfolding isHandleGenerated_def rm.contains_ok [OF inv] w(4) by (cases "h = 0") auto
  with w show ?thesis by blast
qed

text \<open>
  C10. \<open>deleteObject\<close> on a reachable world frees the name and no other, and leaves every object that a
  binding point still refers to alive; a second delete of the same name changes nothing.
\<close>

theorem delete_keeps_bound_objects:
  assumes "table_run exec cs (fresh_world n) = Some w"
  shows "\<exists>w'. exec (Delete h) w = Some w' \<and> bindings w' = bindings w \<and>
    (\<forall>k. isHandleGenerated k (manager w') \<longleftrightarrow> k = 0 \<or> k \<noteq> h \<and> isHandleGenerated k (manager w)) \<and>
    (\<forall>k. k \<noteq> h \<longrightarrow> getObject k (manager w') = getObject k (manager w)) \<and>
    (\<forall>a. Some a \<in> set (bindings w) \<longrightarrow> rc_getRefCount a (store w') \<noteq> None) \<and>
    exec (Delete h) w' = Some w'"
proof -
  note ok = reachable_ok [OF assms]
  note m = ok [unfolded world_ok_def, THEN conjunct1] and st = ok [unfolded world_ok_def, THEN conjunct2]
  from deleteObject_ok [OF m st, of h] obtain m' st' where
    d: "deleteObject h (manager w) (store w) = Some (m', st')" and m': "manager_ok m'"
    and t: "rm_table (mObjectMap m') = (rm_table (mObjectMap (manager w)))(h := None)"
    and st': "store_ok st' (refs_of (bindings w) + owned (rm_table (mObjectMap m')))" by blast
  let ?w = "w\<lparr>manager := m', store := st'\<rparr>"
  note inv = manager_okD(2) [OF m] and inv' = manager_okD(2) [OF m']
  have gen: "isHandleGenerated k m' \<longleftrightarrow> k = 0 \<or> k \<noteq> h \<and> isHandleGenerated k (manager w)" for k
    by (auto simp: isHandleGenerated_def rm_contains_table [OF inv] rm_contains_table [OF inv'] t)
  have get: "getObject k m' = getObject k (manager w)" if "k \<noteq> h" for k
    using that by (simp add: getObject_def rm.query_ok [OF inv] rm.query_ok [OF inv'] t)
  have live: "rc_getRefCount a st' \<noteq> None" if "Some a \<in> set (bindings w)" for a
  proof -
    have "a \<in># refs_of (bindings w)"
      using that by (metis in_set_conv_nth refs_of_mem)
    then show ?thesis using st' by (auto simp: store_ok_def rc_getRefCount_def)
  qed
  have "exec (Delete h) ?w = Some ?w"
    using deleteObject_idem [OF m', of h st'] t by simp
  with d gen get live show ?thesis by (intro exI [of _ ?w]) simp
qed

theorem delete_keeps_bound_objects_witness:
  "\<exists>w'. exec (Delete 7) \<lparr>manager = TypedResourceManager, store = empty_store, bindings = [None]\<rparr> = Some w'
     \<and> bindings w' = [None]"
proof -
  have "table_run exec [Unbind 0] (fresh_world 1)
      = Some \<lparr>manager = TypedResourceManager, store = empty_store, bindings = [None]\<rparr>"
    by (simp add: fresh_world_def set_binding_def BindingPointer_set_def)
  from delete_keeps_bound_objects [OF this, of 7] show ?thesis by auto
qed

lemma exec_manager_refs:
  assumes "exec c w = Some w'"
  shows "mManagerRefCount (manager w') = mManagerRefCount (manager w)"
proof -
  have b: "mManagerRefCount (manager w1) = mManagerRefCount (manager w0)" if "set_binding i p w0 = Some w1" for i p w0 w1
    using that by (auto simp: set_binding_def split: if_splits)
  show ?thesis
    using assms b
    by (cases c) (auto simp: AllocateEmptyObject_def checkObjectAllocation_def checkObjectAllocationImpl_def
        deleteObject_def Let_def Option.bind_eq_Some_conv split: option.splits if_splits)
qed

lemma run_manager_refs:
  "table_run exec cs w = Some w' \<Longrightarrow> mManagerRefCount (manager w') = mManagerRefCount (manager w)"
  by (induction cs arbitrary: w) (auto simp: Option.bind_eq_Some_conv dest: exec_manager_refs)

text \<open>
  C11. When the last context lets go of the manager of a reachable world, \<open>reset\<close> runs to its end and
  the manager is deleted with an empty table; the objects still alive are those that a binding point
  refers to, with that many references. With no binding left, every object has been destroyed.
\<close>

theorem last_release_frees_objects:
  assumes "table_run exec cs (fresh_world n) = Some w"
  shows "tm_release (tm_addRef (manager w)) (store w) = Some (False, manager w, store w) \<and>
    (\<exists>m st. tm_release (manager w) (store w) = Some (True, m, st) \<and>
      (\<forall>h. isHandleGenerated h m \<longleftrightarrow> h = 0) \<and>
      (\<forall>a. rc_getRefCount a st =
        (let k = count_list (bindings w) (Some a) in if k = 0 then None else Some k)))"
proof -
  note ok = reachable_ok [OF assms]
  note m = ok [unfolded world_ok_def, THEN conjunct1] and st = ok [unfolded world_ok_def, THEN conjunct2]
  have one: "mManagerRefCount (manager w) = 1"
    using run_manager_refs [OF assms] by (simp add: fresh_world_def TypedResourceManager_def)
  let ?m = "manager w\<lparr>mManagerRefCount := 0\<rparr>"
  have "manager_ok ?m" "store_ok (store w) (refs_of (bindings w) + owned (rm_table (mObjectMap ?m)))"
    using m st by (simp_all add: manager_ok_def)
  from tm_reset_ok [OF this] obtain m' st' where r: "tm_reset ?m (store w) = Some (m', st')"
    "manager_ok m'" "rm_table (mObjectMap m') = Map.empty" "store_ok st' (refs_of (bindings w))" by blast
  have "isHandleGenerated h m' \<longleftrightarrow> h = 0" for h
    using r(3) by (simp add: isHandleGenerated_def rm_contains_table [OF manager_okD(2) [OF r(2)]])
  moreover have "rc_getRefCount a st' =
        (let k = count_list (bindings w) (Some a) in if k = 0 then None else Some k)" for a
    using r(4) by (simp add: store_ok_def rc_getRefCount_def not_in_iff Let_def flip: count_refs_of)
  moreover have "tm_release (tm_addRef (manager w)) (store w) = Some (False, manager w, store w)"
    using one by (simp add: tm_release_def tm_addRef_def)
  ultimately show ?thesis using one r(1) by (simp add: tm_release_def)
qed

theorem last_release_frees_objects_witness:
  "\<exists>m st. tm_release (manager (fresh_world 3)) (store (fresh_world 3)) = Some (True, m, st) \<and>
     rc_getRefCount 0 st = None"
proof -
  have "table_run exec [] (fresh_world 3) = Some (fresh_world 3)" by simp
  from last_release_frees_objects [OF this] obtain m st where
    "tm_release (manager (fresh_world 3)) (store (fresh_world 3)) = Some (True, m, st)"
    "rc_getRefCount 0 st = (let k = count_list (bindings (fresh_world 3)) (Some 0) in if k = 0 then None else Some k)"
    by blast
  then show ?thesis by (simp add: fresh_world_def)
qed

end
