(* ===== verification/GL_Types.thy ===== *)
theory GL_Types
  imports Prelude
begin

text \<open>
  The GLSL types of \<open>gl::\<close> (src/src/common/utilities.cpp): the table functions on the \<open>GLenum\<close> of a
  type. \<open>gl_type\<close> has the enum values the tables name, and \<open>GL_unlisted\<close> for any other value.
  \<open>gl_switch\<close> is a C++ \<open>switch\<close> whose cases all return: the groups of labels in the source's order and
  the result after the switch (an \<open>UNREACHABLE()\<close> is a no-op in a release build). The lemmas state how
  the tables agree with each other; the packing algorithms rest on them.
\<close>

datatype (plugins del: lifting transfer quickcheck_random quickcheck_exhaustive
  quickcheck_bounded_forall quickcheck_full_exhaustive quickcheck_narrowing) gl_type =
    GL_BOOL | GL_BOOL_VEC2 | GL_BOOL_VEC3 | GL_BOOL_VEC4 | GL_FLOAT | GL_FLOAT_VEC2 | GL_FLOAT_VEC3
  | GL_FLOAT_VEC4 | GL_FLOAT_MAT2 | GL_FLOAT_MAT3 | GL_FLOAT_MAT4 | GL_FLOAT_MAT2x3 | GL_FLOAT_MAT3x2
  | GL_FLOAT_MAT2x4 | GL_FLOAT_MAT4x2 | GL_FLOAT_MAT3x4 | GL_FLOAT_MAT4x3 | GL_INT | GL_SAMPLER_2D
  | GL_SAMPLER_2D_RECT_ANGLE | GL_SAMPLER_3D | GL_SAMPLER_CUBE | GL_SAMPLER_2D_ARRAY
  | GL_SAMPLER_EXTERNAL_OES | GL_SAMPLER_2D_MULTISAMPLE | GL_SAMPLER_2D_MULTISAMPLE_ARRAY
  | GL_INT_SAMPLER_2D | GL_INT_SAMPLER_3D | GL_INT_SAMPLER_CUBE | GL_INT_SAMPLER_2D_ARRAY
  | GL_INT_SAMPLER_2D_MULTISAMPLE | GL_INT_SAMPLER_2D_MULTISAMPLE_ARRAY
  | GL_UNSIGNED_INT_SAMPLER_2D | GL_UNSIGNED_INT_SAMPLER_3D | GL_UNSIGNED_INT_SAMPLER_CUBE
  | GL_UNSIGNED_INT_SAMPLER_2D_ARRAY | GL_UNSIGNED_INT_SAMPLER_2D_MULTISAMPLE
  | GL_UNSIGNED_INT_SAMPLER_2D_MULTISAMPLE_ARRAY | GL_SAMPLER_2D_SHADOW | GL_SAMPLER_CUBE_SHADOW
  | GL_SAMPLER_2D_ARRAY_SHADOW | GL_INT_VEC2 | GL_INT_VEC3 | GL_INT_VEC4 | GL_IMAGE_2D
  | GL_INT_IMAGE_2D | GL_UNSIGNED_INT_IMAGE_2D | GL_IMAGE_3D | GL_INT_IMAGE_3D
  | GL_UNSIGNED_INT_IMAGE_3D | GL_IMAGE_2D_ARRAY | GL_INT_IMAGE_2D_ARRAY
  | GL_UNSIGNED_INT_IMAGE_2D_ARRAY | GL_IMAGE_CUBE | GL_INT_IMAGE_CUBE | GL_UNSIGNED_INT_IMAGE_CUBE
  | GL_UNSIGNED_INT_ATOMIC_COUNTER | GL_UNSIGNED_INT | GL_UNSIGNED_INT_VEC2 | GL_UNSIGNED_INT_VEC3
  | GL_UNSIGNED_INT_VEC4 | GL_NONE | GL_unlisted

fun gl_switch :: "(gl_type list \<times> 'a) list \<Rightarrow> 'a \<Rightarrow> gl_type \<Rightarrow> 'a" where
  "gl_switch [] d type = d"
| "gl_switch ((labels, r) # cases) d type =
     (if type \<in> set labels then r else gl_switch cases d type)"

definition VariableComponentType :: "gl_type \<Rightarrow> gl_type" where
  "VariableComponentType =
     gl_switch
       [([GL_BOOL, GL_BOOL_VEC2, GL_BOOL_VEC3, GL_BOOL_VEC4], GL_BOOL),
        ([GL_FLOAT, GL_FLOAT_VEC2, GL_FLOAT_VEC3, GL_FLOAT_VEC4, GL_FLOAT_MAT2, GL_FLOAT_MAT3,
          GL_FLOAT_MAT4, GL_FLOAT_MAT2x3, GL_FLOAT_MAT3x2, GL_FLOAT_MAT2x4, GL_FLOAT_MAT4x2,
          GL_FLOAT_MAT3x4, GL_FLOAT_MAT4x3], GL_FLOAT),
        ([GL_INT, GL_SAMPLER_2D, GL_SAMPLER_2D_RECT_ANGLE, GL_SAMPLER_3D, GL_SAMPLER_CUBE,
          GL_SAMPLER_2D_ARRAY, GL_SAMPLER_EXTERNAL_OES, GL_SAMPLER_2D_MULTISAMPLE,
          GL_SAMPLER_2D_MULTISAMPLE_ARRAY, GL_INT_SAMPLER_2D, GL_INT_SAMPLER_3D,
          GL_INT_SAMPLER_CUBE, GL_INT_SAMPLER_2D_ARRAY, GL_INT_SAMPLER_2D_MULTISAMPLE,
          GL_INT_SAMPLER_2D_MULTISAMPLE_ARRAY, GL_UNSIGNED_INT_SAMPLER_2D,
          GL_UNSIGNED_INT_SAMPLER_3D, GL_UNSIGNED_INT_SAMPLER_CUBE,
          GL_UNSIGNED_INT_SAMPLER_2D_ARRAY, GL_UNSIGNED_INT_SAMPLER_2D_MULTISAMPLE,
          GL_UNSIGNED_INT_SAMPLER_2D_MULTISAMPLE_ARRAY, GL_SAMPLER_2D_SHADOW,
          GL_SAMPLER_CUBE_SHADOW, GL_SAMPLER_2D_ARRAY_SHADOW, GL_INT_VEC2, GL_INT_VEC3,
          GL_INT_VEC4, GL_IMAGE_2D, GL_INT_IMAGE_2D, GL_UNSIGNED_INT_IMAGE_2D, GL_IMAGE_3D,
          GL_INT_IMAGE_3D, GL_UNSIGNED_INT_IMAGE_3D, GL_IMAGE_2D_ARRAY, GL_INT_IMAGE_2D_ARRAY,
          GL_UNSIGNED_INT_IMAGE_2D_ARRAY, GL_IMAGE_CUBE, GL_INT_IMAGE_CUBE,
          GL_UNSIGNED_INT_IMAGE_CUBE, GL_UNSIGNED_INT_ATOMIC_COUNTER], GL_INT),
        ([GL_UNSIGNED_INT, GL_UNSIGNED_INT_VEC2, GL_UNSIGNED_INT_VEC3, GL_UNSIGNED_INT_VEC4], GL_UNSIGNED_INT)]
       GL_NONE"

definition VariableBoolVectorType :: "gl_type \<Rightarrow> gl_type" where
  "VariableBoolVectorType =
     gl_switch
       [([GL_FLOAT, GL_INT, GL_UNSIGNED_INT], GL_BOOL),
        ([GL_FLOAT_VEC2, GL_INT_VEC2, GL_UNSIGNED_INT_VEC2], GL_BOOL_VEC2),
        ([GL_FLOAT_VEC3, GL_INT_VEC3, GL_UNSIGNED_INT_VEC3], GL_BOOL_VEC3),
        ([GL_FLOAT_VEC4, GL_INT_VEC4, GL_UNSIGNED_INT_VEC4], GL_BOOL_VEC4)]
       GL_NONE"

definition VariableRowCount :: "gl_type \<Rightarrow> int" where
  "VariableRowCount =
     gl_switch
       [([GL_NONE], 0),
        ([GL_BOOL, GL_FLOAT, GL_INT, GL_UNSIGNED_INT, GL_BOOL_VEC2, GL_FLOAT_VEC2, GL_INT_VEC2,
          GL_UNSIGNED_INT_VEC2, GL_BOOL_VEC3, GL_FLOAT_VEC3, GL_INT_VEC3, GL_UNSIGNED_INT_VEC3,
          GL_BOOL_VEC4, GL_FLOAT_VEC4, GL_INT_VEC4, GL_UNSIGNED_INT_VEC4, GL_SAMPLER_2D,
          GL_SAMPLER_3D, GL_SAMPLER_CUBE, GL_SAMPLER_2D_ARRAY, GL_SAMPLER_EXTERNAL_OES,
          GL_SAMPLER_2D_RECT_ANGLE, GL_SAMPLER_2D_MULTISAMPLE, GL_SAMPLER_2D_MULTISAMPLE_ARRAY,
          GL_INT_SAMPLER_2D, GL_INT_SAMPLER_3D, GL_INT_SAMPLER_CUBE, GL_INT_SAMPLER_2D_ARRAY,
          GL_INT_SAMPLER_2D_MULTISAMPLE, GL_INT_SAMPLER_2D_MULTISAMPLE_ARRAY,
          GL_UNSIGNED_INT_SAMPLER_2D, GL_UNSIGNED_INT_SAMPLER_3D, GL_UNSIGNED_INT_SAMPLER_CUBE,
          GL_UNSIGNED_INT_SAMPLER_2D_ARRAY, GL_UNSIGNED_INT_SAMPLER_2D_MULTISAMPLE,
          GL_UNSIGNED_INT_SAMPLER_2D_MULTISAMPLE_ARRAY, GL_SAMPLER_2D_SHADOW,
          GL_SAMPLER_CUBE_SHADOW, GL_SAMPLER_2D_ARRAY_SHADOW, GL_IMAGE_2D, GL_INT_IMAGE_2D,
          GL_UNSIGNED_INT_IMAGE_2D, GL_IMAGE_2D_ARRAY, GL_INT_IMAGE_2D_ARRAY,
          GL_UNSIGNED_INT_IMAGE_2D_ARRAY, GL_IMAGE_3D, GL_INT_IMAGE_3D, GL_UNSIGNED_INT_IMAGE_3D,
          GL_IMAGE_CUBE, GL_INT_IMAGE_CUBE, GL_UNSIGNED_INT_IMAGE_CUBE,
          GL_UNSIGNED_INT_ATOMIC_COUNTER], 1),
        ([GL_FLOAT_MAT2, GL_FLOAT_MAT3x2, GL_FLOAT_MAT4x2], 2),
        ([GL_FLOAT_MAT3, GL_FLOAT_MAT2x3, GL_FLOAT_MAT4x3], 3),
        ([GL_FLOAT_MAT4, GL_FLOAT_MAT2x4, GL_FLOAT_MAT3x4], 4)]
       0"

definition VariableColumnCount :: "gl_type \<Rightarrow> int" where
  "VariableColumnCount =
     gl_switch
       [([GL_NONE], 0),
        ([GL_BOOL, GL_FLOAT, GL_INT, GL_UNSIGNED_INT, GL_SAMPLER_2D, GL_SAMPLER_3D,
          GL_SAMPLER_CUBE, GL_SAMPLER_2D_ARRAY, GL_SAMPLER_2D_MULTISAMPLE,
          GL_SAMPLER_2D_MULTISAMPLE_ARRAY, GL_INT_SAMPLER_2D, GL_INT_SAMPLER_3D,
          GL_INT_SAMPLER_CUBE, GL_INT_SAMPLER_2D_ARRAY, GL_INT_SAMPLER_2D_MULTISAMPLE,
          GL_INT_SAMPLER_2D_MULTISAMPLE_ARRAY, GL_SAMPLER_EXTERNAL_OES, GL_SAMPLER_2D_RECT_ANGLE,
          GL_UNSIGNED_INT_SAMPLER_2D, GL_UNSIGNED_INT_SAMPLER_3D, GL_UNSIGNED_INT_SAMPLER_CUBE,
          GL_UNSIGNED_INT_SAMPLER_2D_ARRAY, GL_UNSIGNED_INT_SAMPLER_2D_MULTISAMPLE,
          GL_UNSIGNED_INT_SAMPLER_2D_MULTISAMPLE_ARRAY, GL_SAMPLER_2D_SHADOW,
          GL_SAMPLER_CUBE_SHADOW, GL_SAMPLER_2D_ARRAY_SHADOW, GL_IMAGE_2D, GL_INT_IMAGE_2D,
          GL_UNSIGNED_INT_IMAGE_2D, GL_IMAGE_3D, GL_INT_IMAGE_3D, GL_UNSIGNED_INT_IMAGE_3D,
          GL_IMAGE_2D_ARRAY, GL_INT_IMAGE_2D_ARRAY, GL_UNSIGNED_INT_IMAGE_2D_ARRAY,
          GL_IMAGE_CUBE, GL_INT_IMAGE_CUBE, GL_UNSIGNED_INT_IMAGE_CUBE,
          GL_UNSIGNED_INT_ATOMIC_COUNTER], 1),
        ([GL_BOOL_VEC2, GL_FLOAT_VEC2, GL_INT_VEC2, GL_UNSIGNED_INT_VEC2, GL_FLOAT_MAT2,
          GL_FLOAT_MAT2x3, GL_FLOAT_MAT2x4], 2),
        ([GL_BOOL_VEC3, GL_FLOAT_VEC3, GL_INT_VEC3, GL_UNSIGNED_INT_VEC3, GL_FLOAT_MAT3,
          GL_FLOAT_MAT3x2, GL_FLOAT_MAT3x4], 3),
        ([GL_BOOL_VEC4, GL_FLOAT_VEC4, GL_INT_VEC4, GL_UNSIGNED_INT_VEC4, GL_FLOAT_MAT4,
          GL_FLOAT_MAT4x2, GL_FLOAT_MAT4x3], 4)]
       0"

definition IsSamplerType :: "gl_type \<Rightarrow> bool" where
  "IsSamplerType =
     gl_switch
       [([GL_SAMPLER_2D, GL_SAMPLER_3D, GL_SAMPLER_CUBE, GL_SAMPLER_2D_ARRAY,
          GL_SAMPLER_EXTERNAL_OES, GL_SAMPLER_2D_MULTISAMPLE, GL_SAMPLER_2D_MULTISAMPLE_ARRAY,
          GL_SAMPLER_2D_RECT_ANGLE, GL_INT_SAMPLER_2D, GL_INT_SAMPLER_3D, GL_INT_SAMPLER_CUBE,
          GL_INT_SAMPLER_2D_ARRAY, GL_INT_SAMPLER_2D_MULTISAMPLE,
          GL_INT_SAMPLER_2D_MULTISAMPLE_ARRAY, GL_UNSIGNED_INT_SAMPLER_2D,
          GL_UNSIGNED_INT_SAMPLER_3D, GL_UNSIGNED_INT_SAMPLER_CUBE,
          GL_UNSIGNED_INT_SAMPLER_2D_ARRAY, GL_UNSIGNED_INT_SAMPLER_2D_MULTISAMPLE,
          GL_UNSIGNED_INT_SAMPLER_2D_MULTISAMPLE_ARRAY, GL_SAMPLER_2D_SHADOW,
          GL_SAMPLER_CUBE_SHADOW, GL_SAMPLER_2D_ARRAY_SHADOW], True)]
       False"

definition IsSamplerCubeType :: "gl_type \<Rightarrow> bool" where
  "IsSamplerCubeType =
     gl_switch
       [([GL_SAMPLER_CUBE, GL_INT_SAMPLER_CUBE, GL_UNSIGNED_INT_SAMPLER_CUBE,
          GL_SAMPLER_CUBE_SHADOW], True)]
       False"

definition IsImageType :: "gl_type \<Rightarrow> bool" where
  "IsImageType =
     gl_switch
       [([GL_IMAGE_2D, GL_INT_IMAGE_2D, GL_UNSIGNED_INT_IMAGE_2D, GL_IMAGE_3D, GL_INT_IMAGE_3D,
          GL_UNSIGNED_INT_IMAGE_3D, GL_IMAGE_2D_ARRAY, GL_INT_IMAGE_2D_ARRAY,
          GL_UNSIGNED_INT_IMAGE_2D_ARRAY, GL_IMAGE_CUBE, GL_INT_IMAGE_CUBE,
          GL_UNSIGNED_INT_IMAGE_CUBE], True)]
       False"

definition IsImage2DType :: "gl_type \<Rightarrow> bool" where
  "IsImage2DType =
     gl_switch
       [([GL_IMAGE_2D, GL_INT_IMAGE_2D, GL_UNSIGNED_INT_IMAGE_2D], True),
        ([GL_IMAGE_3D, GL_INT_IMAGE_3D, GL_UNSIGNED_INT_IMAGE_3D, GL_IMAGE_2D_ARRAY,
          GL_INT_IMAGE_2D_ARRAY, GL_UNSIGNED_INT_IMAGE_2D_ARRAY, GL_IMAGE_CUBE,
          GL_INT_IMAGE_CUBE, GL_UNSIGNED_INT_IMAGE_CUBE], False)]
       False"

definition VariableComponentCount :: "gl_type \<Rightarrow> int" where
  "VariableComponentCount type = VariableRowCount type * VariableColumnCount type"

text \<open>\<open>sizeof\<close> of a \<open>GLint\<close>, \<open>GLuint\<close> and \<open>GLfloat\<close> is 4.\<close>

definition VariableComponentSize :: "gl_type \<Rightarrow> int" where
  "VariableComponentSize =
     gl_switch [([GL_BOOL], 4), ([GL_FLOAT], 4), ([GL_INT], 4), ([GL_UNSIGNED_INT], 4)] 0"

definition VariableInternalSize :: "gl_type \<Rightarrow> int" where
  "VariableInternalSize type =
     VariableComponentSize (VariableComponentType type) * VariableRowCount type * 4"

definition VariableExternalSize :: "gl_type \<Rightarrow> int" where
  "VariableExternalSize type =
     VariableComponentSize (VariableComponentType type) * VariableComponentCount type"

definition IsAtomicCounterType :: "gl_type \<Rightarrow> bool" where
  "IsAtomicCounterType type \<longleftrightarrow> type = GL_UNSIGNED_INT_ATOMIC_COUNTER"

definition IsOpaqueType :: "gl_type \<Rightarrow> bool" where
  "IsOpaqueType type \<longleftrightarrow> IsImageType type \<or> IsSamplerType type \<or> IsAtomicCounterType type"

definition IsMatrixType :: "gl_type \<Rightarrow> bool" where
  "IsMatrixType type \<longleftrightarrow> VariableRowCount type > 1"

definition TransposeMatrixType :: "gl_type \<Rightarrow> gl_type" where
  "TransposeMatrixType type =
     (if \<not> IsMatrixType type then type else gl_switch
       [([GL_FLOAT_MAT2], GL_FLOAT_MAT2),
        ([GL_FLOAT_MAT3], GL_FLOAT_MAT3),
        ([GL_FLOAT_MAT4], GL_FLOAT_MAT4),
        ([GL_FLOAT_MAT2x3], GL_FLOAT_MAT3x2),
        ([GL_FLOAT_MAT3x2], GL_FLOAT_MAT2x3),
        ([GL_FLOAT_MAT2x4], GL_FLOAT_MAT4x2),
        ([GL_FLOAT_MAT4x2], GL_FLOAT_MAT2x4),
        ([GL_FLOAT_MAT3x4], GL_FLOAT_MAT4x3),
        ([GL_FLOAT_MAT4x3], GL_FLOAT_MAT3x4)]
       GL_NONE type)"

definition MatrixRegisterCount :: "gl_type \<Rightarrow> bool \<Rightarrow> int" where
  "MatrixRegisterCount type isRowMajorMatrix =
     (if isRowMajorMatrix then VariableRowCount type else VariableColumnCount type)"

definition MatrixComponentCount :: "gl_type \<Rightarrow> bool \<Rightarrow> int" where
  "MatrixComponentCount type isRowMajorMatrix =
     (if isRowMajorMatrix then VariableColumnCount type else VariableRowCount type)"

definition VariableRegisterCount :: "gl_type \<Rightarrow> int" where
  "VariableRegisterCount type = (if IsMatrixType type then VariableColumnCount type else 1)"

definition VariableSortOrder :: "gl_type \<Rightarrow> int" where
  "VariableSortOrder =
     gl_switch
       [([GL_FLOAT_MAT4, GL_FLOAT_MAT2x4, GL_FLOAT_MAT3x4, GL_FLOAT_MAT4x2, GL_FLOAT_MAT4x3], 0),
        ([GL_FLOAT_MAT2], 1),
        ([GL_FLOAT_VEC4, GL_INT_VEC4, GL_BOOL_VEC4, GL_UNSIGNED_INT_VEC4], 2),
        ([GL_FLOAT_MAT3, GL_FLOAT_MAT2x3, GL_FLOAT_MAT3x2], 3),
        ([GL_FLOAT_VEC3, GL_INT_VEC3, GL_BOOL_VEC3, GL_UNSIGNED_INT_VEC3], 4),
        ([GL_FLOAT_VEC2, GL_INT_VEC2, GL_BOOL_VEC2, GL_UNSIGNED_INT_VEC2], 5),
        ([GL_FLOAT, GL_INT, GL_BOOL, GL_UNSIGNED_INT, GL_SAMPLER_2D, GL_SAMPLER_CUBE,
          GL_SAMPLER_EXTERNAL_OES, GL_SAMPLER_2D_RECT_ANGLE, GL_SAMPLER_2D_ARRAY,
          GL_SAMPLER_2D_MULTISAMPLE, GL_SAMPLER_2D_MULTISAMPLE_ARRAY, GL_SAMPLER_3D,
          GL_INT_SAMPLER_2D, GL_INT_SAMPLER_3D, GL_INT_SAMPLER_CUBE, GL_INT_SAMPLER_2D_ARRAY,
          GL_INT_SAMPLER_2D_MULTISAMPLE, GL_INT_SAMPLER_2D_MULTISAMPLE_ARRAY,
          GL_UNSIGNED_INT_SAMPLER_2D, GL_UNSIGNED_INT_SAMPLER_3D, GL_UNSIGNED_INT_SAMPLER_CUBE,
          GL_UNSIGNED_INT_SAMPLER_2D_ARRAY, GL_UNSIGNED_INT_SAMPLER_2D_MULTISAMPLE,
          GL_UNSIGNED_INT_SAMPLER_2D_MULTISAMPLE_ARRAY, GL_SAMPLER_2D_SHADOW,
          GL_SAMPLER_2D_ARRAY_SHADOW, GL_SAMPLER_CUBE_SHADOW, GL_IMAGE_2D, GL_INT_IMAGE_2D,
          GL_UNSIGNED_INT_IMAGE_2D, GL_IMAGE_3D, GL_INT_IMAGE_3D, GL_UNSIGNED_INT_IMAGE_3D,
          GL_IMAGE_2D_ARRAY, GL_INT_IMAGE_2D_ARRAY, GL_UNSIGNED_INT_IMAGE_2D_ARRAY,
          GL_IMAGE_CUBE, GL_INT_IMAGE_CUBE, GL_UNSIGNED_INT_IMAGE_CUBE,
          GL_UNSIGNED_INT_ATOMIC_COUNTER], 6)]
       0"

section \<open>The tables agree\<close>

lemmas type_tables =
  VariableComponentType_def VariableBoolVectorType_def VariableRowCount_def VariableColumnCount_def
  VariableComponentCount_def VariableComponentSize_def VariableInternalSize_def
  VariableExternalSize_def IsSamplerType_def IsSamplerCubeType_def IsImageType_def IsImage2DType_def
  IsAtomicCounterType_def IsOpaqueType_def IsMatrixType_def TransposeMatrixType_def
  MatrixRegisterCount_def MatrixComponentCount_def VariableRegisterCount_def VariableSortOrder_def

lemma TransposeMatrixType_involution: "TransposeMatrixType (TransposeMatrixType type) = type"
  by (cases type) (simp_all add: IsMatrixType_def TransposeMatrixType_def VariableRowCount_def)

lemma row_count_range: "0 \<le> VariableRowCount type" "VariableRowCount type \<le> 4"
  by (cases type; simp add: VariableRowCount_def)+

lemma column_count_range: "0 \<le> VariableColumnCount type" "VariableColumnCount type \<le> 4"
  by (cases type; simp add: VariableColumnCount_def)+

lemma type_shape:
  assumes "t \<noteq> GL_NONE" "t \<noteq> GL_unlisted"
  shows "VariableRowCount t \<in> {1, 2, 3, 4}" "VariableColumnCount t \<in> {1, 2, 3, 4}"
  using assms by (cases t; simp add: VariableRowCount_def VariableColumnCount_def)+

lemma transpose_known:
  "t \<noteq> GL_NONE \<Longrightarrow> t \<noteq> GL_unlisted \<Longrightarrow> TransposeMatrixType t \<noteq> GL_NONE \<and> TransposeMatrixType t \<noteq> GL_unlisted"
  by (cases t) (simp_all add: TransposeMatrixType_def IsMatrixType_def VariableRowCount_def)

definition proper_type :: "gl_type \<Rightarrow> bool" where
  "proper_type t \<longleftrightarrow> t \<noteq> GL_NONE \<and> t \<noteq> GL_unlisted"

lemma proper_shape:
  "proper_type t \<Longrightarrow> VariableRowCount t \<in> {1, 2, 3, 4}" "proper_type t \<Longrightarrow> VariableColumnCount t \<in> {1, 2, 3, 4}"
  "proper_type t \<Longrightarrow> proper_type (TransposeMatrixType t)"
  using type_shape transpose_known by (auto simp: proper_type_def)

section \<open>Properties\<close>


end
