(* ===== verification/Text_Utils.thy ===== *)
theory Text_Utils
  imports Prelude
begin

text \<open>
  Strings as the C++ code uses them: positions found by \<open>std::string::find_first_of\<close> and
  \<open>find_last_of\<close> (\<^term>\<open>None\<close> is \<open>npos\<close>), decimal output of an unsigned value and its parse.
\<close>

definition find_first :: "('a \<Rightarrow> bool) \<Rightarrow> 'a list \<Rightarrow> nat option" where
  "find_first P s = (let n = length (takeWhile (\<lambda>c. \<not> P c) s) in if n < length s then Some n else None)"

definition find_last :: "('a \<Rightarrow> bool) \<Rightarrow> 'a list \<Rightarrow> nat option" where
  "find_last P s = map_option (\<lambda>n. length s - 1 - n) (find_first P (rev s))"

definition digit_char :: "nat \<Rightarrow> char" where
  "digit_char d = char_of (48 + d)"

definition is_digit :: "char \<Rightarrow> bool" where
  "is_digit c \<longleftrightarrow> 48 \<le> (of_char c :: nat) \<and> (of_char c :: nat) \<le> 57"

definition digit_value :: "char \<Rightarrow> nat" where
  "digit_value c = of_char c - 48"

fun decimal :: "nat \<Rightarrow> string" where
  "decimal n = (if n < 10 then [digit_char n] else decimal (n div 10) @ [digit_char (n mod 10)])"

declare decimal.simps [simp del]

definition decimal_value :: "string \<Rightarrow> nat" where
  "decimal_value s = foldl (\<lambda>n c. 10 * n + digit_value c) 0 s"

lemma digit_char_ok: "d < 10 \<Longrightarrow> is_digit (digit_char d) \<and> digit_value (digit_char d) = d"
  by (simp add: is_digit_def digit_char_def digit_value_def)

lemma decimal_digits: "\<forall>c \<in> set (decimal n). is_digit c"
proof (induction n rule: decimal.induct)
  case (1 n)
  then show ?case by (subst decimal.simps) (auto simp: digit_char_ok)
qed

lemma decimal_nonempty: "decimal n \<noteq> []"
  by (subst decimal.simps) simp

lemma decimal_value_decimal: "decimal_value (decimal n) = n"
proof (induction n rule: decimal.induct)
  case (1 n)
  then show ?case
    by (subst decimal.simps) (auto simp: decimal_value_def digit_char_ok)
qed

lemma find_first_Some:
  "find_first P s = Some n \<longleftrightarrow> n < length s \<and> P (s ! n) \<and> (\<forall>i < n. \<not> P (s ! i))"
proof -
  let ?n = "length (takeWhile (\<lambda>c. \<not> P c) s)"
  have before: "\<not> P (s ! i)" if "i < ?n" for i
    using that nth_mem [OF that] by (metis set_takeWhileD takeWhile_nth)
  have at: "P (s ! ?n)" if "?n < length s"
    using nth_length_takeWhile [OF that] by simp
  show ?thesis
  proof
    assume "find_first P s = Some n"
    then show "n < length s \<and> P (s ! n) \<and> (\<forall>i < n. \<not> P (s ! i))"
      using before at by (auto simp: find_first_def Let_def split: if_splits)
  next
    assume n: "n < length s \<and> P (s ! n) \<and> (\<forall>i < n. \<not> P (s ! i))"
    then have "?n \<le> n" using before by (meson not_le)
    moreover have "\<not> ?n < n" using n at by (metis order.strict_trans)
    ultimately show "find_first P s = Some n" using n by (simp add: find_first_def)
  qed
qed

lemma find_first_None: "find_first P s = None \<longleftrightarrow> (\<forall>c \<in> set s. \<not> P c)"
  by (auto simp: find_first_def Let_def takeWhile_eq_all_conv [symmetric] not_less
      simp del: takeWhile_eq_all_conv) (metis length_takeWhile_le nat_less_le takeWhile_eq_take take_all_iff)+

lemma find_first_append:
  "\<forall>c \<in> set s. \<not> P c \<Longrightarrow> P c \<Longrightarrow> find_first P (s @ c # t) = Some (length s)"
  by (simp add: find_first_def takeWhile_append)

lemma find_last_append:
  assumes "\<forall>c \<in> set t. \<not> P c" "P c"
  shows "find_last P (s @ c # t) = Some (length s)"
  using find_first_append [of "rev t" P c "rev s"] assms by (simp add: find_last_def)

lemma find_last_None: "find_last P s = None \<longleftrightarrow> (\<forall>c \<in> set s. \<not> P c)"
  by (simp add: find_last_def find_first_None)

end
