(* ===== verification/Shader_Variable.thy ===== *)
theory Shader_Variable
  imports GL_Types Text_Utils
begin

text \<open>
  \<open>sh::ShaderVariable\<close> and its kin (src/include/GLSLANG/ShaderVars.h,
  src/src/compiler/translator/ShaderVars.cpp): what the compiler reports about the variables of a
  shader, and the comparisons by which a program is linked from two shaders. A variable is its
  record \<open>var_info\<close> and the list of its fields; C++ copies and assignments are values here.

  The lemmas show that the link-time comparisons are equivalence relations, what \<open>operator==\<close>
  compares, and that looking up a mapped name finds the field the name spells.
\<close>

section \<open>State\<close>

datatype interpolation_type = INTERPOLATION_SMOOTH | INTERPOLATION_CENTROID | INTERPOLATION_FLAT

record var_info =
  sv_type :: gl_type
  sv_precision :: u32
  sv_name :: string
  sv_mappedName :: string
  sv_arraySizes :: "u32 list"
  sv_staticUse :: bool
  sv_active :: bool
  sv_structName :: string
  sv_isRowMajorLayout :: bool
  sv_location :: int
  sv_binding :: int
  sv_imageUnitFormat :: u32
  sv_offset :: int
  sv_readonly :: bool
  sv_writeonly :: bool
  sv_index :: int
  sv_interpolation :: interpolation_type
  sv_isInvariant :: bool
  sv_flattenedOffset :: int

datatype shader_variable = ShaderVariable (sv_info: var_info) (sv_fields: "shader_variable list")

definition default_info :: "gl_type \<Rightarrow> var_info" where
  "default_info typeIn =
     \<lparr>sv_type = typeIn, sv_precision = 0, sv_name = [], sv_mappedName = [], sv_arraySizes = [],
      sv_staticUse = False, sv_active = False, sv_structName = [], sv_isRowMajorLayout = False,
      sv_location = -1, sv_binding = -1, sv_imageUnitFormat = 0, sv_offset = -1,
      sv_readonly = False, sv_writeonly = False, sv_index = -1,
      sv_interpolation = INTERPOLATION_SMOOTH, sv_isInvariant = False, sv_flattenedOffset = -1\<rparr>"

definition ShaderVariable_array :: "gl_type \<Rightarrow> u32 \<Rightarrow> shader_variable" where
  "ShaderVariable_array typeIn arraySizeIn =
     ShaderVariable (default_info typeIn\<lparr>sv_arraySizes := [arraySizeIn]\<rparr>) []"

section \<open>Arrays\<close>

definition isStruct :: "shader_variable \<Rightarrow> bool" where
  "isStruct v \<longleftrightarrow> sv_fields v \<noteq> []"

definition isArray :: "shader_variable \<Rightarrow> bool" where
  "isArray v \<longleftrightarrow> sv_arraySizes (sv_info v) \<noteq> []"

definition getOutermostArraySize :: "shader_variable \<Rightarrow> u32" where
  "getOutermostArraySize v = (if isArray v then last (sv_arraySizes (sv_info v)) else 0)"

definition ArraySizeProduct :: "u32 list \<Rightarrow> u32" where
  "ArraySizeProduct arraySizes = foldl (\<lambda>p s. p * s) 1 arraySizes"

definition getArraySizeProduct :: "shader_variable \<Rightarrow> u32" where
  "getArraySizeProduct v = ArraySizeProduct (sv_arraySizes (sv_info v))"

definition getNestedArraySize :: "shader_variable \<Rightarrow> nat \<Rightarrow> u32" where
  "getNestedArraySize v arrayNestingIndex =
     sv_arraySizes (sv_info v) ! (length (sv_arraySizes (sv_info v)) - 1 - arrayNestingIndex)"

definition getInnerArraySizeProduct :: "shader_variable \<Rightarrow> u32" where
  "getInnerArraySizeProduct v =
     foldl (\<lambda>p idx. p * getNestedArraySize v idx) 1 [1..<length (sv_arraySizes (sv_info v))]"

definition getBasicTypeElementCount :: "shader_variable \<Rightarrow> u32" where
  "getBasicTypeElementCount v = (if isArray v then getOutermostArraySize v else 1)"

definition setArraySize :: "u32 \<Rightarrow> shader_variable \<Rightarrow> shader_variable" where
  "setArraySize n v =
     ShaderVariable (sv_info v\<lparr>sv_arraySizes := if n \<noteq> 0 then [n] else []\<rparr>) (sv_fields v)"

definition parentArrayIndex :: "shader_variable \<Rightarrow> int" where
  "parentArrayIndex v =
     (if sv_flattenedOffset (sv_info v) \<noteq> -1 then sv_flattenedOffset (sv_info v) else 0)"

text \<open>Assigning the unsigned sum to an \<open>int\<close> member reads it as a signed 32-bit value.\<close>

definition indexIntoArray :: "u32 \<Rightarrow> shader_variable \<Rightarrow> shader_variable" where
  "indexIntoArray arrayIndex v =
     ShaderVariable
       (sv_info v\<lparr>
          sv_flattenedOffset :=
            sint (arrayIndex + getOutermostArraySize v * of_int (parentArrayIndex v)),
          sv_arraySizes := butlast (sv_arraySizes (sv_info v))\<rparr>)
       (sv_fields v)"

section \<open>Comparisons\<close>

definition GetNonAuxiliaryInterpolationType :: "interpolation_type \<Rightarrow> interpolation_type" where
  "GetNonAuxiliaryInterpolationType i =
     (if i = INTERPOLATION_CENTROID then INTERPOLATION_SMOOTH else i)"

definition InterpolationTypesMatch :: "interpolation_type \<Rightarrow> interpolation_type \<Rightarrow> bool" where
  "InterpolationTypesMatch a b \<longleftrightarrow>
     GetNonAuxiliaryInterpolationType a = GetNonAuxiliaryInterpolationType b"

fun sv_eq :: "shader_variable \<Rightarrow> shader_variable \<Rightarrow> bool" where
  "sv_eq (ShaderVariable a fs) (ShaderVariable b gs) \<longleftrightarrow>
     \<not> (sv_type a \<noteq> sv_type b \<or> sv_precision a \<noteq> sv_precision b \<or> sv_name a \<noteq> sv_name b \<or>
        sv_mappedName a \<noteq> sv_mappedName b \<or> sv_arraySizes a \<noteq> sv_arraySizes b \<or>
        sv_staticUse a \<noteq> sv_staticUse b \<or> sv_active a \<noteq> sv_active b \<or>
        length fs \<noteq> length gs \<or> sv_structName a \<noteq> sv_structName b \<or>
        sv_isRowMajorLayout a \<noteq> sv_isRowMajorLayout b \<or> sv_location a \<noteq> sv_location b \<or>
        sv_binding a \<noteq> sv_binding b \<or> sv_imageUnitFormat a \<noteq> sv_imageUnitFormat b \<or>
        sv_offset a \<noteq> sv_offset b \<or> sv_readonly a \<noteq> sv_readonly b \<or>
        sv_writeonly a \<noteq> sv_writeonly b \<or> sv_index a \<noteq> sv_index b \<or>
        sv_interpolation a \<noteq> sv_interpolation b \<or> sv_isInvariant a \<noteq> sv_isInvariant b) \<and>
     list_all2 sv_eq fs gs"

fun isSameVariableAtLinkTime :: "bool \<Rightarrow> bool \<Rightarrow> shader_variable \<Rightarrow> shader_variable \<Rightarrow> bool" where
  "isSameVariableAtLinkTime matchPrecision matchName (ShaderVariable a fs) (ShaderVariable b gs) \<longleftrightarrow>
     sv_type a = sv_type b \<and>
     \<not> (matchPrecision \<and> sv_precision a \<noteq> sv_precision b) \<and>
     \<not> (matchName \<and> sv_name a \<noteq> sv_name b) \<and>
     sv_arraySizes a = sv_arraySizes b \<and>
     sv_isRowMajorLayout a = sv_isRowMajorLayout b \<and>
     length fs = length gs \<and>
     list_all2 (isSameVariableAtLinkTime matchPrecision True) fs gs \<and>
     sv_structName a = sv_structName b"

definition isSameUniformAtLinkTime :: "shader_variable \<Rightarrow> shader_variable \<Rightarrow> bool" where
  "isSameUniformAtLinkTime v w =
     (let a = sv_info v; b = sv_info w in
      if sv_binding a \<noteq> -1 \<and> sv_binding b \<noteq> -1 \<and> sv_binding a \<noteq> sv_binding b then False
      else if sv_imageUnitFormat a \<noteq> sv_imageUnitFormat b then False
      else if sv_location a \<noteq> -1 \<and> sv_location b \<noteq> -1 \<and> sv_location a \<noteq> sv_location b then False
      else if sv_offset a \<noteq> sv_offset b then False
      else if sv_readonly a \<noteq> sv_readonly b \<or> sv_writeonly a \<noteq> sv_writeonly b then False
      else isSameVariableAtLinkTime True True v w)"

definition isSameInterfaceBlockFieldAtLinkTime :: "shader_variable \<Rightarrow> shader_variable \<Rightarrow> bool" where
  "isSameInterfaceBlockFieldAtLinkTime v w = isSameVariableAtLinkTime True True v w"

definition isSameVaryingAtLinkTime :: "int \<Rightarrow> shader_variable \<Rightarrow> shader_variable \<Rightarrow> bool" where
  "isSameVaryingAtLinkTime shaderVersion v w \<longleftrightarrow>
     (let a = sv_info v; b = sv_info w in
      isSameVariableAtLinkTime False False v w \<and>
      InterpolationTypesMatch (sv_interpolation a) (sv_interpolation b) \<and>
      (shaderVersion \<ge> 300 \<or> sv_isInvariant a = sv_isInvariant b) \<and>
      sv_location a = sv_location b \<and>
      (sv_name a = sv_name b \<or> (shaderVersion \<ge> 310 \<and> sv_location a \<ge> 0)))"

section \<open>Names\<close>

definition builtin_name :: "string \<Rightarrow> bool" where
  "builtin_name nm \<longleftrightarrow> length nm \<ge> 4 \<and> nm ! 0 = CHR ''g'' \<and> nm ! 1 = CHR ''l'' \<and> nm ! 2 = CHR ''_''"

definition isBuiltIn :: "shader_variable \<Rightarrow> bool" where
  "isBuiltIn v \<longleftrightarrow> builtin_name (sv_name (sv_info v))"

definition isEmulatedBuiltIn :: "shader_variable \<Rightarrow> bool" where
  "isEmulatedBuiltIn v \<longleftrightarrow> isBuiltIn v \<and> sv_name (sv_info v) \<noteq> sv_mappedName (sv_info v)"

definition ArrayString :: "u32 \<Rightarrow> string" where
  "ArrayString i = ''['' @ decimal (unat i) @ '']''"

text \<open>The first field in which the lookup succeeds.\<close>

fun first_found :: "'a option list \<Rightarrow> 'a option" where
  "first_found [] = None"
| "first_found (Some x # rs) = Some x"
| "first_found (None # rs) = first_found rs"

text \<open>
  \<open>leafVar\<close> and \<open>originalFullName\<close> of \<open>findInfoByMappedName\<close>, or \<^term>\<open>None\<close> where it returns false.
  \<open>nth_char\<close> is \<open>operator[]\<close> of a \<open>std::string\<close>, whose value at the length is the null character.
\<close>

definition nth_char :: "string \<Rightarrow> nat \<Rightarrow> char" where
  "nth_char s i = (if i < length s then s ! i else CHR 0x00)"

fun findInfoByMappedName :: "shader_variable \<Rightarrow> string \<Rightarrow> (shader_variable \<times> string) option" where
  "findInfoByMappedName (ShaderVariable a fs) mappedFullName =
     (case find_first (\<lambda>c. c = CHR ''.'' \<or> c = CHR ''['') mappedFullName of
        None \<Rightarrow>
          (if mappedFullName \<noteq> sv_mappedName a then None
           else Some (ShaderVariable a fs, sv_name a))
      | Some pos \<Rightarrow>
          (if take pos mappedFullName \<noteq> sv_mappedName a then None
           else
             let in_fields = (\<lambda>originalName remaining.
                   map_option (\<lambda>(v, n). (v, originalName @ ''.'' @ n))
                     (first_found (map (\<lambda>f. findInfoByMappedName f remaining) fs)))
             in if mappedFullName ! pos = CHR ''[''
                then (case find_first (\<lambda>c. c = CHR '']'') mappedFullName of
                        None \<Rightarrow> None
                      | Some closePos \<Rightarrow>
                          if closePos < pos then None
                          else
                            let originalName =
                                  sv_name a @ take (closePos - pos + 1) (drop pos mappedFullName)
                            in if closePos + 1 = length mappedFullName
                               then Some (ShaderVariable a fs, originalName)
                               else if nth_char mappedFullName (closePos + 1) \<noteq> CHR ''.'' then None
                               else in_fields originalName (drop (closePos + 2) mappedFullName))
                else in_fields (sv_name a) (drop (pos + 1) mappedFullName)))"

section \<open>Interface blocks and work group sizes\<close>

datatype block_layout_type =
  BLOCKLAYOUT_STANDARD | BLOCKLAYOUT_STD430 | BLOCKLAYOUT_PACKED | BLOCKLAYOUT_SHARED

datatype block_type = BLOCK_UNIFORM | BLOCK_BUFFER | BLOCK_IN

record interface_block =
  ib_name :: string
  ib_mappedName :: string
  ib_instanceName :: string
  ib_arraySize :: u32
  ib_layout :: block_layout_type
  ib_isRowMajorLayout :: bool
  ib_binding :: int
  ib_staticUse :: bool
  ib_active :: bool
  ib_blockType :: block_type
  ib_fields :: "shader_variable list"

definition InterfaceBlock :: interface_block where
  "InterfaceBlock =
     \<lparr>ib_name = [], ib_mappedName = [], ib_instanceName = [], ib_arraySize = 0,
      ib_layout = BLOCKLAYOUT_PACKED, ib_isRowMajorLayout = False, ib_binding = -1,
      ib_staticUse = False, ib_active = False, ib_blockType = BLOCK_UNIFORM, ib_fields = []\<rparr>"

definition fieldPrefix :: "interface_block \<Rightarrow> string" where
  "fieldPrefix b = (if ib_instanceName b = [] then [] else ib_name b)"

definition fieldMappedPrefix :: "interface_block \<Rightarrow> string" where
  "fieldMappedPrefix b = (if ib_instanceName b = [] then [] else ib_mappedName b)"

definition isSameInterfaceBlockAtLinkTime :: "interface_block \<Rightarrow> interface_block \<Rightarrow> bool" where
  "isSameInterfaceBlockAtLinkTime a b \<longleftrightarrow>
     \<not> (ib_name a \<noteq> ib_name b \<or> ib_mappedName a \<noteq> ib_mappedName b \<or>
        ib_arraySize a \<noteq> ib_arraySize b \<or> ib_layout a \<noteq> ib_layout b \<or>
        ib_isRowMajorLayout a \<noteq> ib_isRowMajorLayout b \<or> ib_binding a \<noteq> ib_binding b \<or>
        ib_blockType a \<noteq> ib_blockType b \<or> length (ib_fields a) \<noteq> length (ib_fields b)) \<and>
     list_all2 isSameInterfaceBlockFieldAtLinkTime (ib_fields a) (ib_fields b)"

definition ib_isBuiltIn :: "interface_block \<Rightarrow> bool" where
  "ib_isBuiltIn b \<longleftrightarrow> builtin_name (ib_name b)"

type_synonym work_group_size = "int \<times> int \<times> int"

definition wgs_fill :: "int \<Rightarrow> work_group_size" where
  "wgs_fill fillValue = (fillValue, fillValue, fillValue)"

definition isLocalSizeValid :: "work_group_size \<Rightarrow> bool" where
  "isLocalSizeValid s = (case s of (x, y, z) \<Rightarrow>
     (x < 1 \<and> y < 1 \<and> z < 1) \<or> (x > 0 \<and> y > 0 \<and> z > 0))"

definition isAnyValueSet :: "work_group_size \<Rightarrow> bool" where
  "isAnyValueSet s = (case s of (x, y, z) \<Rightarrow> x > 0 \<or> y > 0 \<or> z > 0)"

definition wgs_isDeclared :: "work_group_size \<Rightarrow> bool" where
  "wgs_isDeclared s = (case s of (x, y, z) \<Rightarrow> x > 0)"

definition isWorkGroupSizeMatching :: "work_group_size \<Rightarrow> work_group_size \<Rightarrow> bool" where
  "isWorkGroupSizeMatching s r =
     (let ok = (\<lambda>a b. a = b \<or> (a = 1 \<and> b = -1) \<or> (a = (-1 :: int) \<and> b = 1))
      in case (s, r) of ((a, b, c), (a', b', c')) \<Rightarrow> ok a a' \<and> ok b b' \<and> ok c c')"

section \<open>The link-time comparisons are equivalences\<close>

lemma isSameVariable_refl: "isSameVariableAtLinkTime mp mn v v"
  by (induction v arbitrary: mn) (simp add: list_all2_same)

lemma isSameVariable_sym:
  "isSameVariableAtLinkTime mp mn v w \<Longrightarrow> isSameVariableAtLinkTime mp mn w v"
proof (induction v arbitrary: mn w)
  case (ShaderVariable a fs)
  obtain b gs where w: "w = ShaderVariable b gs" by (cases w)
  from ShaderVariable.prems have fields: "list_all2 (isSameVariableAtLinkTime mp True) fs gs"
    by (simp add: w)
  have "list_all2 (isSameVariableAtLinkTime mp True) gs fs"
    unfolding list_all2_conv_all_nth
  proof (intro conjI allI impI)
    show "length gs = length fs" using list_all2_lengthD [OF fields] ..
    fix i assume i: "i < length gs"
    with list_all2_lengthD [OF fields] have "fs ! i \<in> set fs" by simp
    from ShaderVariable.IH [OF this] list_all2_nthD2 [OF fields i]
    show "isSameVariableAtLinkTime mp True (gs ! i) (fs ! i)" .
  qed
  with ShaderVariable.prems show ?case by (auto simp: w)
qed

lemma isSameVariable_trans:
  "isSameVariableAtLinkTime mp mn u v \<Longrightarrow> isSameVariableAtLinkTime mp mn v w \<Longrightarrow>
   isSameVariableAtLinkTime mp mn u w"
proof (induction u arbitrary: mn v w)
  case (ShaderVariable a fs)
  obtain b gs where v: "v = ShaderVariable b gs" by (cases v)
  obtain c hs where w: "w = ShaderVariable c hs" by (cases w)
  have fg: "list_all2 (isSameVariableAtLinkTime mp True) fs gs"
    and gh: "list_all2 (isSameVariableAtLinkTime mp True) gs hs"
    using ShaderVariable.prems by (simp_all add: v w)
  have "list_all2 (isSameVariableAtLinkTime mp True) fs hs"
    unfolding list_all2_conv_all_nth
  proof (intro conjI allI impI)
    show "length fs = length hs" using list_all2_lengthD [OF fg] list_all2_lengthD [OF gh] by simp
    fix i assume i: "i < length fs"
    from ShaderVariable.IH [OF nth_mem [OF i] list_all2_nthD [OF fg i]] list_all2_nthD [OF gh, of i]
      i list_all2_lengthD [OF fg]
    show "isSameVariableAtLinkTime mp True (fs ! i) (hs ! i)" by simp
  qed
  with ShaderVariable.prems show ?case by (auto simp: v w)
qed

lemma isSameVarying_equivp: "equivp (isSameVaryingAtLinkTime version)"
proof (rule equivpI)
  show "reflp (isSameVaryingAtLinkTime version)"
    by (rule reflpI) (simp add: isSameVaryingAtLinkTime_def isSameVariable_refl InterpolationTypesMatch_def)
  show "symp (isSameVaryingAtLinkTime version)"
    by (rule sympI) (auto simp: isSameVaryingAtLinkTime_def InterpolationTypesMatch_def Let_def
        intro: isSameVariable_sym)
  show "transp (isSameVaryingAtLinkTime version)"
    by (rule transpI) (auto simp: isSameVaryingAtLinkTime_def InterpolationTypesMatch_def Let_def
        intro: isSameVariable_trans)
qed

lemma isSameInterfaceBlock_equivp: "equivp isSameInterfaceBlockAtLinkTime"
proof (rule equivpI)
  let ?f = isSameInterfaceBlockFieldAtLinkTime
  have refl: "reflp ?f" by (rule reflpI) (simp add: isSameInterfaceBlockFieldAtLinkTime_def isSameVariable_refl)
  have sym: "symp ?f"
    by (rule sympI) (auto simp: isSameInterfaceBlockFieldAtLinkTime_def intro: isSameVariable_sym)
  have trans: "transp ?f"
    by (rule transpI) (auto simp: isSameInterfaceBlockFieldAtLinkTime_def intro: isSameVariable_trans)
  show "reflp isSameInterfaceBlockAtLinkTime"
    by (rule reflpI) (use refl in \<open>auto simp: isSameInterfaceBlockAtLinkTime_def reflp_def list_all2_same\<close>)
  show "symp isSameInterfaceBlockAtLinkTime"
    by (rule sympI) (use sym in \<open>auto simp: isSameInterfaceBlockAtLinkTime_def symp_def list_all2_conv_all_nth\<close>)
  show "transp isSameInterfaceBlockAtLinkTime"
    by (rule transpI) (auto simp: isSameInterfaceBlockAtLinkTime_def
        intro: list_all2_trans [OF transpD [OF trans]])
qed

section \<open>Paths into a variable\<close>

text \<open>
  A path selects the variable itself or an element of it (\<open>Here\<close>), or goes into a field of it or of
  an element (\<open>Into\<close>). \<open>spell\<close> writes the path out with the names \<open>nm\<close>, as \<open>a[3].b.c[0]\<close>.
\<close>

datatype var_path = Here "u32 option" | Into "u32 option" nat var_path

definition element :: "u32 option \<Rightarrow> string" where
  "element i = (case i of None \<Rightarrow> [] | Some n \<Rightarrow> ArrayString n)"

fun spell :: "(var_info \<Rightarrow> string) \<Rightarrow> shader_variable \<Rightarrow> var_path \<Rightarrow> string" where
  "spell nm v (Here i) = nm (sv_info v) @ element i"
| "spell nm v (Into i k p) = nm (sv_info v) @ element i @ ''.'' @ spell nm (sv_fields v ! k) p"

fun select :: "shader_variable \<Rightarrow> var_path \<Rightarrow> shader_variable" where
  "select v (Here i) = v"
| "select v (Into i k p) = select (sv_fields v ! k) p"

fun path_ok :: "shader_variable \<Rightarrow> var_path \<Rightarrow> bool" where
  "path_ok v (Here i) \<longleftrightarrow> True"
| "path_ok v (Into i k p) \<longleftrightarrow> k < length (sv_fields v) \<and> path_ok (sv_fields v ! k) p"

definition plain :: "string \<Rightarrow> bool" where
  "plain s \<longleftrightarrow> (\<forall>c \<in> set s. c \<noteq> CHR ''.'' \<and> c \<noteq> CHR ''['' \<and> c \<noteq> CHR '']'')"

fun names_ok :: "shader_variable \<Rightarrow> bool" where
  "names_ok (ShaderVariable a fs) \<longleftrightarrow>
     plain (sv_mappedName a) \<and>
     distinct (map (\<lambda>f. sv_mappedName (sv_info f)) fs) \<and> list_all names_ok fs"

definition top_name :: "string \<Rightarrow> string" where
  "top_name s = takeWhile (\<lambda>c. \<not> (c = CHR ''.'' \<or> c = CHR ''['')) s"

lemma take_find_first: "find_first P s = Some n \<Longrightarrow> take n s = takeWhile (\<lambda>c. \<not> P c) s"
  by (auto simp: find_first_def Let_def takeWhile_eq_take [symmetric] split: if_splits)

lemma findInfo_top:
  assumes "findInfoByMappedName v s = Some r"
  shows "top_name s = sv_mappedName (sv_info v)"
proof (cases v)
  case (ShaderVariable a fs)
  show ?thesis
  proof (cases "find_first (\<lambda>c. c = CHR ''.'' \<or> c = CHR ''['') s")
    case None
    then have "top_name s = s"
      unfolding top_name_def by (simp add: find_first_None takeWhile_eq_all_conv)
    with assms ShaderVariable None show ?thesis by (simp split: if_splits)
  next
    case (Some pos)
    with assms ShaderVariable have "take pos s = sv_mappedName a" by (simp split: if_splits)
    with take_find_first [OF Some] ShaderVariable show ?thesis by (simp add: top_name_def)
  qed
qed

lemma top_name_spell:
  assumes "plain (sv_mappedName (sv_info v))"
  shows "top_name (spell sv_mappedName v p) = sv_mappedName (sv_info v)"
proof -
  have "\<exists>t. spell sv_mappedName v p = sv_mappedName (sv_info v) @ t \<and>
      (t = [] \<or> hd t = CHR ''.'' \<or> hd t = CHR ''['')"
    by (cases p) (auto simp: element_def ArrayString_def split: option.splits)
  then obtain t where t: "spell sv_mappedName v p = sv_mappedName (sv_info v) @ t"
    "t = [] \<or> hd t = CHR ''.'' \<or> hd t = CHR ''[''" by blast
  have "takeWhile (\<lambda>c. \<not> (c = CHR ''.'' \<or> c = CHR ''['')) t = []"
    using t(2) by (cases t) auto
  then show ?thesis
    using assms unfolding t(1) top_name_def plain_def by (simp add: takeWhile_append2)
qed

lemma first_found_unique:
  assumes "k < length rs" "rs ! k = Some x" "\<And>j. j < k \<Longrightarrow> rs ! j = None"
  shows "first_found rs = Some x"
  using assms
proof (induction rs arbitrary: k rule: first_found.induct)
  case (3 rs)
  then obtain j where "k = Suc j" by (cases k) auto
  with 3 show ?case by (auto intro!: "3.IH" [of j]) fastforce
next
  case (2 y rs)
  then show ?case by (cases k) fastforce+
qed simp

lemma find_in_fields:
  assumes ok: "list_all names_ok fs" "distinct (map (\<lambda>f. sv_mappedName (sv_info f)) fs)" "k < length fs"
    and found: "findInfoByMappedName (fs ! k) s = Some r"
  shows "first_found (map (\<lambda>f. findInfoByMappedName f s) fs) = Some r"
proof (rule first_found_unique [of k])
  fix j assume j: "j < k"
  show "map (\<lambda>f. findInfoByMappedName f s) fs ! j = None"
  proof (rule ccontr)
    assume "map (\<lambda>f. findInfoByMappedName f s) fs ! j \<noteq> None"
    then obtain r' where "findInfoByMappedName (fs ! j) s = Some r'" using j ok(3) by auto
    then have "sv_mappedName (sv_info (fs ! j)) = sv_mappedName (sv_info (fs ! k))"
      using findInfo_top found by metis
    with ok(2,3) j show False by (auto simp: distinct_conv_nth)
  qed
qed (use found ok(3) in simp_all)

lemma plain_find: "plain m \<Longrightarrow> c = CHR ''.'' \<or> c = CHR ''['' \<Longrightarrow>
   find_first (\<lambda>c. c = CHR ''.'' \<or> c = CHR ''['') (m @ c # t) = Some (length m)"
  by (rule find_first_append) (auto simp: plain_def)

lemma plain_close:
  assumes "plain m"
  shows "find_first (\<lambda>c. c = CHR '']'') (m @ ArrayString n @ t) = Some (length m + length (decimal (unat n)) + 1)"
proof -
  have "\<not> is_digit CHR '']''" by (simp add: is_digit_def)
  then have "\<forall>c \<in> set (m @ ''['' @ decimal (unat n)). c \<noteq> CHR '']''"
    using assms decimal_digits [of "unat n"] by (auto simp: plain_def)
  from find_first_append [OF this refl, of t] show ?thesis by (simp add: ArrayString_def)
qed

lemma findInfo_spell:
  "names_ok v \<Longrightarrow> path_ok v p \<Longrightarrow>
   findInfoByMappedName v (spell sv_mappedName v p) = Some (select v p, spell sv_name v p)"
proof (induction p arbitrary: v)
  case (Here i)
  obtain a fs where v: "v = ShaderVariable a fs" by (cases v)
  have m: "plain (sv_mappedName a)" using Here.prems(1) by (simp add: v)
  show ?case
  proof (cases i)
    case None
    have "find_first (\<lambda>c. c = CHR ''.'' \<or> c = CHR ''['') (sv_mappedName a) = None"
      using m by (simp add: find_first_None plain_def)
    with None show ?thesis by (simp add: v element_def)
  next
    case (Some n)
    let ?s = "sv_mappedName a @ ArrayString n"
    have "find_first (\<lambda>c. c = CHR ''.'' \<or> c = CHR ''['') ?s = Some (length (sv_mappedName a))"
      using plain_find [OF m, of "CHR ''[''"] by (simp add: ArrayString_def)
    moreover have "find_first (\<lambda>c. c = CHR '']'') ?s = Some (length (sv_mappedName a) + length (decimal (unat n)) + 1)"
      using plain_close [OF m, of n "[]"] by simp
    moreover have "?s ! length (sv_mappedName a) = CHR ''[''" by (simp add: ArrayString_def)
    ultimately show ?thesis
      using Some by (simp add: v element_def ArrayString_def)
  qed
next
  case (Into i k p)
  obtain a fs where v: "v = ShaderVariable a fs" by (cases v)
  have m: "plain (sv_mappedName a)" and fs: "list_all names_ok fs"
    "distinct (map (\<lambda>f. sv_mappedName (sv_info f)) fs)" "k < length fs" "path_ok (fs ! k) p"
    using Into.prems by (simp_all add: v)
  have "names_ok (fs ! k)" using fs(1,3) by (simp add: list_all_length)
  from find_in_fields [OF fs(1-3) Into.IH [OF this fs(4)]]
  have inner: "first_found (map (\<lambda>f. findInfoByMappedName f (spell sv_mappedName (fs ! k) p)) fs)
    = Some (select (fs ! k) p, spell sv_name (fs ! k) p)" .
  show ?case
  proof (cases i)
    case None
    let ?s = "sv_mappedName a @ ''.'' @ spell sv_mappedName (fs ! k) p"
    have "find_first (\<lambda>c. c = CHR ''.'' \<or> c = CHR ''['') ?s = Some (length (sv_mappedName a))"
      using plain_find [OF m, of "CHR ''.''"] by simp
    with None inner show ?thesis by (simp add: v element_def)
  next
    case (Some n)
    define s where "s = sv_mappedName a @ ArrayString n @ ''.'' @ spell sv_mappedName (fs ! k) p"
    define close where "close = length (sv_mappedName a) + length (decimal (unat n)) + 1"
    have facts: "find_first (\<lambda>c. c = CHR ''.'' \<or> c = CHR ''['') s = Some (length (sv_mappedName a))"
      "find_first (\<lambda>c. c = CHR '']'') s = Some close"
      "s ! length (sv_mappedName a) = CHR ''[''"
      "take (length (sv_mappedName a)) s = sv_mappedName a"
      "nth_char s (close + 1) = CHR ''.''" "close + 1 \<noteq> length s" "\<not> close < length (sv_mappedName a)"
      using plain_find [OF m, of "CHR ''[''"] plain_close [OF m, of n]
      by (simp_all add: s_def close_def ArrayString_def nth_char_def nth_append)
    have "drop (close + 2) s = spell sv_mappedName (fs ! k) p"
      "take (close - length (sv_mappedName a) + 1) (drop (length (sv_mappedName a)) s) = ArrayString n"
      by (simp_all add: s_def close_def ArrayString_def eval_nat_numeral)
    with facts inner have "findInfoByMappedName (ShaderVariable a fs) s
      = Some (select (fs ! k) p, sv_name a @ ArrayString n @ ''.'' @ spell sv_name (fs ! k) p)"
      by (simp only: findInfoByMappedName.simps Let_def option.case if_True if_False simp_thms) simp
    then show ?thesis using Some by (simp add: v element_def s_def)
  qed
qed

section \<open>What a comparison looks at\<close>

text \<open>
  The specification of the link-time comparisons goes by paths: a path is the list of the field numbers that leads
  from a variable to one of its members, and \<open>member v p\<close> is the declaration found there.
\<close>

fun member :: "shader_variable \<Rightarrow> nat list \<Rightarrow> var_info option" where
  "member (ShaderVariable a fs) [] = Some a"
| "member (ShaderVariable a fs) (k # p) = (if k < length fs then member (fs ! k) p else None)"

definition declared ::
  "bool \<Rightarrow> bool \<Rightarrow> var_info \<Rightarrow> gl_type \<times> u32 option \<times> string option \<times> u32 list \<times> bool \<times> string" where
  "declared withPrecision withName a =
     (sv_type a, if withPrecision then Some (sv_precision a) else None, if withName then Some (sv_name a) else None,
      sv_arraySizes a, sv_isRowMajorLayout a, sv_structName a)"

definition same_at :: "bool \<Rightarrow> bool \<Rightarrow> shader_variable \<Rightarrow> shader_variable \<Rightarrow> nat list \<Rightarrow> bool" where
  "same_at withPrecision withName v w p \<longleftrightarrow>
     map_option (declared withPrecision (withName \<or> p \<noteq> [])) (member v p) =
     map_option (declared withPrecision (withName \<or> p \<noteq> [])) (member w p)"

lemma member_root [simp]: "member v [] = Some (sv_info v)"
  by (cases v) simp

lemma member_length:
  assumes "\<forall>k. member (ShaderVariable a fs) [k] = None \<longleftrightarrow> member (ShaderVariable b gs) [k] = None"
  shows "length fs = length gs"
proof -
  have "k < length fs \<longleftrightarrow> k < length gs" for k using assms [rule_format, of k] by (simp split: if_splits)
  then show ?thesis by (meson linorder_neqE_nat less_irrefl)
qed

lemma isSameVariable_paths: "isSameVariableAtLinkTime mp mn v w \<longleftrightarrow> (\<forall>p. same_at mp mn v w p)"
proof (induction v arbitrary: mn w)
  case (ShaderVariable a fs)
  obtain b gs where w: "w = ShaderVariable b gs" by (cases w)
  have paths: "(\<forall>p. P p) \<longleftrightarrow> P [] \<and> (\<forall>k p. P (k # p))" for P :: "nat list \<Rightarrow> bool"
    by (metis list.exhaust)
  have split: "(\<forall>p. same_at mp mn (ShaderVariable a fs) w p) \<longleftrightarrow>
      declared mp mn a = declared mp mn b \<and> (\<forall>k p. same_at mp mn (ShaderVariable a fs) w (k # p))"
    unfolding paths [of "same_at mp mn (ShaderVariable a fs) w"] by (simp add: w same_at_def)
  have fields: "(\<forall>k p. same_at mp mn (ShaderVariable a fs) w (k # p)) \<longleftrightarrow>
      length fs = length gs \<and> (\<forall>k<length fs. \<forall>p. same_at mp True (fs ! k) (gs ! k) p)"
  proof
    assume all: "\<forall>k p. same_at mp mn (ShaderVariable a fs) w (k # p)"
    then have "\<forall>k. member (ShaderVariable a fs) [k] = None \<longleftrightarrow> member (ShaderVariable b gs) [k] = None"
      unfolding w same_at_def by (metis map_option_is_None)
    then have len: "length fs = length gs" using member_length by blast
    then show "length fs = length gs \<and> (\<forall>k<length fs. \<forall>p. same_at mp True (fs ! k) (gs ! k) p)"
      using all by (simp add: w same_at_def) (metis (mono_tags))
  qed (auto simp: w same_at_def)
  have "list_all2 (isSameVariableAtLinkTime mp True) fs gs \<longleftrightarrow>
      length fs = length gs \<and> (\<forall>k<length fs. \<forall>p. same_at mp True (fs ! k) (gs ! k) p)"
    using ShaderVariable.IH unfolding list_all2_conv_all_nth by (metis nth_mem)
  then show ?case
    unfolding split fields unfolding w by (auto simp: declared_def)
qed

section \<open>Properties\<close>

text \<open>
  C13. What the link-time comparisons mean. Two variables match if and only if they have the same members (the same paths
  lead to declarations), and at each the declarations agree in type, array sizes, row-major layout and structure name,
  in precision if it is asked for, and in name (for the variable itself if it is asked for, for the members of structures
  always). Varyings match, in a shader version, if they match without names and precisions, their interpolation is the
  same up to an auxiliary qualifier, they agree in location, in invariance below version 300, and in name unless, from
  version 310 on, the location is given. Fields of interface blocks match with names and precisions; blocks match if they
  agree in everything else that they have and field by field. Each of the three comparisons is an equivalence relation.
\<close>

theorem link_time_equivalences:
  "(isSameVariableAtLinkTime matchPrecision matchName v w \<longleftrightarrow> (\<forall>p. same_at matchPrecision matchName v w p)) \<and>
   (isSameVaryingAtLinkTime version v w \<longleftrightarrow>
      (\<forall>p. same_at False False v w p) \<and>
      GetNonAuxiliaryInterpolationType (sv_interpolation (sv_info v)) =
        GetNonAuxiliaryInterpolationType (sv_interpolation (sv_info w)) \<and>
      sv_location (sv_info v) = sv_location (sv_info w) \<and>
      (if version < 300 then sv_isInvariant (sv_info v) = sv_isInvariant (sv_info w) else True) \<and>
      (if version < 310 \<or> sv_location (sv_info v) < 0 then sv_name (sv_info v) = sv_name (sv_info w) else True)) \<and>
   (isSameInterfaceBlockFieldAtLinkTime v w \<longleftrightarrow> (\<forall>p. same_at True True v w p)) \<and>
   (isSameInterfaceBlockAtLinkTime a b \<longleftrightarrow>
      (ib_name a, ib_mappedName a, ib_arraySize a, ib_layout a, ib_isRowMajorLayout a, ib_binding a, ib_blockType a) =
        (ib_name b, ib_mappedName b, ib_arraySize b, ib_layout b, ib_isRowMajorLayout b, ib_binding b, ib_blockType b) \<and>
      list_all2 (\<lambda>f g. \<forall>p. same_at True True f g p) (ib_fields a) (ib_fields b)) \<and>
   equivp (isSameVaryingAtLinkTime version) \<and> equivp isSameInterfaceBlockAtLinkTime \<and>
   equivp isSameInterfaceBlockFieldAtLinkTime"
proof (intro conjI)
  have field: "isSameInterfaceBlockFieldAtLinkTime = (\<lambda>f g. \<forall>p. same_at True True f g p)"
    by (intro ext) (simp add: isSameInterfaceBlockFieldAtLinkTime_def isSameVariable_paths)
  show "isSameInterfaceBlockFieldAtLinkTime v w \<longleftrightarrow> (\<forall>p. same_at True True v w p)" by (simp only: field)
  show "isSameInterfaceBlockAtLinkTime a b \<longleftrightarrow>
      (ib_name a, ib_mappedName a, ib_arraySize a, ib_layout a, ib_isRowMajorLayout a, ib_binding a, ib_blockType a) =
        (ib_name b, ib_mappedName b, ib_arraySize b, ib_layout b, ib_isRowMajorLayout b, ib_binding b, ib_blockType b) \<and>
      list_all2 (\<lambda>f g. \<forall>p. same_at True True f g p) (ib_fields a) (ib_fields b)"
    unfolding isSameInterfaceBlockAtLinkTime_def field by (auto dest: list_all2_lengthD)
  show "isSameVariableAtLinkTime matchPrecision matchName v w \<longleftrightarrow> (\<forall>p. same_at matchPrecision matchName v w p)"
    by (rule isSameVariable_paths)
  show "isSameVaryingAtLinkTime version v w \<longleftrightarrow>
      (\<forall>p. same_at False False v w p) \<and>
      GetNonAuxiliaryInterpolationType (sv_interpolation (sv_info v)) =
        GetNonAuxiliaryInterpolationType (sv_interpolation (sv_info w)) \<and>
      sv_location (sv_info v) = sv_location (sv_info w) \<and>
      (if version < 300 then sv_isInvariant (sv_info v) = sv_isInvariant (sv_info w) else True) \<and>
      (if version < 310 \<or> sv_location (sv_info v) < 0 then sv_name (sv_info v) = sv_name (sv_info w) else True)"
    unfolding isSameVaryingAtLinkTime_def Let_def isSameVariable_paths InterpolationTypesMatch_def by auto
  show "equivp isSameInterfaceBlockFieldAtLinkTime"
    unfolding equivp_reflp_symp_transp isSameInterfaceBlockFieldAtLinkTime_def reflp_def symp_def transp_def
    using isSameVariable_refl isSameVariable_sym isSameVariable_trans by blast
qed (rule isSameVarying_equivp isSameInterfaceBlock_equivp)+

text \<open>The comparison of uniforms is no equivalence: a binding or location that is not set matches any other.\<close>

lemma isSameUniform_not_transitive:
  "\<not> transp isSameUniformAtLinkTime"
proof
  assume t: "transp isSameUniformAtLinkTime"
  let ?u = "\<lambda>n. ShaderVariable (default_info GL_FLOAT\<lparr>sv_binding := n\<rparr>) []"
  have "isSameUniformAtLinkTime (?u 1) (?u (- 1))" "isSameUniformAtLinkTime (?u (- 1)) (?u 2)"
    by (simp_all add: isSameUniformAtLinkTime_def)
  then have "isSameUniformAtLinkTime (?u 1) (?u 2)" using t unfolding transp_def by blast
  then show False by (simp add: isSameUniformAtLinkTime_def)
qed

text \<open>
  C13. Where mapped names contain no \<open>.\<close>, \<open>[\<close> or \<open>]\<close> and differ within a structure, looking up the mapped
  spelling of any path into a variable succeeds, yields the variable at the end of the path, and the
  original name it returns is the same path in the original names.
\<close>

theorem findInfoByMappedName_path:
  assumes "names_ok v" and "path_ok v p"
  shows "findInfoByMappedName v (spell sv_mappedName v p) = Some (select v p, spell sv_name v p)"
  using assms by (rule findInfo_spell)

theorem findInfoByMappedName_path_witness:
  "findInfoByMappedName
     (ShaderVariable (default_info GL_NONE\<lparr>sv_name := ''s'', sv_mappedName := ''_us''\<rparr>)
        [ShaderVariable (default_info GL_FLOAT\<lparr>sv_name := ''x'', sv_mappedName := ''_ux''\<rparr>) []])
     ''_us[3]._ux''
   = Some (ShaderVariable (default_info GL_FLOAT\<lparr>sv_name := ''x'', sv_mappedName := ''_ux''\<rparr>) [], ''s[3].x'')"
proof -
  let ?x = "ShaderVariable (default_info GL_FLOAT\<lparr>sv_name := ''x'', sv_mappedName := ''_ux''\<rparr>) []"
  let ?s = "ShaderVariable (default_info GL_NONE\<lparr>sv_name := ''s'', sv_mappedName := ''_us''\<rparr>) [?x]"
  let ?p = "Into (Some 3) 0 (Here None)"
  have digit_char_3: "digit_char 3 = CHR ''3''" by code_simp
  have "names_ok ?s" "path_ok ?s ?p" by (simp_all add: plain_def)
  from findInfoByMappedName_path [OF this] show ?thesis
    by (simp add: element_def ArrayString_def decimal.simps digit_char_3 del: findInfoByMappedName.simps)
qed

end
