(* ===== verification/Variable_Packer.thy ===== *)
theory Variable_Packer
  imports Shader_Variable "HOL-Library.Product_Lexorder" "HOL-Library.List_Lexorder" "HOL-Library.Multiset"
begin

text \<open>
  \<open>sh::CheckVariablesInPackingLimits\<close> (src/src/compiler/translator/VariablePacker.cpp): whether the
  variables of a shader fit into a number of 4-component rows, by the packing algorithm of GLSL ES
  1.00 Appendix A.7. A row is the set of its used columns as a 32-bit mask, bit 3 being column 0.

  Numbers of rows are \<open>int\<close>s of the code: sums and conversions wrap around (\<open>int32\<close>), where the code does
  not only step through the rows that there are. The correctness of the algorithm is shown for the same
  algorithm on unbounded integers (\<open>ideal_packSorted\<close>), with which the code agrees as long as the rows of
  all variables together are less than \<open>2\<^sup>3\<^sup>1\<close>; \<open>row_sum_wraps\<close> shows what happens beyond. \<open>std::sort\<close> leaves the order of
  equivalent variables open; the model takes the stable order, and variables the comparer does not
  distinguish need the same rows and columns (\<open>same_order_same_shape\<close>). An access outside \<open>rows_\<close> is
  \<^term>\<open>None\<close>.

  The main lemma constructs, from a successful run, a placement of all variables that does not
  overlap: the answer is never too optimistic.
\<close>

section \<open>Expanding structures\<close>

lemma field_smaller: "f \<in> set (sv_fields v) \<Longrightarrow> size f < size v"
  by (cases v) (auto dest: size_list_estimation' [of _ _ _ size])

function (sequential)
  ExpandVariable :: "shader_variable \<Rightarrow> string \<Rightarrow> shader_variable list" and
  ExpandStructArrayVariable :: "shader_variable \<Rightarrow> nat \<Rightarrow> string \<Rightarrow> shader_variable list" and
  ExpandStructVariable :: "shader_variable \<Rightarrow> string \<Rightarrow> shader_variable list"
where
  "ExpandVariable v nm =
     (if isStruct v
      then (if isArray v then ExpandStructArrayVariable v 0 nm else ExpandStructVariable v nm)
      else [ShaderVariable (sv_info v\<lparr>sv_name := nm\<rparr>) (sv_fields v)])"
| "ExpandStructArrayVariable v arrayNestingIndex nm =
     concat (map (\<lambda>arrayElement.
         let elementName = nm @ ArrayString (of_nat arrayElement)
         in if arrayNestingIndex + 1 < length (sv_arraySizes (sv_info v))
            then ExpandStructArrayVariable v (arrayNestingIndex + 1) elementName
            else ExpandStructVariable v elementName)
       [0..<unat (getNestedArraySize v arrayNestingIndex)])"
| "ExpandStructVariable v nm =
     concat (map (\<lambda>field. ExpandVariable field (nm @ ''.'' @ sv_name (sv_info field))) (sv_fields v))"
  by pat_completeness auto

termination
  by (relation "measures [\<lambda>c. case c of Inl (v, _) \<Rightarrow> size v | Inr (Inl (v, _, _)) \<Rightarrow> size v
          | Inr (Inr (v, _)) \<Rightarrow> size v,
        \<lambda>c. case c of Inl (v, _) \<Rightarrow> length (sv_arraySizes (sv_info v)) + 2
          | Inr (Inl (v, i, _)) \<Rightarrow> length (sv_arraySizes (sv_info v)) - i + 1 | Inr (Inr _) \<Rightarrow> 0]")
    (auto dest: field_smaller)

declare ExpandVariable.simps [simp del] ExpandStructArrayVariable.simps [simp del]
  ExpandStructVariable.simps [simp del]

section \<open>Shapes\<close>

definition GetTypePackingComponentsPerRow :: "gl_type \<Rightarrow> int" where
  "GetTypePackingComponentsPerRow =
     gl_switch
       [([GL_FLOAT_MAT4, GL_FLOAT_MAT2, GL_FLOAT_MAT2x4, GL_FLOAT_MAT3x4, GL_FLOAT_MAT4x2,
          GL_FLOAT_MAT4x3, GL_FLOAT_VEC4, GL_INT_VEC4, GL_BOOL_VEC4, GL_UNSIGNED_INT_VEC4], 4),
        ([GL_FLOAT_MAT3, GL_FLOAT_MAT2x3, GL_FLOAT_MAT3x2, GL_FLOAT_VEC3, GL_INT_VEC3, GL_BOOL_VEC3,
          GL_UNSIGNED_INT_VEC3], 3),
        ([GL_FLOAT_VEC2, GL_INT_VEC2, GL_BOOL_VEC2, GL_UNSIGNED_INT_VEC2], 2)]
       1"

definition GetTypePackingRows :: "gl_type \<Rightarrow> int" where
  "GetTypePackingRows =
     gl_switch
       [([GL_FLOAT_MAT4, GL_FLOAT_MAT2x4, GL_FLOAT_MAT3x4, GL_FLOAT_MAT4x3, GL_FLOAT_MAT4x2], 4),
        ([GL_FLOAT_MAT3, GL_FLOAT_MAT2x3, GL_FLOAT_MAT3x2], 3),
        ([GL_FLOAT_MAT2], 2)]
       1"

abbreviation comps :: "shader_variable \<Rightarrow> int" where
  "comps v \<equiv> GetTypePackingComponentsPerRow (sv_type (sv_info v))"

definition GetVariablePackingRows :: "shader_variable \<Rightarrow> int" where
  "GetVariablePackingRows v = int32 (GetTypePackingRows (sv_type (sv_info v)) * uint (getArraySizeProduct v))"

definition TVariableInfoComparer :: "shader_variable \<Rightarrow> shader_variable \<Rightarrow> bool" where
  "TVariableInfoComparer lhs rhs =
     (let lhsSortOrder = VariableSortOrder (sv_type (sv_info lhs));
          rhsSortOrder = VariableSortOrder (sv_type (sv_info rhs))
      in if lhsSortOrder \<noteq> rhsSortOrder then lhsSortOrder < rhsSortOrder
         else getArraySizeProduct lhs > getArraySizeProduct rhs)"

definition sort_order :: "shader_variable \<Rightarrow> int \<times> int" where
  "sort_order v = (VariableSortOrder (sv_type (sv_info v)), - uint (getArraySizeProduct v))"

section \<open>The packer\<close>

record variable_packer =
  topNonFullRow :: int
  bottomNonFullRow :: int
  maxRows :: int
  rows :: "u32 list"

definition kNumColumns :: nat where
  "kNumColumns = 4"

definition kColumnMask :: u32 where
  "kColumnMask = push_bit kNumColumns 1 - 1"

definition makeColumnFlags :: "nat \<Rightarrow> nat \<Rightarrow> u32" where
  "makeColumnFlags column numComponentsPerRow =
     drop_bit column (push_bit (kNumColumns - numComponentsPerRow) kColumnMask AND kColumnMask)"

fun fillRows :: "u32 \<Rightarrow> int \<Rightarrow> nat \<Rightarrow> u32 list \<Rightarrow> u32 list option" where
  "fillRows columnFlags row 0 rs = Some rs"
| "fillRows columnFlags row (Suc n) rs =
     (if 0 \<le> row \<and> nat row < length rs
      then fillRows columnFlags (row + 1) n (rs[nat row := rs ! nat row OR columnFlags])
      else None)"

definition fillColumns :: "int \<Rightarrow> int \<Rightarrow> nat \<Rightarrow> nat \<Rightarrow> variable_packer \<Rightarrow> variable_packer option" where
  "fillColumns topRow numRows column numComponentsPerRow p =
     map_option (\<lambda>rs. p\<lparr>rows := rs\<rparr>)
       (fillRows (makeColumnFlags column numComponentsPerRow) topRow (nat numRows) (rows p))"

function skipFullDown :: "int \<Rightarrow> int \<Rightarrow> u32 list \<Rightarrow> int" where
  "skipFullDown maxRow topRow rs =
     (if topRow < maxRow \<and> rs ! nat topRow = kColumnMask then skipFullDown maxRow (topRow + 1) rs else topRow)"
  by pat_completeness auto

termination skipFullDown
  by (relation "measure (\<lambda>(m, t, _). nat (m - t))") auto

function skipFullUp :: "int \<Rightarrow> u32 list \<Rightarrow> int" where
  "skipFullUp bottom rs =
     (if bottom \<ge> 0 \<and> rs ! nat bottom = kColumnMask then skipFullUp (bottom - 1) rs else bottom)"
  by pat_completeness auto

termination skipFullUp
  by (relation "measure (\<lambda>(b, _). nat (b + 1))") auto

declare skipFullDown.simps [simp del] skipFullUp.simps [simp del]

text \<open>
  The scan of one column: \<open>topGoodRow\<close> and \<open>found\<close> describe the run of free rows that ends at \<open>row\<close>,
  \<open>(best, size)\<close> is the smallest run so far that is large enough.
\<close>

function scanColumn :: "u32 \<Rightarrow> int \<Rightarrow> int \<Rightarrow> u32 list \<Rightarrow> int \<Rightarrow> int \<times> bool \<Rightarrow> int \<times> int \<Rightarrow> int \<times> int" where
  "scanColumn columnFlags numRows bottomRow rs row (topGoodRow, found) (best, sz) =
     (if row \<le> bottomRow
      then
        (let rowEmpty = (if row < bottomRow then rs ! nat row AND columnFlags = 0 else False)
         in if rowEmpty
            then scanColumn columnFlags numRows bottomRow rs (row + 1)
                   (if \<not> found then row else topGoodRow, True) (best, sz)
            else scanColumn columnFlags numRows bottomRow rs (row + 1)
                   (topGoodRow, False)
                   (if found \<and> row - topGoodRow \<ge> numRows \<and> row - topGoodRow < sz
                    then (topGoodRow, row - topGoodRow) else (best, sz)))
      else (best, sz))"
  by pat_completeness auto

termination scanColumn
  by (relation "measure (\<lambda>(_, _, b, _, r, _, _). nat (b + 1 - r))") auto

declare scanColumn.simps [simp del]

definition searchColumn :: "nat \<Rightarrow> int \<Rightarrow> variable_packer \<Rightarrow> (int \<times> int) option \<times> variable_packer" where
  "searchColumn column numRows p =
     (let p = p\<lparr>topNonFullRow := skipFullDown (maxRows p) (topNonFullRow p) (rows p),
                bottomNonFullRow := skipFullUp (bottomNonFullRow p) (rows p)\<rparr>
      in if bottomNonFullRow p - topNonFullRow p + 1 < numRows then (None, p)
         else
           (case scanColumn (makeColumnFlags column 1) numRows (bottomNonFullRow p + 1) (rows p)
                   (topNonFullRow p) (0, False) (-1, int32 (maxRows p + 1)) of
              (smallestGoodTop, smallestGoodSize) \<Rightarrow>
                (if smallestGoodTop < 0 then None else Some (smallestGoodTop, smallestGoodSize), p)))"

text \<open>The loops of \<open>checkExpandedVariablesWithinPackingLimits\<close>, each returning the variables left.\<close>

fun countRows :: "int \<Rightarrow> shader_variable list \<Rightarrow> int \<Rightarrow> int \<times> shader_variable list" where
  "countRows n [] acc = (acc, [])"
| "countRows n (v # vs) acc =
     (if comps v \<noteq> n then (acc, v # vs) else countRows n vs (int32 (acc + GetVariablePackingRows v)))"

fun pack2Columns :: "shader_variable list \<Rightarrow> int \<Rightarrow> int \<Rightarrow> (int \<times> int \<times> shader_variable list) option" where
  "pack2Columns [] a01 a23 = Some (a01, a23, [])"
| "pack2Columns (v # vs) a01 a23 =
     (if comps v \<noteq> 2 then Some (a01, a23, v # vs)
      else if GetVariablePackingRows v \<le> a01 then pack2Columns vs (int32 (a01 - GetVariablePackingRows v)) a23
      else if GetVariablePackingRows v \<le> a23 then pack2Columns vs a01 (int32 (a23 - GetVariablePackingRows v))
      else None)"

fun bestColumn ::
  "nat list \<Rightarrow> int \<Rightarrow> (nat option \<times> int \<times> int) \<Rightarrow> variable_packer \<Rightarrow> (nat option \<times> int \<times> int) \<times> variable_packer"
where
  "bestColumn [] numRows best p = (best, p)"
| "bestColumn (column # columns) numRows (smallestColumn, smallestSize, topRow) p =
     (case searchColumn column numRows p of
        (Some (row, sz), p) \<Rightarrow>
          bestColumn columns numRows
            (if sz < smallestSize then (Some column, sz, row) else (smallestColumn, smallestSize, topRow)) p
      | (None, p) \<Rightarrow> bestColumn columns numRows (smallestColumn, smallestSize, topRow) p)"

fun pack1Column :: "shader_variable list \<Rightarrow> variable_packer \<Rightarrow> bool option" where
  "pack1Column [] p = Some True"
| "pack1Column (v # vs) p =
     (case bestColumn [0..<kNumColumns] (GetVariablePackingRows v) (None, int32 (maxRows p + 1), -1) p of
        ((None, _, _), p) \<Rightarrow> Some False
      | ((Some column, _, topRow), p) \<Rightarrow>
          Option.bind (fillColumns topRow (GetVariablePackingRows v) column 1 p) (pack1Column vs))"

definition packSorted :: "u32 \<Rightarrow> shader_variable list \<Rightarrow> bool option" where
  "packSorted maxVectors vs =
     (let mx = int32 (uint maxVectors);
          (top4, vs3) = countRows 4 vs 0
      in if top4 > mx then Some False
         else
           let (num3ColumnRows, vs2) = countRows 3 vs3 0
           in if int32 (top4 + num3ColumnRows) > mx then Some False
              else
                Option.bind
                  (fillColumns top4 num3ColumnRows 0 3
                    \<lparr>topNonFullRow = top4, bottomNonFullRow = int32 (mx - 1), maxRows = mx,
                     rows = replicate (unat maxVectors) 0\<rparr>)
                  (\<lambda>p.
                    let top2ColumnRow = int32 (top4 + num3ColumnRows);
                        twoColumnRowsAvailable = int32 (mx - top2ColumnRow)
                    in case pack2Columns vs2 twoColumnRowsAvailable twoColumnRowsAvailable of
                         None \<Rightarrow> Some False
                       | Some (a01, a23, vs1) \<Rightarrow>
                           let numRowsUsedInColumns01 = int32 (twoColumnRowsAvailable - a01);
                               numRowsUsedInColumns23 = int32 (twoColumnRowsAvailable - a23)
                           in Option.bind (fillColumns top2ColumnRow numRowsUsedInColumns01 0 2 p) (\<lambda>p.
                                Option.bind
                                  (fillColumns (int32 (mx - numRowsUsedInColumns23)) numRowsUsedInColumns23 2 2 p)
                                  (pack1Column vs1))))"

definition checkExpandedVariablesWithinPackingLimits :: "u32 \<Rightarrow> shader_variable list \<Rightarrow> bool option" where
  "checkExpandedVariablesWithinPackingLimits maxVectors vs =
     (if \<exists>v \<in> set vs. getArraySizeProduct v
           > maxVectors div of_int (GetTypePackingRows (sv_type (sv_info v)))
      then Some False
      else packSorted maxVectors (sort_key sort_order vs))"

definition CheckVariablesInPackingLimits :: "u32 \<Rightarrow> shader_variable list \<Rightarrow> bool option" where
  "CheckVariablesInPackingLimits maxVectors vs =
     checkExpandedVariablesWithinPackingLimits maxVectors
       (concat (map (\<lambda>v. ExpandVariable v (sv_name (sv_info v))) vs))"

section \<open>The algorithm on unbounded integers\<close>

definition packing_rows :: "shader_variable \<Rightarrow> int" where
  "packing_rows v = GetTypePackingRows (sv_type (sv_info v)) * uint (getArraySizeProduct v)"

fun ideal_countRows :: "int \<Rightarrow> shader_variable list \<Rightarrow> int \<Rightarrow> int \<times> shader_variable list" where
  "ideal_countRows n [] acc = (acc, [])"
| "ideal_countRows n (v # vs) acc =
     (if comps v \<noteq> n then (acc, v # vs) else ideal_countRows n vs (acc + packing_rows v))"

fun ideal_pack2Columns :: "shader_variable list \<Rightarrow> int \<Rightarrow> int \<Rightarrow> (int \<times> int \<times> shader_variable list) option" where
  "ideal_pack2Columns [] a01 a23 = Some (a01, a23, [])"
| "ideal_pack2Columns (v # vs) a01 a23 =
     (if comps v \<noteq> 2 then Some (a01, a23, v # vs)
      else if packing_rows v \<le> a01 then ideal_pack2Columns vs (a01 - packing_rows v) a23
      else if packing_rows v \<le> a23 then ideal_pack2Columns vs a01 (a23 - packing_rows v)
      else None)"

fun ideal_pack1Column :: "shader_variable list \<Rightarrow> variable_packer \<Rightarrow> bool option" where
  "ideal_pack1Column [] p = Some True"
| "ideal_pack1Column (v # vs) p =
     (case bestColumn [0..<kNumColumns] (packing_rows v) (None, int32 (maxRows p + 1), -1) p of
        ((None, _, _), p) \<Rightarrow> Some False
      | ((Some column, _, topRow), p) \<Rightarrow>
          Option.bind (fillColumns topRow (packing_rows v) column 1 p) (ideal_pack1Column vs))"

definition ideal_packSorted :: "u32 \<Rightarrow> shader_variable list \<Rightarrow> bool option" where
  "ideal_packSorted maxVectors vs =
     (let mx = uint maxVectors;
          (top4, vs3) = ideal_countRows 4 vs 0
      in if top4 > mx then Some False
         else
           let (num3ColumnRows, vs2) = ideal_countRows 3 vs3 0
           in if top4 + num3ColumnRows > mx then Some False
              else
                Option.bind
                  (fillColumns top4 num3ColumnRows 0 3
                    \<lparr>topNonFullRow = top4, bottomNonFullRow = mx - 1, maxRows = mx,
                     rows = replicate (unat maxVectors) 0\<rparr>)
                  (\<lambda>p.
                    let top2ColumnRow = top4 + num3ColumnRows;
                        twoColumnRowsAvailable = mx - top2ColumnRow
                    in case ideal_pack2Columns vs2 twoColumnRowsAvailable twoColumnRowsAvailable of
                         None \<Rightarrow> Some False
                       | Some (a01, a23, vs1) \<Rightarrow>
                           Option.bind (fillColumns top2ColumnRow (twoColumnRowsAvailable - a01) 0 2 p) (\<lambda>p.
                             Option.bind
                               (fillColumns (mx - (twoColumnRowsAvailable - a23))
                                 (twoColumnRowsAvailable - a23) 2 2 p)
                               (ideal_pack1Column vs1))))"

section \<open>Shapes and order\<close>

definition known_type :: "shader_variable \<Rightarrow> bool" where
  "known_type v \<longleftrightarrow> sv_type (sv_info v) \<noteq> GL_NONE \<and> sv_type (sv_info v) \<noteq> GL_unlisted"

lemma shape_by_order:
  assumes "t \<noteq> GL_NONE" "t \<noteq> GL_unlisted"
  shows "GetTypePackingComponentsPerRow t
      = (if VariableSortOrder t \<le> 2 then 4 else if VariableSortOrder t \<le> 4 then 3
         else if VariableSortOrder t = 5 then 2 else 1)"
    and "GetTypePackingRows t
      = (if VariableSortOrder t = 0 then 4 else if VariableSortOrder t = 1 then 2
         else if VariableSortOrder t = 3 then 3 else 1)"
  using assms
  by (cases t; simp add: GetTypePackingComponentsPerRow_def GetTypePackingRows_def VariableSortOrder_def)+

lemma packing_area: "VariableComponentCount t \<le> GetTypePackingRows t * GetTypePackingComponentsPerRow t"
  by (cases t) (simp_all add: VariableComponentCount_def VariableRowCount_def VariableColumnCount_def
      GetTypePackingComponentsPerRow_def GetTypePackingRows_def)

lemma packing_rows_pos: "0 < GetTypePackingRows t"
  by (cases t) (simp_all add: GetTypePackingRows_def)

lemma comps_range: "comps v \<in> {1, 2, 3, 4}"
proof -
  have "GetTypePackingComponentsPerRow t \<in> {1, 2, 3, 4}" for t
    by (cases t) (simp_all add: GetTypePackingComponentsPerRow_def)
  then show ?thesis .
qed

lemma comps_bounds: "1 \<le> comps v" "comps v \<le> 4"
  using comps_range [of v] by auto

lemma rows_nonneg: "0 \<le> packing_rows v"
  using packing_rows_pos [of "sv_type (sv_info v)"] by (simp add: packing_rows_def)

lemma same_order_same_shape:
  assumes "known_type v" "known_type w" "sort_order v = sort_order w"
  shows "comps v = comps w" "packing_rows v = packing_rows w"
proof -
  have eq: "VariableSortOrder (sv_type (sv_info v)) = VariableSortOrder (sv_type (sv_info w))"
    "uint (getArraySizeProduct v) = uint (getArraySizeProduct w)"
    using assms(3) unfolding sort_order_def by (simp_all only: prod.inject neg_equal_iff_equal)
  note v = shape_by_order [OF assms(1) [unfolded known_type_def, THEN conjunct1] assms(1) [unfolded known_type_def, THEN conjunct2]]
    and w = shape_by_order [OF assms(2) [unfolded known_type_def, THEN conjunct1] assms(2) [unfolded known_type_def, THEN conjunct2]]
  show "comps v = comps w" by (simp only: v w eq)
  show "packing_rows v = packing_rows w"
    by (simp only: packing_rows_def v w eq)
qed

lemma TVariableInfoComparer_order: "TVariableInfoComparer v w \<longleftrightarrow> sort_order v < sort_order w"
  by (auto simp: TVariableInfoComparer_def sort_order_def Let_def word_less_def)

lemma sorted_comps:
  assumes "sorted (map sort_order vs)" "\<forall>v \<in> set vs. known_type v" "i \<le> j" "j < length vs"
  shows "comps (vs ! j) \<le> comps (vs ! i)"
proof -
  have "sort_order (vs ! i) \<le> sort_order (vs ! j)"
    using sorted_nth_mono [OF assms(1,3)] assms(3,4) by simp
  then have "VariableSortOrder (sv_type (sv_info (vs ! i))) \<le> VariableSortOrder (sv_type (sv_info (vs ! j)))"
    by (auto simp: sort_order_def)
  moreover have "known_type (vs ! i)" "known_type (vs ! j)" using assms by simp_all
  ultimately show ?thesis
    using shape_by_order(1) [of "sv_type (sv_info (vs ! i))"] shape_by_order(1) [of "sv_type (sv_info (vs ! j))"]
    by (auto simp: known_type_def)
qed

section \<open>Marks\<close>

definition marked :: "u32 list \<Rightarrow> int \<Rightarrow> nat \<Rightarrow> bool" where
  "marked rs i k \<longleftrightarrow> bit (rs ! nat i) (3 - k)"

lemma kColumnMask_mask: "kColumnMask = mask 4"
  by (simp add: kColumnMask_def kNumColumns_def mask_eq_exp_minus_1)

lemma bit_makeColumnFlags:
  assumes "k < 4" "column + n \<le> 4"
  shows "bit (makeColumnFlags column n) (3 - k) \<longleftrightarrow> column \<le> k \<and> k < column + n"
proof -
  have "3 - k + column < 32" using assms by simp
  then show ?thesis
    using assms
    by (auto simp: makeColumnFlags_def kColumnMask_mask kNumColumns_def bit_simps)
qed

lemma free_column:
  assumes "column < 4" "w AND makeColumnFlags column 1 = 0"
  shows "\<not> bit w (3 - column)"
proof
  assume "bit w (3 - column)"
  then have "bit (w AND makeColumnFlags column 1) (3 - column)"
    using assms(1) bit_makeColumnFlags [of column column 1] by (simp add: bit_and_iff)
  with assms(2) show False by simp
qed

lemma fillRows_ok:
  assumes "0 \<le> row" "row + int n \<le> int (length rs)"
  shows "\<exists>rs'. fillRows f row n rs = Some rs' \<and> length rs' = length rs \<and>
    (\<forall>i < length rs. rs' ! i = (if row \<le> int i \<and> int i < row + int n then rs ! i OR f else rs ! i))"
  using assms
proof (induction n arbitrary: row rs)
  case (Suc n)
  let ?rs = "rs[nat row := rs ! nat row OR f]"
  have inr: "nat row < length rs" using Suc.prems by simp
  obtain rs' where rs': "fillRows f (row + 1) n ?rs = Some rs'" "length rs' = length rs"
    "\<And>i. i < length rs \<Longrightarrow> rs' ! i = (if row + 1 \<le> int i \<and> int i < row + 1 + int n then ?rs ! i OR f else ?rs ! i)"
    using Suc.IH [of "row + 1" ?rs] Suc.prems by auto
  have "rs' ! i = (if row \<le> int i \<and> int i < row + int (Suc n) then rs ! i OR f else rs ! i)"
    if "i < length rs" for i
    using rs'(3) [OF that] Suc.prems(1) that by (cases "int i = row") auto
  with rs' inr Suc.prems(1) show ?case by auto
qed auto

lemma fillColumns_ok:
  assumes "0 \<le> topRow" "0 \<le> n" "topRow + n \<le> int (length (rows p))" "column + w \<le> 4"
  shows "\<exists>rs. fillColumns topRow n column w p = Some (p\<lparr>rows := rs\<rparr>) \<and>
    length rs = length (rows p) \<and>
    (\<forall>i k. 0 \<le> i \<longrightarrow> i < int (length (rows p)) \<longrightarrow> k < 4 \<longrightarrow>
       (marked rs i k \<longleftrightarrow>
          marked (rows p) i k \<or> topRow \<le> i \<and> i < topRow + n \<and> column \<le> k \<and> k < column + w))"
proof -
  from fillRows_ok [of topRow "nat n" "rows p" "makeColumnFlags column w"] assms obtain rs where rs:
    "fillRows (makeColumnFlags column w) topRow (nat n) (rows p) = Some rs" "length rs = length (rows p)"
    "\<And>i. i < length (rows p) \<Longrightarrow> rs ! i = (if topRow \<le> int i \<and> int i < topRow + n
       then rows p ! i OR makeColumnFlags column w else rows p ! i)"
    by auto
  have "marked rs i k \<longleftrightarrow> marked (rows p) i k \<or> topRow \<le> i \<and> i < topRow + n \<and> column \<le> k \<and> k < column + w"
    if "0 \<le> i" "i < int (length (rows p))" "k < 4" for i k
    using rs(3) [of "nat i"] that bit_makeColumnFlags [OF that(3) assms(4)]
    by (auto simp: marked_def bit_or_iff)
  with rs(1,2) show ?thesis
    by (intro exI [of _ rs]) (simp add: fillColumns_def)
qed

lemma fillColumns_obtain:
  assumes "0 \<le> topRow" "0 \<le> n" "int (length (rows p)) = mx" "topRow + n \<le> mx" "column + w \<le> 4"
  obtains rs where "fillColumns topRow n column w p = Some (p\<lparr>rows := rs\<rparr>)" "int (length rs) = mx"
    "\<And>i k. \<lbrakk>0 \<le> i; i < mx; k < 4\<rbrakk> \<Longrightarrow> marked rs i k \<longleftrightarrow>
       marked (rows p) i k \<or> topRow \<le> i \<and> i < topRow + n \<and> column \<le> k \<and> k < column + w"
  using fillColumns_ok [OF assms(1,2) _ assms(5), of p] assms(3,4) that by auto

section \<open>Searching a column\<close>

lemma skipFullDown_ge: "topRow \<le> skipFullDown m topRow rs"
  by (induction m topRow rs rule: skipFullDown.induct) (subst skipFullDown.simps, force)

lemma skipFullUp_le: "skipFullUp b rs \<le> b"
  by (induction b rs rule: skipFullUp.induct) (subst skipFullUp.simps, force)

definition free_run :: "u32 \<Rightarrow> u32 list \<Rightarrow> int \<Rightarrow> int \<Rightarrow> bool" where
  "free_run f rs a b \<longleftrightarrow> (\<forall>r. a \<le> r \<longrightarrow> r < b \<longrightarrow> rs ! nat r AND f = 0)"

lemma scanColumn_ok:
  assumes "start \<le> row" "found \<Longrightarrow> start \<le> good \<and> good < row \<and> free_run f rs good row \<and> row \<le> b"
    and "best < 0 \<or> start \<le> best \<and> n \<le> sz \<and> best + sz \<le> b \<and> free_run f rs best (best + sz)"
    and "scanColumn f n b rs row (good, found) (best, sz) = (best', sz')"
  shows "best' < 0 \<or> start \<le> best' \<and> n \<le> sz' \<and> best' + sz' \<le> b \<and> free_run f rs best' (best' + sz')"
  using assms
proof (induction "nat (b + 1 - row)" arbitrary: row good found best sz rule: less_induct)
  case less
  show ?case
  proof (cases "row \<le> b")
    case False
    with less.prems(3,4) show ?thesis by (simp add: scanColumn.simps [of f n b rs row])
  next
    case True
    then have smaller: "nat (b + 1 - (row + 1)) < nat (b + 1 - row)" by simp
    have start: "start \<le> row + 1" using less.prems(1) by simp
    show ?thesis
    proof (cases "row < b \<and> rs ! nat row AND f = 0")
      case free: True
      let ?good = "if \<not> found then row else good"
      have run: "start \<le> ?good \<and> ?good < row + 1 \<and> free_run f rs ?good (row + 1) \<and> row + 1 \<le> b"
        using less.prems(1,2) free by (auto simp: free_run_def zless_add1_eq dest: order_le_imp_less_or_eq)
      have "scanColumn f n b rs (row + 1) (?good, True) (best, sz) = (best', sz')"
        using less.prems(4) free True by (simp add: scanColumn.simps [of f n b rs row])
      from less.hyps [OF smaller start run less.prems(3) this] show ?thesis .
    next
      case full: False
      let ?hit = "found \<and> row - good \<ge> n \<and> row - good < sz"
      let ?best = "if ?hit then good else best" and ?sz = "if ?hit then row - good else sz"
      have best: "?best < 0 \<or> start \<le> ?best \<and> n \<le> ?sz \<and> ?best + ?sz \<le> b \<and> free_run f rs ?best (?best + ?sz)"
        using less.prems(2,3) by auto
      have "scanColumn f n b rs (row + 1) (good, False) (?best, ?sz) = (best', sz')"
        using less.prems(4) full True by (auto simp: scanColumn.simps [of f n b rs row] Let_def split: if_splits)
      from less.hyps [OF smaller start _ best this] show ?thesis by simp
    qed
  qed
qed

text \<open>\<open>narrows p p'\<close>: the searches only move the bounds of the rows still considered inwards.\<close>

definition narrows :: "variable_packer \<Rightarrow> variable_packer \<Rightarrow> bool" where
  "narrows p p' \<longleftrightarrow> rows p' = rows p \<and> maxRows p' = maxRows p \<and>
     topNonFullRow p \<le> topNonFullRow p' \<and> bottomNonFullRow p' \<le> bottomNonFullRow p"

definition free_place :: "variable_packer \<Rightarrow> int \<Rightarrow> nat \<Rightarrow> int \<Rightarrow> bool" where
  "free_place p n column row \<longleftrightarrow> column < 4 \<and> 0 \<le> row \<and> topNonFullRow p \<le> row \<and>
     row + n \<le> bottomNonFullRow p + 1 \<and>
     (\<forall>i. row \<le> i \<longrightarrow> i < row + n \<longrightarrow> \<not> marked (rows p) i column)"

lemma narrows_trans: "narrows p q \<Longrightarrow> narrows q r \<Longrightarrow> narrows p r"
  by (auto simp: narrows_def)

lemma free_place_narrows: "free_place p' n c r \<Longrightarrow> narrows p p' \<Longrightarrow> free_place p n c r"
  by (auto simp: free_place_def narrows_def)

lemma searchColumn_ok:
  assumes "searchColumn column n p = (r, p')" "column < 4"
  shows "narrows p p' \<and> (\<forall>row sz. r = Some (row, sz) \<longrightarrow> free_place p n column row)"
proof -
  define q where "q = p\<lparr>topNonFullRow := skipFullDown (maxRows p) (topNonFullRow p) (rows p),
                bottomNonFullRow := skipFullUp (bottomNonFullRow p) (rows p)\<rparr>"
  have q: "narrows p q"
    using skipFullDown_ge [of "topNonFullRow p"] skipFullUp_le by (simp add: q_def narrows_def)
  let ?f = "makeColumnFlags column 1" and ?b = "bottomNonFullRow q + 1"
  have p': "p' = q"
    using assms(1) by (auto simp: searchColumn_def q_def [symmetric] Let_def split: prod.splits if_splits)
  have "free_place p n column row" if r: "r = Some (row, sz)" for row sz
  proof -
    from assms(1) r have scan: "scanColumn ?f n ?b (rows q) (topNonFullRow q) (0, False) (-1, int32 (maxRows q + 1)) = (row, sz)"
      and "0 \<le> row"
      by (auto simp: searchColumn_def q_def [symmetric] Let_def split: prod.splits if_splits)
    from scanColumn_ok [OF order_refl _ _ scan] this(2)
    have place: "topNonFullRow q \<le> row" "n \<le> sz" "row + sz \<le> ?b" "free_run ?f (rows q) row (row + sz)"
      by auto
    have "\<not> marked (rows q) i column" if "row \<le> i" "i < row + n" for i
      using place(2,4) that free_column [OF assms(2)] by (auto simp: marked_def free_run_def)
    with place assms(2) \<open>0 \<le> row\<close> have "free_place q n column row" by (simp add: free_place_def)
    with q show ?thesis by (rule free_place_narrows [rotated])
  qed
  with q p' show ?thesis by blast
qed

lemma bestColumn_ok:
  assumes "bestColumn cs n (col, sz, best) p = ((col', sz', best'), p')" "\<forall>c \<in> set cs. c < 4"
    and "narrows p0 p" and "\<And>c. col = Some c \<Longrightarrow> free_place p0 n c best"
  shows "narrows p0 p' \<and> (\<forall>c. col' = Some c \<longrightarrow> free_place p0 n c best')"
  using assms
proof (induction cs arbitrary: col sz best p)
  case (Cons c cs)
  obtain r q where r: "searchColumn c n p = (r, q)" by fastforce
  have c: "c < 4" "\<forall>c \<in> set cs. c < 4" using Cons.prems(2) by simp_all
  note sc = searchColumn_ok [OF r c(1)]
  have q: "narrows p0 q" using Cons.prems(3) sc narrows_trans by blast
  show ?case
  proof (cases r)
    case None
    with Cons.prems(1) r have "bestColumn cs n (col, sz, best) q = ((col', sz', best'), p')" by simp
    from Cons.IH [OF this c(2) q Cons.prems(4)] show ?thesis .
  next
    case (Some x)
    obtain row s where x: "x = (row, s)" by fastforce
    have place: "free_place p0 n c row"
      using sc Some x free_place_narrows [OF _ Cons.prems(3)] by blast
    show ?thesis
    proof (cases "s < sz")
      case True
      with Cons.prems(1) r Some x have "bestColumn cs n (Some c, s, row) q = ((col', sz', best'), p')" by simp
      from Cons.IH [OF this c(2) q] place show ?thesis by simp
    next
      case False
      with Cons.prems(1) r Some x have "bestColumn cs n (col, sz, best) q = ((col', sz', best'), p')" by simp
      from Cons.IH [OF this c(2) q Cons.prems(4)] show ?thesis .
    qed
  qed
qed simp

section \<open>Placements\<close>

text \<open>
  \<open>placeable Occ mx vs\<close>: the variables can be placed one after another into \<open>mx\<close> rows of four
  columns, each on a rectangle of its shape that is disjoint from \<open>Occ\<close> and from the others.
\<close>

definition rect :: "int \<Rightarrow> int \<Rightarrow> nat \<Rightarrow> nat \<Rightarrow> (int \<times> nat) set" where
  "rect r n c w = {(i, k). r \<le> i \<and> i < r + n \<and> c \<le> k \<and> k < c + w}"

abbreviation var_rect :: "shader_variable \<Rightarrow> int \<times> nat \<Rightarrow> (int \<times> nat) set" where
  "var_rect v pos \<equiv> rect (fst pos) (packing_rows v) (snd pos) (nat (comps v))"

definition inside :: "int \<Rightarrow> shader_variable \<Rightarrow> int \<times> nat \<Rightarrow> bool" where
  "inside mx v pos \<longleftrightarrow>
     0 \<le> fst pos \<and> fst pos + packing_rows v \<le> mx \<and> snd pos + nat (comps v) \<le> 4"

fun placed :: "(int \<times> nat) set \<Rightarrow> int \<Rightarrow> shader_variable list \<Rightarrow> (int \<times> nat) list \<Rightarrow> bool" where
  "placed Occ mx [] [] \<longleftrightarrow> True"
| "placed Occ mx (v # vs) (pos # ps) \<longleftrightarrow>
     inside mx v pos \<and> var_rect v pos \<inter> Occ = {} \<and> placed (Occ \<union> var_rect v pos) mx vs ps"
| "placed Occ mx _ _ \<longleftrightarrow> False"

definition placeable :: "(int \<times> nat) set \<Rightarrow> int \<Rightarrow> shader_variable list \<Rightarrow> bool" where
  "placeable Occ mx vs \<longleftrightarrow> (\<exists>ps. placed Occ mx vs ps)"

lemma placed_antimono: "placed Occ mx vs ps \<Longrightarrow> Occ' \<subseteq> Occ \<Longrightarrow> placed Occ' mx vs ps"
proof (induction Occ mx vs ps arbitrary: Occ' rule: placed.induct)
  case (2 Occ mx v vs pos ps)
  have "placed (Occ' \<union> var_rect v pos) mx vs ps"
    by (rule "2.IH") (use "2.prems" in auto)
  moreover have "var_rect v pos \<inter> Occ' = {}" using "2.prems" by auto
  ultimately show ?case using "2.prems"(1) by simp
qed simp_all

lemma placeable_antimono: "placeable Occ mx vs \<Longrightarrow> Occ' \<subseteq> Occ \<Longrightarrow> placeable Occ' mx vs"
  unfolding placeable_def using placed_antimono by blast

lemma placeable_Nil: "placeable Occ mx []"
  unfolding placeable_def by (rule exI [of _ "[]"]) simp

lemma placeable_Cons:
  assumes "inside mx v pos" "var_rect v pos \<inter> Occ = {}" "placeable Occ' mx vs" "Occ \<union> var_rect v pos \<subseteq> Occ'"
  shows "placeable Occ mx (v # vs)"
proof -
  from assms(3) obtain ps where "placed Occ' mx vs ps" by (auto simp: placeable_def)
  from placed_antimono [OF this assms(4)] assms(1,2) have "placed Occ mx (v # vs) (pos # ps)" by simp
  then show ?thesis unfolding placeable_def ..
qed

lemma placed_length: "placed Occ mx vs ps \<Longrightarrow> length ps = length vs"
  by (induction Occ mx vs ps rule: placed.induct) simp_all

lemma placed_nth:
  "placed Occ mx vs ps \<Longrightarrow> i < length vs \<Longrightarrow>
   inside mx (vs ! i) (ps ! i) \<and> var_rect (vs ! i) (ps ! i) \<inter> Occ = {}"
proof (induction Occ mx vs ps arbitrary: i rule: placed.induct)
  case (2 Occ mx v vs pos ps)
  then show ?case by (cases i) (simp_all, blast)
qed simp_all

lemma placed_disjoint:
  "placed Occ mx vs ps \<Longrightarrow> i < j \<Longrightarrow> j < length vs \<Longrightarrow>
   var_rect (vs ! i) (ps ! i) \<inter> var_rect (vs ! j) (ps ! j) = {}"
proof (induction Occ mx vs ps arbitrary: i j rule: placed.induct)
  case (2 Occ mx v vs pos ps)
  from 2(3) obtain j' where j: "j = Suc j'" by (cases j) auto
  show ?case
  proof (cases i)
    case 0
    with 2 j placed_nth [of "Occ \<union> var_rect v pos" mx vs ps j'] show ?thesis by auto
  next
    case (Suc i')
    with 2 j show ?thesis by simp
  qed
qed simp_all

section \<open>One-component variables\<close>

definition packer_ok :: "int \<Rightarrow> variable_packer \<Rightarrow> bool" where
  "packer_ok mx p \<longleftrightarrow> maxRows p = mx \<and> int (length (rows p)) = mx \<and> bottomNonFullRow p \<le> mx - 1"

definition occupied :: "int \<Rightarrow> variable_packer \<Rightarrow> (int \<times> nat) set" where
  "occupied mx p = {(i, k). k < 4 \<and> 0 \<le> i \<and> i < mx \<and> (i < topNonFullRow p \<or> marked (rows p) i k)}"

lemma ideal_pack1Column_ok:
  assumes "packer_ok mx p" "\<forall>v \<in> set vs. comps v = 1"
  shows "\<exists>b. ideal_pack1Column vs p = Some b \<and> (b \<longrightarrow> placeable (occupied mx p) mx vs)"
  using assms
proof (induction vs arbitrary: p)
  case Nil
  then show ?case by (intro exI [of _ True]) (simp add: placeable_Nil)
next
  case (Cons v vs)
  let ?n = "packing_rows v"
  obtain col sz top q where b: "bestColumn [0..<kNumColumns] ?n (None, int32 (maxRows p + 1), -1) p = ((col, sz, top), q)"
    by (metis prod_cases3 surj_pair)
  have "narrows p p" by (simp add: narrows_def)
  from bestColumn_ok [OF b _ this] have q: "narrows p q"
    and place: "\<And>c. col = Some c \<Longrightarrow> free_place p ?n c top"
    by (simp_all add: kNumColumns_def)
  show ?case
  proof (cases col)
    case None
    with b show ?thesis by (intro exI [of _ False]) simp
  next
    case (Some c)
    note place = place [OF Some]
    have ok: "packer_ok mx q" using Cons.prems(1) q by (simp add: packer_ok_def narrows_def)
    have "c < 4" "0 \<le> top" "top + ?n \<le> int (length (rows q))"
      using place Cons.prems(1) q by (simp_all add: free_place_def packer_ok_def narrows_def)
    with fillColumns_ok [of top ?n q c 1] rows_nonneg [of v] obtain rs where rs:
      "fillColumns top ?n c 1 q = Some (q\<lparr>rows := rs\<rparr>)" "length rs = length (rows q)"
      "\<And>i k. \<lbrakk>0 \<le> i; i < int (length (rows q)); k < 4\<rbrakk> \<Longrightarrow>
         marked rs i k \<longleftrightarrow> marked (rows q) i k \<or> top \<le> i \<and> i < top + ?n \<and> c \<le> k \<and> k < c + 1"
      by auto
    have ok': "packer_ok mx (q\<lparr>rows := rs\<rparr>)" using ok rs(2) by (simp add: packer_ok_def)
    from Cons.IH [OF ok'] Cons.prems(2) obtain r where
      r: "ideal_pack1Column vs (q\<lparr>rows := rs\<rparr>) = Some r" "r \<longrightarrow> placeable (occupied mx (q\<lparr>rows := rs\<rparr>)) mx vs" by auto
    have mx: "int (length (rows q)) = mx" "rows q = rows p" "topNonFullRow p \<le> topNonFullRow q"
      "bottomNonFullRow p \<le> mx - 1"
      using ok q Cons.prems(1) by (simp_all add: packer_ok_def narrows_def)
    have one: "comps v = 1" using Cons.prems(2) by simp
    then have cells: "var_rect v (top, c) = {(i, k). top \<le> i \<and> i < top + ?n \<and> k = c}"
      by (auto simp: rect_def)
    have "placeable (occupied mx p) mx (v # vs)" if r
    proof (rule placeable_Cons [of mx v "(top, c)"])
      show "inside mx v (top, c)"
        using place mx(4) one by (auto simp: inside_def free_place_def)
      show "var_rect v (top, c) \<inter> occupied mx p = {}"
        using place unfolding cells by (auto simp: occupied_def free_place_def)
      show "placeable (occupied mx (q\<lparr>rows := rs\<rparr>)) mx vs" using r(2) that by blast
      show "occupied mx p \<union> var_rect v (top, c) \<subseteq> occupied mx (q\<lparr>rows := rs\<rparr>)"
        using place mx rs(3) unfolding cells by (auto simp: occupied_def free_place_def)
    qed
    with b Some rs(1) r(1) show ?thesis by simp
  qed
qed

section \<open>Wider variables\<close>

lemma ideal_countRows_ge: "ideal_countRows n vs acc = (acc', rest) \<Longrightarrow> acc \<le> acc'"
proof (induction n vs acc rule: ideal_countRows.induct)
  case (2 n v vs acc)
  then show ?case using rows_nonneg [of v] by (auto split: if_splits)
qed simp

lemma ideal_countRows_rest:
  "ideal_countRows n vs acc = (acc', rest) \<Longrightarrow> \<exists>pre. vs = pre @ rest \<and> (rest = [] \<or> comps (hd rest) \<noteq> n)"
  by (induction n vs acc rule: ideal_countRows.induct) (auto split: if_splits)

lemma ideal_countRows_ok:
  assumes "ideal_countRows n vs acc = (acc', rest)" "n = int w" "w \<le> 4" "0 \<le> acc" "acc' \<le> mx"
    and "placeable (Occ \<union> {(i, k). acc \<le> i \<and> i < acc' \<and> k < w}) mx rest"
    and "Occ \<inter> {(i, k). acc \<le> i \<and> i < acc' \<and> k < w} = {}"
  shows "placeable Occ mx vs"
  using assms
proof (induction n vs acc arbitrary: Occ rule: ideal_countRows.induct)
  case (2 n v vs acc)
  let ?n = "packing_rows v" and ?R = "\<lambda>a b. {(i, k). a \<le> i \<and> i < b \<and> k < w}"
  show ?case
  proof (cases "comps v = n")
    case False
    with "2.prems"(1) have "acc' = acc" "rest = v # vs" by auto
    with "2.prems"(6) show ?thesis by (auto elim: placeable_antimono)
  next
    case True
    with "2.prems"(1) have cr: "ideal_countRows n vs (acc + ?n) = (acc', rest)" by simp
    note ge = ideal_countRows_ge [OF cr] rows_nonneg [of v]
    have split: "?R acc acc' = ?R acc (acc + ?n) \<union> ?R (acc + ?n) acc'" using ge by auto
    have "placeable (Occ \<union> ?R acc (acc + ?n)) mx vs"
    proof (rule "2.IH" [OF _ cr "2.prems"(2,3) _ "2.prems"(5)])
      show "\<not> comps v \<noteq> n" using True by simp
      show "0 \<le> acc + ?n" using ge "2.prems"(4) by simp
      show "placeable (Occ \<union> ?R acc (acc + ?n) \<union> ?R (acc + ?n) acc') mx rest"
        using "2.prems"(6) unfolding split by (simp only: Un_assoc)
      show "(Occ \<union> ?R acc (acc + ?n)) \<inter> ?R (acc + ?n) acc' = {}"
        using "2.prems"(7) unfolding split by auto
    qed
    moreover have "var_rect v (acc, 0) = ?R acc (acc + ?n)"
      using True "2.prems"(2) by (auto simp: rect_def)
    moreover have "inside mx v (acc, 0)"
      using True "2.prems"(2-5) ge by (simp add: inside_def)
    moreover have "?R acc (acc + ?n) \<inter> Occ = {}"
      using "2.prems"(7) unfolding split by auto
    ultimately show ?thesis
      by (intro placeable_Cons [of mx v "(acc, 0)" Occ "Occ \<union> ?R acc (acc + ?n)"]) auto
  qed
qed (simp add: placeable_Nil)

lemma ideal_pack2Columns_bounds:
  "ideal_pack2Columns vs a01 a23 = Some (b01, b23, rest) \<Longrightarrow> 0 \<le> a01 \<Longrightarrow> 0 \<le> a23 \<Longrightarrow>
   0 \<le> b01 \<and> b01 \<le> a01 \<and> 0 \<le> b23 \<and> b23 \<le> a23"
proof (induction vs a01 a23 rule: ideal_pack2Columns.induct)
  case (2 v vs a01 a23)
  then show ?case using rows_nonneg [of v] by (auto split: if_splits)
qed simp

lemma ideal_pack2Columns_rest:
  "ideal_pack2Columns vs a01 a23 = Some (b01, b23, rest) \<Longrightarrow>
   \<exists>pre. vs = pre @ rest \<and> (rest = [] \<or> comps (hd rest) \<noteq> 2)"
  by (induction vs a01 a23 rule: ideal_pack2Columns.induct) (auto split: if_splits)

lemma ideal_pack2Columns_ok:
  assumes "ideal_pack2Columns vs a01 a23 = Some (b01, b23, rest)" "0 \<le> a01" "0 \<le> a23"
    and "a01 \<le> mx" "0 \<le> t" "t + a23 \<le> mx"
    and "placeable (Occ \<union> {(i, k). mx - a01 \<le> i \<and> i < mx - b01 \<and> k < 2}
           \<union> {(i, k). t + b23 \<le> i \<and> i < t + a23 \<and> 2 \<le> k \<and> k < 4}) mx rest"
    and "Occ \<inter> {(i, k). mx - a01 \<le> i \<and> i < mx - b01 \<and> k < 2} = {}"
    and "Occ \<inter> {(i, k). t + b23 \<le> i \<and> i < t + a23 \<and> 2 \<le> k \<and> k < 4} = {}"
  shows "placeable Occ mx vs"
  using assms
proof (induction vs a01 a23 arbitrary: Occ rule: ideal_pack2Columns.induct)
  case (1 a01 a23)
  then have "rest = []" by simp
  then show ?case by (simp add: placeable_Nil)
next
  case (2 v vs a01 a23)
  let ?n = "packing_rows v"
  let ?L = "\<lambda>a b. {(i, k). mx - a \<le> i \<and> i < mx - b \<and> k < (2 :: nat)}"
  let ?R = "\<lambda>a b. {(i, k). t + b \<le> i \<and> i < t + a \<and> 2 \<le> k \<and> k < (4 :: nat)}"
  have n: "0 \<le> ?n" by (rule rows_nonneg)
  consider "comps v \<noteq> 2" | "comps v = 2" "?n \<le> a01" | "comps v = 2" "\<not> ?n \<le> a01" "?n \<le> a23"
    using "2.prems"(1) by (auto split: if_splits)
  then show ?case
  proof cases
    case 1
    with "2.prems"(1) have "b01 = a01" "b23 = a23" "rest = v # vs" by auto
    with "2.prems"(7) show ?thesis by (auto elim: placeable_antimono)
  next
    case left: 2
    with "2.prems"(1) have pk: "ideal_pack2Columns vs (a01 - ?n) a23 = Some (b01, b23, rest)" by simp
    have b: "b01 \<le> a01 - ?n" using ideal_pack2Columns_bounds [OF pk] left "2.prems"(3) by simp
    have split: "?L a01 b01 = ?L a01 (a01 - ?n) \<union> ?L (a01 - ?n) b01" using b n by auto
    have "placeable (Occ \<union> ?L a01 (a01 - ?n)) mx vs"
    proof (rule "2.IH"(1) [OF _ _ pk _ "2.prems"(3) _ "2.prems"(5,6)])
      show "placeable (Occ \<union> ?L a01 (a01 - ?n) \<union> ?L (a01 - ?n) b01 \<union> ?R a23 b23) mx rest"
        using "2.prems"(7) unfolding split by (simp only: Un_assoc)
      show "(Occ \<union> ?L a01 (a01 - ?n)) \<inter> ?L (a01 - ?n) b01 = {}"
        using "2.prems"(8) unfolding split by auto
      show "(Occ \<union> ?L a01 (a01 - ?n)) \<inter> ?R a23 b23 = {}"
        using "2.prems"(9) by auto
    qed (use left "2.prems"(4) n in simp_all)
    moreover have "var_rect v (mx - a01, 0) = ?L a01 (a01 - ?n)"
      using left by (auto simp: rect_def)
    moreover have "inside mx v (mx - a01, 0)"
      using left "2.prems"(2-6) n by (simp add: inside_def)
    moreover have "?L a01 (a01 - ?n) \<inter> Occ = {}"
      using "2.prems"(8) unfolding split by auto
    ultimately show ?thesis
      by (intro placeable_Cons [of mx v "(mx - a01, 0)" Occ "Occ \<union> ?L a01 (a01 - ?n)"]) auto
  next
    case right: 3
    with "2.prems"(1) have pk: "ideal_pack2Columns vs a01 (a23 - ?n) = Some (b01, b23, rest)" by simp
    have b: "b23 \<le> a23 - ?n" using ideal_pack2Columns_bounds [OF pk] right "2.prems"(2) by simp
    have split: "?R a23 b23 = ?R a23 (a23 - ?n) \<union> ?R (a23 - ?n) b23" using b n by auto
    have "placeable (Occ \<union> ?R a23 (a23 - ?n)) mx vs"
    proof (rule "2.IH"(2) [OF _ _ _ pk "2.prems"(2) _ "2.prems"(4,5)])
      show "placeable (Occ \<union> ?R a23 (a23 - ?n) \<union> ?L a01 b01 \<union> ?R (a23 - ?n) b23) mx rest"
        using "2.prems"(7) unfolding split by (simp only: Un_assoc Un_left_commute)
      show "(Occ \<union> ?R a23 (a23 - ?n)) \<inter> ?L a01 b01 = {}"
        using "2.prems"(8) by auto
      show "(Occ \<union> ?R a23 (a23 - ?n)) \<inter> ?R (a23 - ?n) b23 = {}"
        using "2.prems"(9) unfolding split by auto
    qed (use right "2.prems"(6) n in simp_all)
    moreover have "var_rect v (t + a23 - ?n, 2) = ?R a23 (a23 - ?n)"
      using right by (auto simp: rect_def)
    moreover have "inside mx v (t + a23 - ?n, 2)"
      using right "2.prems"(2-6) n by (simp add: inside_def)
    moreover have "?R a23 (a23 - ?n) \<inter> Occ = {}"
      using "2.prems"(9) unfolding split by auto
    ultimately show ?thesis
      by (intro placeable_Cons [of mx v "(t + a23 - ?n, 2)" Occ "Occ \<union> ?R a23 (a23 - ?n)"]) auto
  qed
qed

section \<open>The whole algorithm\<close>

lemma ideal_countRows_shift: "ideal_countRows n vs acc = (acc', rest) \<Longrightarrow> ideal_countRows n vs (d + acc) = (d + acc', rest)"
proof (induction n vs acc rule: ideal_countRows.induct)
  case (2 n v vs acc)
  then show ?case by (cases "comps v = n") (auto simp: add.assoc)
qed simp

lemma suffix_comps:
  assumes "sorted_wrt (\<lambda>v w. comps w \<le> comps v) vs" "\<forall>v \<in> set vs. comps v \<le> n"
    and "vs = pre @ rest" "rest = [] \<or> comps (hd rest) \<noteq> n"
  shows "sorted_wrt (\<lambda>v w. comps w \<le> comps v) rest" "\<forall>v \<in> set rest. comps v \<le> n - 1"
proof -
  show s: "sorted_wrt (\<lambda>v w. comps w \<le> comps v) rest" using assms(1,3) by (simp add: sorted_wrt_append)
  show "\<forall>v \<in> set rest. comps v \<le> n - 1"
  proof (cases rest)
    case (Cons w ws)
    then have "comps w \<le> n - 1" using assms(2,3,4) by auto
    with s Cons show ?thesis by fastforce
  qed simp
qed

lemma ideal_packSorted_ok:
  assumes "sorted_wrt (\<lambda>v w. comps w \<le> comps v) vs"
  shows "\<exists>b. ideal_packSorted maxVectors vs = Some b \<and> (b \<longrightarrow> placeable {} (uint maxVectors) vs)"
proof -
  define mx where "mx = uint maxVectors"
  have c4: "\<forall>v \<in> set vs. comps v \<le> 4" using comps_bounds(2) by blast
  obtain t4 vs3 where r4: "ideal_countRows 4 vs 0 = (t4, vs3)" by fastforce
  obtain n3 vs2 where r3: "ideal_countRows 3 vs3 0 = (n3, vs2)" by fastforce
  obtain pre4 where s4: "vs = pre4 @ vs3" "vs3 = [] \<or> comps (hd vs3) \<noteq> 4" using ideal_countRows_rest [OF r4] by blast
  note c3 = suffix_comps [OF assms c4 s4, simplified]
  obtain pre3 where s3: "vs3 = pre3 @ vs2" "vs2 = [] \<or> comps (hd vs2) \<noteq> 3" using ideal_countRows_rest [OF r3] by blast
  note c2 = suffix_comps [OF c3 s3, simplified]
  have t4: "0 \<le> t4" and n3: "0 \<le> n3" using ideal_countRows_ge r4 r3 by blast+
  consider "t4 > mx" | "t4 \<le> mx" "t4 + n3 > mx" | "t4 \<le> mx" "t4 + n3 \<le> mx" by linarith
  then show ?thesis
  proof cases
    case 1
    then show ?thesis using r4 by (intro exI [of _ False]) (simp add: ideal_packSorted_def mx_def)
  next
    case 2
    then show ?thesis using r4 r3 by (intro exI [of _ False]) (simp add: ideal_packSorted_def mx_def)
  next
    case 3
    define p0 where "p0 = \<lparr>topNonFullRow = t4, bottomNonFullRow = mx - 1, maxRows = mx,
                     rows = replicate (unat maxVectors) 0\<rparr>"
    have len0: "int (length (rows p0)) = mx" by (simp add: p0_def mx_def)
    obtain rs1 where rs1: "fillColumns t4 n3 0 3 p0 = Some (p0\<lparr>rows := rs1\<rparr>)" "int (length rs1) = mx"
      "\<And>i k. \<lbrakk>0 \<le> i; i < mx; k < 4\<rbrakk> \<Longrightarrow> marked rs1 i k \<longleftrightarrow>
         marked (rows p0) i k \<or> t4 \<le> i \<and> i < t4 + n3 \<and> 0 \<le> k \<and> k < 0 + 3"
      by (rule fillColumns_obtain [OF t4 n3 len0, of 0 3]) (use 3 in simp_all)
    define T where "T = mx - (t4 + n3)"
    have T: "0 \<le> T" using 3 by (simp add: T_def)
    show ?thesis
    proof (cases "ideal_pack2Columns vs2 T T")
      case None
      then show ?thesis using 3 r4 r3 rs1(1)
        by (intro exI [of _ False]) (simp add: ideal_packSorted_def mx_def [symmetric] p0_def [symmetric] T_def [symmetric])
    next
      case (Some x)
      obtain a01 a23 vs1 where pk: "ideal_pack2Columns vs2 T T = Some (a01, a23, vs1)" using Some by (cases x) auto
      note b = ideal_pack2Columns_bounds [OF pk T T]
      obtain pre2 where s2: "vs2 = pre2 @ vs1" "vs1 = [] \<or> comps (hd vs1) \<noteq> 2" using ideal_pack2Columns_rest [OF pk] by blast
      note c1 = suffix_comps [OF c2 s2, simplified]
      have one: "\<forall>v \<in> set vs1. comps v = 1" using c1(2) comps_bounds(1) by (simp add: order_antisym)
      let ?p1 = "p0\<lparr>rows := rs1\<rparr>"
      have len1: "int (length (rows ?p1)) = mx" using rs1(2) by simp
      obtain rs2 where rs2:
        "fillColumns (t4 + n3) (T - a01) 0 2 ?p1 = Some (?p1\<lparr>rows := rs2\<rparr>)" "int (length rs2) = mx"
        "\<And>i k. \<lbrakk>0 \<le> i; i < mx; k < 4\<rbrakk> \<Longrightarrow> marked rs2 i k \<longleftrightarrow>
           marked (rows ?p1) i k \<or> t4 + n3 \<le> i \<and> i < t4 + n3 + (T - a01) \<and> 0 \<le> k \<and> k < 0 + 2"
        by (rule fillColumns_obtain [OF _ _ len1, of "t4 + n3" "T - a01" 0 2])
          (use t4 n3 b in \<open>simp_all add: T_def\<close>)
      let ?p2 = "?p1\<lparr>rows := rs2\<rparr>"
      have len2: "int (length (rows ?p2)) = mx" using rs2(2) by simp
      obtain rs3 where rs3:
        "fillColumns (mx - (T - a23)) (T - a23) 2 2 ?p2 = Some (?p2\<lparr>rows := rs3\<rparr>)" "int (length rs3) = mx"
        "\<And>i k. \<lbrakk>0 \<le> i; i < mx; k < 4\<rbrakk> \<Longrightarrow> marked rs3 i k \<longleftrightarrow>
           marked (rows ?p2) i k \<or> mx - (T - a23) \<le> i \<and> i < mx - (T - a23) + (T - a23) \<and> 2 \<le> k \<and> k < 2 + 2"
        by (rule fillColumns_obtain [OF _ _ len2, of "mx - (T - a23)" "T - a23" 2 2])
          (use t4 n3 b in \<open>simp_all add: T_def\<close>)
      let ?p3 = "?p2\<lparr>rows := rs3\<rparr>"
      have "packer_ok mx ?p3" using rs3(2) by (simp add: packer_ok_def p0_def)
      from ideal_pack1Column_ok [OF this one] obtain r where r: "ideal_pack1Column vs1 ?p3 = Some r"
        "r \<longrightarrow> placeable (occupied mx ?p3) mx vs1" by blast
      have run: "ideal_packSorted maxVectors vs = Some r"
        using 3 r4 r3 rs1(1) pk rs2(1) rs3(1) r(1)
        by (simp add: ideal_packSorted_def mx_def [symmetric] p0_def [symmetric] T_def [symmetric])
      let ?O4 = "{(i, k). 0 \<le> i \<and> i < t4 \<and> k < (4 :: nat)}"
      let ?O3 = "{(i, k). t4 \<le> i \<and> i < t4 + n3 \<and> k < (3 :: nat)}"
      have "placeable {} mx vs" if r
      proof -
        let ?L = "{(i, k). mx - T \<le> i \<and> i < mx - a01 \<and> k < (2 :: nat)}"
        let ?R = "{(i, k). (t4 + n3) + a23 \<le> i \<and> i < (t4 + n3) + T \<and> 2 \<le> k \<and> k < (4 :: nat)}"
        have T_eq: "mx - T = t4 + n3" by (simp add: T_def)
        have "?O4 \<union> ?O3 \<union> ?L \<union> ?R \<subseteq> occupied mx ?p3"
          using 3 t4 n3 b rs1(3) rs2(3) rs3(3) unfolding occupied_def T_eq
          by (auto simp: p0_def T_def)
        then have left: "placeable (?O4 \<union> ?O3 \<union> ?L \<union> ?R) mx vs1"
          using r(2) that placeable_antimono by blast
        have "placeable (?O4 \<union> ?O3) mx vs2"
          by (rule ideal_pack2Columns_ok [OF pk T T _ _ _ left]) (use 3 t4 n3 b in \<open>auto simp: T_def\<close>)
        moreover have "?O4 \<inter> ?O3 = {}" by auto
        ultimately have "placeable ?O4 mx vs3"
          using ideal_countRows_ok [OF ideal_countRows_shift [OF r3, of t4], of 3 mx ?O4] 3 t4
          by simp
        then show ?thesis
          using ideal_countRows_ok [OF r4, of 4 mx "{}"] 3 by auto
      qed
      with run show ?thesis by (auto simp: mx_def)
    qed
  qed
qed

section \<open>The code and the ideal algorithm\<close>

definition total_rows :: "shader_variable list \<Rightarrow> int" where
  "total_rows vs = sum_list (map packing_rows vs)"

lemma total_rows_simps [simp]:
  "total_rows [] = 0" "total_rows (v # vs) = packing_rows v + total_rows vs"
  "total_rows (vs @ ws) = total_rows vs + total_rows ws"
  by (simp_all add: total_rows_def)

lemma total_rows_nonneg: "0 \<le> total_rows vs"
  by (induction vs) (use rows_nonneg in auto)

lemma total_rows_mset: "mset vs = mset ws \<Longrightarrow> total_rows vs = total_rows ws"
  unfolding total_rows_def by (metis mset_map sum_mset_sum_list)

lemma rows_exact: "packing_rows v < 2 ^ 31 \<Longrightarrow> GetVariablePackingRows v = packing_rows v"
  using rows_nonneg [of v] by (simp add: GetVariablePackingRows_def packing_rows_def int32_id)

lemma ideal_countRows_total:
  "ideal_countRows n vs acc = (acc', rest) \<Longrightarrow> acc' + total_rows rest = acc + total_rows vs"
  by (induction n vs acc rule: ideal_countRows.induct) (auto split: if_splits)

lemma countRows_ideal: "\<lbrakk>0 \<le> acc; acc + total_rows vs < 2 ^ 31\<rbrakk> \<Longrightarrow> countRows n vs acc = ideal_countRows n vs acc"
proof (induction vs arbitrary: acc)
  case (Cons v vs)
  note n = rows_nonneg [of v] total_rows_nonneg [of vs]
  have "GetVariablePackingRows v = packing_rows v" "int32 (acc + packing_rows v) = acc + packing_rows v"
    using Cons.prems n by (simp_all add: rows_exact int32_id)
  then show ?case using Cons n by simp
qed simp

lemma pack2Columns_ideal:
  "\<lbrakk>0 \<le> a; a < 2 ^ 31; 0 \<le> b; b < 2 ^ 31; total_rows vs < 2 ^ 31\<rbrakk> \<Longrightarrow> pack2Columns vs a b = ideal_pack2Columns vs a b"
proof (induction vs arbitrary: a b)
  case (Cons v vs)
  note n = rows_nonneg [of v] total_rows_nonneg [of vs]
  have r: "GetVariablePackingRows v = packing_rows v"
    using Cons.prems n by (simp add: rows_exact)
  have "packing_rows v \<le> a \<Longrightarrow> int32 (a - packing_rows v) = a - packing_rows v"
    "packing_rows v \<le> b \<Longrightarrow> int32 (b - packing_rows v) = b - packing_rows v"
    using Cons.prems n by (simp_all add: int32_id)
  then show ?case using Cons n by (simp add: r)
qed simp

lemma pack1Column_ideal: "total_rows vs < 2 ^ 31 \<Longrightarrow> pack1Column vs p = ideal_pack1Column vs p"
proof (induction vs arbitrary: p)
  case (Cons v vs)
  note n = rows_nonneg [of v] total_rows_nonneg [of vs]
  have "GetVariablePackingRows v = packing_rows v" using Cons.prems n by (simp add: rows_exact)
  moreover have "pack1Column vs = ideal_pack1Column vs" using Cons n by (intro ext) simp
  ultimately show ?case by (simp split: prod.split option.split)
qed simp

lemma packSorted_ideal:
  assumes mx: "uint maxVectors < 2 ^ 31" and total: "total_rows vs < 2 ^ 31"
  shows "packSorted maxVectors vs = ideal_packSorted maxVectors vs"
proof -
  define m where "m = uint maxVectors"
  have m0: "0 \<le> m" unfolding m_def by (rule uint_nonnegative)
  have m1: "m < 2 ^ 31" using mx by (simp only: m_def)
  have m: "0 \<le> m" "m < 2 ^ 31" "int32 m = m" "int32 (m - 1) = m - 1" using m0 m1 by (simp_all add: int32_id)
  obtain t4 vs3 where r4: "ideal_countRows 4 vs 0 = (t4, vs3)" by fastforce
  obtain n3 vs2 where r3: "ideal_countRows 3 vs3 0 = (n3, vs2)" by fastforce
  note t4 = ideal_countRows_ge [OF r4] ideal_countRows_total [OF r4]
  note n3 = ideal_countRows_ge [OF r3] ideal_countRows_total [OF r3]
  note tot = total_rows_nonneg [of vs3] total_rows_nonneg [of vs2]
  have c4: "countRows 4 vs 0 = (t4, vs3)" using countRows_ideal [of 0 vs 4] total r4 by simp
  have c3: "countRows 3 vs3 0 = (n3, vs2)" using countRows_ideal [of 0 vs3 3] total t4 r3 by simp
  have sum: "int32 (t4 + n3) = t4 + n3" using t4 n3 tot total by (simp add: int32_id)
  show ?thesis
  proof (cases "t4 > m \<or> t4 + n3 > m")
    case True
    then show ?thesis
      by (auto simp: packSorted_def ideal_packSorted_def m_def [symmetric] m c4 c3 r4 r3 sum)
  next
    case False
    let ?T = "m - (t4 + n3)"
    have T: "int32 ?T = ?T" "0 \<le> ?T" "?T < 2 ^ 31" using False t4(1) n3(1) m by (simp_all add: int32_id)
    have p2: "pack2Columns vs2 ?T ?T = ideal_pack2Columns vs2 ?T ?T"
      using pack2Columns_ideal [OF T(2,3) T(2,3), of vs2] t4 n3 tot total by simp
    show ?thesis
    proof (cases "ideal_pack2Columns vs2 ?T ?T")
      case None
      then show ?thesis using False
        by (simp add: packSorted_def ideal_packSorted_def m_def [symmetric] m c4 c3 r4 r3 sum T p2)
    next
      case (Some x)
      obtain a b vs1 where pk: "ideal_pack2Columns vs2 ?T ?T = Some (a, b, vs1)" using Some by (cases x) auto
      note ab = ideal_pack2Columns_bounds [OF pk T(2) T(2)]
      have i: "int32 (?T - a) = ?T - a" "int32 (?T - b) = ?T - b" "int32 (m - (?T - b)) = m - (?T - b)"
        "int32 (t4 + (n3 + b)) = t4 + (n3 + b)"
        using ab T(2,3) m t4(1) n3(1) by (simp_all add: int32_id)
      obtain pre where "vs2 = pre @ vs1" using ideal_pack2Columns_rest [OF pk] by blast
      then have "total_rows vs1 < 2 ^ 31"
        using t4 n3 tot total total_rows_nonneg [of pre] by simp
      then have "pack1Column vs1 = ideal_pack1Column vs1" using pack1Column_ideal by blast
      then show ?thesis using False
        by (simp add: packSorted_def ideal_packSorted_def m_def [symmetric] m c4 c3 r4 r3 sum T p2 pk i)
    qed
  qed
qed

lemma packSorted_ok:
  assumes "sorted_wrt (\<lambda>v w. comps w \<le> comps v) vs" and total: "total_rows vs < 2 ^ 31"
  shows "\<exists>b. packSorted maxVectors vs = Some b \<and> (b \<longrightarrow> placeable {} (uint maxVectors) vs)"
proof (cases "uint maxVectors < 2 ^ 31")
  case True
  then show ?thesis using ideal_packSorted_ok [OF assms(1)] packSorted_ideal [OF True total] by metis
next
  case False
  define m where "m = uint maxVectors"
  have m: "2 ^ 31 \<le> m" "m < 2 ^ 32" using False uint_lt2p [of maxVectors] by (simp_all only: m_def not_less len_of_numeral_defs) simp_all
  have "(m + 2 ^ 31) mod 2 ^ 32 = (m - 2 ^ 31 + 2 ^ 32) mod 2 ^ 32" by (simp add: algebra_simps)
  also have "\<dots> = (m - 2 ^ 31) mod 2 ^ 32" by (rule mod_add_self2)
  also have "\<dots> = m - 2 ^ 31" using m by (intro mod_pos_pos_trivial) simp_all
  finally have "int32 (uint maxVectors) < 0" using m(2) by (simp add: int32_def m_def [symmetric])
  moreover obtain t4 vs3 where "countRows 4 vs 0 = (t4, vs3)" "0 \<le> t4"
    using countRows_ideal [of 0 vs 4] total ideal_countRows_ge [of 4 vs 0] by (cases "ideal_countRows 4 vs 0") auto
  ultimately show ?thesis by (intro exI [of _ False]) (simp add: packSorted_def)
qed

lemma sort_comps:
  assumes "\<forall>v \<in> set vs. known_type v"
  shows "sorted_wrt (\<lambda>v w. comps w \<le> comps v) (sort_key sort_order vs)"
  unfolding sorted_wrt_iff_nth_less
  using sorted_comps [of "sort_key sort_order vs"] assms by (simp add: less_imp_le)

text \<open>
  The basic variables of a variable, by paths: a path goes from a structure - through one subscript for each of its
  array dimensions, outermost first - into the field with some number, until it reaches a variable that is no structure.
\<close>

fun leaf_path :: "shader_variable \<Rightarrow> (nat list \<times> nat) list \<Rightarrow> bool" where
  "leaf_path v [] \<longleftrightarrow> \<not> isStruct v"
| "leaf_path v ((subs, k) # p) \<longleftrightarrow>
     isStruct v \<and> list_all2 (\<lambda>i n. i < unat n) subs (rev (sv_arraySizes (sv_info v))) \<and>
     k < length (sv_fields v) \<and> leaf_path (sv_fields v ! k) p"

fun leaf_at :: "shader_variable \<Rightarrow> (nat list \<times> nat) list \<Rightarrow> shader_variable" where
  "leaf_at v [] = v"
| "leaf_at v ((subs, k) # p) = leaf_at (sv_fields v ! k) p"

definition element_text :: "nat list \<Rightarrow> string" where
  "element_text subs = concat (map (\<lambda>i. ArrayString (of_nat i)) subs)"

fun path_text :: "shader_variable \<Rightarrow> (nat list \<times> nat) list \<Rightarrow> string" where
  "path_text v [] = []"
| "path_text v ((subs, k) # p) =
     element_text subs @ ''.'' @ sv_name (sv_info (sv_fields v ! k)) @ path_text (sv_fields v ! k) p"

definition named_leaf :: "shader_variable \<Rightarrow> string \<Rightarrow> (nat list \<times> nat) list \<Rightarrow> shader_variable" where
  "named_leaf v nm p =
     ShaderVariable (sv_info (leaf_at v p)\<lparr>sv_name := nm @ path_text v p\<rparr>) (sv_fields (leaf_at v p))"

text \<open>The paths in order, and that the expansion goes through them.\<close>

primrec subscript_lists :: "nat list \<Rightarrow> nat list list" where
  "subscript_lists [] = [[]]"
| "subscript_lists (n # ns) = concat (map (\<lambda>i. map ((#) i) (subscript_lists ns)) [0..<n])"

function leaf_paths :: "shader_variable \<Rightarrow> (nat list \<times> nat) list list" where
  "leaf_paths v =
     (if isStruct v
      then concat (map (\<lambda>subs. concat (map (\<lambda>k. map ((#) (subs, k)) (leaf_paths (sv_fields v ! k)))
             [0..<length (sv_fields v)])) (subscript_lists (map unat (rev (sv_arraySizes (sv_info v))))))
      else [[]])"
  by pat_completeness auto

lemma nth_field_smaller: "k < length (sv_fields v) \<Longrightarrow> size (sv_fields v ! k) < size v"
  using field_smaller [OF nth_mem] .

termination leaf_paths
  by (relation "measure size") (auto dest: nth_field_smaller)

declare leaf_paths.simps [simp del]

lemma in_subscript_lists: "subs \<in> set (subscript_lists ns) \<longleftrightarrow> list_all2 (<) subs ns"
proof (induction ns arbitrary: subs)
  case (Cons n ns)
  then show ?case by (cases subs) (auto simp: image_iff)
qed simp

lemma sorted_concat_map:
  assumes "sorted_wrt (\<lambda>x y. \<forall>a \<in> set (f x). \<forall>b \<in> set (f y). P a b) xs"
    and "\<forall>x \<in> set xs. sorted_wrt P (f x)"
  shows "sorted_wrt P (concat (map f xs))"
  using assms by (induction xs) (auto simp: sorted_wrt_append)

lemma sorted_subscript_lists: "sorted_wrt (<) (subscript_lists ns)"
proof (induction ns)
  case (Cons n ns)
  have "sorted_wrt (<) [0..<n]" by (rule sorted_wrt_upt)
  then have "sorted_wrt (\<lambda>i j. \<forall>a \<in> set (map ((#) i) (subscript_lists ns)). \<forall>b \<in> set (map ((#) j) (subscript_lists ns)). a < b) [0..<n]"
    by (rule sorted_wrt_mono_rel [rotated]) auto
  then show ?case using Cons.IH by (auto intro!: sorted_concat_map simp: sorted_wrt_map)
qed simp

lemma in_leaf_paths: "p \<in> set (leaf_paths v) \<longleftrightarrow> leaf_path v p"
proof (induction v arbitrary: p rule: measure_induct_rule [of size])
  case (less v)
  have "list_all2 (<) subs (map unat (rev (sv_arraySizes (sv_info v)))) \<longleftrightarrow>
      list_all2 (\<lambda>i n. i < unat n) subs (rev (sv_arraySizes (sv_info v)))" for subs
    by (simp add: list_all2_map2)
  with less [OF nth_field_smaller] show ?case
    by (cases "isStruct v"; cases p) (auto simp: leaf_paths.simps [of v] in_subscript_lists image_iff)
qed

lemma sorted_leaf_paths: "sorted_wrt (<) (leaf_paths v)"
proof (induction v rule: measure_induct_rule [of size])
  case (less v)
  show ?case
  proof (cases "isStruct v")
    case True
    let ?fields = "\<lambda>subs. concat (map (\<lambda>k. map ((#) (subs, k)) (leaf_paths (sv_fields v ! k))) [0..<length (sv_fields v)])"
    have "sorted_wrt (<) (?fields subs)" for subs
    proof (rule sorted_concat_map)
      have "sorted_wrt (<) [0..<length (sv_fields v)]" by (rule sorted_wrt_upt)
      then show "sorted_wrt (\<lambda>x y. \<forall>a\<in>set (map ((#) (subs, x)) (leaf_paths (sv_fields v ! x))).
          \<forall>b\<in>set (map ((#) (subs, y)) (leaf_paths (sv_fields v ! y))). a < b) [0..<length (sv_fields v)]"
        by (rule sorted_wrt_mono_rel [rotated]) auto
      show "\<forall>k \<in> set [0..<length (sv_fields v)]. sorted_wrt (<) (map ((#) (subs, k)) (leaf_paths (sv_fields v ! k)))"
        using less [OF nth_field_smaller] by (auto simp: sorted_wrt_map)
    qed
    moreover have "sorted_wrt (\<lambda>x y. \<forall>a \<in> set (?fields x). \<forall>b \<in> set (?fields y). a < b)
        (subscript_lists (map unat (rev (sv_arraySizes (sv_info v)))))"
      using sorted_subscript_lists by (rule sorted_wrt_mono_rel [rotated]) auto
    ultimately show ?thesis
      unfolding leaf_paths.simps [of v] if_P [OF True] by (intro sorted_concat_map [of ?fields] ballI)
  qed (simp add: leaf_paths.simps [of v])
qed

lemma concat_concat_map: "concat (concat xs) = concat (map concat xs)"
  by (induction xs) simp_all

lemma expand_array_paths:
  assumes "i < length (sv_arraySizes (sv_info v))"
  shows "ExpandStructArrayVariable v i nm =
    concat (map (\<lambda>subs. ExpandStructVariable v (nm @ element_text subs))
      (subscript_lists (map unat (drop i (rev (sv_arraySizes (sv_info v)))))))"
  using assms
proof (induction "length (sv_arraySizes (sv_info v)) - i" arbitrary: i nm)
  case (Suc d)
  let ?xs = "rev (sv_arraySizes (sv_info v))"
  have drop: "drop i ?xs = getNestedArraySize v i # drop (Suc i) ?xs"
    using Suc.prems by (simp add: getNestedArraySize_def rev_nth Cons_nth_drop_Suc [symmetric])
  show ?case
  proof (cases "i + 1 < length ?xs")
    case True
    with Suc have "ExpandStructArrayVariable v (i + 1) nm' =
      concat (map (\<lambda>subs. ExpandStructVariable v (nm' @ element_text subs)) (subscript_lists (map unat (drop (i + 1) ?xs))))" for nm'
      by simp
    with True show ?thesis unfolding drop
      by (simp add: ExpandStructArrayVariable.simps [of v i nm] Let_def element_text_def map_concat concat_concat_map comp_def)
  next
    case False
    then show ?thesis unfolding drop
      by (simp add: ExpandStructArrayVariable.simps [of v i nm] Let_def element_text_def map_concat comp_def)
  qed
qed simp

lemma expand_paths: "ExpandVariable v nm = map (named_leaf v nm) (leaf_paths v)"
proof (induction v arbitrary: nm rule: measure_induct_rule [of size])
  case (less v)
  show ?case
  proof (cases "isStruct v")
    case True
    have struct: "ExpandStructVariable v (nm @ element_text subs) = map (named_leaf v nm)
        (concat (map (\<lambda>k. map ((#) (subs, k)) (leaf_paths (sv_fields v ! k))) [0..<length (sv_fields v)]))" for subs
    proof -
      have "ExpandStructVariable v (nm @ element_text subs) = concat (map (\<lambda>k.
          ExpandVariable (sv_fields v ! k) ((nm @ element_text subs) @ ''.'' @ sv_name (sv_info (sv_fields v ! k))))
          [0..<length (sv_fields v)])"
        unfolding ExpandStructVariable.simps [of v] by (subst map_nth [of "sv_fields v", symmetric]) (simp only: map_map comp_def)
      also have "\<dots> = concat (map (\<lambda>k. map (\<lambda>p. named_leaf v nm ((subs, k) # p)) (leaf_paths (sv_fields v ! k)))
          [0..<length (sv_fields v)])"
        using less.IH [OF nth_field_smaller] by (auto simp: named_leaf_def intro!: arg_cong [of _ _ concat])
      finally show ?thesis by (simp add: map_concat comp_def)
    qed
    have "ExpandVariable v nm = concat (map (\<lambda>subs. ExpandStructVariable v (nm @ element_text subs))
        (subscript_lists (map unat (rev (sv_arraySizes (sv_info v))))))"
      using True expand_array_paths [of 0 v nm]
      by (cases "sv_arraySizes (sv_info v) = []")
        (simp_all add: ExpandVariable.simps [of v nm] isArray_def element_text_def)
    with True show ?thesis by (simp add: leaf_paths.simps [of v] struct map_concat comp_def)
  qed (simp add: ExpandVariable.simps [of v nm] leaf_paths.simps [of v] named_leaf_def)
qed

section \<open>Properties\<close>

text \<open>
  C16. Expanding a variable returns, for any variable, exactly its basic variables, each once, in the order of
  their paths: for every path through the fields of structures, with a subscript inside its bounds for every dimension of
  an array of structures, the variable at its end, under the name it is expanded with and the text of the path behind it,
  and otherwise unchanged. A variable or field that is no structure, also an array of a basic type, stays one variable.
\<close>

theorem ExpandVariable_complete:
  "\<exists>ps. set ps = {p. leaf_path v p} \<and> sorted_wrt (<) ps \<and> ExpandVariable v nm = map (named_leaf v nm) ps"
  using in_leaf_paths sorted_leaf_paths expand_paths by (intro exI [of _ "leaf_paths v"]) blast

text \<open>
  C15. As long as the variables need less than \<open>2\<^sup>3\<^sup>1\<close> rows together (the code adds them up in an \<open>int\<close>) and have
  types of the language, the packing check never reads or writes outside its rows, for any number of vectors,
  and its answer is sound: when it is true, all expanded variables have places at the same time - rectangles of their packing shape
  inside \<open>maxVectors\<close> rows of four columns, no two of which overlap.
\<close>

theorem packing_limits_sound:
  assumes "xs = concat (map (\<lambda>v. ExpandVariable v (sv_name (sv_info v))) vs)"
    and "\<forall>x \<in> set xs. known_type x" and "total_rows xs < 2 ^ 31"
  shows "\<exists>b. CheckVariablesInPackingLimits maxVectors vs = Some b \<and>
    (b \<longrightarrow> (\<exists>ys ps. mset ys = mset xs \<and> length ps = length ys \<and>
       (\<forall>i < length ys. inside (uint maxVectors) (ys ! i) (ps ! i)) \<and>
       (\<forall>i j. i < j \<longrightarrow> j < length ys \<longrightarrow>
          var_rect (ys ! i) (ps ! i) \<inter> var_rect (ys ! j) (ps ! j) = {})))"
proof -
  let ?ys = "sort_key sort_order xs"
  have "total_rows ?ys < 2 ^ 31" using assms(3) total_rows_mset [of ?ys xs] by simp
  from packSorted_ok [OF sort_comps [OF assms(2)] this, of maxVectors] obtain b where
    b: "packSorted maxVectors ?ys = Some b" "b \<longrightarrow> placeable {} (uint maxVectors) ?ys" by blast
  have "\<exists>ps. length ps = length ?ys \<and> (\<forall>i < length ?ys. inside (uint maxVectors) (?ys ! i) (ps ! i)) \<and>
       (\<forall>i j. i < j \<longrightarrow> j < length ?ys \<longrightarrow> var_rect (?ys ! i) (ps ! i) \<inter> var_rect (?ys ! j) (ps ! j) = {})"
    if "placeable {} (uint maxVectors) ?ys"
    using that placed_length placed_nth placed_disjoint unfolding placeable_def by meson
  with b show ?thesis
    unfolding CheckVariablesInPackingLimits_def checkExpandedVariablesWithinPackingLimits_def
      assms(1) [symmetric]
    by (metis mset_sort)
qed

theorem packing_limits_sound_witness:
  "\<exists>b. CheckVariablesInPackingLimits 2
     [ShaderVariable (default_info GL_FLOAT_VEC4\<lparr>sv_name := ''a''\<rparr>) [],
      ShaderVariable_array GL_FLOAT 2] = Some b"
proof -
  let ?vs = "[ShaderVariable (default_info GL_FLOAT_VEC4\<lparr>sv_name := ''a''\<rparr>) [], ShaderVariable_array GL_FLOAT 2]"
  let ?xs = "concat (map (\<lambda>v. ExpandVariable v (sv_name (sv_info v))) ?vs)"
  have "\<forall>x \<in> set ?xs. known_type x"
    by (simp add: ExpandVariable.simps isStruct_def known_type_def ShaderVariable_array_def default_info_def)
  moreover have "total_rows ?xs < 2 ^ 31"
    by (simp add: ExpandVariable.simps isStruct_def ShaderVariable_array_def default_info_def packing_rows_def
        GetTypePackingRows_def getArraySizeProduct_def ArraySizeProduct_def)
  ultimately show ?thesis using packing_limits_sound [OF refl, of _ 2] by blast
qed

text \<open>
  The product of the array sizes is taken modulo \<open>2\<^sup>3\<^sup>2\<close>: an array of arrays whose sizes multiply to a
  multiple of it is packed as a variable of no rows.
\<close>

theorem array_size_product_wraps:
  "CheckVariablesInPackingLimits 1 [ShaderVariable (default_info GL_FLOAT\<lparr>sv_arraySizes := [0x10000, 0x10000]\<rparr>) []]
     = Some True"
proof -
  let ?v = "ShaderVariable (default_info GL_FLOAT\<lparr>sv_arraySizes := [0x10000, 0x10000]\<rparr>) []"
  let ?w = "ShaderVariable (sv_info ?v\<lparr>sv_name := []\<rparr>) []"
  have expand: "ExpandVariable ?v (sv_name (sv_info ?v)) = [?w]"
    by (simp add: ExpandVariable.simps isStruct_def default_info_def)
  have size: "getArraySizeProduct ?w = 0"
    by (simp add: getArraySizeProduct_def ArraySizeProduct_def)
  have rows: "GetVariablePackingRows ?w = 0"
    unfolding GetVariablePackingRows_def size by (simp add: int32_id)
  have one: "comps ?w = 1"
    by (simp add: default_info_def GetTypePackingComponentsPerRow_def)
  have pack: "packSorted 1 [?w] = Some True"
    using rows one
    by (simp add: packSorted_def fillColumns_def kNumColumns_def upt_rec searchColumn_def
        scanColumn.simps skipFullDown.simps skipFullUp.simps kColumnMask_def Let_def int32_id)
  have vars: "concat (map (\<lambda>v. ExpandVariable v (sv_name (sv_info v))) [?v]) = [?w]"
    by (simp only: list.map concat.simps expand append_Nil2)
  show ?thesis
    unfolding CheckVariablesInPackingLimits_def checkExpandedVariablesWithinPackingLimits_def vars
    using size pack by simp
qed

text \<open>
  Beyond the bound of the property the sum of the rows wraps around: four arrays of \<open>2\<^sup>3\<^sup>0\<close> vectors are accepted for
  \<open>2\<^sup>3\<^sup>0\<close> vectors.
\<close>

lemma row_sum_wraps:
  assumes v: "v = ShaderVariable (default_info GL_FLOAT_VEC4\<lparr>sv_arraySizes := [2 ^ 30]\<rparr>) []"
  shows "checkExpandedVariablesWithinPackingLimits (2 ^ 30) [v, v, v, v] = Some True"
proof -
  have size: "getArraySizeProduct v = 2 ^ 30"
    by (simp add: v getArraySizeProduct_def ArraySizeProduct_def)
  have type: "sv_type (sv_info v) = GL_FLOAT_VEC4" by (simp add: v default_info_def)
  have rows: "GetVariablePackingRows v = 2 ^ 30" "comps v = 4" "GetTypePackingRows (sv_type (sv_info v)) = 1"
    by (simp_all add: GetVariablePackingRows_def size type GetTypePackingRows_def GetTypePackingComponentsPerRow_def
        int32_def)
  have count: "countRows 4 [v, v, v, v] 0 = (0, [])" by (simp add: rows int32_def)
  have "packSorted (2 ^ 30) [v, v, v, v] = Some True"
    unfolding packSorted_def count by (simp add: fillColumns_def int32_def)
  moreover have "sort_key sort_order [v, v, v, v] = [v, v, v, v]" by simp
  ultimately show ?thesis by (simp add: checkExpandedVariablesWithinPackingLimits_def size rows)
qed

end
