(* ===== verification/Resource_Names.thy ===== *)
theory Resource_Names
  imports Shader_Variable
begin

text \<open>
  Names of program resources with array subscripts (src/src/common/utilities.cpp and
  angleutils.cpp): writing the subscripts of an element, stripping and parsing them, and finding the
  field of a structure a name denotes.

  \<open>atoi\<close> and \<open>strtoul\<close> of the C library are modelled as on a 64-bit POSIX system: white space, a
  sign and the digits that follow, \<open>strtoul\<close> saturating at \<open>ULONG_MAX\<close> with \<open>ERANGE\<close>, \<open>atoi\<close> truncating
  the \<open>long\<close> to an \<open>int\<close>. POSIX allows \<open>strtoul\<close> to set \<open>EINVAL\<close> when there is no digit; whether it
  does is the parameter \<open>einval\<close>.

  The lemmas show that parsing inverts writing.
\<close>

section \<open>The C library's conversions\<close>

definition c_space :: "char \<Rightarrow> bool" where
  "c_space c \<longleftrightarrow> (of_char c :: nat) = 32 \<or> 9 \<le> (of_char c :: nat) \<and> (of_char c :: nat) \<le> 13"

definition digits_prefix :: "string \<Rightarrow> string" where
  "digits_prefix s = takeWhile is_digit s"

definition c_strtol :: "string \<Rightarrow> int" where
  "c_strtol s =
     (let t = dropWhile c_space s;
          v = (if t \<noteq> [] \<and> hd t = CHR ''-'' then - int (decimal_value (digits_prefix (tl t)))
               else if t \<noteq> [] \<and> hd t = CHR ''+'' then int (decimal_value (digits_prefix (tl t)))
               else int (decimal_value (digits_prefix t)))
      in max (- (2 ^ 63)) (min (2 ^ 63 - 1) v))"

definition c_atoi :: "string \<Rightarrow> int" where
  "c_atoi s = sint (of_int (c_strtol s) :: 32 word)"

text \<open>\<open>strtoul\<close> of a text that begins with its digits: the value and whether \<open>errno\<close> is \<open>ERANGE\<close>.\<close>

definition ULONG_MAX :: nat where
  "ULONG_MAX = 2 ^ 64 - 1"

definition c_strtoul :: "string \<Rightarrow> nat \<times> bool" where
  "c_strtoul s =
     (let v = decimal_value (digits_prefix s)
      in if v \<le> ULONG_MAX then (v, False) else (ULONG_MAX, True))"

section \<open>Operations\<close>

definition GL_INVALID_INDEX :: u32 where
  "GL_INVALID_INDEX = 0xFFFFFFFF"

text \<open>Indices are stored with the outermost index at the back and written in reverse.\<close>

definition ArrayIndexString :: "u32 list \<Rightarrow> string" where
  "ArrayIndexString indices = concat (map ArrayString (rev indices))"

text \<open>
  The loop of \<open>ParseResourceName\<close>. When \<open>baseNameLength\<close> is 0, \<open>baseNameLength - 1\<close> wraps to \<open>npos\<close>; the
  loop gets there only for an empty name or after a subscript at the very start, and both times the
  comparison with the position of the last bracket fails.
\<close>

fun parseSubscripts :: "string \<Rightarrow> nat \<Rightarrow> u32 list \<Rightarrow> nat \<times> u32 list" where
  "parseSubscripts nm 0 subs = (0, subs)"
| "parseSubscripts nm (Suc n) subs =
     (case (find_last (\<lambda>c. c = CHR ''['') (take (Suc n) nm), find_last (\<lambda>c. c = CHR '']'') (take (Suc n) nm)) of
        (Some open, Some close) \<Rightarrow>
          (if close = n \<and> open \<le> n
           then
             (let index = c_atoi (drop (open + 1) nm)
              in parseSubscripts nm open
                   (subs @ [if index \<ge> 0 then of_int index else GL_INVALID_INDEX]))
           else (Suc n, subs))
      | _ \<Rightarrow> (Suc n, subs))"

definition ParseResourceName :: "string \<Rightarrow> string \<times> u32 list" where
  "ParseResourceName nm =
     (case parseSubscripts nm (length nm) [] of (baseNameLength, subs) \<Rightarrow> (take baseNameLength nm, subs))"

definition StripLastArrayIndex :: "string \<Rightarrow> string" where
  "StripLastArrayIndex nm =
     (case find_last (\<lambda>c. c = CHR ''['') nm of
        Some strippedNameLength \<Rightarrow>
          (if last nm = CHR '']'' then take strippedNameLength nm else nm)
      | None \<Rightarrow> nm)"

fun SamplerNameContainsNonZeroArrayElement :: "string \<Rightarrow> bool" where
  "SamplerNameContainsNonZeroArrayElement [] = False"
| "SamplerNameContainsNonZeroArrayElement (c # s) =
     (if c = CHR ''[''
      then (if take 3 (c # s) \<noteq> ''[0]'' then True else SamplerNameContainsNonZeroArrayElement s)
      else SamplerNameContainsNonZeroArrayElement s)"

text \<open>The field and its index; \<^term>\<open>None\<close> is a null pointer.\<close>

definition FindShaderVarField :: "shader_variable \<Rightarrow> string \<Rightarrow> (shader_variable \<times> nat) option" where
  "FindShaderVarField var fullName =
     (if sv_fields var = [] then None
      else
        case find_first (\<lambda>c. c = CHR ''.'') fullName of
          None \<Rightarrow> None
        | Some pos \<Rightarrow>
            (if take pos fullName \<noteq> sv_name (sv_info var) then None
             else
               let fieldName = drop (pos + 1) fullName
               in if fieldName = [] then None
                  else map_option (\<lambda>k. (sv_fields var ! k, k))
                         (find_first (\<lambda>f. sv_name (sv_info f) = fieldName) (sv_fields var))))"

text \<open>The result and \<open>nameLengthWithoutArrayIndexOut\<close>.\<close>

definition ParseArrayIndex :: "bool \<Rightarrow> string \<Rightarrow> u32 \<times> nat" where
  "ParseArrayIndex einval nm =
     (case find_last (\<lambda>c. c = CHR ''['') nm of
        Some open \<Rightarrow>
          (let index = butlast (drop (open + 1) nm);
               (subscript, erange) = c_strtoul (drop (open + 1) nm);
               errno = (erange \<or> einval \<and> digits_prefix (drop (open + 1) nm) = [])
           in if last nm = CHR '']'' \<and> list_all is_digit index \<and>
                 subscript \<le> 0xFFFFFFFF \<and> \<not> (subscript = ULONG_MAX \<and> erange) \<and>
                 \<not> (errno \<and> subscript = 0)
              then (of_nat subscript, open)
              else (GL_INVALID_INDEX, length nm))
      | None \<Rightarrow> (GL_INVALID_INDEX, length nm))"

section \<open>Parsing inverts writing\<close>

lemma not_digit_brackets [simp]: "\<not> is_digit CHR '']''" "\<not> is_digit CHR ''[''"
  by (simp_all add: is_digit_def)

lemma decimal_no_bracket: "\<forall>c \<in> set (decimal n). c \<noteq> CHR ''[''" "\<forall>c \<in> set (decimal n). c \<noteq> CHR '']''"
  using decimal_digits [of n] by auto

lemma digits_prefix_decimal: "digits_prefix (decimal n @ CHR '']'' # t) = decimal n"
  using decimal_digits [of n] by (simp add: digits_prefix_def takeWhile_append)

lemma c_atoi_decimal:
  assumes "n < 2 ^ 31"
  shows "c_atoi (decimal n @ CHR '']'' # t) = int n"
proof -
  obtain c s where cs: "decimal n = c # s" using decimal_nonempty [of n] by (cases "decimal n") auto
  then have c: "is_digit c" using decimal_digits [of n] by simp
  then have not_ws: "\<not> c_space c" and sign: "c \<noteq> CHR ''-''" "c \<noteq> CHR ''+''"
    by (auto simp: is_digit_def c_space_def)
  have "dropWhile c_space (decimal n @ CHR '']'' # t) = decimal n @ CHR '']'' # t"
    by (simp add: cs not_ws)
  then have "c_strtol (decimal n @ CHR '']'' # t) = int n"
    using sign assms digits_prefix_decimal [of n t] decimal_value_decimal [of n]
    by (simp add: c_strtol_def cs)
  then show ?thesis
    using assms by (simp add: c_atoi_def signed_of_nat signed_take_bit_int_eq_self)
qed

lemma c_strtoul_decimal: "n < 2 ^ 32 \<Longrightarrow> c_strtoul (decimal n @ CHR '']'' # t) = (n, False)"
  by (simp add: c_strtoul_def digits_prefix_decimal decimal_value_decimal ULONG_MAX_def)

lemma parseSubscripts_step:
  assumes "unat i < 2 ^ 31"
  shows "parseSubscripts (nm @ ArrayString i @ rest) (length nm + length (ArrayString i)) subs
    = parseSubscripts (nm @ ArrayString i @ rest) (length nm) (subs @ [i])"
proof -
  let ?s = "nm @ ArrayString i @ rest" and ?d = "decimal (unat i)"
  have len: "length nm + length (ArrayString i) = Suc (length nm + length ?d + 1)"
    by (simp add: ArrayString_def)
  have tk: "take (Suc (length nm + length ?d + 1)) ?s = nm @ ArrayString i"
    by (simp add: ArrayString_def)
  have op: "find_last (\<lambda>c. c = CHR ''['') (nm @ ArrayString i) = Some (length nm)"
    using find_last_append [of "?d @ '']''" "\<lambda>c. c = CHR ''[''" "CHR ''[''" nm] decimal_no_bracket(1) [of "unat i"]
    by (simp add: ArrayString_def)
  have cl: "find_last (\<lambda>c. c = CHR '']'') (nm @ ArrayString i) = Some (length nm + length ?d + 1)"
    using find_last_append [of "[]" "\<lambda>c. c = CHR '']''" "CHR '']''" "nm @ CHR ''['' # ?d"]
    by (simp add: ArrayString_def)
  have dr: "drop (length nm + 1) ?s = ?d @ CHR '']'' # rest"
    by (simp add: ArrayString_def)
  have "c_atoi (drop (length nm + 1) ?s) = int (unat i)"
    unfolding dr by (rule c_atoi_decimal [OF assms])
  then show ?thesis
    unfolding len by (simp only: parseSubscripts.simps tk op cl) simp
qed

lemma parseSubscripts_stop:
  assumes "nm \<noteq> [] \<Longrightarrow> last nm \<noteq> CHR '']''"
  shows "parseSubscripts (nm @ rest) (length nm) subs = (length nm, subs)"
proof (cases nm rule: rev_cases)
  case (snoc ys y)
  have "find_last (\<lambda>c. c = CHR '']'') nm \<noteq> Some (length ys)"
  proof
    assume "find_last (\<lambda>c. c = CHR '']'') nm = Some (length ys)"
    then obtain n where n: "find_first (\<lambda>c. c = CHR '']'') (rev nm) = Some n" "length nm - 1 - n = length ys"
      by (auto simp: find_last_def)
    then have "n = 0" "rev nm ! n = CHR '']''"
      using snoc by (auto simp: find_first_Some)
    then show False using assms snoc by simp
  qed
  then show ?thesis using snoc by (auto split: option.splits)
qed simp

lemma parseSubscripts_indices:
  assumes "\<forall>i \<in> set is. unat i < 2 ^ 31" "nm \<noteq> [] \<Longrightarrow> last nm \<noteq> CHR '']''"
  shows "parseSubscripts (nm @ ArrayIndexString is @ rest) (length nm + length (ArrayIndexString is)) subs
    = (length nm, subs @ is)"
  using assms
proof (induction "is" arbitrary: subs rest)
  case Nil
  then show ?case using parseSubscripts_stop [of nm rest] by (simp add: ArrayIndexString_def)
next
  case (Cons i "is")
  have split: "ArrayIndexString (i # is) = ArrayIndexString is @ ArrayString i"
    by (simp add: ArrayIndexString_def)
  have "parseSubscripts ((nm @ ArrayIndexString is) @ ArrayString i @ rest)
      (length (nm @ ArrayIndexString is) + length (ArrayString i)) subs
    = parseSubscripts ((nm @ ArrayIndexString is) @ ArrayString i @ rest) (length (nm @ ArrayIndexString is)) (subs @ [i])"
    by (rule parseSubscripts_step) (use Cons.prems(1) in simp)
  also have "\<dots> = (length nm, subs @ i # is)"
    using Cons.IH [of "ArrayString i @ rest" "subs @ [i]"] Cons.prems by simp
  finally show ?case by (simp add: split add.assoc)
qed

section \<open>Properties\<close>

text \<open>
  C17. Subscripts survive writing and parsing: a base name that does not itself end in a closing bracket,
  followed by the subscripts of an element, each below \<open>2\<^sup>3\<^sup>1\<close>, parses into that base name and those subscripts. A last
  subscript of any 32-bit value is recovered by \<open>ParseArrayIndex\<close> behind any text, with the length of
  the text, and \<open>StripLastArrayIndex\<close> returns the text.
\<close>

theorem resource_name_roundtrip:
  assumes "\<forall>i \<in> set indices. unat i < 2 ^ 31" and "nm = [] \<or> last nm \<noteq> CHR '']''"
  shows "ParseResourceName (nm @ ArrayIndexString indices) = (nm, indices) \<and>
    ParseArrayIndex einval (pre @ ArrayString i) = (i, length pre) \<and>
    StripLastArrayIndex (pre @ ArrayString i) = pre"
proof -
  have "nm \<noteq> [] \<Longrightarrow> last nm \<noteq> CHR '']''" using assms(2) by blast
  from parseSubscripts_indices [OF assms(1) this, of "[]" "[]"]
  have 1: "ParseResourceName (nm @ ArrayIndexString indices) = (nm, indices)"
    by (simp add: ParseResourceName_def)
  let ?d = "decimal (unat i)"
  have op: "find_last (\<lambda>c. c = CHR ''['') (pre @ ArrayString i) = Some (length pre)"
    using find_last_append [of "?d @ '']''" "\<lambda>c. c = CHR ''[''" "CHR ''[''" pre] decimal_no_bracket(1) [of "unat i"]
    by (simp add: ArrayString_def)
  have dr: "drop (length pre + 1) (pre @ ArrayString i) = ?d @ '']''"
    by (simp add: ArrayString_def)
  have lt: "unat i < 2 ^ 32" by (rule order_less_le_trans [OF unsigned_less]) simp
  have "digits_prefix (?d @ '']'') \<noteq> []"
    using digits_prefix_decimal [of "unat i" "[]"] decimal_nonempty by simp
  moreover have "list_all is_digit ?d" using decimal_digits by (simp add: list_all_iff)
  moreover have "unat i \<le> 0xFFFFFFFF" "unat i \<noteq> ULONG_MAX" using lt by (simp_all add: ULONG_MAX_def)
  ultimately have 2: "ParseArrayIndex einval (pre @ ArrayString i) = (i, length pre)"
    unfolding ParseArrayIndex_def op
    using c_strtoul_decimal [OF lt, of "[]"] dr by (simp add: Let_def ArrayString_def butlast_append)
  have 3: "StripLastArrayIndex (pre @ ArrayString i) = pre"
    unfolding StripLastArrayIndex_def op by (simp add: ArrayString_def)
  from 1 2 3 show ?thesis by blast
qed

theorem resource_name_roundtrip_witness:
  "ParseResourceName (''v'' @ ArrayIndexString [2, 5]) = (''v'', [2, 5])"
  using resource_name_roundtrip [of "[2, 5]" "''v''" False "''v''" 0] by simp

end
