(* ===== verification/Varying_Packing.thy ===== *)
theory Varying_Packing
  imports Resource_Names "HOL-Library.Multiset"
begin

text \<open>
  \<open>gl::VaryingPacking\<close> (src/src/libANGLE/VaryingPacking.{h,cpp}): the assignment of the varyings of a
  program to registers of four components at link time, and \<open>gl::CompareShaderVar\<close>
  (src/src/libANGLE/Shader.cpp), the order in which they are packed.

  The register map is a list of rows of four flags. Register rows are 32-bit words as in the code; a
  read or write outside the map is \<^term>\<open>None\<close>. A \<open>PackedVarying\<close> is referred to by value.

  The lemmas show that a varying that is not an array element only ever occupies registers that were
  free, which keeps varyings apart; and, with concrete programs, three places where the packing does
  not do what it means to.
\<close>

section \<open>State\<close>

record packed_varying =
  pv_varying :: shader_variable
  pv_vertexOnly :: bool
  pv_interpolation :: interpolation_type
  pv_parentStructName :: string
  pv_arrayIndex :: u32
  pv_fieldIndex :: u32

definition PackedVarying :: "shader_variable \<Rightarrow> interpolation_type \<Rightarrow> string \<Rightarrow> u32 \<Rightarrow> packed_varying" where
  "PackedVarying varyingIn interpolationIn parentStructNameIn fieldIndexIn =
     \<lparr>pv_varying = varyingIn, pv_vertexOnly = False, pv_interpolation = interpolationIn,
      pv_parentStructName = parentStructNameIn, pv_arrayIndex = GL_INVALID_INDEX,
      pv_fieldIndex = fieldIndexIn\<rparr>"

definition isStructField :: "packed_varying \<Rightarrow> bool" where
  "isStructField pv \<longleftrightarrow> pv_parentStructName pv \<noteq> []"

definition isArrayElement :: "packed_varying \<Rightarrow> bool" where
  "isArrayElement pv \<longleftrightarrow> pv_arrayIndex pv \<noteq> GL_INVALID_INDEX"

definition pv_fullName :: "packed_varying \<Rightarrow> string" where
  "pv_fullName pv =
     (if isStructField pv then pv_parentStructName pv @ ''.'' else []) @
     sv_name (sv_info (pv_varying pv)) @
     (if pv_arrayIndex pv \<noteq> GL_INVALID_INDEX then ''['' @ decimal (unat (pv_arrayIndex pv)) @ '']'' else [])"

record packed_varying_register =
  pr_packedVarying :: packed_varying
  pr_varyingArrayIndex :: u32
  pr_varyingRowIndex :: u32
  pr_registerRow :: u32
  pr_registerColumn :: u32

definition pr_sortOrder :: "packed_varying_register \<Rightarrow> u32" where
  "pr_sortOrder r = pr_registerRow r * 4 + pr_registerColumn r"

definition tfVaryingName :: "packed_varying_register \<Rightarrow> string" where
  "tfVaryingName r =
     (if isArrayElement (pr_packedVarying r) \<or> isStructField (pr_packedVarying r)
      then pv_fullName (pr_packedVarying r)
      else sv_name (sv_info (pv_varying (pr_packedVarying r))))"

datatype pack_mode = WEBGL_STRICT | ANGLE_RELAXED | ANGLE_NON_CONFORMANT_D3D9

record varying_packing =
  mRegisterMap :: "bool list list"
  mRegisterList :: "packed_varying_register list"
  mPackedVaryings :: "packed_varying list"
  mInactiveVaryingNames :: "string list"
  mPackMode :: pack_mode

definition VaryingPacking :: "u32 \<Rightarrow> pack_mode \<Rightarrow> varying_packing" where
  "VaryingPacking maxVaryingVectors packMode =
     \<lparr>mRegisterMap = replicate (unat maxVaryingVectors) (replicate 4 False), mRegisterList = [],
      mPackedVaryings = [], mInactiveVaryingNames = [], mPackMode = packMode\<rparr>"

section \<open>Order\<close>

definition CompareShaderVar :: "shader_variable \<Rightarrow> shader_variable \<Rightarrow> bool" where
  "CompareShaderVar x y =
     (let tx = sv_type (sv_info x); ty = sv_type (sv_info y)
      in if tx = ty then getArraySizeProduct x > getArraySizeProduct y
         else if tx = GL_NONE then False
         else if ty = GL_NONE then True
         else VariableSortOrder tx < VariableSortOrder ty)"

definition clear_arrays :: "shader_variable \<Rightarrow> shader_variable" where
  "clear_arrays v = ShaderVariable (sv_info v\<lparr>sv_arraySizes := []\<rparr>) (sv_fields v)"

definition ComparePackedVarying :: "packed_varying \<Rightarrow> packed_varying \<Rightarrow> bool" where
  "ComparePackedVarying x y =
     (let px = (if isArrayElement x then clear_arrays (pv_varying x) else pv_varying x);
          py = (if isArrayElement y then clear_arrays (pv_varying y) else pv_varying y)
      in CompareShaderVar px py)"

section \<open>Registers\<close>

definition reg :: "bool list list \<Rightarrow> nat \<times> nat \<Rightarrow> bool option" where
  "reg m pos =
     (if fst pos < length m \<and> snd pos < length (m ! fst pos) then Some (m ! fst pos ! snd pos) else None)"

definition set_reg :: "nat \<times> nat \<Rightarrow> bool list list \<Rightarrow> bool list list option" where
  "set_reg pos m =
     (if fst pos < length m \<and> snd pos < length (m ! fst pos)
      then Some (m[fst pos := (m ! fst pos)[snd pos := True]]) else None)"

fun all_free :: "bool list list \<Rightarrow> (nat \<times> nat) list \<Rightarrow> bool option" where
  "all_free m [] = Some True"
| "all_free m (pos # ps) =
     (case reg m pos of None \<Rightarrow> None | Some used \<Rightarrow> if used then Some False else all_free m ps)"

fun set_all :: "(nat \<times> nat) list \<Rightarrow> bool list list \<Rightarrow> bool list list option" where
  "set_all [] m = Some m"
| "set_all (pos # ps) m = Option.bind (set_reg pos m) (set_all ps)"

definition block_cells :: "nat \<Rightarrow> nat \<Rightarrow> nat \<Rightarrow> nat \<Rightarrow> (nat \<times> nat) list" where
  "block_cells r c n w = concat (map (\<lambda>i. map (\<lambda>j. (r + i, c + j)) [0..<w]) [0..<n])"

definition vp_isFree :: "bool list list \<Rightarrow> nat \<Rightarrow> nat \<Rightarrow> nat \<Rightarrow> nat \<Rightarrow> bool option" where
  "vp_isFree m registerRow registerColumn varyingRows varyingColumns =
     all_free m (block_cells registerRow registerColumn varyingRows varyingColumns)"

text \<open>The first of the given rows at which the varying fits: \<^term>\<open>Some None\<close> when there is none.\<close>

fun first_fit :: "bool list list \<Rightarrow> nat list \<Rightarrow> nat \<Rightarrow> nat \<Rightarrow> nat \<Rightarrow> nat option option" where
  "first_fit m [] c n w = Some None"
| "first_fit m (r # rs) c n w =
     (case vp_isFree m r c n w of
        None \<Rightarrow> None
      | Some free \<Rightarrow> if free then Some (Some r) else first_fit m rs c n w)"

abbreviation transposed_rows :: "shader_variable \<Rightarrow> u32" where
  "transposed_rows v \<equiv> of_int (VariableRowCount (TransposeMatrixType (sv_type (sv_info v))))"

abbreviation transposed_columns :: "shader_variable \<Rightarrow> u32" where
  "transposed_columns v \<equiv> of_int (VariableColumnCount (TransposeMatrixType (sv_type (sv_info v))))"

text \<open>
  One register of \<open>insert\<close>: it is recorded unless the varying is built in, and its columns are marked.
\<close>

definition insert_row ::
  "u32 \<Rightarrow> u32 \<Rightarrow> packed_varying \<Rightarrow> u32 \<times> u32 \<Rightarrow> varying_packing \<Rightarrow> varying_packing option" where
  "insert_row registerRow registerColumn pv er s =
     (let v = pv_varying pv;
          info = \<lparr>pr_packedVarying = pv, pr_varyingArrayIndex = fst er, pr_varyingRowIndex = snd er,
                  pr_registerRow = registerRow + fst er * transposed_rows v + snd er,
                  pr_registerColumn = registerColumn\<rparr>
      in map_option
           (\<lambda>m. s\<lparr>mRegisterMap := m,
                  mRegisterList := mRegisterList s @ (if isBuiltIn v then [] else [info])\<rparr>)
           (set_all (map (\<lambda>k. (unat (pr_registerRow info), unat registerColumn + k))
                       [0..<unat (transposed_columns v)])
              (mRegisterMap s)))"

fun insert_rows ::
  "u32 \<Rightarrow> u32 \<Rightarrow> packed_varying \<Rightarrow> (u32 \<times> u32) list \<Rightarrow> varying_packing \<Rightarrow> varying_packing option" where
  "insert_rows registerRow registerColumn pv [] s = Some s"
| "insert_rows registerRow registerColumn pv (er # ers) s =
     Option.bind (insert_row registerRow registerColumn pv er s) (insert_rows registerRow registerColumn pv ers)"

definition vp_insert :: "u32 \<Rightarrow> u32 \<Rightarrow> packed_varying \<Rightarrow> varying_packing \<Rightarrow> varying_packing option" where
  "vp_insert registerRow registerColumn pv s =
     insert_rows registerRow registerColumn pv
       (concat (map (\<lambda>arrayElement.
            if isArrayElement pv \<and> of_nat arrayElement \<noteq> pv_arrayIndex pv then []
            else map (\<lambda>varyingRow. (of_nat arrayElement, of_nat varyingRow))
                   [0..<unat (transposed_rows (pv_varying pv))])
          [0..<unat (getBasicTypeElementCount (pv_varying pv))]))
       s"

text \<open>
  The statistics of one column: the free rows at its end, the longest run of free rows, and all free
  rows. The code advances the four columns together.
\<close>

definition column_stats :: "bool list list \<Rightarrow> nat \<Rightarrow> nat \<times> nat \<times> nat" where
  "column_stats m column =
     foldl (\<lambda>(contiguous, best, total) row.
         if row ! column then (0, best, total)
         else (contiguous + 1, max best (contiguous + 1), total + 1))
       (0, 0, 0) m"

definition bestContiguousSpace :: "bool list list \<Rightarrow> nat \<Rightarrow> nat" where
  "bestContiguousSpace m column = fst (snd (column_stats m column))"

definition totalSpace :: "bool list list \<Rightarrow> nat \<Rightarrow> nat" where
  "totalSpace m column = snd (snd (column_stats m column))"

definition pick_column :: "bool list list \<Rightarrow> nat \<Rightarrow> nat" where
  "pick_column m varyingRows =
     foldl (\<lambda>bestColumn column.
         if bestContiguousSpace m column \<ge> varyingRows \<and>
            (bestContiguousSpace m bestColumn < varyingRows \<or> totalSpace m column < totalSpace m bestColumn)
         then column else bestColumn)
       0 [1..<4]"

definition insert_column :: "nat \<Rightarrow> nat \<Rightarrow> nat \<Rightarrow> packed_varying \<Rightarrow> varying_packing \<Rightarrow> varying_packing option" where
  "insert_column row column n pv s =
     map_option
       (\<lambda>m. s\<lparr>mRegisterMap := m,
              mRegisterList := mRegisterList s @
                (if isBuiltIn (pv_varying pv) then []
                 else map (\<lambda>k. \<lparr>pr_packedVarying = pv,
                               pr_varyingArrayIndex = (if isArrayElement pv then pv_arrayIndex pv else of_nat k),
                               pr_varyingRowIndex = 0,
                               pr_registerRow = of_nat row + of_nat k,
                               pr_registerColumn = of_nat column\<rparr>) [0..<n])\<rparr>)
       (set_all (map (\<lambda>k. (row + k, column)) [0..<n]) (mRegisterMap s))"

definition packVarying :: "packed_varying \<Rightarrow> varying_packing \<Rightarrow> (bool \<times> varying_packing) option" where
  "packVarying pv s =
     (let varying = pv_varying pv;
          varyingColumns =
            (if mPackMode s = ANGLE_NON_CONFORMANT_D3D9 then 4
             else if mPackMode s = WEBGL_STRICT \<and> sv_type (sv_info varying) = GL_FLOAT_MAT2 then 4
             else unat (transposed_columns varying));
          elementCount = getBasicTypeElementCount varying;
          varyingRows = unat (transposed_rows varying * (if isArrayElement pv then 1 else elementCount));
          m = mRegisterMap s;
          maxVaryingVectors = length m
      in if varyingRows > maxVaryingVectors then Some (False, s)
         else if 2 \<le> varyingColumns \<and> varyingColumns \<le> 4
         then
           (case first_fit m [0..<maxVaryingVectors - varyingRows + 1] 0 varyingRows varyingColumns of
              None \<Rightarrow> None
            | Some (Some row) \<Rightarrow> map_option (\<lambda>s. (True, s)) (vp_insert (of_nat row) 0 pv s)
            | Some None \<Rightarrow>
                if varyingColumns = 2
                then
                  (case first_fit m (rev [0..<maxVaryingVectors - varyingRows + 1]) 2 varyingRows 2 of
                     None \<Rightarrow> None
                   | Some (Some r) \<Rightarrow> map_option (\<lambda>s. (True, s)) (vp_insert (of_nat r) 2 pv s)
                   | Some None \<Rightarrow> Some (False, s))
                else Some (False, s))
         else
           let bestColumn = pick_column m varyingRows
           in if bestContiguousSpace m bestColumn \<ge> varyingRows
              then
                (case first_fit m [0..<maxVaryingVectors] bestColumn varyingRows 1 of
                   None \<Rightarrow> None
                 | Some (Some row) \<Rightarrow>
                     map_option (\<lambda>s. (True, s)) (insert_column row bestColumn varyingRows pv s)
                 | Some None \<Rightarrow> Some (True, s))
              else Some (False, s))"

fun pack_all :: "packed_varying list \<Rightarrow> varying_packing \<Rightarrow> (bool \<times> varying_packing) option" where
  "pack_all [] s = Some (True, s)"
| "pack_all (pv # pvs) s =
     (case packVarying pv s of
        None \<Rightarrow> None
      | Some (ok, s) \<Rightarrow> if \<not> ok then Some (False, s) else pack_all pvs s)"

text \<open>The messages to the info log are left out.\<close>

definition packUserVaryings :: "packed_varying list \<Rightarrow> varying_packing \<Rightarrow> (bool \<times> varying_packing) option" where
  "packUserVaryings packedVaryings s =
     (case pack_all packedVaryings s of
        None \<Rightarrow> None
      | Some (ok, s) \<Rightarrow>
          if \<not> ok then Some (False, s)
          else Some (True, s\<lparr>mRegisterList := sort_key pr_sortOrder (mRegisterList s)\<rparr>))"

section \<open>Collecting the varyings of a program\<close>

record varying_ref =
  frontShader :: "shader_variable option"
  backShader :: "shader_variable option"

text \<open>
  The loop state: the packed varyings, the unique full names, the inactive names. The merged varyings
  are the entries of a \<open>std::map\<close>, in the order of their names.
\<close>

type_synonym collected = "packed_varying list \<times> string set \<times> string list"

definition used_varying :: "varying_ref \<Rightarrow> bool" where
  "used_varying ref \<longleftrightarrow>
     (case (frontShader ref, backShader ref) of
        (Some input, Some output) \<Rightarrow>
          sv_staticUse (sv_info output) \<or>
          isBuiltIn input \<and> sv_active (sv_info input) \<or> isBuiltIn output \<and> sv_active (sv_info output)
      | (Some input, None) \<Rightarrow> isBuiltIn input \<and> sv_active (sv_info input)
      | (None, Some output) \<Rightarrow> isBuiltIn output \<and> sv_active (sv_info output)
      | (None, None) \<Rightarrow> False)"

definition varying_of :: "varying_ref \<Rightarrow> shader_variable option" where
  "varying_of ref = (case backShader ref of Some output \<Rightarrow> Some output | None \<Rightarrow> frontShader ref)"

definition ref_get :: "varying_ref \<Rightarrow> shader_variable option" where
  "ref_get ref = (case frontShader ref of Some input \<Rightarrow> Some input | None \<Rightarrow> backShader ref)"

definition add_packed :: "packed_varying \<Rightarrow> string \<Rightarrow> collected \<Rightarrow> collected" where
  "add_packed pv nm c = (case c of (packed, names, inactive) \<Rightarrow> (packed @ [pv], insert nm names, inactive))"

definition collect_used :: "shader_variable \<Rightarrow> interpolation_type \<Rightarrow> collected \<Rightarrow> collected" where
  "collect_used varying interpolation c =
     (if isStruct varying
      then foldl (\<lambda>c k.
             let pv = PackedVarying (sv_fields varying ! k) interpolation (sv_name (sv_info varying)) (of_nat k)
             in add_packed pv (pv_fullName pv) c)
           c [0..<length (sv_fields varying)]
      else
        let pv = PackedVarying varying interpolation [] 0
        in add_packed pv (pv_fullName pv) c)"

fun collect_tf :: "shader_variable \<Rightarrow> string list \<Rightarrow> collected \<Rightarrow> collected" where
  "collect_tf input [] c = c"
| "collect_tf input (tfVarying # tfs) c =
     (let (baseName, subscripts) = ParseResourceName tfVarying;
          subscript = (if subscripts \<noteq> [] then last subscripts else GL_INVALID_INDEX);
          names = fst (snd c)
      in if tfVarying \<in> names \<or> baseName \<in> names then collect_tf input tfs c
         else if isStruct input
         then
           (case FindShaderVarField input tfVarying of
              None \<Rightarrow> collect_tf input tfs c
            | Some (field, fieldIndex) \<Rightarrow>
                collect_tf input tfs
                  (add_packed
                    (PackedVarying field (sv_interpolation (sv_info input)) (sv_name (sv_info input))
                       (of_nat fieldIndex)
                     \<lparr>pv_vertexOnly := True, pv_arrayIndex := GL_INVALID_INDEX\<rparr>)
                    tfVarying c))
         else if baseName = sv_name (sv_info input)
         then
           (let c' = (if take 3 tfVarying \<noteq> ''gl_''
                      then add_packed
                             (PackedVarying input (sv_interpolation (sv_info input)) [] 0
                              \<lparr>pv_vertexOnly := True, pv_arrayIndex := subscript\<rparr>)
                             tfVarying c
                      else c)
            in if subscript = GL_INVALID_INDEX then c' else collect_tf input tfs c')
         else collect_tf input tfs c)"

definition collect_ref :: "pack_mode \<Rightarrow> string list \<Rightarrow> string \<times> varying_ref \<Rightarrow> collected \<Rightarrow> collected" where
  "collect_ref mode tfVaryings ref c =
     (let name_ok = (\<lambda>v. sv_name (sv_info v) \<noteq> ''gl_Position'' \<and>
            \<not> (sv_name (sv_info v) = ''gl_PointSize'' \<and> mode = ANGLE_NON_CONFORMANT_D3D9))
      in case (varying_of (snd ref), ref_get (snd ref)) of
           (Some varying, Some v) \<Rightarrow>
             (if used_varying (snd ref) \<and> name_ok varying
              then collect_used varying (sv_interpolation (sv_info v)) c
              else
                case frontShader (snd ref) of
                  None \<Rightarrow> (fst c, fst (snd c), snd (snd c) @ [fst ref])
                | Some input \<Rightarrow>
                    (let c = collect_tf input tfVaryings c
                     in if fst ref \<notin> fst (snd c) then (fst c, fst (snd c), snd (snd c) @ [fst ref]) else c))
         | _ \<Rightarrow> (fst c, fst (snd c), snd (snd c) @ [fst ref]))"

text \<open>
  \<open>std_sort\<close> is \<open>std::sort\<close> with \<open>ComparePackedVarying\<close>. Its result is a permutation; nothing more
  can be said, since the comparer is not the strict weak order that \<open>std::sort\<close> demands
  (\<open>CompareShaderVar_not_weak_order\<close>).
\<close>

definition collectAndPackUserVaryings ::
  "(packed_varying list \<Rightarrow> packed_varying list) \<Rightarrow> (string \<times> varying_ref) list \<Rightarrow> string list \<Rightarrow>
   varying_packing \<Rightarrow> (bool \<times> varying_packing) option" where
  "collectAndPackUserVaryings std_sort mergedVaryings tfVaryings s =
     (let (packed, _, inactive) =
            foldl (\<lambda>c ref. collect_ref (mPackMode s) tfVaryings ref c)
              ([], {}, mInactiveVaryingNames s) mergedVaryings;
          packed = std_sort packed
      in packUserVaryings packed (s\<lparr>mPackedVaryings := packed, mInactiveVaryingNames := inactive\<rparr>))"

section \<open>Free registers\<close>

definition map_shape :: "bool list list \<Rightarrow> bool" where
  "map_shape m \<longleftrightarrow> (\<forall>row \<in> set m. length row = 4)"

definition taken :: "bool list list \<Rightarrow> (nat \<times> nat) set" where
  "taken m = {(r, c). r < length m \<and> c < 4 \<and> m ! r ! c}"

lemma reg_ok: "map_shape m \<Longrightarrow> fst pos < length m \<Longrightarrow> snd pos < 4 \<Longrightarrow> reg m pos = Some (pos \<in> taken m)"
  by (cases pos) (simp add: reg_def taken_def map_shape_def)

lemma all_free_ok:
  assumes "map_shape m" "\<forall>pos \<in> set ps. fst pos < length m \<and> snd pos < 4"
  shows "all_free m ps = Some (set ps \<inter> taken m = {})"
  using assms(2)
proof (induction ps)
  case (Cons pos ps)
  then show ?case using reg_ok [OF assms(1), of pos] by (cases "pos \<in> taken m") auto
qed simp

lemma set_reg_ok:
  assumes "map_shape m" "fst pos < length m" "snd pos < 4"
  shows "\<exists>m'. set_reg pos m = Some m' \<and> map_shape m' \<and> length m' = length m \<and> taken m' = insert pos (taken m)"
proof -
  have len: "length (m ! fst pos) = 4" using assms by (simp add: map_shape_def)
  let ?m = "m[fst pos := (m ! fst pos)[snd pos := True]]"
  have "map_shape ?m"
    using assms(1) len unfolding map_shape_def by (auto dest!: set_update_subset_insert [THEN subsetD])
  moreover have "taken ?m = insert pos (taken m)"
    using assms len by (cases pos) (auto simp: taken_def nth_list_update split: if_splits)
  ultimately show ?thesis using assms len by (simp add: set_reg_def)
qed

lemma set_all_ok:
  assumes "map_shape m" "\<forall>pos \<in> set ps. fst pos < length m \<and> snd pos < 4"
  shows "\<exists>m'. set_all ps m = Some m' \<and> map_shape m' \<and> length m' = length m \<and> taken m' = set ps \<union> taken m"
  using assms
proof (induction ps arbitrary: m)
  case (Cons pos ps)
  from set_reg_ok [OF Cons.prems(1), of pos] Cons.prems(2) obtain m1 where m1:
    "set_reg pos m = Some m1" "map_shape m1" "length m1 = length m" "taken m1 = insert pos (taken m)" by auto
  from Cons.IH [OF m1(2)] Cons.prems(2) m1(3) obtain m' where
    "set_all ps m1 = Some m'" "map_shape m'" "length m' = length m1" "taken m' = set ps \<union> taken m1" by auto
  with m1 show ?case by auto
qed simp

definition block :: "nat \<Rightarrow> nat \<Rightarrow> nat \<Rightarrow> nat \<Rightarrow> (nat \<times> nat) set" where
  "block r c n w = {(i, j). r \<le> i \<and> i < r + n \<and> c \<le> j \<and> j < c + w}"

lemma set_block_cells: "set (block_cells r c n w) = block r c n w"
proof -
  have "(i, j) \<in> set (block_cells r c n w) \<longleftrightarrow> (\<exists>a < n. \<exists>b < w. i = r + a \<and> j = c + b)" for i j
    by (auto simp: block_cells_def image_iff Bex_def)
  moreover have "(\<exists>a < n. \<exists>b < w. i = r + a \<and> j = c + b) \<longleftrightarrow> (i, j) \<in> block r c n w" for i j
  proof
    assume "(i, j) \<in> block r c n w"
    then have "i - r < n" "j - c < w" "i = r + (i - r)" "j = c + (j - c)" by (auto simp: block_def)
    then show "\<exists>a < n. \<exists>b < w. i = r + a \<and> j = c + b" by blast
  qed (auto simp: block_def)
  ultimately show ?thesis by auto
qed

lemma vp_isFree_ok:
  assumes "map_shape m" "r + n \<le> length m" "c + w \<le> 4"
  shows "vp_isFree m r c n w = Some (block r c n w \<inter> taken m = {})"
  unfolding vp_isFree_def using all_free_ok [OF assms(1), of "block_cells r c n w"] assms(2,3)
  by (auto simp: set_block_cells) (auto simp: block_def)

lemma first_fit_ok:
  assumes "map_shape m" "\<forall>r \<in> set rs. r + n \<le> length m" "c + w \<le> 4"
  shows "first_fit m rs c n w = Some None \<and> (\<forall>r \<in> set rs. block r c n w \<inter> taken m \<noteq> {}) \<or>
    (\<exists>r \<in> set rs. first_fit m rs c n w = Some (Some r) \<and> block r c n w \<inter> taken m = {})"
  using assms(2)
proof (induction rs)
  case (Cons r rs)
  then show ?case using vp_isFree_ok [OF assms(1) _ assms(3), of r n] by auto
qed simp

lemma first_fit_append:
  "first_fit m xs c n w = Some (Some r) \<Longrightarrow> first_fit m (xs @ ys) c n w = Some (Some r)"
  by (induction xs) (auto split: option.splits if_splits)

lemma first_fit_column:
  assumes "map_shape m" "c < 4" "r0 + n \<le> length m" "block r0 c n 1 \<inter> taken m = {}" "0 < n"
  shows "\<exists>r. first_fit m [0..<length m] c n 1 = Some (Some r) \<and> r + n \<le> length m \<and> block r c n 1 \<inter> taken m = {}"
proof -
  let ?xs = "[0..<r0 + 1]"
  have "\<forall>r \<in> set ?xs. r + n \<le> length m" using assms(3) by auto
  from first_fit_ok [OF assms(1) this, of c 1] assms(2,4) obtain r where
    r: "r \<in> set ?xs" "first_fit m ?xs c n 1 = Some (Some r)" "block r c n 1 \<inter> taken m = {}" by auto
  have "[0..<length m] = ?xs @ [r0 + 1..<length m]"
    using assms(3,5) by (metis add_lessD1 le_add1 le_iff_add less_eq_Suc_le add.commute nat_le_linear not_less plus_1_eq_Suc upt_add_eq_append zero_le add_le_cancel_left order.strict_trans2)
  with r first_fit_append [OF r(2), of "[r0 + 1..<length m]"] assms(3) show ?thesis by auto
qed

lemma column_stats_ok:
  assumes "map_shape m" "c < 4" "column_stats m c = (cont, best, tot)"
  shows "cont \<le> length m \<and> block (length m - cont) c cont 1 \<inter> taken m = {} \<and>
    (\<exists>r. r + best \<le> length m \<and> block r c best 1 \<inter> taken m = {})"
  using assms(1,3)
proof (induction m arbitrary: cont best tot rule: rev_induct)
  case Nil
  then show ?case by (simp add: column_stats_def taken_def)
next
  case (snoc row m)
  obtain cont0 best0 tot0 where st: "column_stats m c = (cont0, best0, tot0)" by (metis prod_cases3)
  have shape: "map_shape m" using snoc.prems(1) by (simp add: map_shape_def)
  note IH = snoc.IH [OF shape st]
  have old: "(i, j) \<in> taken (m @ [row]) \<longleftrightarrow> (i, j) \<in> taken m" if "i < length m" for i j
    using that by (simp add: taken_def nth_append)
  have new: "(length m, j) \<in> taken (m @ [row]) \<longleftrightarrow> j < 4 \<and> row ! j" for j
    by (simp add: taken_def)
  obtain r where r: "r + best0 \<le> length m" "block r c best0 1 \<inter> taken m = {}" using IH by blast
  have run: "block r c best0 1 \<inter> taken (m @ [row]) = {}"
  proof (rule equals0I)
    fix x assume x: "x \<in> block r c best0 1 \<inter> taken (m @ [row])"
    obtain i j where ij: "x = (i, j)" by (cases x)
    with x r(1) have "i < length m" by (simp add: block_def)
    with x ij old have "x \<in> block r c best0 1 \<inter> taken m" by blast
    with r(2) show False by blast
  qed
  show ?case
  proof (cases "row ! c")
    case True
    with snoc.prems(2) st have "cont = 0" "best = best0" by (simp_all add: column_stats_def)
    moreover have "\<exists>r. r + best0 \<le> length (m @ [row]) \<and> block r c best0 1 \<inter> taken (m @ [row]) = {}"
      using r run by (intro exI [of _ r]) simp
    moreover have "block i c 0 1 = {}" for i by (auto simp: block_def)
    ultimately show ?thesis by simp
  next
    case False
    with snoc.prems(2) st have eq: "cont = cont0 + 1" "best = max best0 (cont0 + 1)"
      by (auto simp: column_stats_def)
    have "(i, j) \<notin> taken (m @ [row])" if "(i, j) \<in> block (length m - cont0) c (cont0 + 1) 1" for i j
    proof (cases "i < length m")
      case True
      with that have "(i, j) \<in> block (length m - cont0) c cont0 1" using IH by (auto simp: block_def)
      with IH True old show ?thesis by blast
    next
      case notless: False
      with that IH have "i = length m" "j = c" by (auto simp: block_def)
      with False new show ?thesis by simp
    qed
    then have tail: "block (length (m @ [row]) - cont) c cont 1 \<inter> taken (m @ [row]) = {}"
      unfolding eq by auto
    have "\<exists>r. r + best \<le> length (m @ [row]) \<and> block r c best 1 \<inter> taken (m @ [row]) = {}"
    proof (cases "best0 \<le> cont0 + 1")
      case True
      then show ?thesis using tail IH unfolding eq
        by (intro exI [of _ "length (m @ [row]) - (cont0 + 1)"]) (simp add: max_def)
    next
      case less: False
      then show ?thesis using r run unfolding eq by (intro exI [of _ r]) (simp add: max_def)
    qed
    with tail IH show ?thesis unfolding eq by simp
  qed
qed

lemma best_run:
  assumes "map_shape m" "c < 4" "n \<le> bestContiguousSpace m c"
  shows "\<exists>r. r + n \<le> length m \<and> block r c n 1 \<inter> taken m = {}"
proof -
  obtain cont best tot where st: "column_stats m c = (cont, best, tot)" by (metis prod_cases3)
  from column_stats_ok [OF assms(1,2) st] obtain r where "r + best \<le> length m" "block r c best 1 \<inter> taken m = {}"
    by blast
  moreover have "n \<le> best" using assms(3) by (simp add: bestContiguousSpace_def st)
  ultimately show ?thesis by (intro exI [of _ r]) (auto simp: block_def)
qed

lemma pick_column_range: "pick_column m n < 4"
  by (simp add: pick_column_def upt_rec)

section \<open>Inserting a varying\<close>

definition packing_ok :: "varying_packing \<Rightarrow> bool" where
  "packing_ok s \<longleftrightarrow> map_shape (mRegisterMap s) \<and> length (mRegisterMap s) < 2 ^ 32"

lemma insert_rows_ok:
  assumes "map_shape (mRegisterMap s)" "unat col + unat (transposed_columns (pv_varying pv)) \<le> 4"
    and "\<forall>er \<in> set ers. unat (row + fst er * transposed_rows (pv_varying pv) + snd er) < length (mRegisterMap s)"
  shows "\<exists>s' regs. insert_rows row col pv ers s = Some s' \<and> map_shape (mRegisterMap s') \<and>
    length (mRegisterMap s') = length (mRegisterMap s) \<and> mPackMode s' = mPackMode s \<and>
    taken (mRegisterMap s') = (\<Union>er \<in> set ers.
        block (unat (row + fst er * transposed_rows (pv_varying pv) + snd er)) (unat col) 1
          (unat (transposed_columns (pv_varying pv)))) \<union> taken (mRegisterMap s) \<and>
    mRegisterList s' = mRegisterList s @ (if isBuiltIn (pv_varying pv) then [] else regs) \<and>
    map pr_registerRow regs = map (\<lambda>er. row + fst er * transposed_rows (pv_varying pv) + snd er) ers \<and>
    (\<forall>r \<in> set regs. pr_registerColumn r = col \<and> pr_packedVarying r = pv)"
  using assms
proof (induction ers arbitrary: s)
  case Nil
  then show ?case by (intro exI [of _ s] exI [of _ "[]"]) simp
next
  case (Cons er ers)
  let ?R = "\<lambda>er. unat (row + fst er * transposed_rows (pv_varying pv) + snd er)"
  let ?w = "unat (transposed_columns (pv_varying pv))"
  let ?cells = "map (\<lambda>k. (?R er, unat col + k)) [0..<?w]"
  have cells: "set ?cells = block (?R er) (unat col) 1 ?w"
  proof -
    have "(i, j) \<in> set ?cells \<longleftrightarrow> (i, j) \<in> block (?R er) (unat col) 1 ?w" for i j
      by (auto simp: block_def image_iff intro!: bexI [of _ "j - unat col"])
    then show ?thesis by auto
  qed
  have "\<forall>pos \<in> set ?cells. fst pos < length (mRegisterMap s) \<and> snd pos < 4"
    using Cons.prems(2,3) by auto
  from set_all_ok [OF Cons.prems(1) this] obtain m where m: "set_all ?cells (mRegisterMap s) = Some m"
    "map_shape m" "length m = length (mRegisterMap s)" "taken m = set ?cells \<union> taken (mRegisterMap s)" by blast
  let ?info = "\<lparr>pr_packedVarying = pv, pr_varyingArrayIndex = fst er, pr_varyingRowIndex = snd er,
                  pr_registerRow = row + fst er * transposed_rows (pv_varying pv) + snd er,
                  pr_registerColumn = col\<rparr>"
  let ?s = "s\<lparr>mRegisterMap := m,
         mRegisterList := mRegisterList s @ (if isBuiltIn (pv_varying pv) then [] else [?info])\<rparr>"
  have step: "insert_row row col pv er s = Some ?s"
    using m(1) by (simp add: insert_row_def)
  have "\<forall>er \<in> set ers. ?R er < length (mRegisterMap ?s)" using Cons.prems(3) m(3) by simp
  from Cons.IH [of ?s, OF _ Cons.prems(2) this] m(2) obtain s' regs where s':
    "insert_rows row col pv ers ?s = Some s'" "map_shape (mRegisterMap s')"
    "length (mRegisterMap s') = length m" "mPackMode s' = mPackMode s"
    "taken (mRegisterMap s') = (\<Union>er \<in> set ers. block (?R er) (unat col) 1 ?w) \<union> taken m"
    "mRegisterList s' = mRegisterList ?s @ (if isBuiltIn (pv_varying pv) then [] else regs)"
    "map pr_registerRow regs = map (\<lambda>er. row + fst er * transposed_rows (pv_varying pv) + snd er) ers"
    "\<forall>r \<in> set regs. pr_registerColumn r = col \<and> pr_packedVarying r = pv" by auto
  show ?case
  proof (intro exI [of _ s'] exI [of _ "?info # regs"] conjI)
    show "insert_rows row col pv (er # ers) s = Some s'" using step s'(1) by simp
    show "taken (mRegisterMap s') = (\<Union>er \<in> set (er # ers). block (?R er) (unat col) 1 ?w) \<union> taken (mRegisterMap s)"
      using s'(5) m(4) unfolding cells by auto
  qed (use s' m(3) in auto)
qed

lemma rows_enum: "concat (map (\<lambda>e. map (\<lambda>v. r + e * k + v) [0..<k]) [0..<n]) = [r..<r + n * (k :: nat)]"
proof (induction n)
  case (Suc n)
  have "map (\<lambda>v. r + n * k + v) [0..<k] = [r + n * k..<r + n * k + k]"
    by (simp add: map_add_upt add.commute)
  moreover have "[r..<r + n * k + k] = [r..<r + n * k] @ [r + n * k..<r + n * k + k]"
    by (rule upt_add_eq_append) simp
  moreover have "r + Suc n * k = r + n * k + k" by simp
  ultimately show ?case using Suc by (simp only: upt_Suc) simp
qed simp

definition whole_array :: "packed_varying \<Rightarrow> bool" where
  "whole_array pv \<longleftrightarrow> \<not> isArrayElement pv"

abbreviation element_rows :: "shader_variable \<Rightarrow> nat" where
  "element_rows v \<equiv> unat (transposed_rows v)"

abbreviation all_rows :: "packed_varying \<Rightarrow> nat" where
  "all_rows pv \<equiv> unat (getBasicTypeElementCount (pv_varying pv)) * element_rows (pv_varying pv)"

abbreviation columns_of :: "packed_varying \<Rightarrow> nat" where
  "columns_of pv \<equiv> unat (transposed_columns (pv_varying pv))"

text \<open>
  \<open>adds pv r c s s'\<close>: the varying has been given the registers of the rows \<open>r, r + 1, ...\<close> at column
  \<open>c\<close>, all of them inside the map and free before, and nothing else has changed.
\<close>

definition adds :: "packed_varying \<Rightarrow> nat \<Rightarrow> nat \<Rightarrow> varying_packing \<Rightarrow> varying_packing \<Rightarrow> bool" where
  "adds pv r c s s' \<longleftrightarrow>
     r + all_rows pv \<le> length (mRegisterMap s) \<and> c + columns_of pv \<le> 4 \<and>
     block r c (all_rows pv) (columns_of pv) \<inter> taken (mRegisterMap s) = {} \<and>
     map_shape (mRegisterMap s') \<and> length (mRegisterMap s') = length (mRegisterMap s) \<and>
     mPackMode s' = mPackMode s \<and>
     taken (mRegisterMap s') = block r c (all_rows pv) (columns_of pv) \<union> taken (mRegisterMap s) \<and>
     (\<exists>regs. mRegisterList s' = mRegisterList s @ (if isBuiltIn (pv_varying pv) then [] else regs) \<and>
        map pr_registerRow regs = map of_nat [r..<r + all_rows pv] \<and>
        (\<forall>x \<in> set regs. pr_registerColumn x = of_nat c \<and> pr_packedVarying x = pv))"

lemma vp_insert_ok:
  assumes "packing_ok s" "whole_array pv" "r + all_rows pv \<le> length (mRegisterMap s)"
    and "c + columns_of pv \<le> 4"
    and free: "block r c (all_rows pv) (columns_of pv) \<inter> taken (mRegisterMap s) = {}"
  shows "\<exists>s'. vp_insert (of_nat r) (of_nat c) pv s = Some s' \<and> adds pv r c s s'"
proof -
  let ?R = "element_rows (pv_varying pv)" and ?E = "unat (getBasicTypeElementCount (pv_varying pv))"
  let ?ers = "concat (map (\<lambda>e. map (\<lambda>v. (of_nat e :: u32, of_nat v :: u32)) [0..<?R]) [0..<?E])"
  let ?row = "\<lambda>er. of_nat r + fst er * transposed_rows (pv_varying pv) + snd er"
  have lt: "r + all_rows pv < 2 ^ 32" using assms(1,3) by (simp add: packing_ok_def)
  have "map ?row ?ers = map of_nat (concat (map (\<lambda>e. map (\<lambda>v. r + e * ?R + v) [0..<?R]) [0..<?E]))"
    by (simp add: map_concat comp_def)
  then have rows: "map ?row ?ers = map of_nat [r..<r + all_rows pv]"
    by (simp only: rows_enum)
  have unat_row: "unat (of_nat i :: u32) = i" if "i < r + all_rows pv" for i
    using that lt by (simp add: unat_of_nat take_bit_nat_eq_self)
  have "unat ` ?row ` set ?ers = unat ` set (map ?row ?ers)" by (simp only: list.set_map image_image)
  also have "\<dots> = {r..<r + all_rows pv}"
    unfolding rows using unat_row by (auto simp: image_iff)
  finally have img: "unat ` ?row ` set ?ers = {r..<r + all_rows pv}" .
  have c: "unat (of_nat c :: u32) = c" using assms(4) by (simp add: unat_of_nat take_bit_nat_eq_self)
  have bounds: "\<forall>er \<in> set ?ers. unat (?row er) < length (mRegisterMap s)"
  proof
    fix er assume "er \<in> set ?ers"
    then have "unat (?row er) \<in> {r..<r + all_rows pv}" using img by blast
    with assms(3) show "unat (?row er) < length (mRegisterMap s)" by simp
  qed
  from insert_rows_ok [of s "of_nat c" pv ?ers "of_nat r"] bounds assms(1,4) c
  obtain s' regs where s': "insert_rows (of_nat r) (of_nat c) pv ?ers s = Some s'" "map_shape (mRegisterMap s')"
    "length (mRegisterMap s') = length (mRegisterMap s)" "mPackMode s' = mPackMode s"
    "taken (mRegisterMap s') = (\<Union>er \<in> set ?ers. block (unat (?row er)) c 1 (columns_of pv)) \<union> taken (mRegisterMap s)"
    "mRegisterList s' = mRegisterList s @ (if isBuiltIn (pv_varying pv) then [] else regs)"
    "map pr_registerRow regs = map ?row ?ers"
    "\<forall>x \<in> set regs. pr_registerColumn x = of_nat c \<and> pr_packedVarying x = pv"
    by (auto simp: packing_ok_def)
  have "(\<Union>er \<in> set ?ers. block (unat (?row er)) c 1 (columns_of pv))
      = (\<Union>i \<in> unat ` ?row ` set ?ers. block i c 1 (columns_of pv))" by simp
  also have "\<dots> = block r c (all_rows pv) (columns_of pv)"
    unfolding img by (auto simp: block_def)
  finally have "(\<Union>er \<in> set ?ers. block (unat (?row er)) c 1 (columns_of pv)) = block r c (all_rows pv) (columns_of pv)" .
  with s' rows assms(3,4) free have "adds pv r c s s'" unfolding adds_def by auto
  moreover have "vp_insert (of_nat r) (of_nat c) pv s = Some s'"
    using s'(1) assms(2) by (simp add: vp_insert_def whole_array_def)
  ultimately show ?thesis by blast
qed

lemma insert_column_ok:
  assumes "packing_ok s" "whole_array pv" "columns_of pv = 1" "r + all_rows pv \<le> length (mRegisterMap s)" "c < 4"
    and free: "block r c (all_rows pv) 1 \<inter> taken (mRegisterMap s) = {}"
  shows "\<exists>s'. insert_column r c (all_rows pv) pv s = Some s' \<and> adds pv r c s s'"
proof -
  let ?cells = "map (\<lambda>k. (r + k, c)) [0..<all_rows pv]"
  have cells: "set ?cells = block r c (all_rows pv) 1"
  proof -
    have "(i, j) \<in> set ?cells \<longleftrightarrow> (i, j) \<in> block r c (all_rows pv) 1" for i j
      by (auto simp: block_def image_iff intro!: bexI [of _ "i - r"])
    then show ?thesis by auto
  qed
  have "\<forall>pos \<in> set ?cells. fst pos < length (mRegisterMap s) \<and> snd pos < 4"
    using assms(4,5) by auto
  from set_all_ok [OF _ this] assms(1) obtain m where m: "set_all ?cells (mRegisterMap s) = Some m"
    "map_shape m" "length m = length (mRegisterMap s)" "taken m = set ?cells \<union> taken (mRegisterMap s)"
    by (auto simp: packing_ok_def)
  let ?regs = "map (\<lambda>k. \<lparr>pr_packedVarying = pv,
      pr_varyingArrayIndex = (if isArrayElement pv then pv_arrayIndex pv else of_nat k),
      pr_varyingRowIndex = 0, pr_registerRow = of_nat r + of_nat k, pr_registerColumn = of_nat c\<rparr>)
      [0..<all_rows pv]"
  have "[r..<r + all_rows pv] = map (\<lambda>k. r + k) [0..<all_rows pv]"
    by (simp add: map_add_upt add.commute)
  then have "map pr_registerRow ?regs = map of_nat [r..<r + all_rows pv]"
    by (simp add: comp_def)
  then have "adds pv r c s (s\<lparr>mRegisterMap := m,
      mRegisterList := mRegisterList s @ (if isBuiltIn (pv_varying pv) then [] else ?regs)\<rparr>)"
    unfolding adds_def using assms(3-5) m free cells by (auto intro!: exI [of _ ?regs])
  then show ?thesis unfolding insert_column_def m(1) option.map by blast
qed

lemma block_mono: "w \<le> w' \<Longrightarrow> block r c n w \<subseteq> block r c n w'"
  by (auto simp: block_def)

definition packable :: "packed_varying \<Rightarrow> bool" where
  "packable pv \<longleftrightarrow> whole_array pv \<and>
     sv_type (sv_info (pv_varying pv)) \<noteq> GL_NONE \<and> sv_type (sv_info (pv_varying pv)) \<noteq> GL_unlisted \<and>
     0 < getBasicTypeElementCount (pv_varying pv) \<and> all_rows pv < 2 ^ 32"

lemma packable_shape:
  assumes "packable pv"
  shows "0 < all_rows pv" "1 \<le> columns_of pv" "columns_of pv \<le> 4"
    "unat (transposed_rows (pv_varying pv) * getBasicTypeElementCount (pv_varying pv)) = all_rows pv"
proof -
  let ?t = "TransposeMatrixType (sv_type (sv_info (pv_varying pv)))"
  have t: "?t \<noteq> GL_NONE" "?t \<noteq> GL_unlisted"
    using transpose_known assms by (auto simp: packable_def)
  have "element_rows (pv_varying pv) \<in> {1, 2, 3, 4}" using type_shape(1) [OF t] by auto
  moreover have "0 < unat (getBasicTypeElementCount (pv_varying pv))"
    using assms by (simp add: packable_def word_greater_zero_iff unat_gt_0)
  ultimately show "0 < all_rows pv" by auto
  have "columns_of pv \<in> {1, 2, 3, 4}" using type_shape(2) [OF t] by auto
  then show "1 \<le> columns_of pv" "columns_of pv \<le> 4" by auto
  show "unat (transposed_rows (pv_varying pv) * getBasicTypeElementCount (pv_varying pv)) = all_rows pv"
    using assms by (simp add: packable_def unat_word_ariths mult.commute)
qed

lemma packVarying_ok:
  assumes s: "packing_ok s" and pv: "packable pv"
  shows "\<exists>ok s'. packVarying pv s = Some (ok, s') \<and> (if ok then \<exists>r c. adds pv r c s s' else s' = s)"
proof -
  let ?m = "mRegisterMap s" and ?n = "all_rows pv"
  define W where "W = (if mPackMode s = ANGLE_NON_CONFORMANT_D3D9 then 4
             else if mPackMode s = WEBGL_STRICT \<and> sv_type (sv_info (pv_varying pv)) = GL_FLOAT_MAT2 then 4
             else columns_of pv)"
  note shape = packable_shape [OF pv]
  have W: "columns_of pv \<le> W" "W \<le> 4" "1 \<le> W" "W \<noteq> columns_of pv \<Longrightarrow> W = 4"
    using shape unfolding W_def by auto
  have whole: "whole_array pv" "\<not> isArrayElement pv" using pv by (simp_all add: packable_def whole_array_def)
  have m: "map_shape ?m" using s by (simp add: packing_ok_def)
  have rows: "unat (transposed_rows (pv_varying pv) * (if isArrayElement pv then 1 else getBasicTypeElementCount (pv_varying pv))) = ?n"
    using shape(4) whole by simp
  note unfold = packVarying_def Let_def rows W_def [symmetric]
  show ?thesis
  proof (cases "?n > length ?m")
    case True
    then show ?thesis unfolding unfold by (intro exI [of _ False]) simp
  next
    case fits: False
    let ?rs = "[0..<length ?m - ?n + 1]"
    have range: "\<forall>r \<in> set ?rs. r + ?n \<le> length ?m" "\<forall>r \<in> set (rev ?rs). r + ?n \<le> length ?m"
      using fits by auto
    show ?thesis
    proof (cases "2 \<le> W")
      case wide: True
      from first_fit_ok [OF m range(1), of 0 W] W(2)
      consider (hit) r where "r \<in> set ?rs" "first_fit ?m ?rs 0 ?n W = Some (Some r)" "block r 0 ?n W \<inter> taken ?m = {}"
        | (miss) "first_fit ?m ?rs 0 ?n W = Some None" by auto
      then show ?thesis
      proof cases
        case hit
        have "block r 0 ?n (columns_of pv) \<inter> taken ?m = {}" using hit(3) block_mono [OF W(1)] by blast
        from vp_insert_ok [OF s whole(1) _ _ this] hit(1) range(1) shape(3)
        obtain s' where "vp_insert (of_nat r) 0 pv s = Some s'" "adds pv r 0 s s'" by auto
        with fits wide W(2) hit(2) show ?thesis unfolding unfold
          by (intro exI [of _ True] exI [of _ s']) auto
      next
        case miss
        show ?thesis
        proof (cases "W = 2")
          case False
          with fits wide W(2) miss show ?thesis unfolding unfold by (intro exI [of _ False] exI [of _ s]) auto
        next
          case True
          with W have two: "columns_of pv = 2" by linarith
          from first_fit_ok [OF m range(2), of 2 2]
          consider (hit) r where "r \<in> set (rev ?rs)" "first_fit ?m (rev ?rs) 2 ?n 2 = Some (Some r)" "block r 2 ?n 2 \<inter> taken ?m = {}"
            | (miss2) "first_fit ?m (rev ?rs) 2 ?n 2 = Some None" by auto
          then show ?thesis
          proof cases
            case hit
            have "block r 2 ?n (columns_of pv) \<inter> taken ?m = {}" using hit(3) two by simp
            from vp_insert_ok [OF s whole(1) _ _ this] hit(1) range(2) two
            obtain s' where "vp_insert (of_nat r) 2 pv s = Some s'" "adds pv r 2 s s'" by auto
            with fits True miss hit(2) show ?thesis unfolding unfold
              by (intro exI [of _ True] exI [of _ s']) auto
          next
            case miss2
            with fits True miss show ?thesis unfolding unfold by (intro exI [of _ False] exI [of _ s]) auto
          qed
        qed
      qed
    next
      case False
      with W have one: "W = 1" "columns_of pv = 1" by linarith+
      let ?c = "pick_column ?m ?n"
      show ?thesis
      proof (cases "?n \<le> bestContiguousSpace ?m ?c")
        case False
        with fits one show ?thesis unfolding unfold by (intro exI [of _ False] exI [of _ s]) auto
      next
        case True
        from best_run [OF m pick_column_range True] obtain r0 where
          "r0 + ?n \<le> length ?m" "block r0 ?c ?n 1 \<inter> taken ?m = {}" by blast
        from first_fit_column [OF m pick_column_range this shape(1)] obtain r where
          r: "first_fit ?m [0..<length ?m] ?c ?n 1 = Some (Some r)" "r + ?n \<le> length ?m"
          "block r ?c ?n 1 \<inter> taken ?m = {}" by blast
        from insert_column_ok [OF s whole(1) one(2) r(2) pick_column_range r(3)] obtain s' where
          "insert_column r ?c ?n pv s = Some s'" "adds pv r ?c s s'" by blast
        with fits one True r(1) show ?thesis unfolding unfold
          by (intro exI [of _ True] exI [of _ s']) auto
      qed
    qed
  qed
qed

section \<open>Packing a list of varyings\<close>

definition reg_cells :: "packed_varying_register \<Rightarrow> (nat \<times> nat) set" where
  "reg_cells x = block (unat (pr_registerRow x)) (unat (pr_registerColumn x)) 1 (columns_of (pr_packedVarying x))"

definition registers_apart :: "varying_packing \<Rightarrow> bool" where
  "registers_apart s \<longleftrightarrow>
     packing_ok s \<and> (\<forall>x \<in> set (mRegisterList s). reg_cells x \<subseteq> taken (mRegisterMap s)) \<and>
     (\<forall>pos. length (filter (\<lambda>x. pos \<in> reg_cells x) (mRegisterList s)) \<le> 1)"

lemma filter_at_most_one:
  assumes "distinct (map f xs)" "\<And>x. x \<in> set xs \<Longrightarrow> P x \<Longrightarrow> f x = a"
  shows "length (filter P xs) \<le> 1"
  using assms
proof (induction xs)
  case (Cons x xs)
  show ?case
  proof (cases "P x")
    case True
    then have "f x = a" using Cons.prems(2) by simp
    then have "\<not> P y" if "y \<in> set xs" for y
      using Cons.prems that by (metis image_eqI distinct.simps(2) list.set_intros(2) list.simps(9) list.set_map)
    then have "filter P xs = []" by (simp add: filter_empty_conv)
    with True show ?thesis by simp
  next
    case False
    then show ?thesis using Cons by simp
  qed
qed simp

lemma distinct_rows: "m \<le> 2 ^ 32 \<Longrightarrow> distinct (map (of_nat :: nat \<Rightarrow> u32) [l..<m])"
proof -
  assume m: "m \<le> 2 ^ 32"
  have "inj_on (of_nat :: nat \<Rightarrow> u32) {l..<m}"
  proof (rule inj_on_inverseI)
    fix i assume "i \<in> {l..<m}"
    with m show "unat (of_nat i :: u32) = i" by (simp add: unat_of_nat take_bit_nat_eq_self)
  qed
  then show ?thesis by (simp add: distinct_map)
qed

lemma adds_apart:
  assumes s: "registers_apart s" and add: "adds pv r c s s'"
  shows "registers_apart s'"
proof -
  obtain regs where regs: "mRegisterList s' = mRegisterList s @ (if isBuiltIn (pv_varying pv) then [] else regs)"
      "map pr_registerRow regs = map of_nat [r..<r + all_rows pv]"
      "\<forall>x \<in> set regs. pr_registerColumn x = of_nat c \<and> pr_packedVarying x = pv"
    and a: "r + all_rows pv \<le> length (mRegisterMap s)" "c + columns_of pv \<le> 4"
      "block r c (all_rows pv) (columns_of pv) \<inter> taken (mRegisterMap s) = {}"
      "map_shape (mRegisterMap s')" "length (mRegisterMap s') = length (mRegisterMap s)"
      "taken (mRegisterMap s') = block r c (all_rows pv) (columns_of pv) \<union> taken (mRegisterMap s)"
    using add unfolding adds_def by blast
  have small: "r + all_rows pv < 2 ^ 32" using a(1) s by (simp add: registers_apart_def packing_ok_def)
  have c: "unat (of_nat c :: u32) = c" using a(2) by (simp add: unat_of_nat take_bit_nat_eq_self)
  have cells: "\<exists>i. reg_cells x = block i c 1 (columns_of pv) \<and> r \<le> i \<and> i < r + all_rows pv \<and> i = unat (pr_registerRow x)"
    if x: "x \<in> set regs" for x
  proof -
    have "pr_registerRow x \<in> set (map pr_registerRow regs)" using x by simp
    then obtain i where i: "pr_registerRow x = of_nat i" "r \<le> i" "i < r + all_rows pv"
      unfolding regs(2) by auto
    then have "unat (pr_registerRow x) = i" using small by (simp add: unat_of_nat take_bit_nat_eq_self)
    with i c regs(3) x show ?thesis by (intro exI [of _ i]) (simp add: reg_cells_def)
  qed
  then have new: "reg_cells x \<subseteq> block r c (all_rows pv) (columns_of pv)" if "x \<in> set regs" for x
    using that by (fastforce simp: block_def)
  have "length (filter (\<lambda>x. pos \<in> reg_cells x) (mRegisterList s')) \<le> 1" for pos
  proof -
    have one: "length (filter (\<lambda>x. pos \<in> reg_cells x) regs) \<le> 1"
    proof (rule filter_at_most_one [of pr_registerRow _ _ "of_nat (fst pos)"])
      show "distinct (map pr_registerRow regs)"
        unfolding regs(2) by (rule distinct_rows) (use small in simp)
      fix x assume x: "x \<in> set regs" "pos \<in> reg_cells x"
      with cells [OF x(1)] have "unat (pr_registerRow x) = fst pos" by (auto simp: block_def)
      from this [symmetric] show "pr_registerRow x = of_nat (fst pos)" by simp
    qed
    have old: "length (filter (\<lambda>x. pos \<in> reg_cells x) (mRegisterList s)) \<le> 1"
      using s unfolding registers_apart_def by blast
    show ?thesis
    proof (cases "pos \<in> block r c (all_rows pv) (columns_of pv)")
      case True
      then have "filter (\<lambda>x. pos \<in> reg_cells x) (mRegisterList s) = []"
        using s a(3) by (auto simp: registers_apart_def filter_empty_conv)
      with one show ?thesis unfolding regs(1) by simp
    next
      case False
      then have "filter (\<lambda>x. pos \<in> reg_cells x) regs = []"
        using new by (auto simp: filter_empty_conv)
      with old show ?thesis unfolding regs(1) by simp
    qed
  qed
  moreover have "\<forall>x \<in> set (mRegisterList s'). reg_cells x \<subseteq> taken (mRegisterMap s')"
    using s new unfolding regs(1) a(6) by (auto simp: registers_apart_def split: if_splits)
  moreover have "packing_ok s'" using s a(4,5) by (simp add: registers_apart_def packing_ok_def)
  ultimately show ?thesis unfolding registers_apart_def by blast
qed

definition recorded :: "packed_varying list \<Rightarrow> packed_varying list" where
  "recorded pvs = concat (map (\<lambda>pv. if isBuiltIn (pv_varying pv) then [] else replicate (all_rows pv) pv) pvs)"

lemma adds_recorded:
  assumes "adds pv r c s s'"
  shows "map pr_packedVarying (mRegisterList s') = map pr_packedVarying (mRegisterList s) @ recorded [pv]"
proof -
  obtain regs where regs: "mRegisterList s' = mRegisterList s @ (if isBuiltIn (pv_varying pv) then [] else regs)"
      "map pr_registerRow regs = map of_nat [r..<r + all_rows pv]"
      "\<forall>x \<in> set regs. pr_packedVarying x = pv"
    using assms unfolding adds_def by blast
  have "length regs = all_rows pv" using arg_cong [OF regs(2), of length] by simp
  moreover have "map pr_packedVarying regs = replicate (length regs) pv"
    using regs(3) by (induction regs) auto
  ultimately show ?thesis by (simp add: regs(1) recorded_def)
qed

lemma pack_all_ok:
  assumes "registers_apart s" "\<forall>pv \<in> set pvs. packable pv"
  shows "\<exists>ok s'. pack_all pvs s = Some (ok, s') \<and> registers_apart s' \<and>
    (ok \<longrightarrow> map pr_packedVarying (mRegisterList s') = map pr_packedVarying (mRegisterList s) @ recorded pvs)"
  using assms
proof (induction pvs arbitrary: s)
  case Nil
  then show ?case by (intro exI [of _ True]) (simp add: recorded_def)
next
  case (Cons pv pvs)
  then have "packing_ok s" "packable pv" by (simp_all add: registers_apart_def)
  from packVarying_ok [OF this] obtain ok s1 where
    s1: "packVarying pv s = Some (ok, s1)" "if ok then \<exists>r c. adds pv r c s s1 else s1 = s" by blast
  show ?case
  proof (cases ok)
    case False
    with s1 Cons.prems show ?thesis by (intro exI [of _ False] exI [of _ s]) simp
  next
    case True
    with s1 obtain r c where add: "adds pv r c s s1" by auto
    from Cons.IH [OF adds_apart [OF Cons.prems(1) add]] Cons.prems(2) obtain ok' s' where
      "pack_all pvs s1 = Some (ok', s')" "registers_apart s'"
      "ok' \<longrightarrow> map pr_packedVarying (mRegisterList s') = map pr_packedVarying (mRegisterList s1) @ recorded pvs" by auto
    with True s1(1) adds_recorded [OF add] show ?thesis
      by (intro exI [of _ ok'] exI [of _ s']) (simp add: recorded_def)
  qed
qed

lemma apart_perm:
  assumes "registers_apart s" "mset rs = mset (mRegisterList s)"
  shows "registers_apart (s\<lparr>mRegisterList := rs\<rparr>)"
proof -
  have "length (filter P rs) = length (filter P (mRegisterList s))" for P
    using assms(2) by (metis mset_filter size_mset)
  moreover have "set rs = set (mRegisterList s)" using assms(2) by (metis set_mset_mset)
  ultimately show ?thesis using assms(1) by (simp add: registers_apart_def packing_ok_def)
qed

section \<open>Properties\<close>

text \<open>
  C18. Packing any list of whole varyings of known types, in any mode and for any number of vectors,
  runs inside the register map. When it succeeds, every varying that is not built in has been given
  a register for each of its rows, no two registers share a component, and the registers are
  sorted; a failing run has not put two varyings into one register either.
\<close>

theorem varying_registers_apart:
  assumes "\<forall>pv \<in> set pvs. packable pv"
  shows "\<exists>ok s'. packUserVaryings pvs (VaryingPacking mx mode) = Some (ok, s') \<and> registers_apart s' \<and>
    (ok \<longrightarrow> sorted (map pr_sortOrder (mRegisterList s')) \<and>
       mset (map pr_packedVarying (mRegisterList s')) = mset (recorded pvs))"
proof -
  have "taken (replicate n (replicate 4 False)) = {}" for n by (auto simp: taken_def)
  then have "registers_apart (VaryingPacking mx mode)"
    by (auto simp: registers_apart_def packing_ok_def VaryingPacking_def map_shape_def set_replicate_conv_if
        intro: order_less_le_trans [OF unsigned_less])
  from pack_all_ok [OF this assms] obtain ok s' where
    s': "pack_all pvs (VaryingPacking mx mode) = Some (ok, s')" "registers_apart s'"
    "ok \<longrightarrow> map pr_packedVarying (mRegisterList s') = recorded pvs" by (auto simp: VaryingPacking_def)
  show ?thesis
  proof (cases ok)
    case True
    have "mset (map pr_packedVarying (sort_key pr_sortOrder (mRegisterList s'))) = mset (map pr_packedVarying (mRegisterList s'))"
      by (simp add: mset_map)
    with True s' apart_perm [OF s'(2), of "sort_key pr_sortOrder (mRegisterList s')"] show ?thesis
      by (intro exI [of _ True]) (simp add: packUserVaryings_def)
  next
    case False
    with s' show ?thesis by (intro exI [of _ False]) (simp add: packUserVaryings_def)
  qed
qed

theorem varying_registers_apart_witness:
  "\<exists>ok s'. packUserVaryings
      [PackedVarying (ShaderVariable (default_info GL_FLOAT_VEC3\<lparr>sv_name := ''n''\<rparr>) []) INTERPOLATION_SMOOTH [] 0,
       PackedVarying (ShaderVariable (default_info GL_FLOAT\<lparr>sv_name := ''f''\<rparr>) []) INTERPOLATION_SMOOTH [] 0]
      (VaryingPacking 8 WEBGL_STRICT) = Some (ok, s') \<and> registers_apart s'"
proof -
  let ?pvs = "[PackedVarying (ShaderVariable (default_info GL_FLOAT_VEC3\<lparr>sv_name := ''n''\<rparr>) []) INTERPOLATION_SMOOTH [] 0,
       PackedVarying (ShaderVariable (default_info GL_FLOAT\<lparr>sv_name := ''f''\<rparr>) []) INTERPOLATION_SMOOTH [] 0]"
  have "\<forall>pv \<in> set ?pvs. packable pv"
    by (simp add: packable_def whole_array_def isArrayElement_def PackedVarying_def GL_INVALID_INDEX_def
        getBasicTypeElementCount_def isArray_def default_info_def TransposeMatrixType_def IsMatrixType_def VariableRowCount_def)
  from varying_registers_apart [OF this, of 8 WEBGL_STRICT] show ?thesis by blast
qed

section \<open>Where the packing goes wrong\<close>

text \<open>
  Captured elements of arrays: \<open>packVarying\<close> looks for the rows of one element, \<open>insert\<close> then writes
  at that row plus the element's offset in the array. Two captured elements end in the same register,
  and capturing all of an array writes behind the map.
\<close>

abbreviation vec4_element :: "string \<Rightarrow> u32 \<Rightarrow> u32 \<Rightarrow> packed_varying" where
  "vec4_element nm n i \<equiv>
     PackedVarying (ShaderVariable (default_info GL_FLOAT_VEC4\<lparr>sv_name := nm, sv_arraySizes := [n]\<rparr>) [])
       INTERPOLATION_SMOOTH [] 0\<lparr>pv_vertexOnly := True, pv_arrayIndex := i\<rparr>"

theorem array_elements_collide:
  "map_option (\<lambda>(ok, s). (ok, map (\<lambda>r. (tfVaryingName r, pr_registerRow r, pr_registerColumn r)) (mRegisterList s)))
     (packUserVaryings [vec4_element ''a'' 3 2, vec4_element ''b'' 3 2] (VaryingPacking 8 ANGLE_RELAXED))
   = Some (True, [(''a[2]'', 2, 0), (''b[2]'', 2, 0)])"
  by code_simp

theorem array_elements_out_of_range:
  "packUserVaryings (map (vec4_element ''a'' 8) [0, 1, 2, 3, 4, 5, 6, 7]) (VaryingPacking 8 ANGLE_RELAXED) = None"
  by code_simp

text \<open>
  VaryingPacking.h says that \<open>WEBGL_STRICT\<close> treats a \<open>mat2\<close> as taking two full rows. \<open>packVarying\<close> asks
  for full rows; \<open>insert\<close> marks two columns of them, and a later varying shares the rows.
\<close>

theorem strict_mat2_shares_rows:
  "map_option (\<lambda>(ok, s). (ok, map (\<lambda>r. (tfVaryingName r, pr_registerRow r, pr_registerColumn r)) (mRegisterList s)))
     (packUserVaryings
       [PackedVarying (ShaderVariable (default_info GL_FLOAT_MAT2\<lparr>sv_name := ''m''\<rparr>) []) INTERPOLATION_SMOOTH [] 0,
        PackedVarying (ShaderVariable (default_info GL_FLOAT\<lparr>sv_name := ''f''\<rparr>) []) INTERPOLATION_SMOOTH [] 0]
       (VaryingPacking 2 WEBGL_STRICT))
   = Some (True, [(''m'', 0, 0), (''f'', 0, 2), (''m'', 1, 0)])"
  by code_simp

text \<open>
  A \<open>float\<close> and an \<open>int\<close> vector compare as equivalent whatever their array sizes, two arrays of one type
  do not: equivalence is not transitive, which \<open>std::sort\<close> demands.
\<close>

theorem CompareShaderVar_not_weak_order:
  "let f = ShaderVariable_array GL_FLOAT_VEC4 1; i = ShaderVariable_array GL_INT_VEC4 2;
       g = ShaderVariable_array GL_FLOAT_VEC4 3
   in \<not> CompareShaderVar f i \<and> \<not> CompareShaderVar i f \<and> \<not> CompareShaderVar i g \<and> \<not> CompareShaderVar g i \<and>
      CompareShaderVar g f"
  by code_simp

end
