(* ===== verification/Block_Layout.thy ===== *)
theory Block_Layout
  imports Shader_Variable "HOL-Library.Monad_Syntax"
begin

text \<open>
  The memory layout of interface blocks (src/src/compiler/translator/blocklayout.{h,cpp}): the encoders
  for std140, std430 and the empty layout, the traversal of the variables of a block with its visitors,
  and \<open>GetInterfaceBlockInfo\<close>.

  The callbacks of a \<open>ShaderVariableVisitor\<close> cannot change the traversal; \<open>TraverseShaderVariable\<close> is
  the list of its callbacks (\<open>visit\<close>) and a visitor is a function on them. \<open>BlockEncoderVisitor\<close> starts a
  nested traversal for the size of a structure, so \<open>runVisits\<close> and \<open>getShaderVariableSize\<close> recur, on ever
  smaller structures. The sequence of its calls of the virtual \<open>encodeVariable\<close> is \<open>mEncodeCalls\<close>.

  Offsets are counted in components by a \<open>size_t\<close>, which is not wrapped here: a variable adds less than
  \<open>2 ^ 32\<close> to it. The product of stride and array size wraps at 32 bits and the conversions to \<open>int\<close>
  truncate, as in the code. \<^term>\<open>None\<close> is a remainder by zero, from \<open>roundUp\<close> with an alignment of 0.

  The section at the end defines the layout of a block without visitors and stacks, by recursion on the
  variables.
\<close>

section \<open>Encoders\<close>

record block_member_info =
  bm_offset :: int
  bm_arrayStride :: int
  bm_matrixStride :: int
  bm_isRowMajorMatrix :: bool
  bm_topLevelArrayStride :: int

definition to_int :: "nat \<Rightarrow> int" where
  "to_int n = sint (of_nat n :: u32)"

definition kBytesPerComponent :: nat where
  "kBytesPerComponent = 4"

definition kComponentsPerRegister :: nat where
  "kComponentsPerRegister = 4"

definition ComponentAlignment :: "nat \<Rightarrow> nat" where
  "ComponentAlignment numComponents = (if numComponents = 3 then 4 else numComponents)"

definition roundUp :: "nat \<Rightarrow> nat \<Rightarrow> nat option" where
  "roundUp value alignment =
     (if alignment = 0 then None
      else let temp = value + alignment - 1 in Some (temp - temp mod alignment))"

datatype encoder_kind = DummyBlockEncoder | Std140BlockEncoder | Std430BlockEncoder

definition GetStd430BaseAlignment :: "gl_type \<Rightarrow> bool \<Rightarrow> nat" where
  "GetStd430BaseAlignment variableType isRowMajor =
     (let flippedType = (if isRowMajor then variableType else TransposeMatrixType variableType)
      in ComponentAlignment (nat (VariableColumnCount flippedType)))"

fun getTypeBaseAlignment :: "encoder_kind \<Rightarrow> gl_type \<Rightarrow> bool \<Rightarrow> nat" where
  "getTypeBaseAlignment Std430BlockEncoder type isRowMajorMatrix = GetStd430BaseAlignment type isRowMajorMatrix"
| "getTypeBaseAlignment _ type isRowMajorMatrix = kComponentsPerRegister"

definition getBlockLayoutInfo ::
  "encoder_kind \<Rightarrow> gl_type \<Rightarrow> u32 list \<Rightarrow> bool \<Rightarrow> nat \<Rightarrow> (nat \<times> nat \<times> nat) option" where
  "getBlockLayoutInfo k type arraySizes isRowMajorMatrix mCurrentOffset =
     (if k = DummyBlockEncoder then Some (mCurrentOffset, 0, 0)
      else
        let (baseAlignment, matrixStride, arrayStride) =
              (if IsMatrixType type
               then (getTypeBaseAlignment k type isRowMajorMatrix, getTypeBaseAlignment k type isRowMajorMatrix,
                     if arraySizes \<noteq> []
                     then getTypeBaseAlignment k type isRowMajorMatrix * nat (MatrixRegisterCount type isRowMajorMatrix)
                     else 0)
               else if arraySizes \<noteq> []
               then (getTypeBaseAlignment k type False, 0, getTypeBaseAlignment k type False)
               else (ComponentAlignment (nat (VariableComponentCount type)), 0, 0))
        in map_option (\<lambda>offset. (offset, arrayStride, matrixStride)) (roundUp mCurrentOffset baseAlignment))"

definition advanceOffset ::
  "encoder_kind \<Rightarrow> gl_type \<Rightarrow> u32 list \<Rightarrow> bool \<Rightarrow> nat \<Rightarrow> nat \<Rightarrow> nat \<Rightarrow> nat" where
  "advanceOffset k type arraySizes isRowMajorMatrix arrayStride matrixStride mCurrentOffset =
     (if k = DummyBlockEncoder then mCurrentOffset
      else if arraySizes \<noteq> [] then mCurrentOffset + unat (of_nat arrayStride * ArraySizeProduct arraySizes)
      else if IsMatrixType type
      then mCurrentOffset + matrixStride * nat (MatrixRegisterCount type isRowMajorMatrix)
      else mCurrentOffset + nat (VariableComponentCount type))"

definition encodeType ::
  "encoder_kind \<Rightarrow> gl_type \<Rightarrow> u32 list \<Rightarrow> bool \<Rightarrow> nat \<Rightarrow> (block_member_info \<times> nat) option" where
  "encodeType k type arraySizes isRowMajorMatrix mCurrentOffset =
     map_option
       (\<lambda>(offset, arrayStride, matrixStride).
         (\<lparr>bm_offset = to_int (offset * kBytesPerComponent),
           bm_arrayStride = to_int (arrayStride * kBytesPerComponent),
           bm_matrixStride = to_int (matrixStride * kBytesPerComponent),
           bm_isRowMajorMatrix = isRowMajorMatrix, bm_topLevelArrayStride = -1\<rparr>,
          advanceOffset k type arraySizes isRowMajorMatrix arrayStride matrixStride offset))
       (getBlockLayoutInfo k type arraySizes isRowMajorMatrix mCurrentOffset)"

definition GetBlockRegister :: "block_member_info \<Rightarrow> nat" where
  "GetBlockRegister info =
     unat ((of_int (bm_offset info) :: u64) div of_nat kBytesPerComponent div of_nat kComponentsPerRegister)"

definition GetBlockRegisterElement :: "block_member_info \<Rightarrow> nat" where
  "GetBlockRegisterElement info =
     unat ((of_int (bm_offset info) :: u64) div of_nat kBytesPerComponent mod of_nat kComponentsPerRegister)"

section \<open>Traversal\<close>

definition hasParentArrayIndex :: "shader_variable \<Rightarrow> bool" where
  "hasParentArrayIndex v \<longleftrightarrow> sv_flattenedOffset (sv_info v) \<noteq> -1"

definition isArrayOfArrays :: "shader_variable \<Rightarrow> bool" where
  "isArrayOfArrays v \<longleftrightarrow> 2 \<le> length (sv_arraySizes (sv_info v))"

datatype visit =
    EnterStruct shader_variable
  | ExitStruct shader_variable
  | EnterStructAccess shader_variable bool
  | ExitStructAccess shader_variable bool
  | EnterArray shader_variable
  | ExitArray shader_variable
  | EnterArrayElement shader_variable u32
  | ExitArrayElement shader_variable u32
  | VisitSampler shader_variable
  | VisitVariable shader_variable bool

abbreviation array_dims :: "shader_variable \<Rightarrow> u32 list" where
  "array_dims v \<equiv> sv_arraySizes (sv_info v)"

definition array_elements :: "u32 \<Rightarrow> u32 list" where
  "array_elements currentArraySize = map of_nat [0..<unat (max currentArraySize 1)]"

function TraverseArrayOfArraysVariable :: "shader_variable \<Rightarrow> nat \<Rightarrow> bool \<Rightarrow> visit list" where
  "TraverseArrayOfArraysVariable variable arrayNestingIndex isRowMajorMatrix =
     [EnterArray variable] @
     concat (map (\<lambda>arrayElement.
         [EnterArrayElement variable arrayElement] @
         (let elementVar = indexIntoArray arrayElement variable
          in if arrayNestingIndex + 2 < length (array_dims variable)
             then TraverseArrayOfArraysVariable elementVar arrayNestingIndex isRowMajorMatrix
             else if IsSamplerType (sv_type (sv_info variable)) then [VisitSampler elementVar]
             else [VisitVariable elementVar isRowMajorMatrix]) @
         [ExitArrayElement variable arrayElement])
       (array_elements (getNestedArraySize variable arrayNestingIndex))) @
     [ExitArray variable]"
  by pat_completeness auto

lemma index_dims [simp]:
  "array_dims (indexIntoArray i v) = butlast (array_dims v)" "sv_fields (indexIntoArray i v) = sv_fields v"
  "sv_type (sv_info (indexIntoArray i v)) = sv_type (sv_info v)"
  "sv_name (sv_info (indexIntoArray i v)) = sv_name (sv_info v)"
  "sv_mappedName (sv_info (indexIntoArray i v)) = sv_mappedName (sv_info v)"
  "isStruct (indexIntoArray i v) = isStruct v"
  by (simp_all add: indexIntoArray_def isStruct_def)

lemma size_index [simp]: "size (indexIntoArray i v) = size v"
  by (cases v) (simp add: indexIntoArray_def)

termination TraverseArrayOfArraysVariable
  by (relation "measure (\<lambda>(v, _). length (array_dims v))") auto

declare TraverseArrayOfArraysVariable.simps [simp del]

lemma size_field: "f \<in> set (sv_fields v) \<Longrightarrow> size f < size v"
  by (cases v) (auto dest: size_list_estimation' [of _ _ _ size])

function (sequential)
  TraverseShaderVariable :: "shader_variable \<Rightarrow> bool \<Rightarrow> visit list" and
  TraverseStructVariable :: "shader_variable \<Rightarrow> bool \<Rightarrow> visit list" and
  TraverseStructArrayVariable :: "shader_variable \<Rightarrow> bool \<Rightarrow> visit list"
where
  "TraverseShaderVariable variable isRowMajorLayout =
     (let rowMajorLayout = isRowMajorLayout \<or> sv_isRowMajorLayout (sv_info variable);
          isRowMajor = rowMajorLayout \<and> IsMatrixType (sv_type (sv_info variable))
      in if isStruct variable
         then [EnterStruct variable] @
              (if isArray variable then TraverseStructArrayVariable variable rowMajorLayout
               else TraverseStructVariable variable rowMajorLayout) @
              [ExitStruct variable]
         else if isArrayOfArrays variable then TraverseArrayOfArraysVariable variable 0 isRowMajor
         else if IsSamplerType (sv_type (sv_info variable)) then [VisitSampler variable]
         else [VisitVariable variable isRowMajor])"
| "TraverseStructVariable variable isRowMajorLayout =
     [EnterStructAccess variable isRowMajorLayout] @
     concat (map (\<lambda>field. TraverseShaderVariable field isRowMajorLayout) (sv_fields variable)) @
     [ExitStructAccess variable isRowMajorLayout]"
| "TraverseStructArrayVariable variable inRowMajorLayout =
     [EnterArray variable] @
     concat (map (\<lambda>arrayElement.
         [EnterArrayElement variable arrayElement] @
         (let elementVar = indexIntoArray arrayElement variable
          in if 1 < length (array_dims variable) then TraverseStructArrayVariable elementVar inRowMajorLayout
             else TraverseStructVariable elementVar inRowMajorLayout) @
         [ExitArrayElement variable arrayElement])
       (array_elements (getNestedArraySize variable 0))) @
     [ExitArray variable]"
  by pat_completeness auto

termination
  by (relation "measures [\<lambda>c. case c of Inl (v, _) \<Rightarrow> size v | Inr (Inl (v, _)) \<Rightarrow> size v | Inr (Inr (v, _)) \<Rightarrow> size v,
        \<lambda>c. case c of Inl (v, _) \<Rightarrow> length (array_dims v) + 2 | Inr (Inl (v, _)) \<Rightarrow> 0
          | Inr (Inr (v, _)) \<Rightarrow> length (array_dims v) + 1]")
    (auto dest: size_field)

declare TraverseShaderVariable.simps [simp del] TraverseStructVariable.simps [simp del]
  TraverseStructArrayVariable.simps [simp del]

definition TraverseShaderVariables :: "shader_variable list \<Rightarrow> bool \<Rightarrow> visit list" where
  "TraverseShaderVariables vars isRowMajorLayout =
     concat (map (\<lambda>var. TraverseShaderVariable var isRowMajorLayout) vars)"

section \<open>Alignment of aggregates\<close>

fun baseAlignmentVisit :: "visit \<Rightarrow> nat \<Rightarrow> nat" where
  "baseAlignmentVisit (VisitVariable variable isRowMajor) mCurrentAlignment =
     max mCurrentAlignment (GetStd430BaseAlignment (sv_type (sv_info variable)) isRowMajor)"
| "baseAlignmentVisit _ mCurrentAlignment = mCurrentAlignment"

fun getBaseAlignment :: "encoder_kind \<Rightarrow> shader_variable \<Rightarrow> nat" where
  "getBaseAlignment Std430BlockEncoder shaderVar =
     (if isStruct shaderVar
      then fold baseAlignmentVisit (TraverseShaderVariables (sv_fields shaderVar) False) 0
      else GetStd430BaseAlignment (sv_type (sv_info shaderVar)) (sv_isRowMajorLayout (sv_info shaderVar)))"
| "getBaseAlignment _ variable = kComponentsPerRegister"

text \<open>\<open>enterAggregateType\<close>; \<open>exitAggregateType\<close> does the same.\<close>

definition enterAggregateType :: "encoder_kind \<Rightarrow> shader_variable \<Rightarrow> nat \<Rightarrow> nat option" where
  "enterAggregateType k structVar mCurrentOffset =
     (if k = DummyBlockEncoder then Some mCurrentOffset
      else roundUp mCurrentOffset (getBaseAlignment k structVar))"

definition exitAggregateType :: "encoder_kind \<Rightarrow> shader_variable \<Rightarrow> nat \<Rightarrow> nat option" where
  "exitAggregateType k structVar mCurrentOffset = enterAggregateType k structVar mCurrentOffset"

section \<open>The visitors\<close>

record variable_name_visitor =
  mNameStack :: "string list"
  mMappedNameStack :: "string list"
  mArraySizeStack :: "u32 list"

definition VariableNameVisitor :: "string \<Rightarrow> string \<Rightarrow> variable_name_visitor" where
  "VariableNameVisitor namePrefix mappedNamePrefix =
     \<lparr>mNameStack = (if namePrefix \<noteq> [] then [namePrefix @ ''.''] else []),
      mMappedNameStack = (if mappedNamePrefix \<noteq> [] then [mappedNamePrefix @ ''.''] else []),
      mArraySizeStack = []\<rparr>"

definition pushNames :: "string \<Rightarrow> string \<Rightarrow> 'a variable_name_visitor_scheme \<Rightarrow> 'a variable_name_visitor_scheme" where
  "pushNames nm mapped s =
     s\<lparr>mNameStack := mNameStack s @ [nm], mMappedNameStack := mMappedNameStack s @ [mapped]\<rparr>"

definition popNames :: "'a variable_name_visitor_scheme \<Rightarrow> 'a variable_name_visitor_scheme" where
  "popNames s = s\<lparr>mNameStack := butlast (mNameStack s), mMappedNameStack := butlast (mMappedNameStack s)\<rparr>"

text \<open>\<open>VariableNameVisitor\<close>: \<open>enterStruct\<close>, \<open>exitStruct\<close>, and so on.\<close>

fun nameVisit :: "visit \<Rightarrow> 'a variable_name_visitor_scheme \<Rightarrow> 'a variable_name_visitor_scheme" where
  "nameVisit (EnterStruct structVar) s =
     pushNames (sv_name (sv_info structVar)) (sv_mappedName (sv_info structVar)) s"
| "nameVisit (ExitStruct structVar) s = popNames s"
| "nameVisit (EnterStructAccess structVar isRowMajor) s = pushNames ''.'' ''.'' s"
| "nameVisit (ExitStructAccess structVar isRowMajor) s = popNames s"
| "nameVisit (EnterArray arrayVar) s =
     (let s = (if \<not> hasParentArrayIndex arrayVar \<and> \<not> isStruct arrayVar
               then pushNames (sv_name (sv_info arrayVar)) (sv_mappedName (sv_info arrayVar)) s else s)
      in s\<lparr>mArraySizeStack := mArraySizeStack s @ [getOutermostArraySize arrayVar]\<rparr>)"
| "nameVisit (ExitArray arrayVar) s =
     (let s = (if \<not> hasParentArrayIndex arrayVar \<and> \<not> isStruct arrayVar then popNames s else s)
      in s\<lparr>mArraySizeStack := butlast (mArraySizeStack s)\<rparr>)"
| "nameVisit (EnterArrayElement arrayVar arrayElement) s =
     pushNames (ArrayString arrayElement) (ArrayString arrayElement) s"
| "nameVisit (ExitArrayElement arrayVar arrayElement) s = popNames s"
| "nameVisit _ s = s"

text \<open>The names \<open>visitSampler\<close> and \<open>visitVariable\<close> hand on, \<open>CollapseNameStack\<close> of either stack.\<close>

definition CollapseNameStack :: "string list \<Rightarrow> string" where
  "CollapseNameStack nameStack = concat nameStack"

definition visitNames :: "shader_variable \<Rightarrow> 'a variable_name_visitor_scheme \<Rightarrow> string \<times> string" where
  "visitNames variable s =
     (let s = (if \<not> hasParentArrayIndex variable
               then pushNames (sv_name (sv_info variable)) (sv_mappedName (sv_info variable)) s else s)
      in (CollapseNameStack (mNameStack s), CollapseNameStack (mMappedNameStack s)))"

type_synonym encode_call = "shader_variable \<times> block_member_info \<times> string \<times> string"

record block_encoder_visitor = variable_name_visitor +
  mTopLevelArraySize :: int
  mTopLevelArrayStride :: int
  mIsTopLevelArrayStrideReady :: bool
  mSkipEnabled :: bool
  mStructStackSize :: nat
  mEncodeCalls :: "encode_call list"

definition BlockEncoderVisitor :: "string \<Rightarrow> string \<Rightarrow> block_encoder_visitor" where
  "BlockEncoderVisitor namePrefix mappedNamePrefix =
     variable_name_visitor.extend (VariableNameVisitor namePrefix mappedNamePrefix)
       \<lparr>mTopLevelArraySize = 1, mTopLevelArrayStride = 0, mIsTopLevelArrayStrideReady = True,
        mSkipEnabled = False, mStructStackSize = 0, mEncodeCalls = []\<rparr>"

definition mul_int :: "int \<Rightarrow> int \<Rightarrow> int" where
  "mul_int a b = sint ((of_int a :: u32) * of_int b)"

text \<open>The visitor and the offset of its encoder. The three steps that \<open>BlockEncoderVisitor\<close> overrides.\<close>

type_synonym encoding = "block_encoder_visitor \<times> nat"

definition encoderEnterArrayElement :: "shader_variable \<Rightarrow> u32 \<Rightarrow> block_encoder_visitor \<Rightarrow> block_encoder_visitor" where
  "encoderEnterArrayElement arrayVar arrayElement s =
     nameVisit (EnterArrayElement arrayVar arrayElement)
       (if mStructStackSize s = 0 \<and> \<not> hasParentArrayIndex arrayVar
        then if arrayElement = 0
             then s\<lparr>mTopLevelArraySize := sint (getOutermostArraySize arrayVar),
                    mTopLevelArrayStride := sint (getInnerArraySizeProduct arrayVar),
                    mIsTopLevelArrayStrideReady := False\<rparr>
             else s\<lparr>mSkipEnabled := True\<rparr>
        else s)"

definition encoderExitArrayElement :: "shader_variable \<Rightarrow> u32 \<Rightarrow> block_encoder_visitor \<Rightarrow> block_encoder_visitor" where
  "encoderExitArrayElement arrayVar arrayElement s =
     nameVisit (ExitArrayElement arrayVar arrayElement)
       (if mStructStackSize s = 0 \<and> \<not> hasParentArrayIndex arrayVar
        then s\<lparr>mTopLevelArraySize := 1, mTopLevelArrayStride := 0, mIsTopLevelArrayStrideReady := True,
               mSkipEnabled := False\<rparr>
        else s)"

definition encoderVisitVariable :: "encoder_kind \<Rightarrow> shader_variable \<Rightarrow> bool \<Rightarrow> encoding \<Rightarrow> encoding option" where
  "encoderVisitVariable k variable isRowMajor st =
     (case st of (s, mCurrentOffset) \<Rightarrow>
       do {
         let (nm, mapped) = visitNames variable s;
         let innermostArraySize = (if isArray variable then [getNestedArraySize variable 0] else []);
         (variableInfo, mCurrentOffset) \<leftarrow>
           encodeType k (sv_type (sv_info variable)) innermostArraySize isRowMajor mCurrentOffset;
         let s = (if \<not> mIsTopLevelArrayStrideReady s
                  then s\<lparr>mTopLevelArrayStride := mul_int (mTopLevelArrayStride s) (bm_arrayStride variableInfo),
                         mIsTopLevelArrayStrideReady := True\<rparr>
                  else s);
         Some (s\<lparr>mEncodeCalls := mEncodeCalls s @
                   [(variable, variableInfo\<lparr>bm_topLevelArrayStride := mTopLevelArrayStride s\<rparr>, nm, mapped)]\<rparr>,
               mCurrentOffset)
       })"

text \<open>The size of the largest structure that is entered, which bounds the recursion of the visitor.\<close>

fun struct_accesses :: "visit list \<Rightarrow> nat" where
  "struct_accesses [] = 0"
| "struct_accesses (e # es) = max (case e of EnterStructAccess v _ \<Rightarrow> size v | _ \<Rightarrow> 0) (struct_accesses es)"

lemma struct_accesses_append [simp]:
  "struct_accesses (es @ fs) = max (struct_accesses es) (struct_accesses fs)"
  by (induction es) auto

lemma struct_accesses_concat:
  "struct_accesses (concat ess) \<le> n \<longleftrightarrow> (\<forall>es \<in> set ess. struct_accesses es \<le> n)"
  by (induction ess) auto

lemma arrays_access_nothing: "struct_accesses (TraverseArrayOfArraysVariable v n rm) \<le> 0"
proof (induction v n rm rule: TraverseArrayOfArraysVariable.induct)
  case (1 v n rm)
  then show ?case
    by (subst TraverseArrayOfArraysVariable.simps)
      (auto simp: struct_accesses_concat Let_def simp del: le_zero_eq)
qed

lemma traverse_accesses:
  "struct_accesses (TraverseShaderVariable v rm) \<le> size v"
  "struct_accesses (TraverseStructVariable v rm) \<le> size v"
  "struct_accesses (TraverseStructArrayVariable v rm) \<le> size v"
proof (induction v rm and v rm and v rm
    rule: TraverseShaderVariable_TraverseStructVariable_TraverseStructArrayVariable.induct)
  case (1 v rm)
  then show ?case
    by (subst TraverseShaderVariable.simps)
      (auto simp: struct_accesses_concat Let_def order_trans [OF arrays_access_nothing])
next
  case (2 v rm)
  then have "struct_accesses (TraverseShaderVariable f rm) \<le> size v" if "f \<in> set (sv_fields v)" for f
    using that size_field [OF that] by (meson less_imp_le order_trans)
  then show ?case
    by (subst TraverseStructVariable.simps) (auto simp: struct_accesses_concat)
next
  case (3 v rm)
  then show ?case
    by (subst TraverseStructArrayVariable.simps)
      (auto simp: struct_accesses_concat Let_def)
qed

lemma fields_accesses: "struct_accesses (TraverseShaderVariables (sv_fields v) rm) < size v"
proof -
  have "struct_accesses (TraverseShaderVariable f rm) \<le> size v - 1" if "f \<in> set (sv_fields v)" for f
    using size_field [OF that] traverse_accesses(1) [of f rm] by linarith
  moreover have "0 < size v" by (cases v) simp
  ultimately have "struct_accesses (TraverseShaderVariables (sv_fields v) rm) \<le> size v - 1"
    by (auto simp: TraverseShaderVariables_def struct_accesses_concat)
  with \<open>0 < size v\<close> show ?thesis by linarith
qed

function (sequential)
  runVisits :: "encoder_kind \<Rightarrow> visit list \<Rightarrow> encoding \<Rightarrow> encoding option" and
  getShaderVariableSize :: "encoder_kind \<Rightarrow> shader_variable \<Rightarrow> bool \<Rightarrow> nat option"
where
  "runVisits k [] st = Some st"
| "runVisits k (EnterStructAccess structVar isRowMajor # es) (s, mCurrentOffset) =
     (let s = s\<lparr>mStructStackSize := mStructStackSize s + 1\<rparr>
      in Option.bind
           (if mIsTopLevelArrayStrideReady s then Some s
            else map_option (\<lambda>structSize.
                   s\<lparr>mTopLevelArrayStride := mul_int (mTopLevelArrayStride s) (to_int structSize),
                     mIsTopLevelArrayStrideReady := True\<rparr>)
                   (getShaderVariableSize k structVar isRowMajor))
           (\<lambda>s. let s = nameVisit (EnterStructAccess structVar isRowMajor) s
                in Option.bind (enterAggregateType k structVar mCurrentOffset) (\<lambda>mCurrentOffset.
                     runVisits k es (s, mCurrentOffset))))"
| "runVisits k (ExitStructAccess structVar isRowMajor # es) (s, mCurrentOffset) =
     (let s = s\<lparr>mStructStackSize := mStructStackSize s - 1\<rparr>
      in Option.bind (exitAggregateType k structVar mCurrentOffset) (\<lambda>mCurrentOffset.
           runVisits k es (nameVisit (ExitStructAccess structVar isRowMajor) s, mCurrentOffset)))"
| "runVisits k (EnterArrayElement arrayVar arrayElement # es) (s, mCurrentOffset) =
     runVisits k es (encoderEnterArrayElement arrayVar arrayElement s, mCurrentOffset)"
| "runVisits k (ExitArrayElement arrayVar arrayElement # es) (s, mCurrentOffset) =
     runVisits k es (encoderExitArrayElement arrayVar arrayElement s, mCurrentOffset)"
| "runVisits k (VisitVariable variable isRowMajor # es) (s, mCurrentOffset) =
     Option.bind (encoderVisitVariable k variable isRowMajor (s, mCurrentOffset)) (runVisits k es)"
| "runVisits k (e # es) (s, mCurrentOffset) = runVisits k es (nameVisit e s, mCurrentOffset)"
| "getShaderVariableSize k structVar isRowMajor =
     Option.bind (enterAggregateType k structVar 0) (\<lambda>mCurrentOffset.
       Option.bind
         (runVisits k (TraverseShaderVariables (sv_fields structVar) isRowMajor)
            (BlockEncoderVisitor [] [], mCurrentOffset))
         (\<lambda>(_, mCurrentOffset). map_option (\<lambda>offset. offset * kBytesPerComponent)
            (exitAggregateType k structVar mCurrentOffset)))"
  by pat_completeness auto

termination
  by (relation "measures [\<lambda>c. case c of Inl (_, es, _) \<Rightarrow> struct_accesses es | Inr (_, v, _) \<Rightarrow> size v,
        \<lambda>c. case c of Inl (_, es, _) \<Rightarrow> length es + 1 | Inr _ \<Rightarrow> 0]")
    (auto simp: fields_accesses)

text \<open>\<open>BlockLayoutMapVisitor\<close> records what the encoder visitor hands to \<open>encodeVariable\<close>.\<close>

type_synonym block_layout_map = "string \<Rightarrow> block_member_info option"

definition encodeVariable :: "encode_call \<Rightarrow> block_layout_map \<Rightarrow> block_layout_map" where
  "encodeVariable call infoOut =
     (case call of (variable, variableInfo, nm, _) \<Rightarrow>
        if \<not> IsOpaqueType (sv_type (sv_info variable)) then infoOut(nm \<mapsto> variableInfo) else infoOut)"

definition GetInterfaceBlockInfo ::
  "shader_variable list \<Rightarrow> string \<Rightarrow> encoder_kind \<Rightarrow> bool \<Rightarrow> block_layout_map \<Rightarrow> nat \<Rightarrow> (block_layout_map \<times> nat) option"
where
  "GetInterfaceBlockInfo flds prefix k inRowMajorLayout blockInfoOut mCurrentOffset =
     map_option (\<lambda>(s, mCurrentOffset). (fold encodeVariable (mEncodeCalls s) blockInfoOut, mCurrentOffset))
       (runVisits k (TraverseShaderVariables flds inRowMajorLayout)
          (BlockEncoderVisitor prefix prefix, mCurrentOffset))"

section \<open>The layout without visitors\<close>

text \<open>
  A reference for the visitors: the members of a variable in the order of their memory, each with its
  name, the structures that surround them, and for a top-level array whether the member belongs to
  the first element, which alone gets the stride of that array.
\<close>

fun index_lists :: "u32 list \<Rightarrow> u32 list list" where
  "index_lists [] = [[]]"
| "index_lists (n # ns) = concat (map (\<lambda>i. map ((#) i) (index_lists ns)) (array_elements n))"

definition element_at :: "shader_variable \<Rightarrow> u32 list \<Rightarrow> shader_variable" where
  "element_at v is = foldl (\<lambda>v i. indexIntoArray i v) v is"

definition subscripts :: "u32 list \<Rightarrow> string" where
  "subscripts is = concat (map ArrayString is)"

datatype layout_op =
    Aggregate shader_variable
  | Member shader_variable bool string string bool

fun block_layout :: "shader_variable \<Rightarrow> bool \<Rightarrow> string \<Rightarrow> string \<Rightarrow> (u32 list \<Rightarrow> bool) \<Rightarrow> layout_op list" where
  "block_layout (ShaderVariable a fs) rm nm mapped first =
     (let v = ShaderVariable a fs;
          rml = rm \<or> sv_isRowMajorLayout a;
          nm = nm @ sv_name a; mapped = mapped @ sv_mappedName a
      in if fs \<noteq> []
         then concat (map (\<lambda>is.
                [Aggregate (element_at v is)] @
                concat (map (\<lambda>f. block_layout f rml (nm @ subscripts is @ ''.'') (mapped @ subscripts is @ ''.'')
                                   (\<lambda>_. first is)) fs) @
                [Aggregate (element_at v is)])
              (index_lists (rev (sv_arraySizes a))))
         else if IsSamplerType (sv_type a) then []
         else map (\<lambda>is. Member (element_at v is) (rml \<and> IsMatrixType (sv_type a))
                      (nm @ subscripts is) (mapped @ subscripts is) (first is))
                (index_lists (rev (tl (sv_arraySizes a)))))"

declare block_layout.simps [simp del]

fun lay_out :: "encoder_kind \<Rightarrow> int \<Rightarrow> layout_op list \<Rightarrow> nat \<Rightarrow> (encode_call list \<times> nat) option" where
  "lay_out k stride [] offset = Some ([], offset)"
| "lay_out k stride (Aggregate v # ops) offset =
     Option.bind (enterAggregateType k v offset) (lay_out k stride ops)"
| "lay_out k stride (Member v rm nm mapped first # ops) offset =
     Option.bind
       (encodeType k (sv_type (sv_info v)) (if isArray v then [getNestedArraySize v 0] else []) rm offset)
       (\<lambda>(info, offset).
         map_option (map_prod ((#) (v, info\<lparr>bm_topLevelArrayStride := if first then stride else 0\<rparr>, nm, mapped)) id)
           (lay_out k stride ops offset))"

definition block_stride :: "encoder_kind \<Rightarrow> shader_variable \<Rightarrow> bool \<Rightarrow> int option" where
  "block_stride k v rm =
     (let rml = rm \<or> sv_isRowMajorLayout (sv_info v); t = sv_type (sv_info v)
      in if isStruct v
         then if isArray v
              then map_option (\<lambda>n. mul_int (sint (getInnerArraySizeProduct v)) (to_int n)) (getShaderVariableSize k v rml)
              else Some 0
         else if isArrayOfArrays v \<and> \<not> IsSamplerType t
         then map_option (\<lambda>(info, _). mul_int (sint (getInnerArraySizeProduct v)) (bm_arrayStride info))
                (encodeType k t [hd (array_dims v)] (rml \<and> IsMatrixType t) 0)
         else Some 0)"

definition first_of_array :: "u32 list \<Rightarrow> bool" where
  "first_of_array is \<longleftrightarrow> is \<noteq> [] \<and> hd is = 0"

fun lay_out_block ::
  "encoder_kind \<Rightarrow> shader_variable list \<Rightarrow> bool \<Rightarrow> string \<Rightarrow> string \<Rightarrow> nat \<Rightarrow> (encode_call list \<times> nat) option" where
  "lay_out_block k [] rm nm mapped offset = Some ([], offset)"
| "lay_out_block k (v # vs) rm nm mapped offset =
     Option.bind (block_stride k v rm) (\<lambda>stride.
       Option.bind (lay_out k stride (block_layout v rm nm mapped first_of_array) offset)
         (\<lambda>(calls, offset). map_option (map_prod ((@) calls) id) (lay_out_block k vs rm nm mapped offset)))"

section \<open>The visitors compute the layout\<close>

lemma runVisits_append: "runVisits k (xs @ ys) st = Option.bind (runVisits k xs st) (runVisits k ys)"
proof (induction xs arbitrary: st)
  case (Cons e xs)
  obtain s off where st: "st = (s, off)" by (cases st)
  show ?case
    by (cases e) (simp_all add: st Cons Let_def split: bind_split option.split)
qed (cases st; simp)

end
