(* ===== verification/Block_Traversal.thy ===== *)
theory Block_Traversal
  imports Block_Layout
begin

text \<open>
  The traversal with \<open>BlockEncoderVisitor\<close> computes the layout without visitors: the stacks are restored,
  the names are the paths, and the first element of a top-level array gets its stride.
\<close>

section \<open>What a run of visits encodes\<close>

definition emit :: "encode_call list \<Rightarrow> block_encoder_visitor \<Rightarrow> block_encoder_visitor" where
  "emit calls s = s\<lparr>mEncodeCalls := mEncodeCalls s @ calls\<rparr>"

text \<open>\<open>emits k stride s es ops s'\<close>: the visits lead from \<open>s\<close> to \<open>s'\<close> and encode what the operations lay out.\<close>

definition emits ::
  "encoder_kind \<Rightarrow> int \<Rightarrow> block_encoder_visitor \<Rightarrow> visit list \<Rightarrow> layout_op list \<Rightarrow> block_encoder_visitor \<Rightarrow> bool" where
  "emits k stride s es ops s' \<longleftrightarrow>
     (\<forall>calls offset. runVisits k es (emit calls s, offset) =
        map_option (map_prod (\<lambda>calls'. emit (calls @ calls') s') id) (lay_out k stride ops offset))"

lemma emit_Nil [simp]: "emit [] s = s"
  by (simp add: emit_def)

lemma emit_append: "emit calls' (emit calls s) = emit (calls @ calls') s"
  by (simp add: emit_def)

lemma lay_out_append:
  "lay_out k stride (xs @ ys) offset =
     Option.bind (lay_out k stride xs offset)
       (\<lambda>(calls, offset). map_option (map_prod ((@) calls) id) (lay_out k stride ys offset))"
proof (induction xs arbitrary: offset)
  case Nil
  then show ?case by (simp add: map_prod.id option.map_id id_def [symmetric] append_Nil [abs_def])
next
  case (Cons x xs)
  then show ?case
    by (cases x) (auto simp: Let_def option.map_comp comp_def map_prod_def case_prod_beta split: bind_split)
qed

lemma emits_Nil: "emits k stride s [] [] s"
  by (simp add: emits_def)

lemma emits_append:
  "emits k stride s es ops s' \<Longrightarrow> emits k stride s' es' ops' s'' \<Longrightarrow> emits k stride s (es @ es') (ops @ ops') s''"
  unfolding emits_def runVisits_append lay_out_append
  by (auto simp: option.map_comp comp_def map_prod_def case_prod_unfold split: bind_split)

lemma emits_concat:
  assumes "\<And>x. x \<in> set xs \<Longrightarrow> emits k stride s (f x) (g x) s"
  shows "emits k stride s (concat (map f xs)) (concat (map g xs)) s"
  using assms by (induction xs) (auto intro: emits_Nil emits_append)

lemma emits_steps:
  "emits k stride s [EnterStruct v] [] (nameVisit (EnterStruct v) s)"
  "emits k stride s [ExitStruct v] [] (nameVisit (ExitStruct v) s)"
  "emits k stride s [EnterArray v] [] (nameVisit (EnterArray v) s)"
  "emits k stride s [ExitArray v] [] (nameVisit (ExitArray v) s)"
  "emits k stride s [EnterArrayElement v i] [] (encoderEnterArrayElement v i s)"
  "emits k stride s [ExitArrayElement v i] [] (encoderExitArrayElement v i s)"
  "emits k stride s [ExitStructAccess v rm] [Aggregate v] (nameVisit (ExitStructAccess v rm) (s\<lparr>mStructStackSize := mStructStackSize s - 1\<rparr>))"
  "emits k stride s [VisitSampler v] [] s"
  by (auto simp: emits_def emit_def Let_def pushNames_def popNames_def exitAggregateType_def
      encoderEnterArrayElement_def encoderExitArrayElement_def split: bind_split)

lemma emits_access:
  "mIsTopLevelArrayStrideReady s \<Longrightarrow>
   emits k stride s [EnterStructAccess v rm] [Aggregate v]
     (nameVisit (EnterStructAccess v rm) (s\<lparr>mStructStackSize := mStructStackSize s + 1\<rparr>))"
  by (auto simp: emits_def emit_def Let_def pushNames_def split: bind_split)

lemma emits_variable:
  assumes "mIsTopLevelArrayStrideReady s" "(if first then stride else 0) = mTopLevelArrayStride s"
    and "visitNames v s = (nm, mapped)"
  shows "emits k stride s [VisitVariable v rm] [Member v rm nm mapped first] s"
proof -
  have "visitNames v (emit calls s) = (nm, mapped)" for calls
    using assms(3) by (cases "hasParentArrayIndex v") (simp_all add: visitNames_def emit_def pushNames_def Let_def)
  with assms(1,2) show ?thesis
    by (auto simp: emits_def emit_def encoderVisitVariable_def Let_def split: bind_split)
qed

declare getShaderVariableSize.simps [simp del]

section \<open>Variables as the compiler reports them\<close>

definition dims_size :: "shader_variable \<Rightarrow> nat" where
  "dims_size v = prod_list (map (\<lambda>n. max 1 (unat n)) (array_dims v))"

fun member_ok :: "shader_variable \<Rightarrow> bool" where
  "member_ok (ShaderVariable a fs) \<longleftrightarrow>
     sv_flattenedOffset a = -1 \<and> dims_size (ShaderVariable a fs) < 2 ^ 31 \<and> list_all member_ok fs"

definition element_ok :: "shader_variable \<Rightarrow> bool" where
  "element_ok v \<longleftrightarrow> 0 \<le> sv_flattenedOffset (sv_info v) \<and>
     (nat (sv_flattenedOffset (sv_info v)) + 1) * dims_size v < 2 ^ 31"

lemma unat_max_one: "unat (max n (1 :: u32)) = max 1 (unat n)"
  by (simp add: max_def word_le_nat_alt)

lemma array_elements_less: "i \<in> set (array_elements n) \<Longrightarrow> unat i < max 1 (unat n)"
proof -
  assume "i \<in> set (array_elements n)"
  then obtain j where j: "i = of_nat j" "j < unat (max n 1)" by (auto simp: array_elements_def)
  have "unat (max n 1) < 2 ^ 32" by (rule order_less_le_trans [OF unsigned_less]) simp
  with j have "unat i = j" by (simp add: unat_of_nat take_bit_nat_eq_self)
  moreover have "unat (max n 1) = max 1 (unat n)" by (rule unat_max_one)
  ultimately show ?thesis using j by simp
qed

lemma index_ok:
  assumes v: "array_dims v \<noteq> []" "i \<in> set (array_elements (getOutermostArraySize v))"
    and ok: "element_ok v \<or> sv_flattenedOffset (sv_info v) = -1 \<and> dims_size v < 2 ^ 31"
  shows "element_ok (indexIntoArray i v)"
proof -
  obtain ds d where d: "array_dims v = ds @ [d]" using v(1) by (metis rev_exhaust)
  have outer: "getOutermostArraySize v = d" by (simp add: getOutermostArraySize_def isArray_def d)
  define p where "p = nat (parentArrayIndex v)"
  define R where "R = prod_list (map (\<lambda>n. max 1 (unat n)) ds)"
  have p: "parentArrayIndex v = int p" using ok by (auto simp: p_def parentArrayIndex_def element_ok_def)
  have dims: "dims_size v = R * max 1 (unat d)" by (simp add: dims_size_def d R_def)
  have lim: "(p + 1) * dims_size v < 2 ^ 31"
    using ok by (auto simp: p_def parentArrayIndex_def element_ok_def)
  have R: "1 \<le> R" unfolding R_def by (induction ds) auto
  have i: "unat i < max 1 (unat d)" using array_elements_less v(2) outer by simp
  define q where "q = unat i + unat d * p"
  have "q + 1 \<le> (p + 1) * max 1 (unat d)"
    using i unfolding q_def by (cases "unat d = 0") (auto simp: max_def algebra_simps)
  then have "(q + 1) * R \<le> (p + 1) * max 1 (unat d) * R" by (rule mult_le_mono1)
  then have qR: "(q + 1) * R < 2 ^ 31" using lim unfolding dims by (simp add: ac_simps)
  then have q: "q < 2 ^ 31" using R by (metis Suc_eq_plus1 Suc_lessD add_lessD1 mult.right_neutral mult_le_mono2 order_le_less_trans)
  have "of_nat q = i + d * (of_int (parentArrayIndex v) :: u32)"
    by (simp add: q_def p)
  then have "sv_flattenedOffset (sv_info (indexIntoArray i v)) = sint (of_nat q :: u32)"
    by (simp add: indexIntoArray_def outer)
  also have "\<dots> = int q" using q by (simp add: signed_of_nat signed_take_bit_int_eq_self)
  finally have "sv_flattenedOffset (sv_info (indexIntoArray i v)) = int q" .
  moreover have "dims_size (indexIntoArray i v) = R" by (simp add: dims_size_def d R_def)
  ultimately show ?thesis using qR by (simp add: element_ok_def)
qed

section \<open>Inside an aggregate\<close>

abbreviation names_of :: "block_encoder_visitor \<Rightarrow> string" where
  "names_of s \<equiv> concat (mNameStack s)"

abbreviation mapped_of :: "block_encoder_visitor \<Rightarrow> string" where
  "mapped_of s \<equiv> concat (mMappedNameStack s)"

definition fields_layout :: "shader_variable \<Rightarrow> bool \<Rightarrow> string \<Rightarrow> string \<Rightarrow> bool \<Rightarrow> layout_op list" where
  "fields_layout v rm nm mapped b =
     [Aggregate v] @
     concat (map (\<lambda>f. block_layout f rm (nm @ ''.'') (mapped @ ''.'') (\<lambda>_. b)) (sv_fields v)) @
     [Aggregate v]"

text \<open>What is known of the fields of a structure by induction.\<close>

definition fields_emit :: "encoder_kind \<Rightarrow> int \<Rightarrow> shader_variable list \<Rightarrow> bool \<Rightarrow> bool" where
  "fields_emit k stride fs b \<longleftrightarrow>
     (\<forall>f \<in> set fs. \<forall>s rm. mIsTopLevelArrayStrideReady s \<longrightarrow> 0 < mStructStackSize s \<longrightarrow>
        (if b then stride else 0) = mTopLevelArrayStride s \<longrightarrow>
        emits k stride s (TraverseShaderVariable f rm)
          (block_layout f rm (names_of s) (mapped_of s) (\<lambda>_. b)) s)"

lemma emits_struct:
  assumes "fields_emit k stride (sv_fields v) b" "mIsTopLevelArrayStrideReady s"
    and "(if b then stride else 0) = mTopLevelArrayStride s"
  shows "emits k stride s (TraverseStructVariable v rm) (fields_layout v rm (names_of s) (mapped_of s) b) s"
proof -
  let ?s = "nameVisit (EnterStructAccess v rm) (s\<lparr>mStructStackSize := mStructStackSize s + 1\<rparr>)"
  have "emits k stride ?s (concat (map (\<lambda>f. TraverseShaderVariable f rm) (sv_fields v)))
     (concat (map (\<lambda>f. block_layout f rm (names_of s @ ''.'') (mapped_of s @ ''.'') (\<lambda>_. b)) (sv_fields v))) ?s"
  proof (rule emits_concat)
    fix f assume "f \<in> set (sv_fields v)"
    moreover have "names_of ?s = names_of s @ ''.''" "mapped_of ?s = mapped_of s @ ''.''"
      "mIsTopLevelArrayStrideReady ?s" "0 < mStructStackSize ?s" "mTopLevelArrayStride ?s = mTopLevelArrayStride s"
      using assms(2) by (simp_all add: pushNames_def)
    ultimately show "emits k stride ?s (TraverseShaderVariable f rm)
        (block_layout f rm (names_of s @ ''.'') (mapped_of s @ ''.'') (\<lambda>_. b)) ?s"
      using assms(1,3) unfolding fields_emit_def by metis
  qed
  moreover have "emits k stride ?s [ExitStructAccess v rm] [Aggregate v] s"
    using emits_steps(7) [of k stride ?s v rm] by (simp add: pushNames_def popNames_def)
  ultimately show ?thesis
    unfolding fields_layout_def TraverseStructVariable.simps
    by (rule emits_append [OF emits_access [OF assms(2)] emits_append])
qed

lemma subscripts_simps [simp]: "subscripts [] = []" "subscripts (i # is) = ArrayString i @ subscripts is"
  by (simp_all add: subscripts_def)

lemma element_at_simps [simp]: "element_at v [] = v" "element_at v (i # is) = element_at (indexIntoArray i v) is"
  by (simp_all add: element_at_def)

lemma nested_size [simp]: "array_dims v \<noteq> [] \<Longrightarrow> getNestedArraySize v 0 = last (array_dims v)"
  by (simp add: getNestedArraySize_def last_conv_nth)

text \<open>\<open>inner s v\<close>: entering the elements of \<open>v\<close> does not start a top-level array.\<close>

definition inner :: "block_encoder_visitor \<Rightarrow> shader_variable \<Rightarrow> bool" where
  "inner s v \<longleftrightarrow> (0 < mStructStackSize s \<or> hasParentArrayIndex v) \<and>
     (element_ok v \<or> sv_flattenedOffset (sv_info v) = -1 \<and> dims_size v < 2 ^ 31)"

lemma inner_index:
  assumes "inner s v" "array_dims v \<noteq> []" "i \<in> set (array_elements (last (array_dims v)))"
  shows "inner s (indexIntoArray i v)" "element_ok (indexIntoArray i v)"
proof -
  show ok: "element_ok (indexIntoArray i v)"
    by (rule index_ok) (use assms in \<open>auto simp: inner_def getOutermostArraySize_def isArray_def\<close>)
  then show "inner s (indexIntoArray i v)" by (auto simp: inner_def element_ok_def hasParentArrayIndex_def)
qed

lemma concat_map_concat: "concat (map F (concat xss)) = concat (map (\<lambda>xs. concat (map F xs)) xss)"
  by (induction xss) auto

lemma rev_dims: "array_dims v \<noteq> [] \<Longrightarrow> rev (array_dims v) = last (array_dims v) # rev (butlast (array_dims v))"
  by (metis rev.simps(2) rev_rev_ident append_butlast_last_id rev_eq_Cons_iff)

definition struct_visits :: "shader_variable \<Rightarrow> bool \<Rightarrow> visit list" where
  "struct_visits v rm = (if array_dims v \<noteq> [] then TraverseStructArrayVariable v rm else TraverseStructVariable v rm)"

definition basic_visits :: "shader_variable \<Rightarrow> bool \<Rightarrow> visit list" where
  "basic_visits v rm =
     (if isArrayOfArrays v then TraverseArrayOfArraysVariable v 0 rm
      else if IsSamplerType (sv_type (sv_info v)) then [VisitSampler v] else [VisitVariable v rm])"

abbreviation element_visits :: "(shader_variable \<Rightarrow> bool \<Rightarrow> visit list) \<Rightarrow> shader_variable \<Rightarrow> bool \<Rightarrow> u32 \<Rightarrow> visit list" where
  "element_visits visits v rm i \<equiv>
     [EnterArrayElement v i] @ visits (indexIntoArray i v) rm @ [ExitArrayElement v i]"

lemma struct_visits_array:
  "array_dims v \<noteq> [] \<Longrightarrow> struct_visits v rm = [EnterArray v] @
     concat (map (element_visits struct_visits v rm) (array_elements (last (array_dims v)))) @ [ExitArray v]"
proof -
  assume "array_dims v \<noteq> []"
  moreover have "1 < length ds \<longleftrightarrow> butlast ds \<noteq> []" for ds :: "u32 list"
    by (cases ds rule: rev_cases) (auto simp: neq_Nil_conv)
  ultimately show ?thesis
    by (simp add: struct_visits_def TraverseStructArrayVariable.simps [of v rm] Let_def cong: map_cong if_cong)
qed

lemma basic_visits_array:
  "isArrayOfArrays v \<Longrightarrow> basic_visits v rm = [EnterArray v] @
     concat (map (element_visits basic_visits v rm) (array_elements (last (array_dims v)))) @ [ExitArray v]"
proof -
  assume v: "isArrayOfArrays v"
  then have "array_dims v \<noteq> []" by (auto simp: isArrayOfArrays_def)
  moreover have "isArrayOfArrays (indexIntoArray i v) \<longleftrightarrow> 2 < length (array_dims v)" for i
    using v by (auto simp: isArrayOfArrays_def)
  ultimately show ?thesis
    using v by (simp add: basic_visits_def TraverseArrayOfArraysVariable.simps [of v 0 rm] Let_def numeral_2_eq_2
        cong: map_cong if_cong)
qed

text \<open>The loop over the elements of an array inside an aggregate or another array.\<close>

lemma element_steps:
  assumes "inner s v"
  shows "encoderEnterArrayElement v i s = nameVisit (EnterArrayElement v i) s"
    "encoderExitArrayElement v i (nameVisit (EnterArrayElement v i) s) = s"
    "mIsTopLevelArrayStrideReady (nameVisit (EnterArrayElement v i) s) = mIsTopLevelArrayStrideReady s"
    "mTopLevelArrayStride (nameVisit (EnterArrayElement v i) s) = mTopLevelArrayStride s"
    "names_of (nameVisit (EnterArrayElement v i) s) = names_of s @ ArrayString i"
    "mapped_of (nameVisit (EnterArrayElement v i) s) = mapped_of s @ ArrayString i"
    "inner (nameVisit (EnterArrayElement v i) s) w = inner s w"
  using assms
  by (auto simp: inner_def encoderEnterArrayElement_def encoderExitArrayElement_def pushNames_def popNames_def)

lemma exit_array: "nameVisit (ExitArray v) (nameVisit (EnterArray v) s) = s"
  by (cases "hasParentArrayIndex v"; cases "isStruct v") (simp_all add: pushNames_def popNames_def)

lemma emits_elements:
  assumes "inner s v"
    and "\<And>i. i \<in> set (array_elements n) \<Longrightarrow>
      emits k stride (nameVisit (EnterArrayElement v i) s) (visits (indexIntoArray i v) rm)
        (concat (map (\<lambda>is. ops (i # is)) (index_lists ns))) (nameVisit (EnterArrayElement v i) s)"
  shows "emits k stride s (concat (map (element_visits visits v rm) (array_elements n)))
     (concat (map ops (index_lists (n # ns)))) s"
proof -
  have "emits k stride s (element_visits visits v rm i) (concat (map ops (map ((#) i) (index_lists ns)))) s"
    if i: "i \<in> set (array_elements n)" for i
    using emits_append [OF emits_steps(5) [of k stride s v i] emits_append [OF
        assms(2) [OF i, folded element_steps(1) [OF assms(1)]] emits_steps(6) [of k stride _ v i]]]
    unfolding element_steps(1,2) [OF assms(1)] by (simp add: comp_def)
  from emits_concat [OF this] show ?thesis by (simp add: concat_map_concat comp_def)
qed

lemma emits_struct_array:
  assumes "fields_emit k stride (sv_fields v) b" "(if b then stride else 0) = mTopLevelArrayStride s"
    and "mIsTopLevelArrayStrideReady s" "isStruct v" "array_dims v = [] \<or> inner s v"
  shows "emits k stride s (struct_visits v rm)
    (concat (map (\<lambda>is. fields_layout (element_at v is) rm (names_of s @ subscripts is) (mapped_of s @ subscripts is) b)
       (index_lists (rev (array_dims v))))) s"
  using assms
proof (induction "length (array_dims v)" arbitrary: v s)
  case 0
  then show ?case using emits_struct by (simp add: struct_visits_def)
next
  case (Suc n)
  then have v: "array_dims v \<noteq> []" "inner s v" by auto
  let ?s = "nameVisit (EnterArray v) s"
  have s: "names_of ?s = names_of s" "mapped_of ?s = mapped_of s" "mIsTopLevelArrayStrideReady ?s"
    "mTopLevelArrayStride ?s = mTopLevelArrayStride s" "inner ?s w = inner s w" for w
    using Suc.prems(3,4) by (simp_all add: Let_def inner_def)
  note at = element_steps [of ?s v, unfolded s, OF v(2)]
  have "emits k stride (nameVisit (EnterArrayElement v i) ?s) (struct_visits (indexIntoArray i v) rm)
      (concat (map (\<lambda>is. fields_layout (element_at v (i # is)) rm
          (names_of s @ subscripts (i # is)) (mapped_of s @ subscripts (i # is)) b)
         (index_lists (rev (butlast (array_dims v)))))) (nameVisit (EnterArrayElement v i) ?s)"
    if i: "i \<in> set (array_elements (last (array_dims v)))" for i
    using Suc.hyps(1) [of "indexIntoArray i v" "nameVisit (EnterArrayElement v i) ?s"]
      Suc.hyps(2) Suc.prems(1-4) at s inner_index(1) [OF v(2,1) i] by simp
  moreover have "inner ?s v" using v(2) s(5) by simp
  ultimately have "emits k stride ?s (concat (map (element_visits struct_visits v rm) (array_elements (last (array_dims v)))))
     (concat (map (\<lambda>is. fields_layout (element_at v is) rm (names_of s @ subscripts is) (mapped_of s @ subscripts is) b)
       (index_lists (rev (array_dims v))))) ?s"
    unfolding rev_dims [OF v(1)] by (intro emits_elements)
  moreover have "emits k stride ?s [ExitArray v] [] s"
    using emits_steps(4) [of k stride ?s v] unfolding exit_array .
  ultimately show ?case
    unfolding struct_visits_array [OF v(1)]
    using emits_append [OF emits_steps(3) emits_append] by fastforce
qed

definition basic_layout :: "shader_variable \<Rightarrow> bool \<Rightarrow> string \<Rightarrow> string \<Rightarrow> bool \<Rightarrow> u32 list \<Rightarrow> layout_op list" where
  "basic_layout v rm nm mapped b is =
     (if IsSamplerType (sv_type (sv_info v)) then []
      else [Member (element_at v is) rm (nm @ subscripts is) (mapped @ subscripts is) b])"

lemma concat_nothing [simp]: "concat (map (\<lambda>_. []) xs) = []"
  by (induction xs) simp_all

lemma basic_layout_sampler:
  "IsSamplerType (sv_type (sv_info v)) \<Longrightarrow> basic_layout v = (\<lambda>rm nm mapped b is. [])"
  by (simp add: basic_layout_def fun_eq_iff)

lemma basic_layout_Cons:
  "(\<lambda>is. basic_layout v rm nm mapped b (i # is)) =
   basic_layout (indexIntoArray i v) rm (nm @ ArrayString i) (mapped @ ArrayString i) b"
  by (simp add: basic_layout_def fun_eq_iff)

abbreviation own_name :: "(var_info \<Rightarrow> string) \<Rightarrow> shader_variable \<Rightarrow> string" where
  "own_name sel v \<equiv> if hasParentArrayIndex v then [] else sel (sv_info v)"

lemma emits_basic_array:
  assumes "IsSamplerType (sv_type (sv_info v)) \<or>
      (if b then stride else 0) = mTopLevelArrayStride s \<and> mIsTopLevelArrayStrideReady s"
    and "\<not> isStruct v" "\<not> isArrayOfArrays v \<or> inner s v"
  shows "emits k stride s (basic_visits v rm)
    (concat (map (basic_layout v rm (names_of s @ own_name sv_name v) (mapped_of s @ own_name sv_mappedName v) b)
       (index_lists (rev (tl (array_dims v)))))) s"
  using assms
proof (induction "length (array_dims v)" arbitrary: v s rule: less_induct)
  case less
  show ?case
  proof (cases "isArrayOfArrays v")
    case False
    then have "tl (array_dims v) = []" by (cases "array_dims v") (auto simp: isArrayOfArrays_def Suc_le_eq)
    moreover have "visitNames v s = (names_of s @ own_name sv_name v, mapped_of s @ own_name sv_mappedName v)"
      by (simp add: visitNames_def pushNames_def CollapseNameStack_def Let_def)
    ultimately show ?thesis
      using False emits_steps(8) [of k stride s v] less.prems(1)
        emits_variable [of s b stride v _ _ k rm]
      by (auto simp: basic_visits_def basic_layout_def)
  next
    case True
    then have v: "array_dims v \<noteq> []" "inner s v" "1 < length (array_dims v)"
      using less.prems(3) by (auto simp: isArrayOfArrays_def)
    let ?s = "nameVisit (EnterArray v) s"
    have s: "names_of ?s = names_of s @ own_name sv_name v" "mapped_of ?s = mapped_of s @ own_name sv_mappedName v"
      "mIsTopLevelArrayStrideReady ?s = mIsTopLevelArrayStrideReady s"
      "mTopLevelArrayStride ?s = mTopLevelArrayStride s" "inner ?s w = inner s w" for w
      using less.prems(2) by (simp_all add: Let_def inner_def pushNames_def)
    note at = element_steps [of ?s v, unfolded s, OF v(2)]
    have parent: "hasParentArrayIndex (indexIntoArray i v)" if "i \<in> set (array_elements (last (array_dims v)))" for i
      using inner_index(2) [OF v(2,1) that] by (auto simp: element_ok_def hasParentArrayIndex_def)
    have dims: "rev (tl (array_dims v)) = last (array_dims v) # rev (tl (butlast (array_dims v)))"
      using v(3) by (cases "array_dims v") (auto simp: rev_dims [symmetric] rev_eq_Cons_iff)
    have "emits k stride (nameVisit (EnterArrayElement v i) ?s) (basic_visits (indexIntoArray i v) rm)
        (concat (map (\<lambda>is. basic_layout v rm (names_of s @ own_name sv_name v) (mapped_of s @ own_name sv_mappedName v) b (i # is))
           (index_lists (rev (tl (butlast (array_dims v))))))) (nameVisit (EnterArrayElement v i) ?s)"
      if i: "i \<in> set (array_elements (last (array_dims v)))" for i
      using less.hyps [of "indexIntoArray i v" "nameVisit (EnterArrayElement v i) ?s"]
        v less.prems(1,2) at s inner_index(1) [OF v(2,1) i] parent [OF i] by (simp add: basic_layout_Cons)
    moreover have "inner ?s v" using v(2) s(5) by simp
    ultimately have "emits k stride ?s (concat (map (element_visits basic_visits v rm) (array_elements (last (array_dims v)))))
      (concat (map (basic_layout v rm (names_of s @ own_name sv_name v) (mapped_of s @ own_name sv_mappedName v) b)
         (index_lists (rev (tl (array_dims v)))))) ?s"
      unfolding dims by (intro emits_elements)
    moreover have "emits k stride ?s [ExitArray v] [] s"
      using emits_steps(4) [of k stride ?s v] unfolding exit_array .
    ultimately show ?thesis
      unfolding basic_visits_array [OF True]
      using emits_append [OF emits_steps(3) emits_append] by fastforce
  qed
qed

lemma traverse_visits:
  "TraverseShaderVariable v rm =
     (let rml = rm \<or> sv_isRowMajorLayout (sv_info v)
      in if isStruct v then [EnterStruct v] @ struct_visits v rml @ [ExitStruct v]
         else basic_visits v (rml \<and> IsMatrixType (sv_type (sv_info v))))"
  by (simp add: TraverseShaderVariable.simps [of v rm] struct_visits_def basic_visits_def isArray_def Let_def)

lemma block_layout_visits:
  "block_layout v rm nm mapped first =
     (let rml = rm \<or> sv_isRowMajorLayout (sv_info v);
          nm = nm @ sv_name (sv_info v); mapped = mapped @ sv_mappedName (sv_info v)
      in if isStruct v
         then concat (map (\<lambda>is. fields_layout (element_at v is) rml (nm @ subscripts is) (mapped @ subscripts is) (first is))
                (index_lists (rev (array_dims v))))
         else concat (map (\<lambda>is. basic_layout v (rml \<and> IsMatrixType (sv_type (sv_info v))) nm mapped (first is) is)
                (index_lists (rev (tl (array_dims v))))))"
proof -
  obtain a fs where v: "v = ShaderVariable a fs" by (cases v)
  have fs: "sv_fields (element_at v is) = sv_fields v" for "is"
    by (induction "is" arbitrary: v) simp_all
  have one: "concat (map (\<lambda>x. [f x]) xs) = map f xs" for f :: "u32 list \<Rightarrow> layout_op" and xs
    by (induction xs) auto
  have "concat (map (\<lambda>x. []) xs) = []" for xs :: "u32 list list" by (induction xs) auto
  with fs one show ?thesis
    by (simp add: v block_layout.simps isStruct_def fields_layout_def basic_layout_def Let_def)
qed

lemma member_ok_dims:
  "member_ok v \<Longrightarrow> \<not> hasParentArrayIndex v \<and> sv_flattenedOffset (sv_info v) = -1 \<and> dims_size v < 2 ^ 31 \<and>
     list_all member_ok (sv_fields v)"
  by (cases v) (simp add: hasParentArrayIndex_def)

lemma emits_nested:
  assumes "member_ok v" "mIsTopLevelArrayStrideReady s" "0 < mStructStackSize s"
    and "(if b then stride else 0) = mTopLevelArrayStride s"
  shows "emits k stride s (TraverseShaderVariable v rm) (block_layout v rm (names_of s) (mapped_of s) (\<lambda>_. b)) s"
  using assms
proof (induction v arbitrary: s rm rule: measure_induct_rule [of size])
  case (less v)
  note ok = member_ok_dims [OF less.prems(1)]
  have "fields_emit k stride (sv_fields v) b"
    unfolding fields_emit_def using less.IH [OF size_field] ok by (metis list_all_iff)
  moreover have inner: "inner s' v" if "mStructStackSize s' = mStructStackSize s" for s'
    using that ok less.prems(3) by (simp add: inner_def)
  moreover let ?s = "nameVisit (EnterStruct v) s"
  have s: "names_of ?s = names_of s @ sv_name (sv_info v)" "mapped_of ?s = mapped_of s @ sv_mappedName (sv_info v)"
    "mIsTopLevelArrayStrideReady ?s" "mTopLevelArrayStride ?s = mTopLevelArrayStride s"
    "mStructStackSize ?s = mStructStackSize s" "nameVisit (ExitStruct v) ?s = s"
    using less.prems(2) by (simp_all add: pushNames_def popNames_def)
  let ?rml = "rm \<or> sv_isRowMajorLayout (sv_info v)"
  show ?case
  proof (cases "isStruct v")
    case True
    have "emits k stride ?s (struct_visits v ?rml)
      (concat (map (\<lambda>is. fields_layout (element_at v is) ?rml (names_of ?s @ subscripts is) (mapped_of ?s @ subscripts is) b)
        (index_lists (rev (array_dims v))))) ?s"
      by (rule emits_struct_array) (use calculation less.prems(4) s True in auto)
    from emits_append [OF emits_steps(1) emits_append [OF this emits_steps(2) [of k stride ?s v, unfolded s(6)]]]
    show ?thesis using True unfolding traverse_visits block_layout_visits s by (simp add: Let_def)
  next
    case False
    have "emits k stride s (basic_visits v (?rml \<and> IsMatrixType (sv_type (sv_info v))))
      (concat (map (basic_layout v (?rml \<and> IsMatrixType (sv_type (sv_info v))) (names_of s @ own_name sv_name v)
         (mapped_of s @ own_name sv_mappedName v) b) (index_lists (rev (tl (array_dims v)))))) s"
      by (rule emits_basic_array) (use inner less.prems False in auto)
    then show ?thesis using False ok unfolding traverse_visits block_layout_visits by (simp add: Let_def)
  qed
qed

section \<open>Top-level arrays\<close>

definition at_top :: "block_encoder_visitor \<Rightarrow> bool" where
  "at_top s \<longleftrightarrow> mTopLevelArraySize s = 1 \<and> mTopLevelArrayStride s = 0 \<and> mIsTopLevelArrayStrideReady s \<and>
     \<not> mSkipEnabled s \<and> mStructStackSize s = 0"

definition settle :: "int \<Rightarrow> block_encoder_visitor \<Rightarrow> block_encoder_visitor" where
  "settle n s = s\<lparr>mTopLevelArrayStride := mul_int (mTopLevelArrayStride s) n, mIsTopLevelArrayStrideReady := True\<rparr>"

lemma settle_simps [simp]:
  "nameVisit e (settle n s) = settle n (nameVisit e s)" "inner (settle n s) v = inner s v"
  "emit calls (settle n s) = settle n (emit calls s)" "mStructStackSize (settle n s) = mStructStackSize s"
  "mIsTopLevelArrayStrideReady (settle n s)" "names_of (settle n s) = names_of s" "mapped_of (settle n s) = mapped_of s"
  "mTopLevelArrayStride (settle n s) = mul_int (mTopLevelArrayStride s) n"
  by (cases e) (auto simp: settle_def emit_def pushNames_def popNames_def inner_def Let_def)

lemma array_elements_hd: "\<exists>rest. array_elements n = 0 # rest \<and> 0 \<notin> set rest"
proof -
  have pos: "0 < unat (max n 1)" by (simp add: unat_max_one)
  have "unat (max n 1) \<le> 2 ^ 32" by (rule less_imp_le, rule order_less_le_trans [OF unsigned_less]) simp
  then have "distinct (array_elements n)"
    unfolding array_elements_def distinct_map
    by (auto intro!: inj_on_inverseI [of _ unat] simp: unat_of_nat take_bit_nat_eq_self)
  moreover have "array_elements n = 0 # map of_nat [1..<unat (max n 1)]"
    using pos by (simp add: array_elements_def upt_conv_Cons)
  ultimately show ?thesis by (metis distinct.simps(2))
qed

lemma size_index_var [simp]:
  "isStruct v \<Longrightarrow> getShaderVariableSize k (indexIntoArray i v) rm = getShaderVariableSize k v rm"
proof -
  assume "isStruct v"
  then have "enterAggregateType k (indexIntoArray i v) n = enterAggregateType k v n" for n
    by (cases k) (simp_all add: enterAggregateType_def)
  then show ?thesis by (simp add: getShaderVariableSize.simps exitAggregateType_def)
qed

lemma settle_struct:
  assumes "\<not> mIsTopLevelArrayStrideReady s" "isStruct v" "array_dims v = [] \<or> inner s v"
  shows "runVisits k (struct_visits v rm) (s, offset) =
    Option.bind (getShaderVariableSize k v rm) (\<lambda>n. runVisits k (struct_visits v rm) (settle (to_int n) s, offset))"
  using assms
proof (induction "length (array_dims v)" arbitrary: v s)
  case 0
  have comm: "s\<lparr>mTopLevelArrayStride := x, mIsTopLevelArrayStrideReady := True, mStructStackSize := y\<rparr> =
    s\<lparr>mStructStackSize := y, mTopLevelArrayStride := x, mIsTopLevelArrayStrideReady := True\<rparr>" for x y by simp
  with 0 show ?case
    by (cases "getShaderVariableSize k v rm")
      (simp_all add: struct_visits_def TraverseStructVariable.simps [of v rm] Let_def settle_def comm del: getShaderVariableSize.simps)
next
  case (Suc n)
  then have v: "array_dims v \<noteq> []" "inner s v" by auto
  obtain rest where rest: "array_elements (last (array_dims v)) = 0 # rest" using array_elements_hd by blast
  let ?tail = "[ExitArrayElement v 0] @ concat (map (element_visits struct_visits v rm) rest) @ [ExitArray v]"
  have split: "struct_visits v rm = EnterArray v # EnterArrayElement v 0 # (struct_visits (indexIntoArray 0 v) rm @ ?tail)"
    unfolding struct_visits_array [OF v(1)] rest by simp
  let ?s = "nameVisit (EnterArrayElement v 0) (nameVisit (EnterArray v) s)"
  have inner: "inner (nameVisit (EnterArray v) s') w = inner s' w" for s' w
    using Suc.prems(2) by (simp add: inner_def Let_def)
  have enter: "runVisits k (struct_visits v rm) (s', offset) =
      Option.bind (runVisits k (struct_visits (indexIntoArray 0 v) rm)
         (nameVisit (EnterArrayElement v 0) (nameVisit (EnterArray v) s'), offset)) (runVisits k ?tail)"
    if "inner s' v" for s'
    unfolding split using that element_steps(1) [of "nameVisit (EnterArray v) s'" v 0] inner
    by (simp add: runVisits_append)
  have "runVisits k (struct_visits (indexIntoArray 0 v) rm) (?s, offset) =
      Option.bind (getShaderVariableSize k v rm) (\<lambda>n. runVisits k (struct_visits (indexIntoArray 0 v) rm) (settle (to_int n) ?s, offset))"
    using Suc.hyps(1) [of "indexIntoArray 0 v" ?s] Suc.hyps(2) Suc.prems inner_index(1) [OF v(2,1), of 0]
      element_steps [of "nameVisit (EnterArray v) s" v 0] inner v rest
    by (simp add: Let_def pushNames_def del: getShaderVariableSize.simps)
  then show ?case
    using enter [OF v(2)] enter [of "settle (to_int n) s" for n] v(2)
    by (simp del: getShaderVariableSize.simps nameVisit.simps)
qed

lemma encodeType_stride:
  "map_option (bm_arrayStride \<circ> fst) (encodeType k t ds rm offset) = map_option (bm_arrayStride \<circ> fst) (encodeType k t ds rm 0)"
  by (simp add: encodeType_def getBlockLayoutInfo_def roundUp_def Let_def option.map_comp comp_def split: prod.splits)

lemma settle_basic:
  assumes "\<not> mIsTopLevelArrayStrideReady s" "\<not> isStruct v" "\<not> IsSamplerType (sv_type (sv_info v))"
    and "\<not> isArrayOfArrays v \<or> inner s v" "array_dims v \<noteq> []"
  shows "runVisits k (basic_visits v rm) (s, offset) =
    Option.bind (map_option (bm_arrayStride \<circ> fst) (encodeType k (sv_type (sv_info v)) [hd (array_dims v)] rm 0))
      (\<lambda>n. runVisits k (basic_visits v rm) (settle n s, offset))"
  using assms
proof (induction "length (array_dims v)" arbitrary: v s rule: less_induct)
  case less
  show ?case
  proof (cases "isArrayOfArrays v")
    case False
    then have "getNestedArraySize v 0 = hd (array_dims v)" "isArray v"
      using less.prems(5) by (cases "array_dims v"; auto simp: isArrayOfArrays_def isArray_def Suc_le_eq)+
    moreover have "visitNames v (settle n s) = visitNames v s" for n
      by (simp add: visitNames_def settle_def pushNames_def)
    ultimately show ?thesis
      using False less.prems(1,3) encodeType_stride [of k "sv_type (sv_info v)" "[hd (array_dims v)]" rm offset]
      by (cases "encodeType k (sv_type (sv_info v)) [hd (array_dims v)] rm offset";
          cases "encodeType k (sv_type (sv_info v)) [hd (array_dims v)] rm 0")
        (auto simp: basic_visits_def encoderVisitVariable_def settle_def Let_def split: prod.splits)
  next
    case True
    then have v: "array_dims v \<noteq> []" "inner s v" "1 < length (array_dims v)"
      using less.prems(4) by (auto simp: isArrayOfArrays_def)
    obtain rest where rest: "array_elements (last (array_dims v)) = 0 # rest" using array_elements_hd by blast
    let ?tail = "[ExitArrayElement v 0] @ concat (map (element_visits basic_visits v rm) rest) @ [ExitArray v]"
    have split: "basic_visits v rm = EnterArray v # EnterArrayElement v 0 # (basic_visits (indexIntoArray 0 v) rm @ ?tail)"
      unfolding basic_visits_array [OF True] rest by simp
    let ?s = "nameVisit (EnterArrayElement v 0) (nameVisit (EnterArray v) s)"
    have inner: "inner (nameVisit (EnterArray v) s') w = inner s' w" for s' w
      by (simp add: inner_def Let_def pushNames_def)
    have ready: "mIsTopLevelArrayStrideReady ?s = mIsTopLevelArrayStrideReady s"
      by (simp add: Let_def pushNames_def)
    have enter: "runVisits k (basic_visits v rm) (s', offset) =
        Option.bind (runVisits k (basic_visits (indexIntoArray 0 v) rm)
           (nameVisit (EnterArrayElement v 0) (nameVisit (EnterArray v) s'), offset)) (runVisits k ?tail)"
      if "inner s' v" for s'
      unfolding split using that element_steps(1) [of "nameVisit (EnterArray v) s'" v 0] inner
      by (simp add: runVisits_append)
    have hd: "hd (butlast (array_dims v)) = hd (array_dims v)" "butlast (array_dims v) \<noteq> []"
      using v(3) by (cases "array_dims v"; auto)+
    have "runVisits k (basic_visits (indexIntoArray 0 v) rm) (?s, offset) =
        Option.bind (map_option (bm_arrayStride \<circ> fst) (encodeType k (sv_type (sv_info v)) [hd (array_dims v)] rm 0))
          (\<lambda>n. runVisits k (basic_visits (indexIntoArray 0 v) rm) (settle n ?s, offset))"
      using less.hyps [of "indexIntoArray 0 v" ?s] less.prems(1-3) inner_index(1) [OF v(2,1), of 0]
        element_steps(7) [of "nameVisit (EnterArray v) s" v 0] inner v rest hd ready
      by (simp del: nameVisit.simps)
    then show ?thesis
      using enter [OF v(2)] enter [of "settle n s" for n] v(2) by (simp del: nameVisit.simps)
  qed
qed

text \<open>
  The loop over the elements of a top-level array. In the first element the stride is settled from the
  factor \<open>X\<close>; the others keep the stride 0.
\<close>

definition first_element :: "shader_variable \<Rightarrow> block_encoder_visitor \<Rightarrow> block_encoder_visitor" where
  "first_element v s = encoderEnterArrayElement v 0 s"

lemma first_element_steps:
  assumes "at_top s" "\<not> hasParentArrayIndex v"
  shows "\<not> mIsTopLevelArrayStrideReady (first_element v s)"
    "mTopLevelArrayStride (first_element v s) = sint (getInnerArraySizeProduct v)"
    "encoderExitArrayElement v 0 (settle n (first_element v s)) = s"
    "names_of (first_element v s) = names_of s @ ArrayString 0"
    "mapped_of (first_element v s) = mapped_of s @ ArrayString 0"
    "encoderEnterArrayElement v 0 (emit calls s) = emit calls (first_element v s)"
  using assms by (simp_all add: first_element_def encoderEnterArrayElement_def encoderExitArrayElement_def
      at_top_def settle_def pushNames_def popNames_def emit_def)

lemma later_element_steps:
  assumes "at_top s" "\<not> hasParentArrayIndex v" "i \<noteq> 0"
  shows "mIsTopLevelArrayStrideReady (encoderEnterArrayElement v i s)"
    "mTopLevelArrayStride (encoderEnterArrayElement v i s) = 0"
    "encoderExitArrayElement v i (encoderEnterArrayElement v i s) = s"
    "names_of (encoderEnterArrayElement v i s) = names_of s @ ArrayString i"
    "mapped_of (encoderEnterArrayElement v i s) = mapped_of s @ ArrayString i"
  using assms by (simp_all add: encoderEnterArrayElement_def encoderExitArrayElement_def
      at_top_def pushNames_def popNames_def)

lemma top_loop:
  assumes s: "at_top s" "\<not> hasParentArrayIndex v"
    and settled: "\<And>calls offset. runVisits k (visits (indexIntoArray 0 v) rm) (emit calls (first_element v s), offset) =
      Option.bind X (\<lambda>n. runVisits k (visits (indexIntoArray 0 v) rm) (settle n (emit calls (first_element v s)), offset))"
    and zero: "\<And>n. emits k (mul_int (sint (getInnerArraySizeProduct v)) n) (settle n (first_element v s))
      (visits (indexIntoArray 0 v) rm) (ops 0) (settle n (first_element v s))"
    and later: "\<And>stride i. i \<in> set (array_elements m) \<Longrightarrow> i \<noteq> 0 \<Longrightarrow>
      emits k stride (encoderEnterArrayElement v i s) (visits (indexIntoArray i v) rm) (ops i) (encoderEnterArrayElement v i s)"
  shows "runVisits k (concat (map (element_visits visits v rm) (array_elements m))) (emit calls s, offset) =
    Option.bind (map_option (mul_int (sint (getInnerArraySizeProduct v))) X) (\<lambda>stride.
      map_option (map_prod (\<lambda>calls'. emit (calls @ calls') s) id)
        (lay_out k stride (concat (map ops (array_elements m))) offset))"
proof -
  obtain rest where rest: "array_elements m = 0 # rest" "0 \<notin> set rest" using array_elements_hd by blast
  let ?stride = "mul_int (sint (getInnerArraySizeProduct v))"
  let ?first = "visits (indexIntoArray 0 v) rm"
  let ?tail = "[ExitArrayElement v 0] @ concat (map (element_visits visits v rm) rest)"
  have "emits k stride s (element_visits visits v rm i) (ops i) s" if i: "i \<in> set rest" for i stride
  proof -
    have "i \<noteq> 0" "i \<in> set (array_elements m)" using i rest by auto
    from emits_append [OF emits_steps(5) emits_append [OF later [OF this(2,1)] emits_steps(6) [of k _ _ v i]]]
    show ?thesis unfolding later_element_steps(3) [OF s \<open>i \<noteq> 0\<close>] by simp
  qed
  then have rest_emits: "emits k stride s (concat (map (element_visits visits v rm) rest)) (concat (map ops rest)) s" for stride
    by (rule emits_concat)
  have all: "emits k (?stride n) (settle n (first_element v s)) (?first @ ?tail) (concat (map ops (array_elements m))) s" for n
  proof -
    have "emits k (?stride n) (settle n (first_element v s)) [ExitArrayElement v 0] [] s"
      using emits_steps(6) [of k "?stride n" "settle n (first_element v s)" v 0]
      unfolding first_element_steps(3) [OF s] .
    from emits_append [OF zero emits_append [OF this rest_emits]] show ?thesis by (simp add: rest(1))
  qed
  have "runVisits k (concat (map (element_visits visits v rm) (array_elements m))) (emit calls s, offset) =
    runVisits k (?first @ ?tail) (emit calls (first_element v s), offset)"
    unfolding rest(1) using first_element_steps(6) [OF s] by simp
  also have "\<dots> = Option.bind X (\<lambda>n. runVisits k (?first @ ?tail) (emit calls (settle n (first_element v s)), offset))"
    unfolding runVisits_append settled by simp
  also have "\<dots> = Option.bind X (\<lambda>n. map_option (map_prod (\<lambda>calls'. emit (calls @ calls') s) id)
      (lay_out k (?stride n) (concat (map ops (array_elements m))) offset))"
    using all unfolding emits_def by simp
  finally show ?thesis by (cases X) simp_all
qed

lemma first_of_array_simps [simp]: "first_of_array [] = False" "first_of_array (i # is) = (i = 0)"
  by (simp_all add: first_of_array_def)

lemma emit_nameVisit [simp]: "nameVisit e (emit calls s) = emit calls (nameVisit e s)"
  by (cases e) (auto simp: emit_def pushNames_def popNames_def Let_def)

lemma fields_emit_ok: "member_ok v \<Longrightarrow> fields_emit k stride (sv_fields v) b"
  unfolding fields_emit_def using emits_nested member_ok_dims by (metis list_all_iff)

lemma first_member_inner:
  assumes "member_ok v" "array_dims v \<noteq> []" "i \<in> set (array_elements (last (array_dims v)))"
  shows "inner s (indexIntoArray i v)"
proof -
  have "element_ok (indexIntoArray i v)"
    by (rule index_ok) (use assms member_ok_dims [OF assms(1)] in \<open>auto simp: getOutermostArraySize_def isArray_def\<close>)
  then show ?thesis by (auto simp: inner_def element_ok_def hasParentArrayIndex_def)
qed

lemma concat_elements:
  "concat (map ops (index_lists (n # ns))) = concat (map (\<lambda>i. concat (map (\<lambda>is. ops (i # is)) (index_lists ns))) (array_elements n))"
  by (simp add: concat_map_concat comp_def)

lemma top_array:
  assumes s: "at_top s" and parent: "\<not> hasParentArrayIndex v"
    and el: "\<And>i s' stride. i \<in> set (array_elements m) \<Longrightarrow> (if i = 0 then stride else 0) = mTopLevelArrayStride s' \<Longrightarrow>
      mIsTopLevelArrayStrideReady s' \<Longrightarrow> names_of s' = names_of (nameVisit (EnterArray v) s) @ ArrayString i \<Longrightarrow>
      mapped_of s' = mapped_of (nameVisit (EnterArray v) s) @ ArrayString i \<Longrightarrow>
      emits k stride s' (visits (indexIntoArray i v) rm) (concat (map (\<lambda>is. op (i # is)) (index_lists ns))) s'"
    and settled: "\<And>s' offset. \<not> mIsTopLevelArrayStrideReady s' \<Longrightarrow>
      runVisits k (visits (indexIntoArray 0 v) rm) (s', offset) =
      Option.bind X (\<lambda>n. runVisits k (visits (indexIntoArray 0 v) rm) (settle n s', offset))"
  shows "runVisits k ([EnterArray v] @ concat (map (element_visits visits v rm) (array_elements m)) @ [ExitArray v]) (emit calls s, offset) =
    Option.bind (map_option (mul_int (sint (getInnerArraySizeProduct v))) X) (\<lambda>stride.
      map_option (map_prod (\<lambda>calls'. emit (calls @ calls') s) id)
        (lay_out k stride (concat (map op (index_lists (m # ns)))) offset))"
proof -
  let ?s = "nameVisit (EnterArray v) s"
  let ?ops = "\<lambda>i. concat (map (\<lambda>is. op (i # is)) (index_lists ns))"
  have top: "at_top ?s"
    using s by (simp add: at_top_def Let_def pushNames_def)
  have settled': "runVisits k (visits (indexIntoArray 0 v) rm) (emit calls (first_element v ?s), offset) =
      Option.bind X (\<lambda>n. runVisits k (visits (indexIntoArray 0 v) rm) (settle n (emit calls (first_element v ?s)), offset))"
    for calls offset
    by (rule settled) (use first_element_steps(1) [OF top parent] in \<open>simp add: emit_def\<close>)
  have zero: "emits k (mul_int (sint (getInnerArraySizeProduct v)) n) (settle n (first_element v ?s))
      (visits (indexIntoArray 0 v) rm) (?ops 0) (settle n (first_element v ?s))" for n
  proof (rule el)
    show "0 \<in> set (array_elements m)" using array_elements_hd by (metis list.set_intros(1))
  qed (use first_element_steps [OF top parent] in \<open>simp_all del: nameVisit.simps\<close>)
  have later: "emits k stride (encoderEnterArrayElement v i ?s) (visits (indexIntoArray i v) rm) (?ops i)
      (encoderEnterArrayElement v i ?s)" if "i \<in> set (array_elements m)" "i \<noteq> 0" for stride i
    by (rule el) (use that later_element_steps [OF top parent that(2)] in \<open>simp_all del: nameVisit.simps\<close>)
  note loop = top_loop [where visits = visits and ops = ?ops and X = X and m = m and k = k and rm = rm,
      OF top parent settled' zero later]
  show ?thesis
    unfolding runVisits_append concat_elements
    using loop exit_array [of v s]
    by (cases X) (auto simp: option.map_comp comp_def map_prod_def case_prod_unfold simp del: nameVisit.simps split: bind_split)
qed

lemma runVisits_struct:
  "runVisits k ([EnterStruct v] @ es @ [ExitStruct v]) (emit calls s, offset) =
   map_option (map_prod (nameVisit (ExitStruct v)) id) (runVisits k es (emit calls (nameVisit (EnterStruct v) s), offset))"
  by (cases "runVisits k es (emit calls (nameVisit (EnterStruct v) s), offset)") (auto simp: runVisits_append)

lemma bind_map: "Option.bind (map_option f x) g = Option.bind x (g \<circ> f)"
  by (cases x) simp_all

text \<open>A variable of a block is encoded as laid out.\<close>

lemma runVisits_member:
  assumes v: "member_ok v" and s: "at_top s"
  shows "runVisits k (TraverseShaderVariable v rm) (emit calls s, offset) =
    Option.bind (block_stride k v rm) (\<lambda>stride.
      map_option (map_prod (\<lambda>calls'. emit (calls @ calls') s) id)
        (lay_out k stride (block_layout v rm (names_of s) (mapped_of s) first_of_array) offset))"
proof -
  let ?rml = "rm \<or> sv_isRowMajorLayout (sv_info v)"
  note ok = member_ok_dims [OF v]
  have ready: "mIsTopLevelArrayStrideReady s" "mTopLevelArrayStride s = 0" using s by (simp_all add: at_top_def)
  consider (struct) "isStruct v" "\<not> isArray v" | (structs) "isStruct v" "isArray v"
    | (basic) "\<not> isStruct v" "\<not> isArrayOfArrays v" | (arrays) "\<not> isStruct v" "isArrayOfArrays v" by blast
  then show ?thesis
  proof cases
    case struct
    then have dims: "array_dims v = []" by (simp add: isArray_def)
    let ?s = "nameVisit (EnterStruct v) s"
    have "emits k 0 ?s (struct_visits v ?rml)
      (concat (map (\<lambda>is. fields_layout (element_at v is) ?rml (names_of ?s @ subscripts is) (mapped_of ?s @ subscripts is) False)
        (index_lists (rev (array_dims v))))) ?s"
      by (rule emits_struct_array) (use fields_emit_ok [OF v] struct ready dims in \<open>simp_all add: pushNames_def\<close>)
    moreover have "nameVisit (ExitStruct v) ?s = s" by (simp add: pushNames_def popNames_def)
    ultimately have "emits k 0 s ([EnterStruct v] @ struct_visits v ?rml @ [ExitStruct v]) (block_layout v rm (names_of s) (mapped_of s) first_of_array) s"
      using emits_append [OF emits_steps(1) emits_append [OF _ emits_steps(2) [of k 0 ?s v]]] struct dims
      unfolding block_layout_visits by (fastforce simp: Let_def pushNames_def)
    then show ?thesis using struct by (simp add: emits_def traverse_visits block_stride_def Let_def)
  next
    case basic
    have "emits k 0 s (basic_visits v (?rml \<and> IsMatrixType (sv_type (sv_info v))))
      (concat (map (basic_layout v (?rml \<and> IsMatrixType (sv_type (sv_info v))) (names_of s @ own_name sv_name v)
         (mapped_of s @ own_name sv_mappedName v) False) (index_lists (rev (tl (array_dims v)))))) s"
      by (rule emits_basic_array) (use basic ready in auto)
    moreover have "tl (array_dims v) = []"
      using basic by (cases "array_dims v") (auto simp: isArrayOfArrays_def Suc_le_eq)
    ultimately show ?thesis
      using basic ok by (simp add: emits_def traverse_visits block_layout_visits block_stride_def Let_def)
  next
    case structs
    then have dims: "array_dims v \<noteq> []" by (simp add: isArray_def)
    let ?s = "nameVisit (EnterStruct v) s"
    let ?op = "\<lambda>is. fields_layout (element_at v is) ?rml (names_of ?s @ subscripts is) (mapped_of ?s @ subscripts is) (first_of_array is)"
    have top: "at_top ?s" "nameVisit (ExitStruct v) ?s = s" using s by (simp_all add: at_top_def pushNames_def popNames_def)
    have stack: "names_of (nameVisit (EnterArray v) ?s) = names_of ?s" "mapped_of (nameVisit (EnterArray v) ?s) = mapped_of ?s"
      using structs(1) by (simp_all add: Let_def)
    have "runVisits k (struct_visits v ?rml) (emit calls ?s, offset) =
      Option.bind (map_option (mul_int (sint (getInnerArraySizeProduct v))) (map_option to_int (getShaderVariableSize k v ?rml)))
       (\<lambda>stride. map_option (map_prod (\<lambda>calls'. emit (calls @ calls') ?s) id)
          (lay_out k stride (concat (map ?op (index_lists (rev (array_dims v))))) offset))"
      unfolding struct_visits_array [OF dims] rev_dims [OF dims]
    proof (rule top_array [OF top(1)])
      show "\<not> hasParentArrayIndex v" using ok by simp
    next
      fix i s' stride
      assume i: "i \<in> set (array_elements (last (array_dims v)))" "(if i = 0 then stride else 0) = mTopLevelArrayStride s'"
        "mIsTopLevelArrayStrideReady s'" "names_of s' = names_of (nameVisit (EnterArray v) ?s) @ ArrayString i"
        "mapped_of s' = mapped_of (nameVisit (EnterArray v) ?s) @ ArrayString i"
      then show "emits k stride s' (struct_visits (indexIntoArray i v) ?rml)
        (concat (map (\<lambda>is. ?op (i # is)) (index_lists (rev (butlast (array_dims v)))))) s'"
        using emits_struct_array [of k stride "indexIntoArray i v" "i = 0" s' ?rml]
          fields_emit_ok [OF v] structs(1) first_member_inner [OF v dims i(1)] unfolding stack
        by (simp del: nameVisit.simps)
    next
      fix s' :: block_encoder_visitor and offset assume "\<not> mIsTopLevelArrayStrideReady s'"
      moreover have "inner s' (indexIntoArray 0 v)"
        using array_elements_hd by (intro first_member_inner [OF v dims]) (metis list.set_intros(1))
      ultimately show "runVisits k (struct_visits (indexIntoArray 0 v) ?rml) (s', offset) =
        Option.bind (map_option to_int (getShaderVariableSize k v ?rml))
          (\<lambda>n. runVisits k (struct_visits (indexIntoArray 0 v) ?rml) (settle n s', offset))"
        using settle_struct [of s' "indexIntoArray 0 v" k ?rml offset] structs(1)
        by (simp add: bind_map comp_def del: getShaderVariableSize.simps)
    qed
    moreover have "names_of ?s = names_of s @ sv_name (sv_info v)" "mapped_of ?s = mapped_of s @ sv_mappedName (sv_info v)"
      by (simp_all add: pushNames_def)
    ultimately show ?thesis
      using structs top(2) unfolding traverse_visits block_layout_visits block_stride_def
      by (cases "getShaderVariableSize k v ?rml")
        (simp_all add: runVisits_struct option.map_comp comp_def map_prod_def case_prod_unfold Let_def
          del: append.simps nameVisit.simps)
  next
    case arrays
    let ?rm = "?rml \<and> IsMatrixType (sv_type (sv_info v))"
    let ?nm = "names_of s @ own_name sv_name v" and ?mapped = "mapped_of s @ own_name sv_mappedName v"
    have dims: "array_dims v \<noteq> []" "1 < length (array_dims v)" using arrays by (auto simp: isArrayOfArrays_def)
    have tl: "rev (tl (array_dims v)) = last (array_dims v) # rev (tl (butlast (array_dims v)))"
      using dims(2) by (cases "array_dims v") (auto simp: rev_dims [symmetric] rev_eq_Cons_iff)
    have stack: "names_of (nameVisit (EnterArray v) s) = ?nm" "mapped_of (nameVisit (EnterArray v) s) = ?mapped"
      using arrays(1) by (simp_all add: Let_def pushNames_def)
    show ?thesis
    proof (cases "IsSamplerType (sv_type (sv_info v))")
      case True
      let ?s = "nameVisit (EnterArray v) s"
      have restore: "encoderExitArrayElement v i (encoderEnterArrayElement v i ?s) = ?s" for i
        using s ok by (auto simp: encoderEnterArrayElement_def encoderExitArrayElement_def at_top_def
            pushNames_def popNames_def Let_def)
      have "emits k stride ?s (element_visits basic_visits v ?rm i) [] ?s"
        if i: "i \<in> set (array_elements (last (array_dims v)))" for i stride
      proof -
        let ?t = "encoderEnterArrayElement v i ?s"
        have "emits k stride ?t (basic_visits (indexIntoArray i v) ?rm) [] ?t"
          using emits_basic_array [of "indexIntoArray i v" False stride ?t k ?rm] True arrays(1)
            first_member_inner [OF v dims(1) i] basic_layout_sampler by (simp del: nameVisit.simps)
        from emits_append [OF emits_steps(5) [of k stride ?s v i] emits_append [OF this emits_steps(6) [of k stride ?t v i]]]
        show ?thesis unfolding restore by simp
      qed
      from emits_concat [of "array_elements (last (array_dims v))" k _ ?s "element_visits basic_visits v ?rm" "\<lambda>_. []", OF this]
      have loop: "emits k 0 ?s (concat (map (element_visits basic_visits v ?rm) (array_elements (last (array_dims v))))) [] ?s"
        by (simp add: concat_eq_Nil_conv [THEN iffD2])
      have "emits k 0 ?s [ExitArray v] [] s"
        using emits_steps(4) [of k 0 ?s v] unfolding exit_array .
      from emits_append [OF emits_steps(3) emits_append [OF loop this]]
      have "emits k 0 s (basic_visits v ?rm) [] s" unfolding basic_visits_array [OF arrays(2)] by simp
      then show ?thesis
        using arrays True basic_layout_sampler
        by (simp add: emits_def traverse_visits block_layout_visits block_stride_def Let_def)
    next
      case False
      have "runVisits k (basic_visits v ?rm) (emit calls s, offset) =
        Option.bind (map_option (mul_int (sint (getInnerArraySizeProduct v)))
            (map_option (bm_arrayStride \<circ> fst) (encodeType k (sv_type (sv_info v)) [hd (array_dims v)] ?rm 0)))
         (\<lambda>stride. map_option (map_prod (\<lambda>calls'. emit (calls @ calls') s) id)
            (lay_out k stride (concat (map (\<lambda>is. basic_layout v ?rm ?nm ?mapped (first_of_array is) is)
               (index_lists (rev (tl (array_dims v)))))) offset))"
        unfolding basic_visits_array [OF arrays(2)] tl
      proof (rule top_array [OF s])
        show "\<not> hasParentArrayIndex v" using ok by simp
      next
        fix i s' stride
        assume i: "i \<in> set (array_elements (last (array_dims v)))" "(if i = 0 then stride else 0) = mTopLevelArrayStride s'"
          "mIsTopLevelArrayStrideReady s'" "names_of s' = names_of (nameVisit (EnterArray v) s) @ ArrayString i"
          "mapped_of s' = mapped_of (nameVisit (EnterArray v) s) @ ArrayString i"
        have "hasParentArrayIndex (indexIntoArray i v)"
          using index_ok [of v i] ok dims(1) i(1)
          by (auto simp: element_ok_def hasParentArrayIndex_def getOutermostArraySize_def isArray_def)
        with i show "emits k stride s' (basic_visits (indexIntoArray i v) ?rm)
          (concat (map (\<lambda>is. basic_layout v ?rm ?nm ?mapped (first_of_array (i # is)) (i # is))
             (index_lists (rev (tl (butlast (array_dims v))))))) s'"
          using emits_basic_array [of "indexIntoArray i v" "i = 0" stride s' k ?rm]
            arrays(1) first_member_inner [OF v dims(1) i(1)] unfolding stack
          by (simp add: basic_layout_Cons del: nameVisit.simps)
      next
        fix s' :: block_encoder_visitor and offset assume "\<not> mIsTopLevelArrayStrideReady s'"
        moreover have "inner s' (indexIntoArray 0 v)"
          using array_elements_hd by (intro first_member_inner [OF v dims(1)]) (metis list.set_intros(1))
        moreover have "hd (butlast (array_dims v)) = hd (array_dims v)" "butlast (array_dims v) \<noteq> []"
          using dims(2) by (cases "array_dims v"; auto)+
        ultimately show "runVisits k (basic_visits (indexIntoArray 0 v) ?rm) (s', offset) =
          Option.bind (map_option (bm_arrayStride \<circ> fst) (encodeType k (sv_type (sv_info v)) [hd (array_dims v)] ?rm 0))
            (\<lambda>n. runVisits k (basic_visits (indexIntoArray 0 v) ?rm) (settle n s', offset))"
          using settle_basic [of s' "indexIntoArray 0 v" k ?rm offset] arrays(1) False by simp
      qed
      with arrays False ok show ?thesis
        unfolding traverse_visits block_layout_visits block_stride_def
        by (simp add: bind_map comp_def case_prod_unfold Let_def)
    qed
  qed
qed

lemma runVisits_members:
  assumes "list_all member_ok vs" "at_top s"
  shows "runVisits k (TraverseShaderVariables vs rm) (emit calls s, offset) =
    map_option (map_prod (\<lambda>calls'. emit (calls @ calls') s) id) (lay_out_block k vs rm (names_of s) (mapped_of s) offset)"
  using assms(1)
proof (induction vs arbitrary: calls offset)
  case Nil
  then show ?case by (simp add: TraverseShaderVariables_def)
next
  case (Cons v vs)
  have "TraverseShaderVariables (v # vs) rm = TraverseShaderVariable v rm @ TraverseShaderVariables vs rm"
    by (simp add: TraverseShaderVariables_def)
  then show ?case
    using Cons.IH Cons.prems runVisits_member [of v s k rm calls offset] assms(2)
    by (cases "block_stride k v rm")
      (auto simp: runVisits_append option.map_comp comp_def map_prod_def case_prod_unfold split: bind_split)
qed

lemma BlockEncoderVisitor_top: "at_top (BlockEncoderVisitor nm mapped)" "emit calls (BlockEncoderVisitor nm mapped) = BlockEncoderVisitor nm mapped\<lparr>mEncodeCalls := calls\<rparr>"
  "names_of (BlockEncoderVisitor nm mapped) = (if nm = [] then [] else nm @ ''.'')"
  "mapped_of (BlockEncoderVisitor nm mapped) = (if mapped = [] then [] else mapped @ ''.'')"
  by (simp_all add: at_top_def BlockEncoderVisitor_def emit_def VariableNameVisitor_def variable_name_visitor.defs)

end
