(* ===== verification/Block_Members.thy ===== *)
theory Block_Members
  imports Block_Traversal
begin

text \<open>
  What the layout of a block promises (src/src/compiler/translator/blocklayout.cpp): the members do not
  overlap and are aligned, std430 is not larger than std140, and the elements of a top-level array lie
  at the reported stride, with the case where they do not.
\<close>

section \<open>Offsets\<close>

lemma roundUp_Some: "0 < a \<Longrightarrow> \<exists>m. roundUp n a = Some m \<and> n \<le> m \<and> m < n + a \<and> a dvd m"
proof -
  assume a: "0 < a"
  define q r where "q = (n + a - 1) div a" and "r = (n + a - 1) mod a"
  have "n + a - 1 = a * q + r" "r < a" using a by (simp_all add: q_def r_def)
  moreover from this have "roundUp n a = Some (a * q)" using a by (simp add: roundUp_def Let_def r_def [symmetric])
  ultimately show ?thesis using a by (intro exI [of _ "a * q"]) auto
qed

lemma roundUp_mono:
  assumes "roundUp n a = Some x" "roundUp m b = Some y" "n \<le> m" "a dvd b"
  shows "x \<le> y"
proof -
  have pos: "0 < a" "0 < b" using assms(1,2) by (auto simp: roundUp_def split: if_splits)
  have x: "x < n + a" "a dvd x" using roundUp_Some [OF pos(1), of n] assms(1) by auto
  have "m \<le> y" "b dvd y" using roundUp_Some [OF pos(2), of m] assms(2) by auto
  then obtain c where c: "y = a * c" using assms(4) by (metis dvd_def dvd_trans)
  obtain d where d: "x = a * d" using x(2) by (auto simp: dvd_def)
  have "x < y + a" using x(1) assms(3) \<open>m \<le> y\<close> by linarith
  then have "d < c + 1" using c d pos(1) by (metis add_mult_distrib2 mult.right_neutral mult_less_cancel1)
  then show ?thesis using c d by simp
qed

lemma component_alignment_cases: "n \<in> {1, 2, 3, 4} \<Longrightarrow> ComponentAlignment (nat n) \<in> {1, 2, 4}"
  by (auto simp: ComponentAlignment_def)

lemma std430_alignment: "proper_type t \<Longrightarrow> GetStd430BaseAlignment t rm \<in> {1, 2, 4}"
  unfolding GetStd430BaseAlignment_def Let_def
  using proper_shape(2) [of t] proper_shape(2) [of "TransposeMatrixType t"] proper_shape(3) [of t]
  by (intro component_alignment_cases) auto

definition member_alignment :: "encoder_kind \<Rightarrow> gl_type \<Rightarrow> u32 list \<Rightarrow> bool \<Rightarrow> nat" where
  "member_alignment k t arraySizes rm =
     (if IsMatrixType t then getTypeBaseAlignment k t rm
      else if arraySizes \<noteq> [] then getTypeBaseAlignment k t False
      else ComponentAlignment (nat (VariableComponentCount t)))"

lemma member_alignment_cases: "proper_type t \<Longrightarrow> member_alignment k t ds rm \<in> {1, 2, 4}"
proof -
  assume t: "proper_type t"
  have "getTypeBaseAlignment k t b \<in> {1, 2, 4}" for b
    using std430_alignment [OF t, of b] by (cases k) (simp_all add: kComponentsPerRegister_def)
  moreover have "\<not> IsMatrixType t \<Longrightarrow> ComponentAlignment (nat (VariableComponentCount t)) \<in> {1, 2, 4}"
  proof (rule component_alignment_cases)
    assume "\<not> IsMatrixType t"
    then have "VariableRowCount t = 1" using proper_shape(1) [OF t] by (auto simp: IsMatrixType_def)
    then show "VariableComponentCount t \<in> {1, 2, 3, 4}"
      using proper_shape(2) [OF t] by (simp add: VariableComponentCount_def)
  qed
  ultimately show ?thesis by (simp add: member_alignment_def)
qed

definition register_count :: "gl_type \<Rightarrow> bool \<Rightarrow> nat" where
  "register_count t rm = nat (MatrixRegisterCount t rm)"

text \<open>The components a member takes, written without wrapping around.\<close>

definition array_stride :: "encoder_kind \<Rightarrow> gl_type \<Rightarrow> bool \<Rightarrow> nat" where
  "array_stride k t rm =
     (if IsMatrixType t then getTypeBaseAlignment k t rm * register_count t rm else getTypeBaseAlignment k t False)"

definition member_size :: "encoder_kind \<Rightarrow> gl_type \<Rightarrow> u32 list \<Rightarrow> bool \<Rightarrow> nat" where
  "member_size k t arraySizes rm =
     (if arraySizes \<noteq> [] then array_stride k t rm * unat (hd arraySizes)
      else if IsMatrixType t then getTypeBaseAlignment k t rm * register_count t rm
      else nat (VariableComponentCount t))"

lemma array_stride_le: "proper_type t \<Longrightarrow> array_stride k t rm \<le> 16"
proof -
  assume t: "proper_type t"
  have a: "getTypeBaseAlignment k t b \<le> 4" for b
    using std430_alignment [OF t, of b] by (cases k) (auto simp: kComponentsPerRegister_def)
  have "register_count t rm \<le> 4"
    using row_count_range(2) [of t] column_count_range(2) [of t] by (auto simp: register_count_def MatrixRegisterCount_def)
  with a [of rm] have "getTypeBaseAlignment k t rm * register_count t rm \<le> 4 * 4" by (rule mult_le_mono)
  with a [of False] show ?thesis by (simp add: array_stride_def)
qed

lemma to_int_small: "n < 2 ^ 31 \<Longrightarrow> to_int n = int n"
  by (simp add: to_int_def signed_of_nat signed_take_bit_int_eq_self)

lemma mul_int_one: "n < 2 ^ 31 \<Longrightarrow> mul_int 1 (int n) = int n"
  by (simp add: mul_int_def signed_of_nat signed_take_bit_int_eq_self)

lemma encodeType_ok:
  assumes k: "k \<noteq> DummyBlockEncoder" and t: "proper_type t" and ds: "ds = [] \<or> (\<exists>n. ds = [n] \<and> unat n < 2 ^ 27)"
  shows "\<exists>info at. encodeType k t ds rm off = Some (info, at + member_size k t ds rm) \<and>
    off \<le> at \<and> at < off + 4 \<and> member_alignment k t ds rm dvd at \<and>
    roundUp off (member_alignment k t ds rm) = Some at \<and> bm_offset info = to_int (4 * at) \<and>
    bm_isRowMajorMatrix info = rm \<and> bm_topLevelArrayStride info = -1 \<and>
    bm_arrayStride info = (if ds = [] then 0 else int (4 * array_stride k t rm)) \<and>
    bm_matrixStride info = (if IsMatrixType t then int (4 * getTypeBaseAlignment k t rm) else 0)"
proof -
  have al: "member_alignment k t ds rm \<in> {1, 2, 4}" by (rule member_alignment_cases [OF t])
  then obtain at where at: "roundUp off (member_alignment k t ds rm) = Some at" "off \<le> at" "at < off + member_alignment k t ds rm"
    "member_alignment k t ds rm dvd at" using roundUp_Some [of "member_alignment k t ds rm" off] by auto
  have stride: "array_stride k t rm \<le> 16" by (rule array_stride_le [OF t])
  have wrap: "unat (of_nat (array_stride k t rm) * ArraySizeProduct ds) = array_stride k t rm * unat (hd ds)" if "ds \<noteq> []"
  proof -
    obtain n where n: "ds = [n]" "unat n < 2 ^ 27" using ds \<open>ds \<noteq> []\<close> by auto
    have "array_stride k t rm * unat n \<le> 16 * unat n" using stride by (rule mult_le_mono1)
    also have "\<dots> < 2 ^ 32" using n(2) by simp
    finally have "array_stride k t rm * unat n < 2 ^ 32" .
    then show ?thesis using stride by (simp add: n(1) ArraySizeProduct_def unat_word_ariths unat_of_nat take_bit_nat_eq_self)
  qed
  have ta: "getTypeBaseAlignment k t rm \<le> 4"
    using std430_alignment [OF t, of rm] by (cases k) (auto simp: kComponentsPerRegister_def)
  have "at < off + 4" using at(3) al by auto
  then show ?thesis
    using at al k wrap to_int_small [of "4 * array_stride k t rm"] to_int_small [of "4 * getTypeBaseAlignment k t rm"] to_int_small [of 0] stride ta
    by (cases "ds = []"; cases "IsMatrixType t")
      (simp_all add: encodeType_def getBlockLayoutInfo_def advanceOffset_def member_alignment_def member_size_def
        array_stride_def register_count_def kBytesPerComponent_def mult.commute [of _ "4 :: nat"] mult.commute [of "int _" 4] mult.assoc)
qed

section \<open>Disjoint members\<close>

definition leaf_dims :: "shader_variable \<Rightarrow> u32 list" where
  "leaf_dims v = (if isArray v then [getNestedArraySize v 0] else [])"

definition op_ok :: "encoder_kind \<Rightarrow> layout_op \<Rightarrow> bool" where
  "op_ok k op \<longleftrightarrow> (case op of
      Aggregate v \<Rightarrow> getBaseAlignment k v \<in> {1, 2, 4}
    | Member v rm nm mapped b \<Rightarrow> proper_type (sv_type (sv_info v)) \<and> (\<forall>n \<in> set (leaf_dims v). unat n < 2 ^ 27))"

lemma leaf_dims_ok: "\<forall>n \<in> set (leaf_dims v). unat n < 2 ^ 27 \<Longrightarrow> leaf_dims v = [] \<or> (\<exists>n. leaf_dims v = [n] \<and> unat n < 2 ^ 27)"
  by (simp add: leaf_dims_def)

definition call_size :: "encoder_kind \<Rightarrow> encode_call \<Rightarrow> nat" where
  "call_size k c = (case c of (v, info, _) \<Rightarrow> member_size k (sv_type (sv_info v)) (leaf_dims v) (bm_isRowMajorMatrix info))"

definition call_alignment :: "encoder_kind \<Rightarrow> encode_call \<Rightarrow> nat" where
  "call_alignment k c = (case c of (v, info, _) \<Rightarrow> member_alignment k (sv_type (sv_info v)) (leaf_dims v) (bm_isRowMajorMatrix info))"

text \<open>
  \<open>placed k l u calls\<close>: the calls describe members that follow each other between the components \<open>l\<close>
  and \<open>u\<close>, each aligned and none overlapping the next.
\<close>

fun members_placed :: "encoder_kind \<Rightarrow> nat \<Rightarrow> nat \<Rightarrow> encode_call list \<Rightarrow> bool" where
  "members_placed k l u [] \<longleftrightarrow> l \<le> u"
| "members_placed k l u (c # cs) \<longleftrightarrow>
     (\<exists>at. l \<le> at \<and> bm_offset (fst (snd c)) = to_int (4 * at) \<and> call_alignment k c dvd at \<and>
        members_placed k (at + call_size k c) u cs)"

lemma members_placed_le: "members_placed k l u cs \<Longrightarrow> l \<le> u"
proof (induction cs arbitrary: l)
  case (Cons c cs)
  then obtain at where "l \<le> at" "members_placed k (at + call_size k c) u cs" by auto
  with Cons.IH [of "at + call_size k c"] show ?case by linarith
qed simp

lemma members_placed_lower: "members_placed k l u cs \<Longrightarrow> l' \<le> l \<Longrightarrow> members_placed k l' u cs"
proof (cases cs)
  case (Cons c ds)
  assume p: "members_placed k l u cs" "l' \<le> l"
  then obtain at where "l \<le> at" "bm_offset (fst (snd c)) = to_int (4 * at)" "call_alignment k c dvd at"
    "members_placed k (at + call_size k c) u ds" unfolding Cons members_placed.simps by blast
  with p(2) show ?thesis unfolding Cons members_placed.simps by (intro exI [of _ at]) simp
qed simp

lemma members_placed_append:
  "members_placed k l m cs \<Longrightarrow> members_placed k m u ds \<Longrightarrow> members_placed k l u (cs @ ds)"
  by (induction cs arbitrary: l) (auto intro: members_placed_lower)

lemma lay_out_placed:
  assumes "k \<noteq> DummyBlockEncoder" "\<forall>op \<in> set ops. op_ok k op"
  shows "\<exists>cs off'. lay_out k stride ops off = Some (cs, off') \<and> members_placed k off off' cs"
  using assms(2)
proof (induction ops arbitrary: off)
  case (Cons op ops)
  show ?case
  proof (cases op)
    case (Aggregate v)
    with Cons.prems have "0 < getBaseAlignment k v" by (auto simp: op_ok_def)
    from roundUp_Some [OF this, of off] obtain m where m: "roundUp off (getBaseAlignment k v) = Some m" "off \<le> m" by auto
    from Cons.IH [of m] Cons.prems obtain cs off' where
      "lay_out k stride ops m = Some (cs, off')" "members_placed k m off' cs" by auto
    with m Aggregate assms(1) show ?thesis
      by (auto simp: enterAggregateType_def intro: members_placed_lower)
  next
    case (Member v rm nm mapped b)
    let ?t = "sv_type (sv_info v)"
    have ok: "proper_type ?t" "\<forall>n \<in> set (leaf_dims v). unat n < 2 ^ 27" using Cons.prems Member by (auto simp: op_ok_def)
    from encodeType_ok [OF assms(1) ok(1) leaf_dims_ok [OF ok(2)], of rm off] obtain info at where
      e: "encodeType k ?t (leaf_dims v) rm off = Some (info, at + member_size k ?t (leaf_dims v) rm)"
      "off \<le> at" "member_alignment k ?t (leaf_dims v) rm dvd at" "bm_offset info = to_int (4 * at)"
      "bm_isRowMajorMatrix info = rm" by blast
    from Cons.IH [of "at + member_size k ?t (leaf_dims v) rm"] Cons.prems obtain cs off' where
      "lay_out k stride ops (at + member_size k ?t (leaf_dims v) rm) = Some (cs, off')"
      "members_placed k (at + member_size k ?t (leaf_dims v) rm) off' cs" by auto
    with e Member show ?thesis
      by (auto simp: leaf_dims_def [symmetric] call_size_def call_alignment_def)
  qed
qed simp

section \<open>Which variables can be laid out\<close>

text \<open>The members of a block: of known, not opaque types, with arrays that cannot wrap the sizes.\<close>

fun block_member :: "shader_variable \<Rightarrow> bool" where
  "block_member (ShaderVariable a fs) \<longleftrightarrow>
     (\<forall>n \<in> set (sv_arraySizes a). unat n < 2 ^ 27) \<and> list_all block_member fs \<and>
     (fs = [] \<longrightarrow> proper_type (sv_type a) \<and> \<not> IsOpaqueType (sv_type a))"

lemma block_memberD:
  "block_member v \<Longrightarrow> (\<forall>n \<in> set (array_dims v). unat n < 2 ^ 27) \<and> list_all block_member (sv_fields v) \<and>
     (\<not> isStruct v \<longrightarrow> proper_type (sv_type (sv_info v)) \<and> \<not> IsOpaqueType (sv_type (sv_info v)))"
  by (cases v) (simp add: isStruct_def)

lemma block_member_index: "block_member v \<Longrightarrow> block_member (indexIntoArray i v)"
  by (cases v) (auto simp: indexIntoArray_def dest: in_set_butlastD)

fun visit_alignment :: "visit \<Rightarrow> nat" where
  "visit_alignment (VisitVariable v b) = GetStd430BaseAlignment (sv_type (sv_info v)) b"
| "visit_alignment _ = 0"

lemma alignment_visits: "fold baseAlignmentVisit es n = fold max (map visit_alignment es) n"
proof (induction es arbitrary: n)
  case (Cons e es)
  then show ?case by (cases e) (simp_all add: max.commute)
qed simp

definition visit_ok :: "visit \<Rightarrow> bool" where
  "visit_ok e \<longleftrightarrow> (case e of VisitVariable v b \<Rightarrow> proper_type (sv_type (sv_info v)) | _ \<Rightarrow> True)"

definition visits_variable :: "visit list \<Rightarrow> bool" where
  "visits_variable es \<longleftrightarrow> (\<forall>e \<in> set es. visit_ok e) \<and> (\<exists>v b. VisitVariable v b \<in> set es)"

lemma fold_max_cases: "(\<forall>m \<in> set ms. m \<in> A) \<Longrightarrow> n \<in> A \<Longrightarrow> fold max ms n \<in> (A :: nat set)"
  by (induction ms arbitrary: n) (auto simp: max_def)

lemma fold_max_ge: "(n :: nat) \<le> fold max ms n"
proof (induction ms arbitrary: n)
  case (Cons a ms)
  from Cons [of "max a n"] show ?case by simp
qed simp

lemma fold_max_mem: "(m :: nat) \<in> set ms \<Longrightarrow> m \<le> fold max ms n"
proof (induction ms arbitrary: n)
  case (Cons a ms)
  then show ?case using fold_max_ge [of "max a n" ms] by auto
qed simp

lemma visits_alignment:
  assumes "visits_variable es"
  shows "fold baseAlignmentVisit es 0 \<in> {1, 2, 4}"
proof -
  have "\<forall>m \<in> set (map visit_alignment es). m \<in> {0, 1, 2, 4}"
  proof
    fix m assume "m \<in> set (map visit_alignment es)"
    then obtain e where e: "e \<in> set es" "m = visit_alignment e" by auto
    then have "visit_ok e" using assms by (simp add: visits_variable_def)
    then show "m \<in> {0, 1, 2, 4}"
      unfolding e(2) using std430_alignment by (cases e) (auto simp: visit_ok_def)
  qed
  from fold_max_cases [OF this, of 0] have "fold max (map visit_alignment es) 0 \<in> {0, 1, 2, 4}" by simp
  moreover obtain v b where v: "VisitVariable v b \<in> set es" "proper_type (sv_type (sv_info v))"
    using assms by (fastforce simp: visits_variable_def visit_ok_def)
  have "visit_alignment (VisitVariable v b) \<in> set (map visit_alignment es)" using v(1) by (metis image_eqI list.set_map)
  from fold_max_mem [OF this, of 0] have "0 < fold max (map visit_alignment es) 0"
    using std430_alignment [OF v(2), of b] by auto
  ultimately show ?thesis by (auto simp: alignment_visits)
qed

lemma visits_variable_concat:
  "xs \<noteq> [] \<Longrightarrow> (\<And>x. x \<in> set xs \<Longrightarrow> visits_variable (f x)) \<Longrightarrow> visits_variable (concat (map f xs))"
  by (cases xs) (fastforce simp: visits_variable_def)+

lemma visits_variable_between:
  "visits_variable es \<Longrightarrow> visit_ok a \<Longrightarrow> visit_ok b \<Longrightarrow> visits_variable ([a] @ es @ [b])"
  by (auto simp: visits_variable_def)

lemma visit_ok_simps [simp]:
  "visit_ok (EnterStruct v)" "visit_ok (ExitStruct v)" "visit_ok (EnterStructAccess v b)" "visit_ok (ExitStructAccess v b)"
  "visit_ok (EnterArray v)" "visit_ok (ExitArray v)" "visit_ok (EnterArrayElement v i)" "visit_ok (ExitArrayElement v i)"
  "visit_ok (VisitVariable v b) = proper_type (sv_type (sv_info v))"
  by (simp_all add: visit_ok_def)

lemma array_elements_nonempty [simp]: "array_elements n \<noteq> []"
  using array_elements_hd [of n] by auto

lemma visits_struct:
  assumes "\<And>f rm. f \<in> set (sv_fields v) \<Longrightarrow> visits_variable (TraverseShaderVariable f rm)" "isStruct v"
  shows "visits_variable (struct_visits v rm)"
  using assms
proof (induction "length (array_dims v)" arbitrary: v)
  case 0
  then show ?case
    unfolding struct_visits_def
    by (simp add: TraverseStructVariable.simps [of v rm] isStruct_def
        visits_variable_between [where es = "concat _", simplified] visits_variable_concat)
next
  case (Suc n)
  then have dims: "array_dims v \<noteq> []" by auto
  have "visits_variable (struct_visits (indexIntoArray i v) rm)" for i
    by (rule Suc.hyps(1)) (use Suc.hyps(2) Suc.prems in auto)
  then show ?case
    unfolding struct_visits_array [OF dims]
    by (intro visits_variable_between visits_variable_concat) simp_all
qed

lemma visits_basic:
  assumes "proper_type (sv_type (sv_info v))" "\<not> IsOpaqueType (sv_type (sv_info v))"
  shows "visits_variable (basic_visits v rm)"
  using assms
proof (induction "length (array_dims v)" arbitrary: v rule: less_induct)
  case less
  show ?case
  proof (cases "isArrayOfArrays v")
    case True
    have "visits_variable (basic_visits (indexIntoArray i v) rm)" for i
      using less True by (simp add: isArrayOfArrays_def)
    then show ?thesis
      unfolding basic_visits_array [OF True] by (intro visits_variable_between visits_variable_concat) simp_all
  next
    case False
    then show ?thesis using less.prems by (simp add: basic_visits_def visits_variable_def IsOpaqueType_def)
  qed
qed

lemma visits_member: "block_member v \<Longrightarrow> visits_variable (TraverseShaderVariable v rm)"
proof (induction v arbitrary: rm rule: measure_induct_rule [of size])
  case (less v)
  note ok = block_memberD [OF less.prems]
  then have fs: "visits_variable (TraverseShaderVariable f rm)" if "f \<in> set (sv_fields v)" for f rm
    using less.IH [OF size_field [OF that]] that by (auto simp: list_all_iff)
  show ?case
  proof (cases "isStruct v")
    case True
    show ?thesis
      unfolding traverse_visits Let_def if_P [OF True]
      by (intro visits_variable_between visits_struct fs True) simp_all
  next
    case False
    then show ?thesis
      using ok unfolding traverse_visits Let_def if_not_P [OF False] by (intro visits_basic) simp_all
  qed
qed

lemma aggregate_alignment:
  assumes "block_member v" "isStruct v"
  shows "getBaseAlignment k v \<in> {1, 2, 4}"
proof -
  have "visits_variable (TraverseShaderVariables (sv_fields v) False)"
    unfolding TraverseShaderVariables_def
    by (rule visits_variable_concat) (use assms block_memberD [OF assms(1)] visits_member in \<open>auto simp: isStruct_def list_all_iff\<close>)
  from visits_alignment [OF this] show ?thesis
    using assms(2) by (cases k) (simp_all add: kComponentsPerRegister_def)
qed

lemma element_at_ok:
  "block_member v \<Longrightarrow> block_member (element_at v is)" "sv_type (sv_info (element_at v is)) = sv_type (sv_info v)"
  "isStruct (element_at v is) = isStruct v" "sv_fields (element_at v is) = sv_fields v"
  by (induction "is" arbitrary: v) (simp_all add: block_member_index)

lemma fields_layout_ok:
  assumes "block_member v" "isStruct v"
    and "\<And>f rm nm mapped. f \<in> set (sv_fields v) \<Longrightarrow> \<forall>op \<in> set (block_layout f rm nm mapped (\<lambda>_. b)). op_ok k op"
  shows "\<forall>op \<in> set (fields_layout (element_at v is) rm nm mapped b). op_ok k op"
  using assms aggregate_alignment [of "element_at v is" k] element_at_ok [of v "is"]
  by (auto simp: fields_layout_def op_ok_def simp del: insert_iff)

lemma basic_layout_ok:
  assumes "block_member v" "\<not> isStruct v"
  shows "\<forall>op \<in> set (basic_layout v rm nm mapped b is). op_ok k op"
proof -
  have "block_member (element_at v is)" by (rule element_at_ok(1) [OF assms(1)])
  then have "\<forall>n \<in> set (array_dims (element_at v is)). unat n < 2 ^ 27" using block_memberD by blast
  then have "\<forall>n \<in> set (leaf_dims (element_at v is)). unat n < 2 ^ 27"
    by (simp add: leaf_dims_def isArray_def)
  then show ?thesis using block_memberD [OF assms(1)] assms(2) element_at_ok(2) [of v "is"]
    by (simp add: basic_layout_def op_ok_def)
qed

lemma block_layout_ok: "block_member v \<Longrightarrow> \<forall>op \<in> set (block_layout v rm nm mapped first). op_ok k op"
proof (induction v arbitrary: rm nm mapped first rule: measure_induct_rule [of size])
  case (less v)
  have fs: "\<forall>op \<in> set (block_layout f rm nm mapped (\<lambda>_. b)). op_ok k op" if "f \<in> set (sv_fields v)" for f rm nm mapped b
    using less.IH [OF size_field [OF that]] that block_memberD [OF less.prems] by (simp add: list_all_iff)
  show ?case
  proof (cases "isStruct v")
    case True
    then show ?thesis
      using fields_layout_ok [OF less.prems True fs] unfolding block_layout_visits Let_def by auto
  next
    case False
    then show ?thesis
      using basic_layout_ok [OF less.prems False] unfolding block_layout_visits Let_def by auto
  qed
qed

lemma BlockEncoderVisitor_no_calls: "BlockEncoderVisitor nm mapped\<lparr>mEncodeCalls := []\<rparr> = BlockEncoderVisitor nm mapped"
  by (simp add: BlockEncoderVisitor_def variable_name_visitor.defs VariableNameVisitor_def)

lemma runVisits_lay_out:
  assumes "list_all member_ok vs"
  shows "runVisits k (TraverseShaderVariables vs rm) (BlockEncoderVisitor nm mapped, offset) =
    map_option (map_prod (\<lambda>calls. BlockEncoderVisitor nm mapped\<lparr>mEncodeCalls := calls\<rparr>) id)
      (lay_out_block k vs rm (if nm = [] then [] else nm @ ''.'') (if mapped = [] then [] else mapped @ ''.'') offset)"
  using runVisits_members [OF assms BlockEncoderVisitor_top(1) [of nm mapped], of k rm "[]" offset]
  by (simp only: append_Nil BlockEncoderVisitor_top(2-4) BlockEncoderVisitor_no_calls)

lemma getShaderVariableSize_Some:
  assumes "k \<noteq> DummyBlockEncoder" "list_all member_ok (sv_fields v)" "block_member v" "isStruct v"
    and total: "\<And>off. lay_out_block k (sv_fields v) rm [] [] off \<noteq> None"
  shows "getShaderVariableSize k v rm \<noteq> None"
proof -
  have a: "0 < getBaseAlignment k v" using aggregate_alignment [OF assms(3,4), of k] by auto
  obtain off where off: "enterAggregateType k v 0 = Some off"
    using roundUp_Some [OF a, of 0] assms(1) by (auto simp: enterAggregateType_def)
  obtain calls off' where "lay_out_block k (sv_fields v) rm [] [] off = Some (calls, off')"
    using total [of off] by auto
  moreover obtain off'' where "exitAggregateType k v off' = Some off''"
    using roundUp_Some [OF a, of off'] assms(1) by (auto simp: exitAggregateType_def enterAggregateType_def)
  ultimately show ?thesis
    using off runVisits_lay_out [OF assms(2), of k rm "[]" "[]" off] by (simp add: getShaderVariableSize.simps)
qed

lemma lay_out_block_placed:
  assumes "k \<noteq> DummyBlockEncoder" "list_all member_ok vs" "list_all block_member vs"
  shows "\<exists>cs off'. lay_out_block k vs rm nm mapped off = Some (cs, off') \<and> members_placed k off off' cs"
  using assms(2,3)
proof (induction "size_list size vs" arbitrary: vs rm nm mapped off rule: less_induct)
  case less
  show ?case
  proof (cases vs)
    case (Cons v ws)
    have ok: "member_ok v" "block_member v" "list_all member_ok ws" "list_all block_member ws"
      using less.prems Cons by simp_all
    have "block_stride k v rm \<noteq> None"
    proof (cases "isStruct v \<and> isArray v")
      case True
      let ?rml = "rm \<or> sv_isRowMajorLayout (sv_info v)"
      have "size_list size (sv_fields v) < size_list size vs" using Cons by (cases v) simp
      from less.hyps [OF this, of ?rml "[]" "[]"] member_ok_dims [OF ok(1)] block_memberD [OF ok(2)]
      have "lay_out_block k (sv_fields v) ?rml [] [] off \<noteq> None" for off by fastforce
      from getShaderVariableSize_Some [OF assms(1) _ ok(2) _ this] member_ok_dims [OF ok(1)] True
      show ?thesis by (simp add: block_stride_def)
    next
      case False
      show ?thesis
      proof (cases "isArrayOfArrays v \<and> \<not> isStruct v")
        case True
        then have "unat (hd (array_dims v)) < 2 ^ 27" "proper_type (sv_type (sv_info v))"
          using block_memberD [OF ok(2)] by (cases "array_dims v"; auto simp: isArrayOfArrays_def)+
        then obtain info at where "encodeType k (sv_type (sv_info v)) [hd (array_dims v)]
            ((rm \<or> sv_isRowMajorLayout (sv_info v)) \<and> IsMatrixType (sv_type (sv_info v))) 0 = Some (info, at)"
          using encodeType_ok [OF assms(1), of "sv_type (sv_info v)" "[hd (array_dims v)]"] by blast
        then show ?thesis using True by (simp add: block_stride_def Let_def)
      next
        case no: False
        with False show ?thesis by (auto simp: block_stride_def Let_def)
      qed
    qed
    then obtain stride where stride: "block_stride k v rm = Some stride" by auto
    from lay_out_placed [OF assms(1) block_layout_ok [OF ok(2)], of stride rm nm mapped first_of_array off]
    obtain cs off1 where 1: "lay_out k stride (block_layout v rm nm mapped first_of_array) off = Some (cs, off1)"
      "members_placed k off off1 cs" by blast
    have "size_list size ws < size_list size vs" using Cons by simp
    from less.hyps [OF this ok(3,4), of rm nm mapped off1] obtain ds off2 where
      "lay_out_block k ws rm nm mapped off1 = Some (ds, off2)" "members_placed k off1 off2 ds" by blast
    with stride 1 members_placed_append [OF 1(2)] show ?thesis by (simp add: Cons)
  qed simp
qed

lemma members_placed_ranges:
  assumes "members_placed k l u cs" "u < 2 ^ 29"
  shows "\<forall>i < length cs. int (4 * l) \<le> bm_offset (fst (snd (cs ! i))) \<and>
      bm_offset (fst (snd (cs ! i))) + int (4 * call_size k (cs ! i)) \<le> int (4 * u) \<and>
      int (4 * call_alignment k (cs ! i)) dvd bm_offset (fst (snd (cs ! i)))"
    and "sorted_wrt (\<lambda>c d. bm_offset (fst (snd c)) + int (4 * call_size k c) \<le> bm_offset (fst (snd d))) cs"
proof -
  have "(\<forall>c \<in> set cs. int (4 * l) \<le> bm_offset (fst (snd c)) \<and>
      bm_offset (fst (snd c)) + int (4 * call_size k c) \<le> int (4 * u) \<and>
      int (4 * call_alignment k c) dvd bm_offset (fst (snd c))) \<and>
    sorted_wrt (\<lambda>c d. bm_offset (fst (snd c)) + int (4 * call_size k c) \<le> bm_offset (fst (snd d))) cs"
    using assms(1)
  proof (induction cs arbitrary: l)
    case (Cons c cs)
    then obtain at where at: "l \<le> at" "bm_offset (fst (snd c)) = to_int (4 * at)" "call_alignment k c dvd at"
      "members_placed k (at + call_size k c) u cs" unfolding members_placed.simps by blast
    have le: "at + call_size k c \<le> u" by (rule members_placed_le [OF at(4)])
    have eq: "bm_offset (fst (snd c)) = int (4 * at)"
      unfolding at(2) by (rule to_int_small) (use le assms(2) in simp)
    have dvd: "int (4 * call_alignment k c) dvd int (4 * at)" using at(3) by simp
    note IH = Cons.IH [OF at(4)]
    show ?case
    proof (intro conjI ballI)
      fix d assume "d \<in> set (c # cs)"
      then show "int (4 * l) \<le> bm_offset (fst (snd d))"
        using eq at(1) IH by auto
    next
      fix d assume "d \<in> set (c # cs)"
      then show "bm_offset (fst (snd d)) + int (4 * call_size k d) \<le> int (4 * u)"
        using eq le IH by auto
    next
      fix d assume "d \<in> set (c # cs)"
      then show "int (4 * call_alignment k d) dvd bm_offset (fst (snd d))"
        using eq dvd IH by auto
    next
      show "sorted_wrt (\<lambda>c d. bm_offset (fst (snd c)) + int (4 * call_size k c) \<le> bm_offset (fst (snd d))) (c # cs)"
        using eq IH by auto
    qed
  qed simp
  then show "\<forall>i < length cs. int (4 * l) \<le> bm_offset (fst (snd (cs ! i))) \<and>
      bm_offset (fst (snd (cs ! i))) + int (4 * call_size k (cs ! i)) \<le> int (4 * u) \<and>
      int (4 * call_alignment k (cs ! i)) dvd bm_offset (fst (snd (cs ! i)))"
    "sorted_wrt (\<lambda>c d. bm_offset (fst (snd c)) + int (4 * call_size k c) \<le> bm_offset (fst (snd d))) cs"
    by auto
qed

section \<open>The packed layout is not larger\<close>

lemma lay_out_mono:
  assumes "\<forall>op \<in> set ops. op_ok Std430BlockEncoder op \<and> op_ok Std140BlockEncoder op" "m \<le> n"
    and "lay_out Std430BlockEncoder stride ops m = Some (cs, m')" "lay_out Std140BlockEncoder stride' ops n = Some (ds, n')"
  shows "m' \<le> n'"
  using assms
proof (induction ops arbitrary: m n cs ds)
  case (Cons op ops)
  have four: "a dvd 4" if "a \<in> {1, 2, 4}" for a :: nat using that by auto
  show ?case
  proof (cases op)
    case (Aggregate v)
    with Cons.prems obtain m1 n1 where 1: "roundUp m (getBaseAlignment Std430BlockEncoder v) = Some m1"
      "roundUp n kComponentsPerRegister = Some n1" "lay_out Std430BlockEncoder stride ops m1 = Some (cs, m')"
      "lay_out Std140BlockEncoder stride' ops n1 = Some (ds, n')"
      by (auto simp: enterAggregateType_def split: bind_splits)
    have "getBaseAlignment Std430BlockEncoder v dvd kComponentsPerRegister"
      using Cons.prems(1) Aggregate four unfolding kComponentsPerRegister_def by (auto simp: op_ok_def)
    from roundUp_mono [OF 1(1,2) Cons.prems(2) this] Cons.IH [OF _ _ 1(3,4)] Cons.prems(1) show ?thesis by simp
  next
    case (Member v rm nm mapped b)
    let ?t = "sv_type (sv_info v)" and ?ds = "leaf_dims v"
    have ok: "proper_type ?t" "\<forall>n \<in> set ?ds. unat n < 2 ^ 27" using Cons.prems(1) Member by (auto simp: op_ok_def)
    obtain i1 a1 where 1: "encodeType Std430BlockEncoder ?t ?ds rm m = Some (i1, a1 + member_size Std430BlockEncoder ?t ?ds rm)"
      "roundUp m (member_alignment Std430BlockEncoder ?t ?ds rm) = Some a1"
      using encodeType_ok [OF _ ok(1) leaf_dims_ok [OF ok(2)], of Std430BlockEncoder rm m] by blast
    obtain i2 a2 where 2: "encodeType Std140BlockEncoder ?t ?ds rm n = Some (i2, a2 + member_size Std140BlockEncoder ?t ?ds rm)"
      "roundUp n (member_alignment Std140BlockEncoder ?t ?ds rm) = Some a2"
      using encodeType_ok [OF _ ok(1) leaf_dims_ok [OF ok(2)], of Std140BlockEncoder rm n] by blast
    have g: "GetStd430BaseAlignment ?t b \<in> {1, 2, 4}" for b by (rule std430_alignment [OF ok(1)])
    have ta: "getTypeBaseAlignment Std430BlockEncoder ?t b \<le> 4" "getTypeBaseAlignment Std430BlockEncoder ?t b dvd 4" for b
      using g [of b] by auto
    have dvd: "member_alignment Std430BlockEncoder ?t ?ds rm dvd member_alignment Std140BlockEncoder ?t ?ds rm"
      using ta(2) by (simp add: member_alignment_def kComponentsPerRegister_def)
    have size: "member_size Std430BlockEncoder ?t ?ds rm \<le> member_size Std140BlockEncoder ?t ?ds rm"
      using mult_le_mono1 [OF ta(1) [of rm], of "register_count ?t rm"] ta(1) [of False]
      by (simp add: member_size_def array_stride_def kComponentsPerRegister_def mult_le_mono1)
    have "a1 + member_size Std430BlockEncoder ?t ?ds rm \<le> a2 + member_size Std140BlockEncoder ?t ?ds rm"
      using roundUp_mono [OF 1(2) 2(2) Cons.prems(2) dvd] size by simp
    moreover obtain cs' ds' where "lay_out Std430BlockEncoder stride ops (a1 + member_size Std430BlockEncoder ?t ?ds rm) = Some (cs', m')"
      "lay_out Std140BlockEncoder stride' ops (a2 + member_size Std140BlockEncoder ?t ?ds rm) = Some (ds', n')"
      using Cons.prems(3,4) Member 1(1) 2(1) by (auto simp: leaf_dims_def [symmetric])
    ultimately show ?thesis using Cons.IH Cons.prems(1) by simp
  qed
qed simp

lemma lay_out_block_mono:
  assumes "list_all block_member vs" "m \<le> n"
    and "lay_out_block Std430BlockEncoder vs rm nm mapped m = Some (cs, m')"
    and "lay_out_block Std140BlockEncoder vs rm nm mapped n = Some (ds, n')"
  shows "m' \<le> n'"
  using assms
proof (induction vs arbitrary: m n cs ds)
  case (Cons v vs)
  let ?ops = "block_layout v rm nm mapped first_of_array"
  from Cons.prems(3) obtain s1 c1 m1 cs' where 1: "lay_out Std430BlockEncoder s1 ?ops m = Some (c1, m1)"
    "lay_out_block Std430BlockEncoder vs rm nm mapped m1 = Some (cs', m')" by (auto split: bind_splits)
  from Cons.prems(4) obtain s2 c2 n1 ds' where 2: "lay_out Std140BlockEncoder s2 ?ops n = Some (c2, n1)"
    "lay_out_block Std140BlockEncoder vs rm nm mapped n1 = Some (ds', n')" by (auto split: bind_splits)
  have "\<forall>op \<in> set ?ops. op_ok Std430BlockEncoder op \<and> op_ok Std140BlockEncoder op"
    using block_layout_ok [of v] Cons.prems(1) by auto
  from lay_out_mono [OF this Cons.prems(2) 1(1) 2(1)] Cons.IH [OF _ _ 1(2) 2(2)] Cons.prems(1) show ?case by simp
qed simp

section \<open>The stride of a top-level array\<close>

definition op_alignment :: "encoder_kind \<Rightarrow> layout_op \<Rightarrow> nat" where
  "op_alignment k op = (case op of
      Aggregate v \<Rightarrow> getBaseAlignment k v
    | Member v rm nm mapped b \<Rightarrow> member_alignment k (sv_type (sv_info v)) (leaf_dims v) rm)"

lemma roundUp_shift: "a dvd c \<Longrightarrow> roundUp (n + c) a = map_option (\<lambda>m. m + c) (roundUp n a)"
proof -
  assume "a dvd c"
  then obtain d where c: "c = a * d" by (auto simp: dvd_def)
  show ?thesis
  proof (cases "a = 0")
    case False
    define t where "t = n + a - 1"
    have shift: "n + c + a - 1 = t + c" using False by (simp add: t_def)
    have "(t + c) mod a = t mod a" unfolding c by (rule mod_mult_self2)
    moreover have "t mod a \<le> t" by simp
    ultimately have "t + c - (t + c) mod a = t - t mod a + c" by linarith
    then show ?thesis using False unfolding roundUp_def shift by (simp add: Let_def t_def)
  qed (simp add: roundUp_def)
qed

text \<open>Moving the start by a multiple of all alignments moves every member by as much.\<close>

definition moved :: "nat \<Rightarrow> nat \<Rightarrow> encode_call \<Rightarrow> encode_call \<Rightarrow> bool" where
  "moved u c x y \<longleftrightarrow> (\<exists>at \<le> u. bm_offset (fst (snd x)) = to_int (4 * at) \<and> bm_offset (fst (snd y)) = to_int (4 * (at + c)))"

lemma moved_mono: "moved u c x y \<Longrightarrow> u \<le> u' \<Longrightarrow> moved u' c x y"
  by (auto simp: moved_def intro: order_trans)

lemma lay_out_shift:
  assumes "k \<noteq> DummyBlockEncoder" "\<forall>op \<in> set ops. op_ok k op \<and> op_alignment k op dvd c"
    and "lay_out k stride ops n = Some (cs, m)"
  shows "\<exists>ds. lay_out k stride' ops (n + c) = Some (ds, m + c) \<and> list_all2 (moved m c) cs ds"
  using assms(2,3)
proof (induction ops arbitrary: n cs)
  case (Cons op ops)
  show ?case
  proof (cases op)
    case (Aggregate v)
    with Cons.prems assms(1) obtain n1 where 1: "roundUp n (getBaseAlignment k v) = Some n1" "lay_out k stride ops n1 = Some (cs, m)"
      by (auto simp: enterAggregateType_def split: bind_splits)
    with roundUp_shift [of "getBaseAlignment k v" c n] Cons.prems(1) Aggregate
    have "roundUp (n + c) (getBaseAlignment k v) = Some (n1 + c)" by (simp add: op_alignment_def)
    with Cons.IH [OF _ 1(2)] Cons.prems(1) Aggregate assms(1) show ?thesis by (simp add: enterAggregateType_def)
  next
    case (Member v rm nm mapped b)
    let ?t = "sv_type (sv_info v)" and ?ds = "leaf_dims v"
    have ok: "proper_type ?t" "\<forall>n \<in> set ?ds. unat n < 2 ^ 27" "member_alignment k ?t ?ds rm dvd c"
      using Cons.prems(1) Member by (auto simp: op_ok_def op_alignment_def)
    obtain i1 a1 where 1: "encodeType k ?t ?ds rm n = Some (i1, a1 + member_size k ?t ?ds rm)"
      "roundUp n (member_alignment k ?t ?ds rm) = Some a1" "bm_offset i1 = to_int (4 * a1)"
      using encodeType_ok [OF assms(1) ok(1) leaf_dims_ok [OF ok(2)], of rm n] by blast
    obtain i2 a2 where 2: "encodeType k ?t ?ds rm (n + c) = Some (i2, a2 + member_size k ?t ?ds rm)"
      "roundUp (n + c) (member_alignment k ?t ?ds rm) = Some a2" "bm_offset i2 = to_int (4 * a2)"
      using encodeType_ok [OF assms(1) ok(1) leaf_dims_ok [OF ok(2)], of rm "n + c"] by blast
    have a2: "a2 = a1 + c" using roundUp_shift [OF ok(3), of n] 1(2) 2(2) by simp
    obtain cs' where cs: "lay_out k stride ops (a1 + member_size k ?t ?ds rm) = Some (cs', m)"
      "cs = (v, i1\<lparr>bm_topLevelArrayStride := if b then stride else 0\<rparr>, nm, mapped) # cs'"
      using Cons.prems(2) Member 1(1) by (auto simp: leaf_dims_def [symmetric])
    from Cons.IH [OF _ cs(1)] Cons.prems(1) obtain ds where
      "lay_out k stride' ops (a1 + member_size k ?t ?ds rm + c) = Some (ds, m + c)" "list_all2 (moved m c) cs' ds" by auto
    moreover have "a1 \<le> m"
    proof -
      obtain cs'' m' where "lay_out k stride ops (a1 + member_size k ?t ?ds rm) = Some (cs'', m')"
        "members_placed k (a1 + member_size k ?t ?ds rm) m' cs''"
        using lay_out_placed [OF assms(1), of ops stride "a1 + member_size k ?t ?ds rm"] Cons.prems(1) by auto
      with cs(1) members_placed_le show ?thesis by fastforce
    qed
    moreover from this have "moved m c (hd cs) (v, i2\<lparr>bm_topLevelArrayStride := if b then stride' else 0\<rparr>, nm, mapped)"
      using 1(3) 2(3) unfolding moved_def cs(2) a2 by auto
    moreover have "lay_out k stride' (op # ops) (n + c) =
      map_option (map_prod ((#) (v, i2\<lparr>bm_topLevelArrayStride := if b then stride' else 0\<rparr>, nm, mapped)) id)
        (lay_out k stride' ops (a1 + member_size k ?t ?ds rm + c))"
      using 2(1) a2 Member by (simp add: leaf_dims_def [symmetric] ac_simps)
    ultimately show ?thesis using cs(2) by simp
  qed
qed simp

text \<open>Names and first-element marks do not matter for the offsets.\<close>

fun same_op :: "layout_op \<Rightarrow> layout_op \<Rightarrow> bool" where
  "same_op (Aggregate v) (Aggregate w) \<longleftrightarrow> (\<forall>k. getBaseAlignment k v = getBaseAlignment k w)"
| "same_op (Member v rm _ _ _) (Member w rm' _ _ _) \<longleftrightarrow>
     sv_type (sv_info v) = sv_type (sv_info w) \<and> leaf_dims v = leaf_dims w \<and> rm = rm'"
| "same_op _ _ \<longleftrightarrow> False"

definition same_place :: "encode_call \<Rightarrow> encode_call \<Rightarrow> bool" where
  "same_place x y \<longleftrightarrow> bm_offset (fst (snd x)) = bm_offset (fst (snd y))"

lemma lay_out_same:
  "list_all2 same_op ops ops' \<Longrightarrow> lay_out k stride ops n = Some (cs, m) \<Longrightarrow>
   \<exists>ds. lay_out k stride' ops' n = Some (ds, m) \<and> list_all2 same_place cs ds"
proof (induction ops ops' arbitrary: n cs rule: list_all2_induct)
  case (Cons x xs y ys)
  show ?case
  proof (cases x)
    case (Aggregate v)
    with Cons.hyps obtain w where "y = Aggregate w" "enterAggregateType k v = enterAggregateType k w"
      by (cases y) (auto simp: enterAggregateType_def fun_eq_iff)
    with Cons.IH Cons.prems Aggregate show ?thesis by (auto split: bind_splits)
  next
    case (Member v rm nm mapped b)
    with Cons.hyps obtain w nm' mapped' b' where y: "y = Member w rm nm' mapped' b'"
      "sv_type (sv_info v) = sv_type (sv_info w)" "leaf_dims v = leaf_dims w" by (cases y) auto
    from Cons.prems Member obtain info n1 cs' where 1:
      "encodeType k (sv_type (sv_info v)) (leaf_dims v) rm n = Some (info, n1)" "lay_out k stride xs n1 = Some (cs', m)"
      "cs = (v, info\<lparr>bm_topLevelArrayStride := if b then stride else 0\<rparr>, nm, mapped) # cs'"
      by (auto simp: leaf_dims_def [symmetric] split: bind_splits)
    from Cons.IH [OF 1(2)] obtain ds where "lay_out k stride' ys n1 = Some (ds, m)" "list_all2 same_place cs' ds" by blast
    moreover have "same_place (hd cs) (w, info\<lparr>bm_topLevelArrayStride := if b' then stride' else 0\<rparr>, nm', mapped')"
      by (simp add: same_place_def 1(3))
    ultimately show ?thesis using y 1 by (simp add: leaf_dims_def [symmetric])
  qed
qed simp

text \<open>
  Alignment inside a structure. Row-major layout is recorded in the fields that are not structures
  (\<open>plain_member\<close>); then no member is aligned more strictly than the structure itself.
\<close>

fun plain_member :: "shader_variable \<Rightarrow> bool" where
  "plain_member (ShaderVariable a fs) \<longleftrightarrow> (fs \<noteq> [] \<longrightarrow> \<not> sv_isRowMajorLayout a) \<and> list_all plain_member fs"

definition alignments :: "visit list \<Rightarrow> nat set" where
  "alignments es = insert 0 (visit_alignment ` set es)"

lemma alignments_simps [simp]:
  "alignments [] = {0}" "alignments (es @ fs) = alignments es \<union> alignments fs"
  "alignments (e # es) = insert (visit_alignment e) (alignments es)"
  by (auto simp: alignments_def)

lemma alignments_concat: "alignments (concat (map f xs)) = insert 0 (\<Union>x \<in> set xs. alignments (f x))"
  by (induction xs) (auto simp: alignments_def)

lemma fold_max_alignments: "m \<in> alignments es \<Longrightarrow> m \<le> fold max (map visit_alignment es) 0"
  unfolding alignments_def using fold_max_mem [of m "map visit_alignment es" 0] by auto

lemma alignments_struct:
  "isStruct v \<Longrightarrow> alignments (struct_visits v rm) = insert 0 (\<Union>f \<in> set (sv_fields v). alignments (TraverseShaderVariable f rm))"
proof (induction "length (array_dims v)" arbitrary: v)
  case 0
  then show ?case by (auto simp: struct_visits_def TraverseStructVariable.simps [of v rm] alignments_concat)
next
  case (Suc n)
  then have dims: "array_dims v \<noteq> []" by auto
  have "alignments (struct_visits (indexIntoArray i v) rm) = insert 0 (\<Union>f \<in> set (sv_fields v). alignments (TraverseShaderVariable f rm))" for i
    using Suc.hyps(1) [of "indexIntoArray i v"] Suc.hyps(2) Suc.prems by simp
  moreover have "\<exists>i. i \<in> set (array_elements (last (array_dims v)))" using array_elements_hd by (metis list.set_intros(1))
  ultimately show ?case
    unfolding struct_visits_array [OF dims] by (auto simp: alignments_concat)
qed

lemma alignments_basic:
  "\<not> IsSamplerType (sv_type (sv_info v)) \<Longrightarrow>
   alignments (basic_visits v rm) = {0, GetStd430BaseAlignment (sv_type (sv_info v)) rm}"
proof (induction "length (array_dims v)" arbitrary: v rule: less_induct)
  case less
  show ?case
  proof (cases "isArrayOfArrays v")
    case True
    have "alignments (basic_visits (indexIntoArray i v) rm) = {0, GetStd430BaseAlignment (sv_type (sv_info v)) rm}" for i
      using less.hyps [of "indexIntoArray i v"] less.prems True by (simp add: isArrayOfArrays_def)
    moreover have "\<exists>i. i \<in> set (array_elements (last (array_dims v)))" using array_elements_hd by (metis list.set_intros(1))
    ultimately show ?thesis
      unfolding basic_visits_array [OF True] by (auto simp: alignments_concat)
  next
    case False
    then show ?thesis using less.prems by (simp add: basic_visits_def insert_commute)
  qed
qed

lemma member_alignment_std430:
  assumes "proper_type t" "rm \<longrightarrow> IsMatrixType t"
  shows "member_alignment Std430BlockEncoder t ds rm = GetStd430BaseAlignment t rm"
proof (cases "IsMatrixType t")
  case False
  then have "VariableRowCount t = 1" "TransposeMatrixType t = t"
    using proper_shape(1) [OF assms(1)] by (auto simp: IsMatrixType_def TransposeMatrixType_def)
  with False assms(2) show ?thesis
    by (auto simp: member_alignment_def GetStd430BaseAlignment_def VariableComponentCount_def)
qed (simp add: member_alignment_def)

lemma basic_alignment:
  assumes "\<not> isStruct v" "block_member v" "op \<in> set (block_layout v rm nm mapped first)"
  shows "op_alignment Std430BlockEncoder op \<in> alignments (TraverseShaderVariable v rm)"
proof -
  let ?rm = "(rm \<or> sv_isRowMajorLayout (sv_info v)) \<and> IsMatrixType (sv_type (sv_info v))"
  note ok = block_memberD [OF assms(2)]
  then have not_sampler: "\<not> IsSamplerType (sv_type (sv_info v))" using assms(1) by (simp add: IsOpaqueType_def)
  obtain "is" nm' mapped' b where "op \<in> set (basic_layout v ?rm nm' mapped' b is)"
    using assms(1,3) unfolding block_layout_visits by (auto simp: Let_def)
  then have "op = Member (element_at v is) ?rm (nm' @ subscripts is) (mapped' @ subscripts is) b"
    using not_sampler by (simp add: basic_layout_def)
  then have "op_alignment Std430BlockEncoder op = GetStd430BaseAlignment (sv_type (sv_info v)) ?rm"
    using member_alignment_std430 [of "sv_type (sv_info v)" ?rm] ok assms(1) by (simp add: op_alignment_def element_at_ok)
  moreover have "TraverseShaderVariable v rm = basic_visits v ?rm"
    using assms(1) by (simp add: traverse_visits Let_def)
  ultimately show ?thesis by (simp add: alignments_basic [OF not_sampler])
qed

lemma struct_alignment:
  "isStruct v \<Longrightarrow> getBaseAlignment Std430BlockEncoder v = fold max (map visit_alignment (TraverseShaderVariables (sv_fields v) False)) 0"
  by (simp add: alignment_visits)

lemma fold_max_subset:
  assumes "\<forall>m \<in> set ms. m \<le> fold max ms' (0 :: nat)"
  shows "fold max ms 0 \<le> fold max ms' 0"
  using fold_max_cases [of ms "{0..fold max ms' 0}" 0] assms by auto

lemma layout_alignment_le:
  assumes "block_member v" "plain_member v" "op \<in> set (block_layout v False nm mapped first)"
  shows "op_alignment Std430BlockEncoder op \<le> fold max (map visit_alignment (TraverseShaderVariable v False)) 0"
  using assms
proof (induction v arbitrary: nm mapped first rule: measure_induct_rule [of size])
  case (less v)
  show ?case
  proof (cases "isStruct v")
    case False
    then show ?thesis using basic_alignment less.prems fold_max_alignments by blast
  next
    case True
    then have plain: "\<not> sv_isRowMajorLayout (sv_info v)" "list_all plain_member (sv_fields v)"
      using less.prems(2) by (cases v; auto simp: isStruct_def)+
    have trav: "TraverseShaderVariable v False = [EnterStruct v] @ struct_visits v False @ [ExitStruct v]"
      using True plain by (simp add: traverse_visits Let_def)
    have sub: "alignments (TraverseShaderVariable f False) \<subseteq> alignments (TraverseShaderVariable v False)"
      if "f \<in> set (sv_fields v)" for f
      using that alignments_struct [OF True, of False] unfolding trav by auto
    have below: "fold max (map visit_alignment (TraverseShaderVariable f False)) 0
        \<le> fold max (map visit_alignment (TraverseShaderVariable v False)) 0" if "f \<in> set (sv_fields v)" for f
    proof (rule fold_max_subset)
      show "\<forall>m \<in> set (map visit_alignment (TraverseShaderVariable f False)). m \<le> fold max (map visit_alignment (TraverseShaderVariable v False)) 0"
      proof
        fix m assume "m \<in> set (map visit_alignment (TraverseShaderVariable f False))"
        then have "m \<in> alignments (TraverseShaderVariable f False)" by (simp add: alignments_def)
        with sub [OF that] show "m \<le> fold max (map visit_alignment (TraverseShaderVariable v False)) 0"
          by (intro fold_max_alignments) (rule subsetD)
      qed
    qed
    obtain "is" nm' mapped' b where op: "op \<in> set (fields_layout (element_at v is) False nm' mapped' b)"
      using True plain(1) less.prems(3) unfolding block_layout_visits by (auto simp: Let_def)
    then consider "op = Aggregate (element_at v is)"
      | f nm'' mapped'' where "f \<in> set (sv_fields v)" "op \<in> set (block_layout f False nm'' mapped'' (\<lambda>_. b))"
      by (auto simp: fields_layout_def element_at_ok)
    then show ?thesis
    proof cases
      case 1
      have "getBaseAlignment Std430BlockEncoder v \<le> fold max (map visit_alignment (TraverseShaderVariable v False)) 0"
        unfolding struct_alignment [OF True]
      proof (rule fold_max_subset)
        show "\<forall>m \<in> set (map visit_alignment (TraverseShaderVariables (sv_fields v) False)).
            m \<le> fold max (map visit_alignment (TraverseShaderVariable v False)) 0"
        proof
          fix m assume "m \<in> set (map visit_alignment (TraverseShaderVariables (sv_fields v) False))"
          then obtain f where f: "f \<in> set (sv_fields v)" "m \<in> visit_alignment ` set (TraverseShaderVariable f False)"
            by (auto simp: TraverseShaderVariables_def)
          then have "m \<in> alignments (TraverseShaderVariable f False)" by (simp add: alignments_def)
          with sub [OF f(1)] show "m \<le> fold max (map visit_alignment (TraverseShaderVariable v False)) 0"
            by (intro fold_max_alignments) (rule subsetD)
        qed
      qed
      then show ?thesis using 1 True by (simp add: op_alignment_def element_at_ok)
    next
      case 2
      have "block_member f" "plain_member f"
        using 2(1) block_memberD [OF less.prems(1)] plain(2) by (auto simp: list_all_iff)
      from less.IH [OF size_field [OF 2(1)] this 2(2)] below [OF 2(1)] show ?thesis by (rule order_trans)
    qed
  qed
qed

lemma same_op_map:
  "(\<And>x. x \<in> set xs \<Longrightarrow> list_all2 same_op (f x) (g x)) \<Longrightarrow> list_all2 same_op (concat (map f xs)) (concat (map g xs))"
  by (induction xs) (auto intro: list_all2_appendI)

lemma same_op_refl: "same_op op (case op of Aggregate v \<Rightarrow> Aggregate v | Member v rm a b c \<Rightarrow> Member v rm a' b' c')"
  by (cases op) simp_all

lemma block_layout_same:
  "list_all2 same_op (block_layout v rm nm mapped first) (block_layout v rm nm' mapped' first')"
proof (induction v arbitrary: rm nm mapped first nm' mapped' first' rule: measure_induct_rule [of size])
  case (less v)
  show ?case
  proof (cases "isStruct v")
    case True
    have "list_all2 same_op (fields_layout (element_at v is) rm nm mapped b) (fields_layout (element_at v is) rm nm' mapped' b')"
      for "is" rm nm mapped b nm' mapped' b'
      unfolding fields_layout_def
      by (intro list_all2_appendI same_op_map) (use less.IH size_field in \<open>auto simp: element_at_ok\<close>)
    then show ?thesis
      using True unfolding block_layout_visits Let_def by (simp add: same_op_map)
  next
    case False
    have "list_all2 same_op (basic_layout v rm nm mapped b is) (basic_layout v rm nm' mapped' b' is)"
      for "is" rm nm mapped b nm' mapped' b' by (simp add: basic_layout_def)
    then show ?thesis
      using False unfolding block_layout_visits Let_def by (simp add: same_op_map)
  qed
qed

lemma lay_out_block_flat:
  "lay_out_block k vs rm nm mapped off = Some (cs, m) \<Longrightarrow>
   \<exists>ds. lay_out k stride (concat (map (\<lambda>f. block_layout f rm nm' mapped' first') vs)) off = Some (ds, m) \<and>
     list_all2 same_place cs ds"
proof (induction vs arbitrary: off cs)
  case (Cons v vs)
  then obtain x c1 m1 c2 where 1: "lay_out k x (block_layout v rm nm mapped first_of_array) off = Some (c1, m1)"
    "lay_out_block k vs rm nm mapped m1 = Some (c2, m)" "cs = c1 @ c2" by (auto split: bind_splits)
  from lay_out_same [OF block_layout_same 1(1), of stride nm' mapped' first'] obtain d1 where
    "lay_out k stride (block_layout v rm nm' mapped' first') off = Some (d1, m1)" "list_all2 same_place c1 d1" by blast
  moreover from Cons.IH [OF 1(2)] obtain d2 where
    "lay_out k stride (concat (map (\<lambda>f. block_layout f rm nm' mapped' first') vs)) m1 = Some (d2, m)"
    "list_all2 same_place c2 d2" by blast
  ultimately show ?case using 1(3) by (simp add: lay_out_append list_all2_appendI)
qed simp

lemma dvd_power_cases: "a \<in> {1, 2, 4} \<Longrightarrow> b \<in> {1, 2, 4} \<Longrightarrow> a \<le> b \<Longrightarrow> a dvd (b :: nat)"
  by auto

lemma op_alignment_cases: "op_ok k op \<Longrightarrow> op_alignment k op \<in> {1, 2, 4}"
  by (cases op) (auto simp: op_ok_def op_alignment_def simp del: insert_iff dest: member_alignment_cases)

lemma op_alignment_std140: "op_ok Std140BlockEncoder op \<Longrightarrow> op_alignment Std140BlockEncoder op dvd 4"
  using op_alignment_cases [of Std140BlockEncoder op] by auto

lemma field_alignment:
  assumes "k \<noteq> DummyBlockEncoder" "isStruct v" "block_member v" "plain_member v" "f \<in> set (sv_fields v)"
    and "op \<in> set (block_layout f False nm mapped first)"
  shows "op_ok k op \<and> op_alignment k op dvd getBaseAlignment k v"
proof -
  have f: "block_member f" "plain_member f"
    using assms(3-5) block_memberD [OF assms(3)] by (cases v; auto simp: list_all_iff)+
  have ok: "op_ok k op" using block_layout_ok [OF f(1)] assms(6) by blast
  show ?thesis
  proof (cases k)
    case Std140BlockEncoder
    then show ?thesis using ok op_alignment_std140 by (simp add: kComponentsPerRegister_def)
  next
    case Std430BlockEncoder
    have "op_alignment k op \<le> fold max (map visit_alignment (TraverseShaderVariable f False)) 0"
      unfolding Std430BlockEncoder by (rule layout_alignment_le [OF f assms(6)])
    also have "\<dots> \<le> getBaseAlignment k v"
      unfolding Std430BlockEncoder struct_alignment [OF assms(2)]
    proof (rule fold_max_subset)
      show "\<forall>m \<in> set (map visit_alignment (TraverseShaderVariable f False)).
          m \<le> fold max (map visit_alignment (TraverseShaderVariables (sv_fields v) False)) 0"
      proof
        fix m assume "m \<in> set (map visit_alignment (TraverseShaderVariable f False))"
        then have "m \<in> set (map visit_alignment (TraverseShaderVariables (sv_fields v) False))"
          using assms(5) by (auto simp: TraverseShaderVariables_def)
        then show "m \<le> fold max (map visit_alignment (TraverseShaderVariables (sv_fields v) False)) 0"
          by (rule fold_max_mem)
      qed
    qed
    finally show ?thesis
      using ok dvd_power_cases op_alignment_cases [OF ok] aggregate_alignment [OF assms(3,2), of k] by blast
  qed (use assms(1) in simp)
qed

text \<open>One element, laid out from an aligned offset.\<close>

definition fields_ops :: "shader_variable \<Rightarrow> string \<Rightarrow> string \<Rightarrow> bool \<Rightarrow> layout_op list" where
  "fields_ops v nm mapped b = concat (map (\<lambda>f. block_layout f False nm mapped (\<lambda>_. b)) (sv_fields v))"

lemma roundUp_aligned: "0 < a \<Longrightarrow> a dvd n \<Longrightarrow> roundUp n a = Some n"
  using roundUp_Some [of a n] by (metis add_diff_cancel_left' dvd_add_right_iff le_add_diff_inverse nat_dvd_not_less not_gr0 add.right_neutral nat_add_left_cancel_less option.inject)

lemma element_lay_out:
  assumes k: "k \<noteq> DummyBlockEncoder" and v: "isStruct v" "member_ok v" "block_member v" "plain_member v"
  shows "\<exists>cs sz. getShaderVariableSize k v False = Some (4 * sz) \<and> getBaseAlignment k v dvd sz \<and>
    (\<forall>stride nm mapped b is a. getBaseAlignment k v dvd a \<longrightarrow>
      (\<exists>ds. lay_out k stride (fields_layout (element_at v is) False nm mapped b) a = Some (ds, a + sz) \<and>
         list_all2 (moved sz a) cs ds))"
proof -
  let ?A = "getBaseAlignment k v"
  have A: "0 < ?A" using aggregate_alignment [OF v(3,1), of k] by auto
  have fs: "list_all member_ok (sv_fields v)" "list_all block_member (sv_fields v)"
    using member_ok_dims [OF v(2)] block_memberD [OF v(3)] by auto
  from lay_out_block_placed [OF k fs, of False "[]" "[]" 0] obtain cs m where
    cs: "lay_out_block k (sv_fields v) False [] [] 0 = Some (cs, m)" by blast
  obtain sz where sz: "roundUp m ?A = Some sz" "?A dvd sz" using roundUp_Some [OF A, of m] by blast
  have "getShaderVariableSize k v False = Some (4 * sz)"
    using runVisits_lay_out [OF fs(1), of k False "[]" "[]" 0] cs sz(1) roundUp_aligned [OF A, of 0] k
    by (simp add: getShaderVariableSize.simps enterAggregateType_def exitAggregateType_def kBytesPerComponent_def mult.commute)
  moreover have "\<exists>ds. lay_out k stride (fields_layout (element_at v is) False nm mapped b) a = Some (ds, a + sz) \<and>
      list_all2 (moved sz a) cs ds" if a: "?A dvd a" for stride nm mapped b "is" a
  proof -
    let ?F = "fields_ops v (nm @ ''.'') (mapped @ ''.'') b"
    from lay_out_block_flat [OF cs, of stride "nm @ ''.''" "mapped @ ''.''" "\<lambda>_. b"] obtain ds0 where
      ds0: "lay_out k stride ?F 0 = Some (ds0, m)" "list_all2 same_place cs ds0" unfolding fields_ops_def by blast
    have "op_alignment k op dvd a" "op_ok k op" if "op \<in> set ?F" for op
      using field_alignment [OF k v(1,3,4)] that a by (auto simp: fields_ops_def intro: dvd_trans)
    then have "\<forall>op \<in> set ?F. op_ok k op \<and> op_alignment k op dvd a" by blast
    from lay_out_shift [OF k this ds0(1), of stride] obtain ds where
      ds: "lay_out k stride ?F a = Some (ds, m + a)" "list_all2 (moved m a) ds0 ds" by auto
    have "m \<le> sz" using roundUp_Some [OF A, of m] sz(1) by auto
    then have "list_all2 (moved sz a) cs ds"
      by (intro list_all2_trans [OF _ ds0(2) ds(2)]) (auto simp: same_place_def moved_def intro: order_trans)
    moreover have "roundUp (m + a) ?A = Some (a + sz)"
      using roundUp_shift [OF a, of m] sz(1) by simp
    moreover have "enterAggregateType k (element_at v is) = enterAggregateType k v" for "is"
    proof -
      have "getBaseAlignment k (element_at v is) = getBaseAlignment k v"
        using v(1) by (cases k) (simp_all add: element_at_ok)
      then show ?thesis by (simp add: enterAggregateType_def fun_eq_iff)
    qed
    ultimately show ?thesis
      using ds(1) roundUp_aligned [OF A a] k
      by (simp add: fields_layout_def fields_ops_def lay_out_append element_at_ok enterAggregateType_def)
  qed
  ultimately show ?thesis using sz(2) by (intro exI [of _ cs] exI [of _ sz]) blast
qed

text \<open>The elements of an array follow each other at the distance of the size of one.\<close>

lemma elements_lay_out:
  assumes sz: "A dvd sz" and el: "\<And>i a. A dvd a \<Longrightarrow> \<exists>ds. lay_out k stride (E i) a = Some (ds, a + sz) \<and> list_all2 (moved sz a) cs ds"
    and a: "A dvd a"
  shows "\<exists>css. lay_out k stride (concat (map E is)) a = Some (concat css, a + length is * sz) \<and> length css = length is \<and>
    (\<forall>j < length is. list_all2 (moved sz (a + j * sz)) cs (css ! j) \<and>
       lay_out k stride (E (is ! j)) (a + j * sz) = Some (css ! j, a + j * sz + sz))"
  using a
proof (induction "is" arbitrary: a)
  case (Cons i "is")
  from el [OF Cons.prems, of i] obtain ds where ds: "lay_out k stride (E i) a = Some (ds, a + sz)" "list_all2 (moved sz a) cs ds"
    by blast
  have "A dvd a + sz" using Cons.prems sz by simp
  from Cons.IH [OF this] obtain css where css:
    "lay_out k stride (concat (map E is)) (a + sz) = Some (concat css, a + sz + length is * sz)" "length css = length is"
    "\<forall>j < length is. list_all2 (moved sz (a + sz + j * sz)) cs (css ! j) \<and>
       lay_out k stride (E (is ! j)) (a + sz + j * sz) = Some (css ! j, a + sz + j * sz + sz)" by blast
  have "\<forall>j < length (i # is). list_all2 (moved sz (a + j * sz)) cs ((ds # css) ! j) \<and>
      lay_out k stride (E ((i # is) ! j)) (a + j * sz) = Some ((ds # css) ! j, a + j * sz + sz)"
  proof (intro allI impI)
    fix j assume "j < length (i # is)"
    then show "list_all2 (moved sz (a + j * sz)) cs ((ds # css) ! j) \<and>
        lay_out k stride (E ((i # is) ! j)) (a + j * sz) = Some ((ds # css) ! j, a + j * sz + sz)"
      using ds css(3) by (cases j) (simp_all add: add.assoc)
  qed
  then show ?case
    using ds(1) css by (intro exI [of _ "ds # css"]) (simp add: lay_out_append add.assoc)
qed (simp add: exI [of _ "[]"])

text \<open>The first element carries the stride.\<close>

lemma lay_out_strides:
  assumes "\<forall>op \<in> set ops. \<forall>v rm nm mapped b. op = Member v rm nm mapped b \<longrightarrow> b"
    and "lay_out k stride ops n = Some (cs, m)"
  shows "\<forall>c \<in> set cs. bm_topLevelArrayStride (fst (snd c)) = stride"
  using assms
proof (induction ops arbitrary: n cs)
  case (Cons op ops)
  then show ?case by (cases op) (fastforce split: bind_splits)+
qed simp

lemma block_layout_marks:
  "op \<in> set (block_layout v rm nm mapped (\<lambda>_. b)) \<Longrightarrow> op = Member w rm' nm' mapped' b' \<Longrightarrow> b' = b"
proof (induction v arbitrary: rm nm mapped rule: measure_induct_rule [of size])
  case (less v)
  show ?case
  proof (cases "isStruct v")
    case True
    then obtain "is" rml nm1 mapped1 where "op \<in> set (fields_layout (element_at v is) rml nm1 mapped1 b)"
      using less.prems unfolding block_layout_visits by (auto simp: Let_def)
    then obtain f nm2 mapped2 where "f \<in> set (sv_fields v)" "op \<in> set (block_layout f rml nm2 mapped2 (\<lambda>_. b))"
      using less.prems(2) by (auto simp: fields_layout_def element_at_ok)
    then show ?thesis using less.IH [OF size_field] less.prems(2) by blast
  next
    case False
    then show ?thesis using less.prems unfolding block_layout_visits by (auto simp: Let_def basic_layout_def split: if_splits)
  qed
qed

lemma struct_array_lay_out:
  assumes k: "k \<noteq> DummyBlockEncoder" and v: "isStruct v" "member_ok v" "block_member v" "plain_member v" "array_dims v = [n]"
    and lay: "lay_out k stride (block_layout v False nm mapped first_of_array) off = Some (calls, off')"
  shows "\<exists>css cs a sz. getShaderVariableSize k v False = Some (4 * sz) \<and> calls = concat css \<and> length css = max 1 (unat n) \<and>
    off' = a + length css * sz \<and> (\<forall>j < length css. list_all2 (moved sz (a + j * sz)) cs (css ! j)) \<and>
    (\<forall>c \<in> set (css ! 0). bm_topLevelArrayStride (fst (snd c)) = stride)"
proof -
  let ?A = "getBaseAlignment k v"
  let ?nm = "nm @ sv_name (sv_info v)" and ?mapped = "mapped @ sv_mappedName (sv_info v)"
  let ?E = "\<lambda>i. fields_layout (element_at v [i]) False (?nm @ ArrayString i) (?mapped @ ArrayString i) (i = 0)"
  have A: "0 < ?A" using aggregate_alignment [OF v(3,1), of k] by auto
  have "\<not> sv_isRowMajorLayout (sv_info v)" using v(1,4) by (cases v) (auto simp: isStruct_def)
  moreover have "index_lists [n] = map (\<lambda>i. [i]) (array_elements n)"
    by simp
  ultimately have ops: "block_layout v False nm mapped first_of_array = concat (map ?E (array_elements n))"
    using v(1,5) unfolding block_layout_visits by (simp add: comp_def)
  obtain a where a: "roundUp off ?A = Some a" "?A dvd a" using roundUp_Some [OF A, of off] by blast
  obtain rest where rest: "array_elements n = 0 # rest" "0 \<notin> set rest" using array_elements_hd by blast
  have "getBaseAlignment k (indexIntoArray i v) = ?A" for i
    using v(1) by (cases k) simp_all
  then have "lay_out k stride (concat (map ?E (array_elements n))) off = lay_out k stride (concat (map ?E (array_elements n))) a"
    using a roundUp_aligned [OF A a(2)] k unfolding rest(1) by (simp add: fields_layout_def enterAggregateType_def)
  with lay have lay': "lay_out k stride (concat (map ?E (array_elements n))) a = Some (calls, off')" by (simp add: ops)
  from element_lay_out [OF k v(1-4)] obtain cs sz where sz: "getShaderVariableSize k v False = Some (4 * sz)" "?A dvd sz"
    and el: "\<And>stride nm mapped b is a. ?A dvd a \<Longrightarrow> \<exists>ds. lay_out k stride (fields_layout (element_at v is) False nm mapped b) a
      = Some (ds, a + sz) \<and> list_all2 (moved sz a) cs ds" by blast
  from elements_lay_out [OF sz(2) el a(2), of stride "\<lambda>i. [i]" "\<lambda>i. ?nm @ ArrayString i" "\<lambda>i. ?mapped @ ArrayString i" "\<lambda>i. i = 0" "array_elements n"]
  obtain css where css: "lay_out k stride (concat (map ?E (array_elements n))) a = Some (concat css, a + length (array_elements n) * sz)"
    "length css = length (array_elements n)" "\<forall>j < length (array_elements n). list_all2 (moved sz (a + j * sz)) cs (css ! j) \<and>
      lay_out k stride (?E (array_elements n ! j)) (a + j * sz) = Some (css ! j, a + j * sz + sz)" by blast
  have len: "length (array_elements n) = max 1 (unat n)" by (simp add: array_elements_def unat_max_one)
  have "lay_out k stride (?E 0) a = Some (css ! 0, a + sz)" using css(3) rest(1) by fastforce
  moreover have "\<forall>op \<in> set (?E 0). \<forall>v rm nm mapped b. op = Member v rm nm mapped b \<longrightarrow> b"
    using block_layout_marks by (fastforce simp: fields_layout_def)
  ultimately have "\<forall>c \<in> set (css ! 0). bm_topLevelArrayStride (fst (snd c)) = stride"
    using lay_out_strides by blast
  with sz(1) css lay' len show ?thesis by (intro exI [of _ css] exI [of _ cs] exI [of _ a] exI [of _ sz]) simp
qed

section \<open>Which members a block has\<close>

text \<open>
  \<open>block_name v nm t\<close>: the variable \<open>v\<close> of a block stands for a member with the name \<open>nm\<close> and the type \<open>t\<close>. It is the
  variable itself, or one of its innermost arrays when it is an array of arrays; for a structure it is a member of one
  of its fields, in one of its elements. An array without a size counts as one element.
\<close>

inductive block_name :: "shader_variable \<Rightarrow> string \<Rightarrow> gl_type \<Rightarrow> bool" where
  basic: "\<lbrakk>\<not> isStruct v; list_all2 (\<lambda>i n. unat i < max 1 (unat n)) subs (rev (tl (array_dims v)))\<rbrakk>
    \<Longrightarrow> block_name v (sv_name (sv_info v) @ subscripts subs) (sv_type (sv_info v))"
| field: "\<lbrakk>list_all2 (\<lambda>i n. unat i < max 1 (unat n)) subs (rev (array_dims v));
     f \<in> set (sv_fields v); block_name f nm t\<rbrakk>
    \<Longrightarrow> block_name v (sv_name (sv_info v) @ subscripts subs @ ''.'' @ nm) t"

inductive_cases block_name_cases: "block_name v nm t"

definition call_name :: "encode_call \<Rightarrow> string \<times> gl_type" where
  "call_name c = (fst (snd (snd c)), sv_type (sv_info (fst c)))"

definition op_names :: "layout_op \<Rightarrow> (string \<times> gl_type) list" where
  "op_names op = (case op of Aggregate v \<Rightarrow> [] | Member v rm nm mapped b \<Rightarrow> [(nm, sv_type (sv_info v))])"

lemma op_names_simps [simp]:
  "op_names (Aggregate v) = []" "op_names (Member v rm nm mapped b) = [(nm, sv_type (sv_info v))]"
  by (simp_all add: op_names_def)

lemma lay_out_names: "lay_out k stride ops off = Some (cs, off') \<Longrightarrow> map call_name cs = concat (map op_names ops)"
proof (induction ops arbitrary: off cs)
  case (Cons op ops)
  show ?case
  proof (cases op)
    case (Aggregate v)
    with Cons.prems obtain o1 where "lay_out k stride ops o1 = Some (cs, off')" by (auto simp: bind_eq_Some_conv)
    with Cons.IH Aggregate show ?thesis by simp
  next
    case (Member v rm nm mapped b)
    with Cons.prems obtain info o1 ds where "lay_out k stride ops o1 = Some (ds, off')"
      "cs = (v, info, nm, mapped) # ds" by (auto simp: bind_eq_Some_conv)
    with Cons.IH Member show ?thesis by (simp add: call_name_def)
  qed
qed simp

lemma in_index_lists: "subs \<in> set (index_lists ns) \<longleftrightarrow> list_all2 (\<lambda>i n. unat i < max 1 (unat n)) subs ns"
proof (induction ns arbitrary: subs)
  case (Cons n ns)
  have "i \<in> set (array_elements n) \<longleftrightarrow> unat i < max 1 (unat n)" for i
  proof
    assume "unat i < max 1 (unat n)"
    then have "unat i \<in> set [0..<unat (max n 1)]" by (simp add: unat_max_one)
    then show "i \<in> set (array_elements n)" unfolding array_elements_def by (force simp: image_iff)
  qed (rule array_elements_less)
  with Cons show ?case by (cases subs) (auto simp: image_iff)
qed simp

lemma opaque_sampler: "IsSamplerType t \<Longrightarrow> IsOpaqueType t"
  by (simp add: IsOpaqueType_def)

lemma block_layout_names:
  "block_member v \<Longrightarrow> (\<exists>op \<in> set (block_layout v rm nm mapped first). (s, t) \<in> set (op_names op)) \<longleftrightarrow>
     (\<exists>s'. s = nm @ s' \<and> block_name v s' t)"
proof (induction v arbitrary: rm nm mapped first s rule: measure_induct_rule [of size])
  case (less v)
  obtain a fs where v: "v = ShaderVariable a fs" by (cases v)
  show ?case
  proof (cases "fs = []")
    case True
    have "\<not> IsSamplerType (sv_type a)" using less.prems opaque_sampler by (auto simp: v True)
    then have "(\<exists>op \<in> set (block_layout v rm nm mapped first). (s, t) \<in> set (op_names op)) \<longleftrightarrow>
      (\<exists>subs. list_all2 (\<lambda>i n. unat i < max 1 (unat n)) subs (rev (tl (sv_arraySizes a))) \<and>
         s = nm @ sv_name a @ subscripts subs \<and> t = sv_type a)"
      by (auto simp: v True block_layout.simps in_index_lists element_at_ok Let_def)
    also have "\<dots> \<longleftrightarrow> (\<exists>s'. s = nm @ s' \<and> block_name v s' t)"
      unfolding block_name.simps [of v] by (auto simp: v True isStruct_def)
    finally show ?thesis .
  next
    case False
    have IH: "(\<exists>op \<in> set (block_layout f rm' nm' mapped' first'). (s, t) \<in> set (op_names op)) \<longleftrightarrow>
        (\<exists>s'. s = nm' @ s' \<and> block_name f s' t)" if "f \<in> set fs" for f rm' nm' mapped' first'
      using less.IH [OF size_field [of f v], of rm' nm' mapped' first' s] less.prems that by (simp add: v list_all_iff)
    have "(\<exists>op \<in> set (block_layout v rm nm mapped first). (s, t) \<in> set (op_names op)) \<longleftrightarrow>
      (\<exists>subs. list_all2 (\<lambda>i n. unat i < max 1 (unat n)) subs (rev (sv_arraySizes a)) \<and>
         (\<exists>f \<in> set fs. \<exists>op \<in> set (block_layout f (rm \<or> sv_isRowMajorLayout a)
            ((nm @ sv_name a) @ subscripts subs @ ''.'') ((mapped @ sv_mappedName a) @ subscripts subs @ ''.'') (\<lambda>_. first subs)).
            (s, t) \<in> set (op_names op)))"
      unfolding v block_layout.simps Let_def in_index_lists [symmetric] using False
      by (simp del: append_assoc) blast
    also have "\<dots> \<longleftrightarrow> (\<exists>subs. list_all2 (\<lambda>i n. unat i < max 1 (unat n)) subs (rev (sv_arraySizes a)) \<and>
         (\<exists>f \<in> set fs. \<exists>s'. s = ((nm @ sv_name a) @ subscripts subs @ ''.'') @ s' \<and> block_name f s' t))"
      using IH by (simp del: append_assoc cong: bex_cong)
    also have "\<dots> \<longleftrightarrow> (\<exists>s'. s = nm @ s' \<and> block_name v s' t)"
      unfolding block_name.simps [of v] using False by (auto simp: v isStruct_def)
    finally show ?thesis .
  qed
qed

lemma lay_out_block_names:
  "list_all block_member vs \<Longrightarrow> lay_out_block k vs rm nm mapped off = Some (cs, off') \<Longrightarrow>
     (s, t) \<in> call_name ` set cs \<longleftrightarrow> (\<exists>v \<in> set vs. \<exists>s'. s = nm @ s' \<and> block_name v s' t)"
proof (induction vs arbitrary: off cs)
  case (Cons v vs)
  from Cons.prems(2) obtain stride calls o1 ds where
    1: "lay_out k stride (block_layout v rm nm mapped first_of_array) off = Some (calls, o1)" and
    2: "lay_out_block k vs rm nm mapped o1 = Some (ds, off')" and cs: "cs = calls @ ds"
    by (auto simp: bind_eq_Some_conv)
  have "call_name ` set calls = set (map call_name calls)" by simp
  also have "\<dots> = (\<Union>op \<in> set (block_layout v rm nm mapped first_of_array). set (op_names op))"
    unfolding lay_out_names [OF 1] by simp
  finally have "(s, t) \<in> call_name ` set calls \<longleftrightarrow> (\<exists>s'. s = nm @ s' \<and> block_name v s' t)"
    using block_layout_names [of v rm nm mapped first_of_array s t] Cons.prems(1) by simp
  with Cons.IH [OF _ 2] Cons.prems(1) show ?case by (simp add: cs image_Un)
qed simp

section \<open>Properties\<close>

text \<open>
  C0. The visitors refine the direct layout: for variables as the compiler reports them, the traversal
  with \<open>BlockEncoderVisitor\<close> and \<open>BlockLayoutMapVisitor\<close>, with its stacks of names, its strides of
  top-level arrays and its nested visitors for the sizes of structures, records exactly the members
  that the structural layout enumerates, under the same names and at the same offsets.
\<close>

theorem interface_block_info_layout:
  assumes "list_all member_ok flds"
  shows "GetInterfaceBlockInfo flds prefix k rm blockInfoOut offset =
    map_option (map_prod (\<lambda>calls. fold encodeVariable calls blockInfoOut) id)
      (lay_out_block k flds rm (if prefix = [] then [] else prefix @ ''.'') (if prefix = [] then [] else prefix @ ''.'') offset)"
  unfolding GetInterfaceBlockInfo_def runVisits_lay_out [OF assms]
  by (simp add: option.map_comp comp_def map_prod_def case_prod_unfold)

abbreviation sample_struct :: "string \<Rightarrow> u32 list \<Rightarrow> shader_variable" where
  "sample_struct nm sizes \<equiv>
     ShaderVariable (default_info GL_NONE\<lparr>sv_name := nm, sv_mappedName := nm, sv_arraySizes := sizes\<rparr>)
       [ShaderVariable (default_info GL_FLOAT\<lparr>sv_name := ''f'', sv_mappedName := ''f''\<rparr>) [],
        ShaderVariable (default_info GL_FLOAT_VEC3\<lparr>sv_name := ''d'', sv_mappedName := ''d''\<rparr>) []]"

theorem interface_block_info_layout_witness:
  "map_option snd (GetInterfaceBlockInfo [sample_struct ''s'' [2]] [] Std430BlockEncoder False (\<lambda>_. None) 0) = Some 16"
proof -
  have "list_all member_ok [sample_struct ''s'' [2]]" by (simp add: default_info_def dims_size_def)
  from interface_block_info_layout [OF this, of "[]" Std430BlockEncoder False "\<lambda>_. None" 0]
  have "map_option snd (GetInterfaceBlockInfo [sample_struct ''s'' [2]] [] Std430BlockEncoder False (\<lambda>_. None) 0) =
    map_option snd (lay_out_block Std430BlockEncoder [sample_struct ''s'' [2]] False [] [] 0)"
    by (simp add: option.map_comp comp_def)
  also have "\<dots> = Some 16" by code_simp
  finally show ?thesis .
qed

text \<open>
  C20. In a std140 or std430 block whose members have known, not opaque types and array sizes below \<open>2\<^sup>2\<^sup>7\<close>, the
  visitors always end and encode every member of the block and nothing else, each under its name and with its type.
  When the block ends below component \<open>2\<^sup>2\<^sup>9\<close> (so that byte offsets are positive \<open>int\<close>s), the bytes of different members do not
  overlap, lie between the start and the final offset, and start at a multiple of the member's alignment.
\<close>

theorem block_members_disjoint:
  assumes "k \<noteq> DummyBlockEncoder" "list_all member_ok flds" "list_all block_member flds"
  shows "\<exists>s offset'. runVisits k (TraverseShaderVariables flds rm) (BlockEncoderVisitor nm mapped, offset) = Some (s, offset') \<and>
    call_name ` set (mEncodeCalls s) =
      {((if nm = [] then [] else nm @ ''.'') @ name, t) | v name t. v \<in> set flds \<and> block_name v name t} \<and>
    (offset' < 2 ^ 29 \<longrightarrow>
      (\<forall>i < length (mEncodeCalls s).
         let c = mEncodeCalls s ! i; at = bm_offset (fst (snd c))
         in int (4 * offset) \<le> at \<and> at + int (4 * call_size k c) \<le> int (4 * offset') \<and>
            int (4 * call_alignment k c) dvd at \<and>
            (\<forall>j < length (mEncodeCalls s). i < j \<longrightarrow>
               at + int (4 * call_size k c) \<le> bm_offset (fst (snd (mEncodeCalls s ! j))))))"
proof -
  let ?p = "if nm = [] then [] else nm @ ''.''"
  obtain calls offset' where lay: "lay_out_block k flds rm ?p
      (if mapped = [] then [] else mapped @ ''.'') offset = Some (calls, offset')" "members_placed k offset offset' calls"
    using lay_out_block_placed [OF assms] by blast
  let ?s = "BlockEncoderVisitor nm mapped\<lparr>mEncodeCalls := calls\<rparr>"
  have "runVisits k (TraverseShaderVariables flds rm) (BlockEncoderVisitor nm mapped, offset) = Some (?s, offset')"
    by (simp add: runVisits_lay_out [OF assms(2)] lay(1))
  moreover have "call_name ` set calls = {(?p @ name, t) | v name t. v \<in> set flds \<and> block_name v name t}"
    using lay_out_block_names [OF assms(3) lay(1)] by (intro set_eqI) (auto simp only: split_paired_all mem_Collect_eq)
  moreover have "offset' < 2 ^ 29 \<longrightarrow>
      (\<forall>i < length calls. let c = calls ! i; at = bm_offset (fst (snd c))
         in int (4 * offset) \<le> at \<and> at + int (4 * call_size k c) \<le> int (4 * offset') \<and>
            int (4 * call_alignment k c) dvd at \<and>
            (\<forall>j < length calls. i < j \<longrightarrow> at + int (4 * call_size k c) \<le> bm_offset (fst (snd (calls ! j)))))"
    using members_placed_ranges [OF lay(2)] by (auto simp: Let_def sorted_wrt_iff_nth_less)
  ultimately show ?thesis by (intro exI [of _ ?s] exI [of _ offset']) simp
qed

text \<open>
  C21. For members of known, not opaque types with array sizes below \<open>2\<^sup>2\<^sup>7\<close>, laying out a block by std430 and by std140
  always ends, and std430 never makes the block larger.
\<close>

theorem std430_not_larger:
  assumes "list_all member_ok flds" "list_all block_member flds"
  shows "\<exists>s size430 t size140.
    runVisits Std430BlockEncoder (TraverseShaderVariables flds rm) (BlockEncoderVisitor nm mapped, offset) = Some (s, size430) \<and>
    runVisits Std140BlockEncoder (TraverseShaderVariables flds rm) (BlockEncoderVisitor nm mapped, offset) = Some (t, size140) \<and>
    size430 \<le> size140"
proof -
  let ?lay = "\<lambda>k. lay_out_block k flds rm (if nm = [] then [] else nm @ ''.'') (if mapped = [] then [] else mapped @ ''.'') offset"
  obtain cs a ds b where "?lay Std430BlockEncoder = Some (cs, a)" "?lay Std140BlockEncoder = Some (ds, b)"
    using lay_out_block_placed [OF _ assms, of Std430BlockEncoder] lay_out_block_placed [OF _ assms, of Std140BlockEncoder] by blast
  then show ?thesis
    using lay_out_block_mono [OF assms(2) order_refl] unfolding runVisits_lay_out [OF assms(1)] by fastforce
qed

text \<open>
  C22. For a top-level one-dimensional array of structures whose members record row-major layout themselves, and a
  block that ends below component \<open>2\<^sup>2\<^sup>9\<close>: the stride reported for the members of the first element is the size of the structure in bytes, and the
  members of every element lie exactly that far behind those of the element before. (The comment on the field calls it
  the number of active array elements.)
\<close>

theorem top_level_array_stride:
  assumes "k \<noteq> DummyBlockEncoder" "isStruct v" "member_ok v" "block_member v" "plain_member v" "array_dims v = [n]"
    and run: "runVisits k (TraverseShaderVariable v False) (BlockEncoderVisitor nm mapped, offset) = Some (s, offset')"
    and small: "offset' < 2 ^ 29"
  shows "\<exists>css size. getShaderVariableSize k v False = Some size \<and> mEncodeCalls s = concat css \<and>
    length css = max 1 (unat n) \<and> (\<forall>c \<in> set (css ! 0). bm_topLevelArrayStride (fst (snd c)) = int size) \<and>
    (\<forall>i < length css. length (css ! i) = length (css ! 0) \<and>
       (\<forall>j < length (css ! 0). bm_offset (fst (snd (css ! i ! j))) = bm_offset (fst (snd (css ! 0 ! j))) + int (i * size)))"
proof -
  have "Option.bind (block_stride k v False) (\<lambda>stride.
      map_option (map_prod (\<lambda>calls. BlockEncoderVisitor nm mapped\<lparr>mEncodeCalls := calls\<rparr>) id)
        (lay_out k stride (block_layout v False (names_of (BlockEncoderVisitor nm mapped)) (mapped_of (BlockEncoderVisitor nm mapped))
           first_of_array) offset)) = Some (s, offset')"
    using run runVisits_member [OF assms(3) BlockEncoderVisitor_top(1) [of nm mapped], of k False "[]" offset]
    by (simp only: BlockEncoderVisitor_top(2) BlockEncoderVisitor_no_calls append_Nil)
  then obtain stride calls where lay: "block_stride k v False = Some stride"
    "lay_out k stride (block_layout v False (names_of (BlockEncoderVisitor nm mapped)) (mapped_of (BlockEncoderVisitor nm mapped)) first_of_array) offset
      = Some (calls, offset')" "mEncodeCalls s = calls"
    by (auto simp: bind_eq_Some_conv)
  from struct_array_lay_out [OF assms(1-6) lay(2)] obtain css cs a sz where
    sz: "getShaderVariableSize k v False = Some (4 * sz)" and css: "calls = concat css" "length css = max 1 (unat n)"
    "offset' = a + length css * sz" "\<forall>j < length css. list_all2 (moved sz (a + j * sz)) cs (css ! j)"
    "\<forall>c \<in> set (css ! 0). bm_topLevelArrayStride (fst (snd c)) = stride" by blast
  have pos: "0 < length css" using css(2) by simp
  then have "1 * sz \<le> length css * sz" by (intro mult_le_mono1) (use pos in linarith)
  then have "sz \<le> length css * sz" by (simp only: nat_mult_1)
  moreover have "length css * sz < 2 ^ 29" using css(3) small by linarith
  ultimately have "sz < 2 ^ 29" by (rule le_less_trans)
  then have "4 * sz < 2 ^ 31" by simp
  have "\<not> sv_isRowMajorLayout (sv_info v)" using assms(2,5) by (cases v) (auto simp: isStruct_def)
  then have "stride = mul_int 1 (to_int (4 * sz))"
    using lay(1) sz assms(2,6) by (simp add: block_stride_def isArray_def getInnerArraySizeProduct_def)
  then have "stride = int (4 * sz)"
    unfolding to_int_small [OF \<open>4 * sz < 2 ^ 31\<close>] mul_int_one [OF \<open>4 * sz < 2 ^ 31\<close>] .
  moreover have "length (css ! i) = length (css ! 0) \<and>
      (\<forall>j < length (css ! 0). bm_offset (fst (snd (css ! i ! j))) = bm_offset (fst (snd (css ! 0 ! j))) + int (i * (4 * sz)))"
    if i: "i < length css" for i
  proof -
    have all: "list_all2 (moved sz (a + i * sz)) cs (css ! i)" "list_all2 (moved sz (a + 0 * sz)) cs (css ! 0)"
      using css(4) i pos by blast+
    have "bm_offset (fst (snd (css ! i ! j))) = bm_offset (fst (snd (css ! 0 ! j))) + int (i * (4 * sz))" if j: "j < length (css ! 0)" for j
    proof -
      have "moved sz (a + i * sz) (cs ! j) (css ! i ! j)" "moved sz (a + 0 * sz) (cs ! j) (css ! 0 ! j)"
        using all j list_all2_lengthD [OF all(2)] by (auto intro: list_all2_nthD2 simp: list_all2_lengthD)
      then obtain at at0 where at: "at \<le> sz" "bm_offset (fst (snd (cs ! j))) = to_int (4 * at)"
          "bm_offset (fst (snd (css ! i ! j))) = to_int (4 * (at + (a + i * sz)))"
          "at0 \<le> sz" "bm_offset (fst (snd (cs ! j))) = to_int (4 * at0)"
          "bm_offset (fst (snd (css ! 0 ! j))) = to_int (4 * (at0 + (a + 0 * sz)))"
        unfolding moved_def by blast
      have "at = at0"
        using at(1,2,4,5) \<open>4 * sz < 2 ^ 31\<close> to_int_small [of "4 * at"] to_int_small [of "4 * at0"] by simp
      moreover have "(i + 1) * sz \<le> length css * sz" using i by (intro mult_le_mono1) simp
      then have "4 * (at + (a + i * sz)) < 2 ^ 31" "4 * (at0 + (a + 0 * sz)) < 2 ^ 31"
        using at(1,4) css(3) small by (simp_all add: algebra_simps)
      ultimately show ?thesis unfolding at(3,6) by (simp add: to_int_small)
    qed
    then show ?thesis using all list_all2_lengthD by metis
  qed
  moreover have "mEncodeCalls s = concat css" using lay(3) css(1) by simp
  ultimately show ?thesis using sz css(2,5) by blast
qed

lemma sample_struct_ok: "unat n < 2 ^ 27 \<Longrightarrow> member_ok (sample_struct nm [n]) \<and> block_member (sample_struct nm [n]) \<and> plain_member (sample_struct nm [n])"
  by (simp add: default_info_def dims_size_def proper_type_def IsOpaqueType_def IsImageType_def IsSamplerType_def IsAtomicCounterType_def)

theorem block_members_disjoint_witness:
  "\<exists>s offset'. runVisits Std140BlockEncoder (TraverseShaderVariables [sample_struct ''s'' [2]] False)
     (BlockEncoderVisitor [] [], 0) = Some (s, offset') \<and> (''s[1].d'', GL_FLOAT_VEC3) \<in> call_name ` set (mEncodeCalls s)"
proof -
  have ok: "list_all member_ok [sample_struct ''s'' [2]]" "list_all block_member [sample_struct ''s'' [2]]"
    using sample_struct_ok [of 2 "''s''"] by simp_all
  let ?d = "ShaderVariable (default_info GL_FLOAT_VEC3\<lparr>sv_name := ''d'', sv_mappedName := ''d''\<rparr>) []"
  have "block_name ?d ''d'' GL_FLOAT_VEC3"
    using block_name.basic [of ?d "[]"] by (simp add: isStruct_def default_info_def)
  then have "block_name (sample_struct ''s'' [2]) (sv_name (sv_info (sample_struct ''s'' [2])) @ subscripts [1] @ ''.'' @ ''d'') GL_FLOAT_VEC3"
    by (rule block_name.field [rotated 2]) simp_all
  moreover have "subscripts [1] = ''[1]''" by code_simp
  ultimately have "block_name (sample_struct ''s'' [2]) ''s[1].d'' GL_FLOAT_VEC3" by simp
  with block_members_disjoint [OF _ ok, of Std140BlockEncoder False "[]" "[]" 0] show ?thesis by fastforce
qed

lemma sample_sizes:
  "map_option snd (runVisits Std430BlockEncoder (TraverseShaderVariables [sample_struct ''s'' [2]] False) (BlockEncoderVisitor [] [], 0)) = Some 16"
  "map_option snd (runVisits Std140BlockEncoder (TraverseShaderVariables [sample_struct ''s'' [2]] False) (BlockEncoderVisitor [] [], 0)) = Some 16"
  "map_option snd (runVisits Std430BlockEncoder (TraverseShaderVariable (sample_struct ''s'' [2]) False) (BlockEncoderVisitor [] [], 0)) = Some 16"
  by code_simp+

abbreviation sample_array :: shader_variable where
  "sample_array \<equiv> ShaderVariable (default_info GL_FLOAT\<lparr>sv_name := ''a'', sv_mappedName := ''a'', sv_arraySizes := [4]\<rparr>) []"

lemma sample_array_sizes:
  "map_option snd (runVisits Std430BlockEncoder (TraverseShaderVariables [sample_array, sample_struct ''s'' [2]] False) (BlockEncoderVisitor [] [], 0)) = Some 20"
  "map_option snd (runVisits Std140BlockEncoder (TraverseShaderVariables [sample_array, sample_struct ''s'' [2]] False) (BlockEncoderVisitor [] [], 0)) = Some 32"
  by code_simp+

theorem std430_not_larger_witness:
  "\<exists>s t. runVisits Std430BlockEncoder (TraverseShaderVariables [sample_array, sample_struct ''s'' [2]] False) (BlockEncoderVisitor [] [], 0) = Some (s, 20) \<and>
     runVisits Std140BlockEncoder (TraverseShaderVariables [sample_array, sample_struct ''s'' [2]] False) (BlockEncoderVisitor [] [], 0) = Some (t, 32) \<and>
     (20 :: nat) \<le> 32"
proof -
  have "list_all member_ok [sample_array, sample_struct ''s'' [2]]" "list_all block_member [sample_array, sample_struct ''s'' [2]]"
    using sample_struct_ok [of 2 "''s''"]
    by (simp_all add: default_info_def dims_size_def proper_type_def IsOpaqueType_def IsImageType_def IsSamplerType_def IsAtomicCounterType_def)
  from std430_not_larger [OF this, of False "[]" "[]" 0] sample_array_sizes show ?thesis by fastforce
qed

theorem top_level_array_stride_witness:
  "\<exists>css size. getShaderVariableSize Std430BlockEncoder (sample_struct ''s'' [2]) False = Some size \<and> length css = (2 :: nat) \<and>
     (\<forall>c \<in> set (css ! 0). bm_topLevelArrayStride (fst (snd (c :: encode_call))) = int size)"
proof -
  obtain s where "runVisits Std430BlockEncoder (TraverseShaderVariable (sample_struct ''s'' [2]) False) (BlockEncoderVisitor [] [], 0) = Some (s, 16)"
    using sample_sizes(3) by fastforce
  note run = this
  have ok: "member_ok (sample_struct ''s'' [2])" "block_member (sample_struct ''s'' [2])" "plain_member (sample_struct ''s'' [2])"
    using sample_struct_ok [of 2 "''s''"] by simp_all
  have "Std430BlockEncoder \<noteq> DummyBlockEncoder" "isStruct (sample_struct ''s'' [2])" "array_dims (sample_struct ''s'' [2]) = [2]"
    "(16 :: nat) < 2 ^ 29" "max 1 (unat (2 :: u32)) = 2" by (simp_all add: isStruct_def)
  from top_level_array_stride [OF this(1,2) ok this(3) run this(4), unfolded this(5)] show ?thesis by blast
qed

text \<open>
  Without that condition: the fields of a structure do not inherit the layout of the block member in
  the base alignment std430 computes for the structure. The stride reported for a row-major array of
  \<open>struct { mat3x2 m; float f; }\<close> is not the distance of its elements.
\<close>

definition row_major_sample :: shader_variable where
  "row_major_sample =
     ShaderVariable (default_info GL_NONE\<lparr>sv_name := ''s'', sv_arraySizes := [2], sv_isRowMajorLayout := True\<rparr>)
       [ShaderVariable (default_info GL_FLOAT_MAT3x2\<lparr>sv_name := ''m''\<rparr>) [],
        ShaderVariable (default_info GL_FLOAT\<lparr>sv_name := ''f''\<rparr>) []]"

theorem std430_row_major_stride:
  "map_option (\<lambda>(s, _). map (\<lambda>(_, info, nm, _). (nm, bm_offset info, bm_topLevelArrayStride info)) (mEncodeCalls s))
     (runVisits Std430BlockEncoder (TraverseShaderVariables [row_major_sample] False) (BlockEncoderVisitor [] [], 0))
   = Some [(''s[0].m'', 0, 40), (''s[0].f'', 32, 40), (''s[1].m'', 48, 0), (''s[1].f'', 80, 0)]"
  by code_simp

end
