(* ===== verification/Pp_Input.thy ===== *)
theory Pp_Input
  imports Prelude
begin

text \<open>
  \<open>angle::pp::Input\<close> (src/src/compiler/preprocessor/Input.{h,cpp}): the source strings of a shader as
  the tokenizer reads them, with line continuations (a backslash before a new line) removed.

  A string is its characters and the character that follows them in memory, which the code reads for an
  empty string. An access behind that is \<^term>\<open>None\<close>. The pointer \<open>lineNo\<close> is an argument and a result.

  \<open>splice\<close> is what the reader means to do. The lemmas show that successive calls of \<open>read\<close> hand out the
  spliced text; the last section, where the reader does not keep its own contract.
\<close>

section \<open>State\<close>

record input_location =
  sIndex :: nat
  cIndex :: nat

record pp_input =
  mString :: "(string \<times> char) list"
  mReadLoc :: input_location

definition Input :: "(string \<times> char) list \<Rightarrow> pp_input" where
  "Input strings = \<lparr>mString = strings, mReadLoc = \<lparr>sIndex = 0, cIndex = 0\<rparr>\<rparr>"

definition mCount :: "pp_input \<Rightarrow> nat" where
  "mCount s = length (mString s)"

definition mLength :: "pp_input \<Rightarrow> nat \<Rightarrow> nat" where
  "mLength s i = length (fst (mString s ! i))"

text \<open>The character at the read location.\<close>

definition charAt :: "pp_input \<Rightarrow> char option" where
  "charAt s =
     (let i = sIndex (mReadLoc s); c = cIndex (mReadLoc s)
      in if i < mCount s
         then if c < mLength s i then Some (fst (mString s ! i) ! c)
              else if c = mLength s i then Some (snd (mString s ! i)) else None
         else None)"

section \<open>Operations\<close>

text \<open>The location moves; whether there is a next character is \<open>sIndex < mCount\<close> afterwards.\<close>

definition skipChar :: "pp_input \<Rightarrow> pp_input" where
  "skipChar s =
     (let loc = mReadLoc s\<lparr>cIndex := cIndex (mReadLoc s) + 1\<rparr>;
          loc = (if cIndex loc = mLength s (sIndex loc) then \<lparr>sIndex = sIndex loc + 1, cIndex = 0\<rparr> else loc)
      in s\<lparr>mReadLoc := loc\<rparr>)"

definition INT_MAX :: int where
  "INT_MAX = 2 ^ 31 - 1"

text \<open>
  The first part of \<open>read\<close>: a line continuation at the location. The results are the characters
  written, whether the end of the input is faked, the line and the input.
\<close>

definition atContinuation :: "pp_input \<Rightarrow> char \<Rightarrow> bool option" where
  "atContinuation s ch =
     (if sIndex (mReadLoc s) < mCount s then map_option (\<lambda>c. c = ch) (charAt s) else Some False)"

definition readContinuation :: "pp_input \<Rightarrow> int \<Rightarrow> (string \<times> bool \<times> int \<times> pp_input) option" where
  "readContinuation s lineNo =
     Option.bind (charAt s) (\<lambda>c.
       if c \<noteq> CHR 92 then Some ([], False, lineNo, s)
       else
         let s = skipChar s
         in Option.bind (atContinuation s (CHR 10)) (\<lambda>newline.
              if newline
              then
                let s = skipChar s
                in Some ([], lineNo = INT_MAX, if lineNo = INT_MAX then lineNo else lineNo + 1, s)
              else
                Option.bind (atContinuation s (CHR 13)) (\<lambda>return.
                  if return
                  then
                    let s = skipChar s
                    in Option.bind (atContinuation s (CHR 10)) (\<lambda>newline.
                         let s = (if newline then skipChar s else s)
                         in Some ([], lineNo = INT_MAX, if lineNo = INT_MAX then lineNo else lineNo + 1, s))
                  else Some ([CHR 92], False, lineNo, s))))"

text \<open>The characters left, with one more for each string.\<close>

definition remaining :: "pp_input \<Rightarrow> nat" where
  "remaining s =
     sum_list (map (\<lambda>(str, _). length str + 1) (drop (sIndex (mReadLoc s)) (mString s))) - cIndex (mReadLoc s)"

lemma remaining_same_string:
  assumes "i < mCount s" and "c' \<le> mLength s i" and "c < c'"
  shows "remaining (s\<lparr>mReadLoc := \<lparr>sIndex = i, cIndex = c'\<rparr>\<rparr>) < remaining (s\<lparr>mReadLoc := \<lparr>sIndex = i, cIndex = c\<rparr>\<rparr>)"
  using assms unfolding remaining_def mCount_def mLength_def
  by (simp add: Cons_nth_drop_Suc [symmetric] split_beta)

lemma remaining_next_string:
  assumes "i < mCount s" and "c \<le> mLength s i"
  shows "remaining (s\<lparr>mReadLoc := \<lparr>sIndex = i + 1, cIndex = 0\<rparr>\<rparr>) < remaining (s\<lparr>mReadLoc := \<lparr>sIndex = i, cIndex = c\<rparr>\<rparr>)"
  using assms unfolding remaining_def mCount_def mLength_def
  by (simp add: Cons_nth_drop_Suc [symmetric] split_beta)

lemma same_location: "s\<lparr>mReadLoc := \<lparr>sIndex = sIndex (mReadLoc s), cIndex = cIndex (mReadLoc s)\<rparr>\<rparr> = s"
  by (cases s) simp

text \<open>
  The copying loop. \<open>buf\<close> holds the \<open>nRead\<close> characters written so far. The loop is only entered with
  \<open>maxRead = maxSize\<close>, so that \<open>0 < maxSize\<close> adds nothing to its condition.
\<close>

function copyLoop :: "nat \<Rightarrow> nat \<Rightarrow> string \<Rightarrow> pp_input \<Rightarrow> (string \<times> pp_input) option" where
  "copyLoop maxSize maxRead buf s =
     (let i = sIndex (mReadLoc s); c = cIndex (mReadLoc s)
      in if 0 < maxSize \<and> length buf < maxRead \<and> i < mCount s
         then if mLength s i < c then None
              else
                let part = take (min (mLength s i - c) maxSize) (drop c (fst (mString s ! i)));
                    before = takeWhile (\<lambda>ch. ch \<noteq> CHR 92) part;
                    maxRead = (if length before < length part then length buf + length before else maxRead);
                    loc = \<lparr>sIndex = i, cIndex = c + length before\<rparr>;
                    loc = (if cIndex loc = mLength s i then \<lparr>sIndex = i + 1, cIndex = 0\<rparr> else loc)
                in copyLoop maxSize maxRead (buf @ before) (s\<lparr>mReadLoc := loc\<rparr>)
         else Some (buf, s))"
  by pat_completeness auto

termination
proof (relation "measures [\<lambda>(_, _, _, s). remaining s, \<lambda>(_, maxRead, buf, _). maxRead - length buf]",
       goal_cases)
  case 1
  then show ?case by simp
next
  case (2 maxSize maxRead buf s i c part before maxRead' loc loc')
  define n where "n = length before"
  have part: "length part = min (mLength s i - c) maxSize"
    using 2 by (simp add: mLength_def)
  have n: "n \<le> length part" unfolding n_def 2(6) by (rule length_takeWhile_le)
  have s: "s\<lparr>mReadLoc := \<lparr>sIndex = i, cIndex = c\<rparr>\<rparr> = s"
    using 2(1,2) same_location [of s] by simp
  have i: "i < mCount s" and c: "c \<le> mLength s i" and open_loop: "length buf < maxRead" "0 < maxSize"
    using 2(1,2,3,4) by simp_all
  have loc': "loc' = (if c + n = mLength s i then \<lparr>sIndex = i + 1, cIndex = 0\<rparr> else \<lparr>sIndex = i, cIndex = c + n\<rparr>)"
    unfolding 2(9,8) n_def by simp
  have maxRead': "maxRead' = (if n < length part then length buf + n else maxRead)"
    unfolding 2(7) n_def ..
  have "remaining (s\<lparr>mReadLoc := loc'\<rparr>) < remaining s \<or>
        s\<lparr>mReadLoc := loc'\<rparr> = s \<and> maxRead' - length (buf @ before) < maxRead - length buf"
  proof (cases "c + n = mLength s i")
    case True
    then show ?thesis
      using remaining_next_string [OF i c] s loc' by simp
  next
    case False
    then have n': "c + n < mLength s i" using n part c by linarith
    show ?thesis
    proof (cases "n = 0")
      case True
      then have "length before = 0" and "maxRead' = length buf"
        using maxRead' part n' open_loop by (simp_all add: n_def [symmetric])
      then show ?thesis
        using True loc' n' s open_loop by simp
    next
      case False
      then show ?thesis
        using remaining_same_string [OF i, of "c + n" c] n' s loc' by simp
    qed
  qed
  then show ?case by auto
qed

text \<open>One call: the characters written, the line number and the input. No characters mean the end of the text.\<close>

definition read :: "nat \<Rightarrow> int \<Rightarrow> pp_input \<Rightarrow> (string \<times> int \<times> pp_input) option" where
  "read maxSize lineNo s =
     (if sIndex (mReadLoc s) < mCount s \<and> 0 < maxSize
      then Option.bind (readContinuation s lineNo) (\<lambda>(buf, fakeEnd, lineNo, s).
             if fakeEnd then Some ([], lineNo, s)
             else map_option (\<lambda>(buf, s). (buf, lineNo, s)) (copyLoop maxSize maxSize buf s))
      else map_option (\<lambda>(buf, s). (buf, lineNo, s)) (copyLoop maxSize maxSize [] s))"

text \<open>The tokenizer calls \<open>read\<close> until it gets no characters; at most \<open>n\<close> calls here.\<close>

fun readAll :: "nat \<Rightarrow> nat \<Rightarrow> int \<Rightarrow> pp_input \<Rightarrow> (string \<times> int \<times> pp_input) option" where
  "readAll 0 maxSize lineNo s = None"
| "readAll (Suc n) maxSize lineNo s =
     Option.bind (read maxSize lineNo s) (\<lambda>(buf, lineNo, s).
       if buf = [] then Some ([], lineNo, s)
       else map_option (\<lambda>(text, r). (buf @ text, r)) (readAll n maxSize lineNo s))"

section \<open>Line continuations in the abstract\<close>

text \<open>A continuation at the head of a text, and what follows it.\<close>

fun continued :: "string \<Rightarrow> string option" where
  "continued (b # n # t) =
     (if b = CHR 92 \<and> n = CHR 10 then Some t
      else if b = CHR 92 \<and> n = CHR 13
      then Some (case t of c # u \<Rightarrow> if c = CHR 10 then u else t | [] \<Rightarrow> t)
      else None)"
| "continued _ = None"

lemma continued_shorter [termination_simp]: "continued t = Some u \<Longrightarrow> length u < length t"
  by (induction t rule: continued.induct) (auto split: if_splits list.splits)

function splice :: "string \<Rightarrow> string" where
  "splice t =
     (case continued t of
        Some u \<Rightarrow> splice u
      | None \<Rightarrow> (case t of [] \<Rightarrow> [] | c # u \<Rightarrow> c # splice u))"
  by pat_completeness auto
termination
  by (relation "measure length") (auto simp: continued_shorter)

function continuations :: "string \<Rightarrow> nat" where
  "continuations t =
     (case continued t of
        Some u \<Rightarrow> continuations u + 1
      | None \<Rightarrow> (case t of [] \<Rightarrow> 0 | c # u \<Rightarrow> continuations u))"
  by pat_completeness auto
termination
  by (relation "measure length") (auto simp: continued_shorter)

text \<open>No continuation is followed by a backslash at once.\<close>

function calm :: "string \<Rightarrow> bool" where
  "calm t =
     (case continued t of
        Some u \<Rightarrow> (u = [] \<or> hd u \<noteq> CHR 92) \<and> calm u
      | None \<Rightarrow> (case t of [] \<Rightarrow> True | c # u \<Rightarrow> calm u))"
  by pat_completeness auto
termination
  by (relation "measure length") (auto simp: continued_shorter)

declare copyLoop.simps [simp del] splice.simps [simp del] continuations.simps [simp del] calm.simps [simp del]


section \<open>The reader and its text\<close>

definition rest :: "pp_input \<Rightarrow> string" where
  "rest s = drop (cIndex (mReadLoc s)) (concat (map fst (drop (sIndex (mReadLoc s)) (mString s))))"

text \<open>
  The character behind an empty string does not look like part of a line continuation (it is 0 for the strings the
  API passes without lengths), and the location is at a character, at the beginning of a string or at the end.
\<close>

definition placed :: "pp_input \<Rightarrow> bool" where
  "placed s \<longleftrightarrow>
     (\<forall>p\<in>set (mString s). fst p = [] \<longrightarrow> snd p \<notin> {CHR 92, CHR 10, CHR 13}) \<and>
     (if sIndex (mReadLoc s) < mCount s
      then cIndex (mReadLoc s) < mLength s (sIndex (mReadLoc s)) \<or> cIndex (mReadLoc s) = 0
      else cIndex (mReadLoc s) = 0)"

definition empty_here :: "pp_input \<Rightarrow> bool" where
  "empty_here s \<longleftrightarrow> sIndex (mReadLoc s) < mCount s \<and> mLength s (sIndex (mReadLoc s)) = 0"

text \<open>
  No empty string separates a backslash or a carriage return from what follows, or is followed by a backslash: there
  the reader does not see the continuation, or takes the text to have ended (\<open>empty_string_ends_text\<close>).
\<close>

definition parted :: "(string \<times> char) list \<Rightarrow> bool" where
  "parted strings \<longleftrightarrow> (\<forall>i < length strings. fst (strings ! i) = [] \<longrightarrow>
     (let before = concat (map fst (take i strings)); after = concat (map fst (drop i strings))
      in (before = [] \<or> last before \<notin> {CHR 92, CHR 13}) \<and> (after = [] \<or> hd after \<noteq> CHR 92)))"

lemma rest_split:
  assumes "sIndex (mReadLoc s) < mCount s" and "cIndex (mReadLoc s) \<le> mLength s (sIndex (mReadLoc s))"
  shows "rest s = drop (cIndex (mReadLoc s)) (fst (mString s ! sIndex (mReadLoc s))) @
                  concat (map fst (drop (sIndex (mReadLoc s) + 1) (mString s)))"
  using assms unfolding rest_def mCount_def mLength_def
  by (simp add: Cons_nth_drop_Suc [symmetric])

lemma rest_end [simp]: "mCount s \<le> sIndex (mReadLoc s) \<Longrightarrow> rest s = []"
  by (simp add: rest_def mCount_def)

lemma rest_index: "rest s \<noteq> [] \<Longrightarrow> sIndex (mReadLoc s) < mCount s"
  using rest_end [of s] by linarith

lemma rest_here: "placed s \<Longrightarrow> \<not> empty_here s \<Longrightarrow> rest s = [] \<longleftrightarrow> \<not> sIndex (mReadLoc s) < mCount s"
  by (cases "sIndex (mReadLoc s) < mCount s") (auto simp: placed_def empty_here_def rest_split mLength_def)

lemma charAt_rest:
  "placed s \<Longrightarrow> \<not> empty_here s \<Longrightarrow> sIndex (mReadLoc s) < mCount s \<Longrightarrow> charAt s = Some (hd (rest s))"
  by (auto simp: placed_def empty_here_def charAt_def rest_split Let_def hd_append hd_drop_conv_nth mLength_def)

lemma charAt_empty:
  assumes "placed s" and "empty_here s"
  shows "\<exists>c. charAt s = Some c \<and> c \<notin> {CHR 92, CHR 10, CHR 13}"
proof -
  let ?p = "mString s ! sIndex (mReadLoc s)"
  have "?p \<in> set (mString s)" and "fst ?p = []" and "cIndex (mReadLoc s) = 0"
    using assms by (simp_all add: placed_def empty_here_def mCount_def mLength_def)
  then show ?thesis
    using assms by (auto simp: placed_def empty_here_def charAt_def Let_def)
qed

lemma atContinuation_rest:
  "placed s \<Longrightarrow> ch \<in> {CHR 92, CHR 10, CHR 13} \<Longrightarrow>
     atContinuation s ch = Some (\<not> empty_here s \<and> rest s \<noteq> [] \<and> hd (rest s) = ch)"
  using rest_here [of s] charAt_empty [of s]
  by (cases "empty_here s") (auto simp: atContinuation_def charAt_rest empty_here_def)

lemma rest_empty_here:
  assumes "placed s" and "empty_here s" and "parted (mString s)"
  shows "rest s = [] \<or> hd (rest s) \<noteq> CHR 92"
proof -
  have "cIndex (mReadLoc s) = 0" using assms(1,2) by (simp add: placed_def empty_here_def)
  then show ?thesis using assms(2,3) by (auto simp: rest_def parted_def empty_here_def mCount_def mLength_def Let_def)
qed

text \<open>Moving on by \<open>n\<close> characters of the current string.\<close>

definition move :: "nat \<Rightarrow> pp_input \<Rightarrow> pp_input" where
  "move n s =
     (let i = sIndex (mReadLoc s); c = cIndex (mReadLoc s) + n
      in s\<lparr>mReadLoc := if c = mLength s i then \<lparr>sIndex = i + 1, cIndex = 0\<rparr> else \<lparr>sIndex = i, cIndex = c\<rparr>\<rparr>)"

lemma skipChar_move: "skipChar s = move 1 s"
  by (cases "mReadLoc s") (simp add: skipChar_def move_def Let_def)

lemma move_facts:
  assumes "placed s" and "sIndex (mReadLoc s) < mCount s"
    and "cIndex (mReadLoc s) + n \<le> mLength s (sIndex (mReadLoc s))"
  shows move_placed: "placed (move n s)" and move_rest: "rest (move n s) = drop n (rest s)"
    and move_part: "take n (rest s) = take n (drop (cIndex (mReadLoc s)) (fst (mString s ! sIndex (mReadLoc s))))"
proof -
  define i where "i = sIndex (mReadLoc s)"
  define c where "c = cIndex (mReadLoc s)"
  note at = i_def [symmetric] c_def [symmetric]
  have ne: "\<forall>p\<in>set (mString s). fst p = [] \<longrightarrow> snd p \<notin> {CHR 92, CHR 10, CHR 13}" and i: "i < length (mString s)"
    and n: "c + n \<le> length (fst (mString s ! i))" and c: "c \<le> length (fst (mString s ! i))"
    using assms by (auto simp: placed_def mCount_def mLength_def at)
  have split: "rest s = drop c (fst (mString s ! i)) @ concat (map fst (drop (i + 1) (mString s)))"
    using rest_split [of s] assms(2) c by (simp add: at mLength_def)
  show "take n (rest s) = take n (drop (cIndex (mReadLoc s)) (fst (mString s ! sIndex (mReadLoc s))))"
    using n by (simp add: split at)
  show "placed (move n s)"
    using ne i n by (auto simp: placed_def move_def Let_def at mCount_def mLength_def)
  show "rest (move n s) = drop n (rest s)"
  proof (cases "c + n = length (fst (mString s ! i))")
    case True
    then show ?thesis
      by (simp add: split) (simp add: rest_def move_def Let_def at mLength_def)
  next
    case False
    then show ?thesis
      using i n by (simp add: split add.commute)
        (simp add: rest_def move_def Let_def at mLength_def Cons_nth_drop_Suc [symmetric])
  qed
qed

lemma skip_placed:
  assumes "placed s" and "\<not> empty_here s" and "sIndex (mReadLoc s) < mCount s"
  shows "placed (skipChar s)" and "rest (skipChar s) = tl (rest s)"
proof -
  have "cIndex (mReadLoc s) + 1 \<le> mLength s (sIndex (mReadLoc s))"
    using assms by (auto simp: placed_def empty_here_def)
  from move_placed [OF assms(1,3) this] move_rest [OF assms(1,3) this]
  show "placed (skipChar s)" and "rest (skipChar s) = tl (rest s)"
    by (simp_all add: skipChar_move drop_Suc)
qed

lemma mString_skipChar [simp]: "mString (skipChar s) = mString s"
  by (simp add: skipChar_def Let_def)

lemma mString_copyLoop: "copyLoop maxSize maxRead buf s = Some (b, s') \<Longrightarrow> mString s' = mString s"
proof (induction maxSize maxRead buf s rule: copyLoop.induct)
  case (1 maxSize maxRead buf s)
  then show ?case
    by (subst (asm) (2) copyLoop.simps) (auto simp: Let_def split: if_splits)
qed

lemma skip_not_empty:
  assumes "placed s" and "\<not> empty_here s" and "sIndex (mReadLoc s) < mCount s"
    and "hd (rest s) \<in> {CHR 92, CHR 13}" and "parted (mString s)"
  shows "\<not> empty_here (skipChar s)"
proof
  define i where "i = sIndex (mReadLoc s)"
  define c where "c = cIndex (mReadLoc s)"
  assume e: "empty_here (skipChar s)"
  have i: "i < length (mString s)" and c: "c < length (fst (mString s ! i))"
    using assms(1-3) by (auto simp: placed_def empty_here_def mCount_def mLength_def i_def c_def)
  have hd: "hd (rest s) = fst (mString s ! i) ! c"
    using charAt_rest [OF assms(1-3)] i c by (simp add: charAt_def Let_def mCount_def mLength_def i_def c_def)
  have at: "Suc c = length (fst (mString s ! i))" "Suc i < length (mString s)" "fst (mString s ! Suc i) = []"
    using e c by (auto simp: empty_here_def skipChar_def Let_def mCount_def mLength_def i_def [symmetric] c_def [symmetric] split: if_splits)
  have "concat (map fst (take (Suc i) (mString s))) = concat (map fst (take i (mString s))) @ fst (mString s ! i)"
    using i by (simp add: take_Suc_conv_app_nth)
  moreover have "last (fst (mString s ! i)) = hd (rest s)" and "fst (mString s ! i) \<noteq> []"
  proof -
    show ne: "fst (mString s ! i) \<noteq> []" using c by auto
    show "last (fst (mString s ! i)) = hd (rest s)" unfolding hd last_conv_nth [OF ne] at(1) [symmetric] by simp
  qed
  ultimately have "last (concat (map fst (take (Suc i) (mString s)))) = hd (rest s)"
    and "concat (map fst (take (Suc i) (mString s))) \<noteq> []" by simp_all
  then show False using assms(4,5) at(2,3) unfolding parted_def Let_def by metis
qed

lemma copyLoop_rest:
  assumes "placed s" and "0 < maxSize"
  shows "\<exists>p s'. copyLoop maxSize maxRead buf s = Some (buf @ p, s') \<and> placed s' \<and> rest s = p @ rest s' \<and>
                CHR 92 \<notin> set p \<and>
                (length buf < maxRead \<longrightarrow> p \<noteq> [] \<or> rest s = [] \<or> hd (rest s) = CHR 92)"
  using assms
proof (induction maxSize maxRead buf s rule: copyLoop.induct)
  case (1 maxSize maxRead buf s)
  define i where "i = sIndex (mReadLoc s)"
  define c where "c = cIndex (mReadLoc s)"
  show ?case
  proof (cases "length buf < maxRead \<and> i < mCount s")
    case False
    then show ?thesis
      using "1.prems" by (auto simp: copyLoop.simps [of maxSize maxRead buf s] i_def)
  next
    case True
    then have c: "c \<le> mLength s i"
      using "1.prems"(1) by (auto simp: placed_def i_def c_def)
    define part where "part = take (min (mLength s i - c) maxSize) (drop c (fst (mString s ! i)))"
    define q where "q = takeWhile (\<lambda>ch. ch \<noteq> CHR 92) part"
    define m where "m = (if length q < length part then length buf + length q else maxRead)"
    have q_part: "q = take (length q) part"
      unfolding q_def by (rule takeWhile_eq_take)
    have q_len: "length q \<le> length part"
      by (simp add: q_def length_takeWhile_le)
    have part_len: "length part = min (mLength s i - c) maxSize"
      by (simp add: part_def mLength_def)
    have inside: "c + length q \<le> mLength s i"
      using q_len part_len c by linarith
    have q_rest: "take (length q) (rest s) = q"
    proof -
      have "take (length q) (rest s) = take (length q) (drop c (fst (mString s ! i)))"
        using move_part [OF "1.prems"(1), of "length q"] inside True by (simp add: i_def c_def)
      also have "\<dots> = take (length q) part"
        using q_len part_len by (simp add: part_def)
      finally show ?thesis
        by (simp only: q_part [symmetric])
    qed
    have q_clean: "CHR 92 \<notin> set q"
      using set_takeWhileD [of "CHR 92" _ part] by (auto simp: q_def)
    have q_first: "q \<noteq> [] \<or> hd (rest s) = CHR 92 \<or> m = maxRead"
    proof (cases part)
      case Nil
      then show ?thesis by (simp add: m_def q_def)
    next
      case (Cons x xs)
      have "1 \<le> min (mLength s i - c) maxSize" using part_len unfolding Cons by (metis length_Cons One_nat_def Suc_le_mono zero_le)
      then have "take 1 part = take 1 (drop c (fst (mString s ! i)))" by (simp add: part_def min_absorb1)
      moreover have "c + 1 \<le> mLength s i" using \<open>1 \<le> min (mLength s i - c) maxSize\<close> by linarith
      ultimately have "take 1 (rest s) = take 1 part"
        using move_part [OF "1.prems"(1), of 1] True by (simp only: i_def c_def)
      then have "hd (rest s) = x" by (cases "rest s") (simp_all add: Cons)
      then show ?thesis by (simp add: q_def Cons)
    qed
    have step: "copyLoop maxSize maxRead buf s = copyLoop maxSize m (buf @ q) (move (length q) s)"
      using True c "1.prems"(2)
      by (simp only: copyLoop.simps [of maxSize maxRead buf s] move_def Let_def i_def [symmetric] c_def [symmetric]
          part_def [symmetric] q_def [symmetric] m_def [symmetric] input_location.simps) simp
    have loc: "s\<lparr>mReadLoc := if c + length q = mLength s i then \<lparr>sIndex = i + 1, cIndex = 0\<rparr>
                            else \<lparr>sIndex = i, cIndex = c + length q\<rparr>\<rparr> = move (length q) s"
      by (simp add: move_def Let_def i_def c_def)
    have placed: "placed (move (length q) s)" and tail: "rest (move (length q) s) = drop (length q) (rest s)"
      using move_placed [OF "1.prems"(1)] move_rest [OF "1.prems"(1)] True inside by (simp_all add: i_def c_def)
    have "\<not> mLength s i < c" using c by simp
    note IH = "1.IH" [OF i_def c_def _ this part_def q_def m_def refl refl]
    have "\<exists>p s'. copyLoop maxSize m (buf @ q) (move (length q) s) = Some ((buf @ q) @ p, s') \<and> placed s' \<and>
        rest (move (length q) s) = p @ rest s' \<and> CHR 92 \<notin> set p \<and>
        (length (buf @ q) < m \<longrightarrow>
           p \<noteq> [] \<or> rest (move (length q) s) = [] \<or> hd (rest (move (length q) s)) = CHR 92)"
      using IH placed True "1.prems"(2) unfolding input_location.simps loc by blast
    then obtain p s' where "copyLoop maxSize m (buf @ q) (move (length q) s) = Some ((buf @ q) @ p, s')"
      "placed s'" "rest (move (length q) s) = p @ rest s'" "CHR 92 \<notin> set p"
      "length (buf @ q) < m \<longrightarrow> p \<noteq> [] \<or> rest (move (length q) s) = [] \<or> hd (rest (move (length q) s)) = CHR 92"
      by blast
    then show ?thesis
      using step tail q_rest q_clean q_first True append_take_drop_id [of "length q" "rest s"]
      by (intro exI [of _ "q @ p"] exI [of _ s']) auto
  qed
qed


section \<open>Successive calls hand out the spliced text\<close>

lemma splice_plain: "CHR 92 \<notin> set p \<Longrightarrow> splice (p @ t) = p @ splice t"
proof (induction p)
  case (Cons c p)
  then have "continued ((c # p) @ t) = None" by (cases "p @ t") auto
  then show ?case using Cons by (simp add: splice.simps [of "c # p @ t"])
qed simp

lemma continuations_plain: "CHR 92 \<notin> set p \<Longrightarrow> continuations (p @ t) = continuations t"
proof (induction p)
  case (Cons c p)
  then have "continued ((c # p) @ t) = None" by (cases "p @ t") auto
  then show ?case using Cons by (simp add: continuations.simps [of "c # p @ t"])
qed simp

lemma calm_plain: "CHR 92 \<notin> set p \<Longrightarrow> calm (p @ t) = calm t"
proof (induction p)
  case (Cons c p)
  then have "continued ((c # p) @ t) = None" by (cases "p @ t") auto
  then show ?case using Cons by (simp add: calm.simps [of "c # p @ t"])
qed simp

lemmas plain = splice_plain continuations_plain calm_plain

lemma readContinuation_backslash:
  assumes "placed s" and "\<not> empty_here s" and "rest s = CHR 92 # t"
  shows "readContinuation s l =
     (let a = skipChar s; b = skipChar a
      in if \<not> empty_here a \<and> t \<noteq> [] \<and> hd t = CHR 10
         then Some ([], l = INT_MAX, if l = INT_MAX then l else l + 1, b)
         else if \<not> empty_here a \<and> t \<noteq> [] \<and> hd t = CHR 13
         then Some ([], l = INT_MAX, if l = INT_MAX then l else l + 1,
                    if \<not> empty_here b \<and> tl t \<noteq> [] \<and> hd (tl t) = CHR 10 then skipChar b else b)
         else Some ([CHR 92], False, l, a))"
proof -
  have i: "sIndex (mReadLoc s) < mCount s" using rest_index [of s] assms(3) by simp
  define a where "a = skipChar s"
  have a: "placed a" "rest a = t"
    using skip_placed [OF assms(1,2) i] assms(3) by (simp_all add: a_def)
  have b: "placed (skipChar a)" "rest (skipChar a) = tl t" if "\<not> empty_here a" "t \<noteq> []"
    using skip_placed [OF a(1) that(1) rest_index] a(2) that(2) by simp_all
  have "charAt s = Some (CHR 92)" using charAt_rest [OF assms(1,2) i] assms(3) by simp
  then show ?thesis
    by (simp add: readContinuation_def a_def [symmetric] atContinuation_rest a b Let_def)
qed

lemma readContinuation_elsewhere:
  assumes "placed s" and "sIndex (mReadLoc s) < mCount s" and "empty_here s \<or> hd (rest s) \<noteq> CHR 92"
  shows "readContinuation s l = Some ([], False, l, s)"
  using assms charAt_empty [of s] charAt_rest [of s]
  by (cases "empty_here s") (auto simp: readContinuation_def)

lemma readContinuation_placed:
  assumes "placed s" and "sIndex (mReadLoc s) < mCount s"
  shows "\<exists>buf fake l' s'. readContinuation s l = Some (buf, fake, l', s') \<and> placed s' \<and>
           length buf + length (rest s') \<le> length (rest s)"
proof (cases "empty_here s \<or> hd (rest s) \<noteq> CHR 92")
  case True
  then have "readContinuation s l = Some ([], False, l, s)" using readContinuation_elsewhere [OF assms] by blast
  then show ?thesis using assms(1) by (simp add: ex_bool_eq)
next
  case False
  then have "rest s \<noteq> []" using rest_here [OF assms(1)] assms(2) by simp
  with False obtain t where t: "rest s = CHR 92 # t" by (cases "rest s") auto
  define a where "a = skipChar s"
  have a: "placed a" "rest a = t"
    using skip_placed [OF assms(1) _ assms(2)] False t by (simp_all add: a_def)
  define b where "b = skipChar a"
  have b: "placed b" "rest b = tl t" if "\<not> empty_here a" "t \<noteq> []"
    using skip_placed [OF a(1) that(1) rest_index] a(2) that(2) by (simp_all add: b_def)
  have c: "placed (skipChar b)" "rest (skipChar b) = tl (tl t)" if "\<not> empty_here a" "t \<noteq> []" "\<not> empty_here b" "tl t \<noteq> []"
    using skip_placed [OF b(1) [OF that(1,2)] that(3) rest_index] b(2) [OF that(1,2)] that(4) by simp_all
  have no: "Ex Not" by (rule exI [of _ False]) simp
  have here: "\<not> empty_here s" using False by simp
  note eq = readContinuation_backslash [OF assms(1) here t, of l, unfolded a_def [symmetric] b_def [symmetric] Let_def]
  show ?thesis
  proof (cases "\<not> empty_here a \<and> t \<noteq> []")
    case True
    then show ?thesis using a b c no by (simp add: eq t le_diff_conv)
  next
    case False
    then have "readContinuation s l = Some ([CHR 92], False, l, a)" unfolding eq by auto
    then show ?thesis using a no by (simp add: t)
  qed
qed

lemma readContinuation_at_continuation:
  assumes "placed s" and "parted (mString s)" and "continued (rest s) = Some u"
  shows "\<exists>s'. placed s' \<and> mString s' = mString s \<and> rest s' = u \<and>
           readContinuation s l = Some ([], l = INT_MAX, if l = INT_MAX then l else l + 1, s')"
proof -
  from assms(3) obtain n t where t: "rest s = CHR 92 # n # t" and
      u: "n = CHR 10 \<and> u = t \<or> n = CHR 13 \<and> u = (case t of c # v \<Rightarrow> if c = CHR 10 then v else t | [] \<Rightarrow> t)"
    by (cases "rest s" rule: continued.cases) (auto split: if_splits)
  have i: "sIndex (mReadLoc s) < mCount s" using rest_index [of s] t by simp
  have here: "\<not> empty_here s" using rest_empty_here [OF assms(1) _ assms(2)] t by auto
  define a where "a = skipChar s"
  have a: "placed a" "rest a = n # t" "\<not> empty_here a" "mString a = mString s"
    using skip_placed [OF assms(1) here i] skip_not_empty [OF assms(1) here i _ assms(2)] t by (simp_all add: a_def)
  have ai: "sIndex (mReadLoc a) < mCount a" using rest_index [of a] a(2) by simp
  define b where "b = skipChar a"
  have b: "placed b" "rest b = t" "n = CHR 13 \<Longrightarrow> \<not> empty_here b" "mString b = mString s"
    using skip_placed [OF a(1,3) ai] skip_not_empty [OF a(1,3) ai] a assms(2) by (simp_all add: b_def)
  have c: "placed (skipChar b)" "rest (skipChar b) = tl t" if "n = CHR 13" "t \<noteq> []"
    using skip_placed [OF b(1) b(3) [OF that(1)] rest_index] b(2) that(2) by simp_all
  show ?thesis
    using u
  proof
    assume "n = CHR 10 \<and> u = t"
    then show ?thesis
      using readContinuation_backslash [OF assms(1) here t, of l] a(3) b
      by (intro exI [of _ b]) (simp add: a_def [symmetric] b_def [symmetric] Let_def)
  next
    assume n: "n = CHR 13 \<and> u = (case t of c # v \<Rightarrow> if c = CHR 10 then v else t | [] \<Rightarrow> t)"
    then show ?thesis
      using readContinuation_backslash [OF assms(1) here t, of l] a(3) b c
      by (intro exI [of _ "if t \<noteq> [] \<and> hd t = CHR 10 then skipChar b else b"])
        (auto simp: a_def [symmetric] b_def [symmetric] Let_def split: list.splits)
  qed
qed

lemma readContinuation_other:
  assumes "placed s" and "parted (mString s)" and "rest s \<noteq> []" and "continued (rest s) = None"
  shows "readContinuation s l =
           (if hd (rest s) = CHR 92 then Some ([CHR 92], False, l, skipChar s) else Some ([], False, l, s))"
    and "hd (rest s) = CHR 92 \<Longrightarrow> placed (skipChar s) \<and> rest (skipChar s) = tl (rest s)"
proof -
  have i: "sIndex (mReadLoc s) < mCount s" using rest_index assms(3) by blast
  have here: "\<not> empty_here s" if "hd (rest s) = CHR 92"
    using rest_empty_here [OF assms(1) _ assms(2)] that assms(3) by auto
  show "hd (rest s) = CHR 92 \<Longrightarrow> placed (skipChar s) \<and> rest (skipChar s) = tl (rest s)"
    using skip_placed [OF assms(1) here i] by blast
  show "readContinuation s l =
           (if hd (rest s) = CHR 92 then Some ([CHR 92], False, l, skipChar s) else Some ([], False, l, s))"
  proof (cases "hd (rest s) = CHR 92")
    case True
    then obtain t where t: "rest s = CHR 92 # t" using assms(3) by (cases "rest s") auto
    then have no: "t \<noteq> [] \<Longrightarrow> hd t \<noteq> CHR 10 \<and> hd t \<noteq> CHR 13"
      using assms(4) by (cases t) (auto split: if_splits)
    then show ?thesis
      using readContinuation_backslash [OF assms(1) here [OF True] t] True by (auto simp: Let_def)
  qed (simp add: readContinuation_elsewhere [OF assms(1) i])
qed

text \<open>One call of \<open>read\<close>, on a text without a backslash right behind a continuation.\<close>

lemma read_step:
  assumes "placed s" and "parted (mString s)" and "0 < maxSize" and "calm (rest s)" and "rest s \<noteq> []"
    and "l + int (continuations (rest s)) \<le> INT_MAX"
  shows "\<exists>buf l' s'. read maxSize l s = Some (buf, l', s') \<and> placed s' \<and> mString s' = mString s \<and> calm (rest s') \<and>
           splice (rest s) = buf @ splice (rest s') \<and>
           l' + int (continuations (rest s')) = l + int (continuations (rest s)) \<and>
           (buf = [] \<longrightarrow> rest s' = []) \<and> length (rest s') < length (rest s)"
proof -
  have i: "sIndex (mReadLoc s) < mCount s" using rest_index assms(5) by blast
  show ?thesis
  proof (cases "continued (rest s)")
    case (Some u)
    then obtain s1 where s1: "placed s1" "mString s1 = mString s" "rest s1 = u" and
        "readContinuation s l = Some ([], l = INT_MAX, if l = INT_MAX then l else l + 1, s1)"
      using readContinuation_at_continuation [OF assms(1,2)] by blast
    moreover have "continuations (rest s) = continuations u + 1" and "splice (rest s) = splice u"
      and calm: "calm u" "u = [] \<or> hd u \<noteq> CHR 92"
      using assms(4) Some
      by (simp_all add: continuations.simps [of "rest s"] splice.simps [of "rest s"] calm.simps [of "rest s"])
    moreover from this have "l \<noteq> INT_MAX" using assms(6) by auto
    moreover obtain p s' where "copyLoop maxSize maxSize [] s1 = Some (p, s')" "placed s'" "u = p @ rest s'"
      "CHR 92 \<notin> set p" "p \<noteq> [] \<or> u = [] \<or> hd u = CHR 92"
      using copyLoop_rest [OF s1(1) assms(3), of maxSize "[]", unfolded s1(3) append_Nil] assms(3)
      by (metis list.size(3))
    moreover from this have "mString s' = mString s" using mString_copyLoop s1(2) by metis
    moreover have "length u < length (rest s)" using continued_shorter [OF Some] .
    ultimately show ?thesis
      using i assms(3) by (auto simp: read_def plain)
  next
    case None
    define b where "b = (if hd (rest s) = CHR 92 then [CHR 92] else [])"
    define s1 where "s1 = (if hd (rest s) = CHR 92 then skipChar s else s)"
    have rc: "readContinuation s l = Some (b, False, l, s1)"
      using readContinuation_other(1) [OF assms(1,2,5) None] by (simp add: b_def s1_def)
    have s1: "placed s1" "rest s = b @ rest s1" "mString s1 = mString s"
      using readContinuation_other(2) [OF assms(1,2,5) None] assms(1,5) by (auto simp: s1_def b_def intro: list.expand)
    have unfold: "splice (rest s) = b @ splice (rest s1) \<and> continuations (rest s) = continuations (rest s1) \<and>
        calm (rest s1)"
    proof (cases "hd (rest s) = CHR 92")
      case True
      then have b: "b = [CHR 92]" by (simp add: b_def)
      have eq: "rest s = CHR 92 # rest s1" using s1(2) unfolding b by simp
      have "continued (CHR 92 # rest s1) = None" using None eq by simp
      then show ?thesis
        using assms(4) unfolding eq b
        by (simp add: splice.simps [of "CHR 92 # rest s1"] continuations.simps [of "CHR 92 # rest s1"]
            calm.simps [of "CHR 92 # rest s1"])
    next
      case False
      then show ?thesis using assms(4) by (simp add: b_def s1_def)
    qed
    obtain p s' where p: "copyLoop maxSize maxSize b s1 = Some (b @ p, s')" "placed s'" "rest s1 = p @ rest s'"
      "CHR 92 \<notin> set p" "length b < maxSize \<longrightarrow> p \<noteq> [] \<or> rest s1 = [] \<or> hd (rest s1) = CHR 92"
      using copyLoop_rest [OF s1(1) assms(3), of maxSize b] by blast
    have "mString s' = mString s" using mString_copyLoop [OF p(1)] s1(3) by simp
    moreover have "s1 = s \<and> hd (rest s) \<noteq> CHR 92" if "b = []"
      using that by (auto simp: b_def s1_def split: if_splits)
    then have "b @ p \<noteq> []"
      using p(5) assms(3,5) by auto
    ultimately show ?thesis
      using rc i assms(3) p unfold s1(2) by (auto simp: read_def plain)
  qed
qed

lemma read_at_end:
  assumes "placed s" and "rest s = []" and "0 < maxSize"
  shows "\<exists>s'. read maxSize l s = Some ([], l, s') \<and> placed s' \<and> rest s' = []"
proof -
  obtain s' where c: "copyLoop maxSize maxSize [] s = Some ([], s')" "placed s'" "rest s' = []"
    using copyLoop_rest [OF assms(1,3), of maxSize "[]"] assms(2) by auto
  have "readContinuation s l = Some ([], False, l, s)" if i: "sIndex (mReadLoc s) < mCount s"
    using readContinuation_elsewhere [OF assms(1) i] rest_here [OF assms(1)] assms(2) i by blast
  then show ?thesis
    using c assms(3) by (simp add: read_def)
qed

lemma readAll_splice:
  assumes "placed s" and "parted (mString s)" and "0 < maxSize" and "calm (rest s)"
    and "l + int (continuations (rest s)) \<le> INT_MAX" and "length (rest s) < n"
  shows "\<exists>s'. readAll n maxSize l s = Some (splice (rest s), l + int (continuations (rest s)), s') \<and> rest s' = []"
  using assms
proof (induction n arbitrary: l s)
  case (Suc n)
  have nil: "splice [] = []" "continuations [] = 0" by (simp_all add: splice.simps continuations.simps)
  show ?case
  proof (cases "rest s = []")
    case True
    then obtain s1 where "read maxSize l s = Some ([], l, s1)" "rest s1 = []"
      using read_at_end [OF Suc.prems(1) _ Suc.prems(3)] by blast
    with True show ?thesis using nil by simp
  next
    case False
    then obtain buf l' s1 where s1: "read maxSize l s = Some (buf, l', s1)" "placed s1" "mString s1 = mString s" "calm (rest s1)"
      "splice (rest s) = buf @ splice (rest s1)"
      "l' + int (continuations (rest s1)) = l + int (continuations (rest s))"
      "buf = [] \<longrightarrow> rest s1 = []" "length (rest s1) < length (rest s)"
      using read_step [OF Suc.prems(1-4) False Suc.prems(5)] by blast
    show ?thesis
    proof (cases "buf = []")
      case True
      then show ?thesis using s1 nil by auto
    next
      case False
      obtain s' where "readAll n maxSize l' s1 = Some (splice (rest s1), l' + int (continuations (rest s1)), s')"
        "rest s' = []"
        using Suc.IH [of s1 l'] s1 Suc.prems by auto
      then show ?thesis using False s1 by auto
    qed
  qed
qed simp

definition empty_ends :: "(string \<times> char) list \<Rightarrow> bool" where
  "empty_ends strings \<longleftrightarrow> (\<forall>p\<in>set strings. fst p = [] \<longrightarrow> snd p \<notin> {CHR 92, CHR 10, CHR 13})"

lemma placed_Input: "empty_ends strings \<Longrightarrow> placed (Input strings)"
  by (auto simp: placed_def empty_ends_def Input_def)

lemma rest_Input: "rest (Input strings) = concat (map fst strings)"
  by (simp add: rest_def Input_def)


section \<open>Properties\<close>


text \<open>A continuation split over two strings, one with a carriage return, a backslash that is none, and empty strings.\<close>

definition example_source :: "(string \<times> char) list" where
  "example_source =
     [([], CHR 0x00), (''a'' @ [CHR 92], CHR 0x00), (CHR 10 # ''b'' @ [CHR 92, CHR 13, CHR 10], CHR 0x00), ([], CHR 0x00),
      (''c'' @ [CHR 92] @ ''d'', CHR 0x00)]"


section \<open>Where the reader breaks its contract\<close>

text \<open>The result of \<open>read\<close> may be longer than the buffer: \<open>size\<close> is bounded by \<open>maxSize\<close>, not by what is left of it.\<close>

lemma read_overruns_buffer:
  "map_option fst (read 2 1 (Input [(CHR 92 # ''xyz'', CHR 0x00)])) = Some (CHR 92 # ''xy'')"
  "map_option fst (read 4 1 (Input [(''abc'', CHR 0x00), (''defg'', CHR 0x00)])) = Some ''abcdefg''"
  by (simp_all add: read_def Input_def mCount_def mLength_def readContinuation_def charAt_def atContinuation_def
      skipChar_def copyLoop.simps Let_def)

text \<open>Behind two continuations in a row the rest of the text is lost: the second call returns no characters.\<close>

lemma read_stops_early:
  "map_option fst (readAll 20 8 1 (Input [(''a'' @ [CHR 92, CHR 10, CHR 92, CHR 10] @ ''b'', CHR 0x00)])) = Some ''a''"
  "splice (''a'' @ [CHR 92, CHR 10, CHR 92, CHR 10] @ ''b'') = ''ab''"
  by (simp_all add: eval_nat_numeral read_def Input_def mCount_def mLength_def readContinuation_def charAt_def
      atContinuation_def skipChar_def copyLoop.simps INT_MAX_def splice.simps)

text \<open>Behind an empty string a backslash is taken for the end of the text.\<close>

lemma empty_string_ends_text:
  "map_option fst (readAll 20 8 1 (Input [([], CHR 0x00), ([CHR 92, CHR 10] @ ''b'', CHR 0x00)])) = Some []"
  "splice ([CHR 92, CHR 10] @ ''b'') = ''b''"
  by (simp_all add: eval_nat_numeral read_def Input_def mCount_def mLength_def readContinuation_def charAt_def
      atContinuation_def skipChar_def copyLoop.simps INT_MAX_def splice.simps)

end
