(* ===== verification/Pp_Token.thy ===== *)
theory Pp_Token
  imports Prelude Text_Utils
begin

text \<open>
  What the parts of the preprocessor share (src/src/compiler/preprocessor): \<open>Token\<close>, \<open>SourceLocation\<close>,
  the diagnostics (DiagnosticsBase), numbers (numeric_lex.h) and \<open>Macro\<close> with its \<open>MacroSet\<close>.

  Macros are shared objects: a set maps a name to a pointer, and the expanders hold pointers too. The
  model has a store of macros, and a pointer is an index of it.
\<close>

section \<open>Diagnostics\<close>

datatype diag_id =
  PP_ERROR_BEGIN | PP_INTERNAL_ERROR | PP_OUT_OF_MEMORY | PP_INVALID_CHARACTER | PP_INVALID_NUMBER |
  PP_INTEGER_OVERFLOW | PP_FLOAT_OVERFLOW | PP_TOKEN_TOO_LONG | PP_INVALID_EXPRESSION |
  PP_DIVISION_BY_ZERO | PP_EOF_IN_COMMENT | PP_UNEXPECTED_TOKEN | PP_DIRECTIVE_INVALID_NAME |
  PP_MACRO_NAME_RESERVED | PP_MACRO_REDEFINED | PP_MACRO_PREDEFINED_REDEFINED |
  PP_MACRO_PREDEFINED_UNDEFINED | PP_MACRO_UNTERMINATED_INVOCATION | PP_MACRO_UNDEFINED_WHILE_INVOKED |
  PP_MACRO_TOO_FEW_ARGS | PP_MACRO_TOO_MANY_ARGS | PP_MACRO_DUPLICATE_PARAMETER_NAMES |
  PP_MACRO_INVOCATION_CHAIN_TOO_DEEP | PP_CONDITIONAL_ENDIF_WITHOUT_IF |
  PP_CONDITIONAL_ELSE_WITHOUT_IF | PP_CONDITIONAL_ELSE_AFTER_ELSE | PP_CONDITIONAL_ELIF_WITHOUT_IF |
  PP_CONDITIONAL_ELIF_AFTER_ELSE | PP_CONDITIONAL_UNTERMINATED | PP_CONDITIONAL_UNEXPECTED_TOKEN |
  PP_INVALID_EXTENSION_NAME | PP_INVALID_EXTENSION_BEHAVIOR | PP_INVALID_EXTENSION_DIRECTIVE |
  PP_INVALID_VERSION_NUMBER | PP_INVALID_VERSION_DIRECTIVE | PP_VERSION_NOT_FIRST_STATEMENT |
  PP_VERSION_NOT_FIRST_LINE_ESSL3 | PP_INVALID_LINE_NUMBER | PP_INVALID_FILE_NUMBER |
  PP_INVALID_LINE_DIRECTIVE | PP_NON_PP_TOKEN_BEFORE_EXTENSION_ESSL | PP_UNDEFINED_SHIFT |
  PP_TOKENIZER_ERROR | PP_ERROR_END | PP_WARNING_BEGIN | PP_EOF_IN_DIRECTIVE | PP_UNRECOGNIZED_PRAGMA |
  PP_NON_PP_TOKEN_BEFORE_EXTENSION_WEBGL | PP_WARNING_MACRO_NAME_RESERVED | PP_WARNING_END

definition diag_ids :: "diag_id list" where
  "diag_ids =
     [PP_ERROR_BEGIN, PP_INTERNAL_ERROR, PP_OUT_OF_MEMORY, PP_INVALID_CHARACTER, PP_INVALID_NUMBER,
      PP_INTEGER_OVERFLOW, PP_FLOAT_OVERFLOW, PP_TOKEN_TOO_LONG, PP_INVALID_EXPRESSION,
      PP_DIVISION_BY_ZERO, PP_EOF_IN_COMMENT, PP_UNEXPECTED_TOKEN, PP_DIRECTIVE_INVALID_NAME,
      PP_MACRO_NAME_RESERVED, PP_MACRO_REDEFINED, PP_MACRO_PREDEFINED_REDEFINED,
      PP_MACRO_PREDEFINED_UNDEFINED, PP_MACRO_UNTERMINATED_INVOCATION, PP_MACRO_UNDEFINED_WHILE_INVOKED,
      PP_MACRO_TOO_FEW_ARGS, PP_MACRO_TOO_MANY_ARGS, PP_MACRO_DUPLICATE_PARAMETER_NAMES,
      PP_MACRO_INVOCATION_CHAIN_TOO_DEEP, PP_CONDITIONAL_ENDIF_WITHOUT_IF,
      PP_CONDITIONAL_ELSE_WITHOUT_IF, PP_CONDITIONAL_ELSE_AFTER_ELSE, PP_CONDITIONAL_ELIF_WITHOUT_IF,
      PP_CONDITIONAL_ELIF_AFTER_ELSE, PP_CONDITIONAL_UNTERMINATED, PP_CONDITIONAL_UNEXPECTED_TOKEN,
      PP_INVALID_EXTENSION_NAME, PP_INVALID_EXTENSION_BEHAVIOR, PP_INVALID_EXTENSION_DIRECTIVE,
      PP_INVALID_VERSION_NUMBER, PP_INVALID_VERSION_DIRECTIVE, PP_VERSION_NOT_FIRST_STATEMENT,
      PP_VERSION_NOT_FIRST_LINE_ESSL3, PP_INVALID_LINE_NUMBER, PP_INVALID_FILE_NUMBER,
      PP_INVALID_LINE_DIRECTIVE, PP_NON_PP_TOKEN_BEFORE_EXTENSION_ESSL, PP_UNDEFINED_SHIFT,
      PP_TOKENIZER_ERROR, PP_ERROR_END, PP_WARNING_BEGIN, PP_EOF_IN_DIRECTIVE, PP_UNRECOGNIZED_PRAGMA,
      PP_NON_PP_TOKEN_BEFORE_EXTENSION_WEBGL, PP_WARNING_MACRO_NAME_RESERVED, PP_WARNING_END]"

text \<open>The comparisons of \<open>isError\<close> are by the position in the enumeration.\<close>

definition isError :: "diag_id \<Rightarrow> bool" where
  "isError d =
     (let pos = (\<lambda>x. length (takeWhile (\<lambda>y. y \<noteq> x) diag_ids))
      in if pos PP_ERROR_BEGIN < pos d \<and> pos d < pos PP_ERROR_END then True
         else if pos PP_WARNING_BEGIN < pos d \<and> pos d < pos PP_WARNING_END then False else True)"

fun message :: "diag_id \<Rightarrow> string" where
  "message PP_INTERNAL_ERROR = ''internal error''"
| "message PP_OUT_OF_MEMORY = ''out of memory''"
| "message PP_INVALID_CHARACTER = ''invalid character''"
| "message PP_INVALID_NUMBER = ''invalid number''"
| "message PP_INTEGER_OVERFLOW = ''integer overflow''"
| "message PP_FLOAT_OVERFLOW = ''float overflow''"
| "message PP_TOKEN_TOO_LONG = ''token too long''"
| "message PP_INVALID_EXPRESSION = ''invalid expression''"
| "message PP_DIVISION_BY_ZERO = ''division by zero''"
| "message PP_EOF_IN_COMMENT = ''unexpected end of file found in comment''"
| "message PP_UNEXPECTED_TOKEN = ''unexpected token''"
| "message PP_DIRECTIVE_INVALID_NAME = ''invalid directive name''"
| "message PP_MACRO_NAME_RESERVED = ''macro name is reserved''"
| "message PP_MACRO_REDEFINED = ''macro redefined''"
| "message PP_MACRO_PREDEFINED_REDEFINED = ''predefined macro redefined''"
| "message PP_MACRO_PREDEFINED_UNDEFINED = ''predefined macro undefined''"
| "message PP_MACRO_UNTERMINATED_INVOCATION = ''unterminated macro invocation''"
| "message PP_MACRO_UNDEFINED_WHILE_INVOKED = ''macro undefined while being invoked''"
| "message PP_MACRO_TOO_FEW_ARGS = ''Not enough arguments for macro''"
| "message PP_MACRO_TOO_MANY_ARGS = ''Too many arguments for macro''"
| "message PP_MACRO_DUPLICATE_PARAMETER_NAMES = ''duplicate macro parameter name''"
| "message PP_MACRO_INVOCATION_CHAIN_TOO_DEEP = ''macro invocation chain too deep''"
| "message PP_CONDITIONAL_ENDIF_WITHOUT_IF = ''unexpected #endif found without a matching #if''"
| "message PP_CONDITIONAL_ELSE_WITHOUT_IF = ''unexpected #else found without a matching #if''"
| "message PP_CONDITIONAL_ELSE_AFTER_ELSE = ''unexpected #else found after another #else''"
| "message PP_CONDITIONAL_ELIF_WITHOUT_IF = ''unexpected #elif found without a matching #if''"
| "message PP_CONDITIONAL_ELIF_AFTER_ELSE = ''unexpected #elif found after #else''"
| "message PP_CONDITIONAL_UNTERMINATED = ''unexpected end of file found in conditional block''"
| "message PP_INVALID_EXTENSION_NAME = ''invalid extension name''"
| "message PP_INVALID_EXTENSION_BEHAVIOR = ''invalid extension behavior''"
| "message PP_INVALID_EXTENSION_DIRECTIVE = ''invalid extension directive''"
| "message PP_INVALID_VERSION_NUMBER = ''invalid version number''"
| "message PP_INVALID_VERSION_DIRECTIVE = ''invalid version directive''"
| "message PP_VERSION_NOT_FIRST_STATEMENT = ''#version directive must occur before anything else, except for comments and white space''"
| "message PP_VERSION_NOT_FIRST_LINE_ESSL3 = ''#version directive must occur on the first line of the shader''"
| "message PP_INVALID_LINE_NUMBER = ''invalid line number''"
| "message PP_INVALID_FILE_NUMBER = ''invalid file number''"
| "message PP_INVALID_LINE_DIRECTIVE = ''invalid line directive''"
| "message PP_NON_PP_TOKEN_BEFORE_EXTENSION_ESSL = ''extension directive must occur before any non-preprocessor tokens in ESSL''"
| "message PP_UNDEFINED_SHIFT = ''shift exponent is negative or undefined''"
| "message PP_TOKENIZER_ERROR = ''internal tokenizer error''"
| "message PP_EOF_IN_DIRECTIVE = ''unexpected end of file found in directive''"
| "message PP_CONDITIONAL_UNEXPECTED_TOKEN = ''unexpected token after conditional expression''"
| "message PP_UNRECOGNIZED_PRAGMA = ''unrecognized pragma''"
| "message PP_NON_PP_TOKEN_BEFORE_EXTENSION_WEBGL = ''extension directive should occur before any non-preprocessor tokens''"
| "message PP_WARNING_MACRO_NAME_RESERVED = ''macro name with a double underscore is reserved - unintented behavior is possible''"
| "message _ = []"

text \<open>
  \<open>message\<close> lists the unexpected token behind a conditional under the warnings; it is an error.
\<close>

lemma conditional_unexpected_token_is_error: "isError PP_CONDITIONAL_UNEXPECTED_TOKEN"
  by (simp add: isError_def diag_ids_def)

section \<open>Tokens\<close>

record source_location =
  loc_file :: int
  loc_line :: int

definition SourceLocation :: source_location where
  "SourceLocation = \<lparr>loc_file = 0, loc_line = 0\<rparr>"

type_synonym diagnostic = "diag_id \<times> source_location \<times> string"

text \<open>Token types: the enumeration, and the code of a character for a punctuator.\<close>

abbreviation (input) "LAST \<equiv> (0 :: int)"
abbreviation (input) "GOT_ERROR \<equiv> (-1 :: int)"
abbreviation (input) "IDENTIFIER \<equiv> (258 :: int)"
abbreviation (input) "CONST_INT \<equiv> (259 :: int)"
abbreviation (input) "OP_LEFT \<equiv> (263 :: int)"
abbreviation (input) "OP_RIGHT \<equiv> (264 :: int)"
abbreviation (input) "OP_LE \<equiv> (265 :: int)"
abbreviation (input) "OP_GE \<equiv> (266 :: int)"
abbreviation (input) "OP_EQ \<equiv> (267 :: int)"
abbreviation (input) "OP_NE \<equiv> (268 :: int)"
abbreviation (input) "OP_AND \<equiv> (269 :: int)"
abbreviation (input) "OP_OR \<equiv> (271 :: int)"
abbreviation (input) "PP_HASH \<equiv> (282 :: int)"
abbreviation (input) "PP_NUMBER \<equiv> (283 :: int)"
abbreviation (input) "PP_OTHER \<equiv> (284 :: int)"
abbreviation (input) "NEWLINE \<equiv> (10 :: int)"
abbreviation (input) "LEFT_PAREN \<equiv> (40 :: int)"
abbreviation (input) "RIGHT_PAREN \<equiv> (41 :: int)"
abbreviation (input) "COMMA \<equiv> (44 :: int)"
abbreviation (input) "COLON \<equiv> (58 :: int)"

abbreviation (input) "AT_START_OF_LINE \<equiv> (1 :: u32)"
abbreviation (input) "HAS_LEADING_SPACE \<equiv> (2 :: u32)"
abbreviation (input) "EXPANSION_DISABLED \<equiv> (4 :: u32)"

record token =
  tk_type :: int
  tk_flags :: u32
  tk_location :: source_location
  tk_text :: string

text \<open>The token that \<open>Token::reset\<close> leaves.\<close>

definition reset_token :: token where
  "reset_token = \<lparr>tk_type = 0, tk_flags = 0, tk_location = SourceLocation, tk_text = []\<rparr>"

definition set_flag :: "u32 \<Rightarrow> bool \<Rightarrow> token \<Rightarrow> token" where
  "set_flag flag on t = t\<lparr>tk_flags := if on then tk_flags t OR flag else tk_flags t AND NOT flag\<rparr>"

definition atStartOfLine :: "token \<Rightarrow> bool" where
  "atStartOfLine t \<longleftrightarrow> tk_flags t AND AT_START_OF_LINE \<noteq> 0"

definition setAtStartOfLine :: "bool \<Rightarrow> token \<Rightarrow> token" where
  "setAtStartOfLine = set_flag AT_START_OF_LINE"

definition hasLeadingSpace :: "token \<Rightarrow> bool" where
  "hasLeadingSpace t \<longleftrightarrow> tk_flags t AND HAS_LEADING_SPACE \<noteq> 0"

definition setHasLeadingSpace :: "bool \<Rightarrow> token \<Rightarrow> token" where
  "setHasLeadingSpace = set_flag HAS_LEADING_SPACE"

definition expansionDisabled :: "token \<Rightarrow> bool" where
  "expansionDisabled t \<longleftrightarrow> tk_flags t AND EXPANSION_DISABLED \<noteq> 0"

definition setExpansionDisabled :: "bool \<Rightarrow> token \<Rightarrow> token" where
  "setExpansionDisabled = set_flag EXPANSION_DISABLED"

text \<open>The token as it is written to a stream.\<close>

definition token_text :: "token \<Rightarrow> string" where
  "token_text t = (if hasLeadingSpace t then '' '' else []) @ tk_text t"

section \<open>Numbers\<close>

definition numeric_base_int :: "string \<Rightarrow> nat" where
  "numeric_base_int str =
     (if 2 \<le> length str \<and> str ! 0 = CHR ''0'' \<and> (str ! 1 = CHR ''x'' \<or> str ! 1 = CHR ''X'') then 16
      else if 1 \<le> length str \<and> str ! 0 = CHR ''0'' then 8
      else 10)"

definition hex_digit_value :: "char \<Rightarrow> nat" where
  "hex_digit_value c =
     (let n = of_char c
      in if 48 \<le> n \<and> n \<le> 57 then n - 48
         else if 97 \<le> n \<and> n \<le> 102 then n - 87
         else if 65 \<le> n \<and> n \<le> 70 then n - 55
         else 16)"

text \<open>The digits the stream accepts, behind the prefix of a hexadecimal number.\<close>

definition number_digits :: "string \<Rightarrow> string" where
  "number_digits str =
     (let base = numeric_base_int str; str = (if base = 16 then drop 2 str else str)
      in takeWhile (\<lambda>c. hex_digit_value c < base) str)"

definition number_value :: "string \<Rightarrow> nat" where
  "number_value str =
     foldl (\<lambda>n c. numeric_base_int str * n + hex_digit_value c) 0 (number_digits str)"

text \<open>
  Reading an integer with a largest value: the result tells whether the stream has not failed, and the
  value it has stored.
\<close>

definition numeric_lex_int :: "nat \<Rightarrow> string \<Rightarrow> bool \<times> nat" where
  "numeric_lex_int largest str =
     (if number_digits str = [] then (False, 0)
      else if largest < number_value str then (False, largest)
      else (True, number_value str))"

definition iValue :: "token \<Rightarrow> bool \<times> nat" where
  "iValue t = numeric_lex_int (2 ^ 31 - 1) (tk_text t)"

definition uValue :: "token \<Rightarrow> bool \<times> nat" where
  "uValue t = numeric_lex_int (2 ^ 32 - 1) (tk_text t)"

section \<open>Macros\<close>

datatype macro_type = kTypeObj | kTypeFunc

record macro =
  predefined :: bool
  disabled :: bool
  expansionCount :: int
  mc_type :: macro_type
  mc_name :: string
  parameters :: "string list"
  replacements :: "token list"

definition Macro :: macro where
  "Macro = \<lparr>predefined = False, disabled = False, expansionCount = 0, mc_type = kTypeObj, mc_name = [],
            parameters = [], replacements = []\<rparr>"

definition macro_equals :: "macro \<Rightarrow> macro \<Rightarrow> bool" where
  "macro_equals m n \<longleftrightarrow>
     mc_type m = mc_type n \<and> mc_name m = mc_name n \<and> parameters m = parameters n \<and> replacements m = replacements n"

text \<open>What all parts of a preprocessor reach: the store of the macros, the macro set and the diagnostics.\<close>

record shared =
  store :: "macro list"
  macroSet :: "string \<Rightarrow> nat option"
  diags :: "diagnostic list"

definition report :: "diag_id \<Rightarrow> source_location \<Rightarrow> string \<Rightarrow> shared \<Rightarrow> shared" where
  "report d loc text sh = sh\<lparr>diags := diags sh @ [(d, loc, text)]\<rparr>"

definition modify_macro :: "nat \<Rightarrow> (macro \<Rightarrow> macro) \<Rightarrow> shared \<Rightarrow> shared" where
  "modify_macro i f sh = sh\<lparr>store := (store sh)[i := f (store sh ! i)]\<rparr>"

definition new_macro :: "macro \<Rightarrow> shared \<Rightarrow> nat \<times> shared" where
  "new_macro m sh = (length (store sh), sh\<lparr>store := store sh @ [m]\<rparr>)"

definition integer_text :: "int \<Rightarrow> string" where
  "integer_text i = (if i < 0 then CHR ''-'' # decimal (nat (- i)) else decimal (nat i))"

definition PredefineMacro :: "string \<Rightarrow> int \<Rightarrow> shared \<Rightarrow> shared" where
  "PredefineMacro name value sh =
     (let tok = reset_token\<lparr>tk_type := CONST_INT, tk_text := integer_text value\<rparr>;
          (i, sh) = new_macro (Macro\<lparr>predefined := True, mc_name := name, replacements := [tok]\<rparr>) sh
      in sh\<lparr>macroSet := (macroSet sh)(name \<mapsto> i)\<rparr>)"

section \<open>Flags and the store\<close>

lemma token_flag_simps [simp]:
  "tk_type (set_flag f b t) = tk_type t" "tk_text (set_flag f b t) = tk_text t"
  "tk_location (set_flag f b t) = tk_location t"
  by (simp_all add: set_flag_def)

lemma token_set_simps [simp]:
  "tk_type (setAtStartOfLine b t) = tk_type t" "tk_text (setAtStartOfLine b t) = tk_text t"
  "tk_type (setHasLeadingSpace b t) = tk_type t" "tk_text (setHasLeadingSpace b t) = tk_text t"
  "tk_type (setExpansionDisabled b t) = tk_type t" "tk_text (setExpansionDisabled b t) = tk_text t"
  by (simp_all add: setAtStartOfLine_def setHasLeadingSpace_def setExpansionDisabled_def)

lemma shared_simps [simp]:
  "store (report d l t sh) = store sh" "macroSet (report d l t sh) = macroSet sh"
  "macroSet (modify_macro i f sh) = macroSet sh" "diags (modify_macro i f sh) = diags sh"
  "length (store (modify_macro i f sh)) = length (store sh)"
  by (simp_all add: report_def modify_macro_def)

lemma nth_update_if: "xs[i := v] ! j = (if i = j \<and> j < length xs then v else xs ! j)"
  by (cases "i < length xs") (auto simp: nth_list_update list_update_beyond)

lemma store_modify:
  "store (modify_macro i f sh) ! j =
     (if i = j \<and> j < length (store sh) then f (store sh ! j) else store sh ! j)"
  by (auto simp: modify_macro_def nth_update_if)

end
