(* ===== verification/Pp_Expander.thy ===== *)
theory Pp_Expander
  imports Pp_Token
begin

text \<open>
  \<open>MacroExpander\<close> (src/src/compiler/preprocessor/MacroExpander.{h,cpp}) on top of any lexer, as the code
  writes it: a stack of the macros being expanded, a reserve token, and arguments that are expanded by
  a nested expander over a \<open>TokenLexer\<close>. A \<open>Lexer\<close> is a function of its own state and of what all
  parts share.

  The loops of the code that end only when a lexer or the text lets them are partial functions:
  \<^term>\<open>None\<close> is a loop that does not end or a read outside of a vector. The theory Pp_Expander_Props
  shows that it never happens.
\<close>

section \<open>State\<close>

type_synonym 'l lexer = "'l \<Rightarrow> shared \<Rightarrow> (token \<times> 'l \<times> shared) option"

record macro_context =
  cx_macro :: nat
  cx_index :: nat
  cx_replacements :: "token list"

record 'l expander =
  mLexer :: 'l
  mShared :: shared
  mReserveToken :: "token option"
  mContextStack :: "macro_context list"
  mTotalTokensInContexts :: nat
  mDeferReenablingMacros :: bool
  mMacrosToReenable :: "nat list"

definition kMaxContextTokens :: nat where
  "kMaxContextTokens = 10000"

text \<open>The settings: whether the shader follows a WebGL specification, and the constructor's flag.\<close>

record expander_settings =
  es_webgl :: bool
  mParseDefined :: bool

definition MacroExpander :: "'l \<Rightarrow> shared \<Rightarrow> 'l expander" where
  "MacroExpander l sh =
     \<lparr>mLexer = l, mShared = sh, mReserveToken = None, mContextStack = [], mTotalTokensInContexts = 0,
      mDeferReenablingMacros = False, mMacrosToReenable = []\<rparr>"

fun TokenLexer :: "token list lexer" where
  "TokenLexer [] sh = Some (reset_token, [], sh)"
| "TokenLexer (t # ts) sh = Some (t, ts, sh)"

definition context_empty :: "macro_context \<Rightarrow> bool" where
  "context_empty c \<longleftrightarrow> cx_index c = length (cx_replacements c)"

section \<open>Tokens from the stack\<close>

text \<open>The head of the list is the top of the stack.\<close>

definition popMacro :: "'l expander \<Rightarrow> 'l expander" where
  "popMacro x =
     (let c = hd (mContextStack x);
          x = x\<lparr>mContextStack := tl (mContextStack x)\<rparr>;
          x = (if mDeferReenablingMacros x then x\<lparr>mMacrosToReenable := mMacrosToReenable x @ [cx_macro c]\<rparr>
               else x\<lparr>mShared := modify_macro (cx_macro c) (\<lambda>m. m\<lparr>disabled := False\<rparr>) (mShared x)\<rparr>)
      in x\<lparr>mShared := modify_macro (cx_macro c) (\<lambda>m. m\<lparr>expansionCount := expansionCount m - 1\<rparr>) (mShared x),
            mTotalTokensInContexts := mTotalTokensInContexts x - length (cx_replacements c)\<rparr>)"

lemma popMacro_stack [simp]: "mContextStack (popMacro x) = tl (mContextStack x)"
  by (simp add: popMacro_def Let_def)

function popEmptyContexts :: "'l expander \<Rightarrow> 'l expander" where
  "popEmptyContexts x =
     (if mContextStack x \<noteq> [] \<and> context_empty (hd (mContextStack x)) then popEmptyContexts (popMacro x) else x)"
  by pat_completeness auto
termination
  by (relation "measure (\<lambda>x. length (mContextStack x))") auto

declare popEmptyContexts.simps [simp del]

definition getToken :: "'l lexer \<Rightarrow> 'l expander \<Rightarrow> (token \<times> 'l expander) option" where
  "getToken lx x =
     (case mReserveToken x of
        Some t \<Rightarrow> Some (t, x\<lparr>mReserveToken := None\<rparr>)
      | None \<Rightarrow>
          let x = popEmptyContexts x
          in case mContextStack x of
               c # cs \<Rightarrow>
                 if cx_index c < length (cx_replacements c)
                 then Some (cx_replacements c ! cx_index c,
                            x\<lparr>mContextStack := c\<lparr>cx_index := cx_index c + 1\<rparr> # cs\<rparr>)
                 else None
             | [] \<Rightarrow> map_option (\<lambda>(t, l, sh). (t, x\<lparr>mLexer := l, mShared := sh\<rparr>)) (lx (mLexer x) (mShared x)))"

definition ungetToken :: "token \<Rightarrow> 'l expander \<Rightarrow> 'l expander" where
  "ungetToken t x =
     (case mContextStack x of
        c # cs \<Rightarrow> x\<lparr>mContextStack := c\<lparr>cx_index := cx_index c - 1\<rparr> # cs\<rparr>
      | [] \<Rightarrow> x\<lparr>mReserveToken := Some t\<rparr>)"

definition isNextTokenLeftParen :: "'l lexer \<Rightarrow> 'l expander \<Rightarrow> (bool \<times> 'l expander) option" where
  "isNextTokenLeftParen lx x =
     map_option (\<lambda>(t, x). (tk_type t = LEFT_PAREN, ungetToken t x)) (getToken lx x)"

section \<open>Arguments\<close>

text \<open>The report of the errors, on the shared part.\<close>

definition x_report :: "diag_id \<Rightarrow> source_location \<Rightarrow> string \<Rightarrow> 'l expander \<Rightarrow> 'l expander" where
  "x_report d loc text x = x\<lparr>mShared := report d loc text (mShared x)\<rparr>"

text \<open>
  The loop that reads the tokens of an invocation up to the closing parenthesis. The result is
  \<^term>\<open>None\<close> inside when the text ends, else the arguments and the last token.
\<close>

definition push_arg_token :: "token \<Rightarrow> token list list \<Rightarrow> token list list" where
  "push_arg_token t args =
     butlast args @ [last args @ [if last args = [] then setHasLeadingSpace False t else t]]"

partial_function (option) collectLoop ::
  "'l lexer \<Rightarrow> token \<Rightarrow> int \<Rightarrow> token list list \<Rightarrow> token \<Rightarrow> 'l expander \<Rightarrow>
   ((token list list \<times> token) option \<times> 'l expander) option" where
  "collectLoop lx ident openParens args t x =
     (if openParens = 0 then Some (Some (args, t), x)
      else
        Option.bind (getToken lx x) (\<lambda>(t, x).
          if tk_type t = LAST
          then Some (None, ungetToken t (x_report PP_MACRO_UNTERMINATED_INVOCATION (tk_location ident) (tk_text ident) x))
          else if tk_type t = LEFT_PAREN
          then collectLoop lx ident (openParens + 1) (push_arg_token t args) t x
          else if tk_type t = RIGHT_PAREN
          then collectLoop lx ident (openParens - 1)
                 (if openParens - 1 \<noteq> 0 then push_arg_token t args else args) t x
          else if tk_type t = COMMA
          then collectLoop lx ident openParens
                 (if openParens = 1 then args @ [[]] else push_arg_token t args) t x
          else collectLoop lx ident openParens (push_arg_token t args) t x))"

text \<open>
  The expansion of one argument by a nested expander is a parameter here. It gets the last token read, the
  tokens in the contexts and the tokens of the arguments so far, and returns the expanded argument, the
  last token and the new number of tokens; the inner \<^term>\<open>None\<close> is an error that has been reported.
\<close>

type_synonym arg_expander =
  "token \<Rightarrow> nat \<Rightarrow> nat \<Rightarrow> token list \<Rightarrow> shared \<Rightarrow> ((token list \<times> token \<times> nat) option \<times> shared) option"

fun expandArgs ::
  "arg_expander \<Rightarrow> token \<Rightarrow> nat \<Rightarrow> nat \<Rightarrow> token list list \<Rightarrow> shared \<Rightarrow> (token list list option \<times> shared) option" where
  "expandArgs ea t tot n [] sh = Some (Some [], sh)"
| "expandArgs ea t tot n (arg # args) sh =
     Option.bind (ea t tot n arg sh) (\<lambda>(r, sh).
       case r of
         None \<Rightarrow> Some (None, sh)
       | Some (arg, t, n) \<Rightarrow>
           map_option (\<lambda>(rs, sh). (map_option (\<lambda>args. arg # args) rs, sh)) (expandArgs ea t tot n args sh))"

definition reenableMacros :: "'l expander \<Rightarrow> 'l expander" where
  "reenableMacros x =
     x\<lparr>mDeferReenablingMacros := False,
       mShared := fold (\<lambda>i. modify_macro i (\<lambda>m. m\<lparr>disabled := False\<rparr>)) (mMacrosToReenable x) (mShared x),
       mMacrosToReenable := []\<rparr>"

text \<open>The arguments and the location of the closing parenthesis.\<close>

definition collectMacroArgs ::
  "'l lexer \<Rightarrow> arg_expander \<Rightarrow> macro \<Rightarrow> token \<Rightarrow> 'l expander \<Rightarrow>
   ((token list list \<times> source_location) option \<times> 'l expander) option" where
  "collectMacroArgs lx ea m ident x =
     Option.bind (getToken lx x) (\<lambda>(t, x).
     Option.bind (collectLoop lx ident 1 [[]] t (x\<lparr>mDeferReenablingMacros := True\<rparr>)) (\<lambda>(r, x).
       case r of
         None \<Rightarrow> Some (None, reenableMacros x)
       | Some (args, t) \<Rightarrow>
           let args = (if parameters m = [] \<and> length args = 1 \<and> hd args = [] then [] else args)
           in if length args \<noteq> length (parameters m)
              then Some (None, reenableMacros (x_report
                     (if length args < length (parameters m) then PP_MACRO_TOO_FEW_ARGS else PP_MACRO_TOO_MANY_ARGS)
                     (tk_location ident) (tk_text ident) x))
              else map_option (\<lambda>(rs, sh). (map_option (\<lambda>args. (args, tk_location t)) rs, reenableMacros (x\<lparr>mShared := sh\<rparr>)))
                     (expandArgs ea t (mTotalTokensInContexts x) 0 args (mShared x))))"

section \<open>Replacement\<close>

fun find_index :: "'a \<Rightarrow> 'a list \<Rightarrow> nat" where
  "find_index a [] = 0"
| "find_index a (b # bs) = (if b = a then 0 else find_index a bs + 1)"

fun replaceMacroParams ::
  "nat \<Rightarrow> string list \<Rightarrow> token list list \<Rightarrow> token list \<Rightarrow> token list \<Rightarrow> shared \<Rightarrow> (token list \<times> shared) option" where
  "replaceMacroParams tot params args [] out sh = Some (out, sh)"
| "replaceMacroParams tot params args (repl # repls) out sh =
     (if out \<noteq> [] \<and> kMaxContextTokens < length out + tot
      then Some (out, report PP_OUT_OF_MEMORY (tk_location (last out)) (tk_text (last out)) sh)
      else if tk_type repl \<noteq> IDENTIFIER
      then replaceMacroParams tot params args repls (out @ [repl]) sh
      else let i = find_index (tk_text repl) params
           in if i = length params then replaceMacroParams tot params args repls (out @ [repl]) sh
              else if length args \<le> i then None
              else case args ! i of
                     [] \<Rightarrow> replaceMacroParams tot params args repls out sh
                   | a # arg \<Rightarrow>
                       replaceMacroParams tot params args repls
                         (out @ setHasLeadingSpace (hasLeadingSpace repl) a # arg) sh)"

text \<open>The location and the padding of the tokens that replace an identifier.\<close>

fun placeReplacements :: "token \<Rightarrow> source_location \<Rightarrow> token list \<Rightarrow> token list" where
  "placeReplacements ident loc [] = []"
| "placeReplacements ident loc (t # ts) =
     map (\<lambda>t. t\<lparr>tk_location := loc\<rparr>)
       (setHasLeadingSpace (hasLeadingSpace ident) (setAtStartOfLine (atStartOfLine ident) t) # ts)"

fun replaceFirst :: "string \<Rightarrow> token list \<Rightarrow> token list option" where
  "replaceFirst text [] = None"
| "replaceFirst text (t # ts) = Some (t\<lparr>tk_text := text\<rparr> # ts)"

definition objectReplacements :: "macro \<Rightarrow> token \<Rightarrow> token list option" where
  "objectReplacements m ident =
     (if predefined m \<and> mc_name m = ''__LINE__''
      then replaceFirst (integer_text (loc_line (tk_location ident))) (replacements m)
      else if predefined m \<and> mc_name m = ''__FILE__''
      then replaceFirst (integer_text (loc_file (tk_location ident))) (replacements m)
      else Some (replacements m))"

definition expandMacro ::
  "'l lexer \<Rightarrow> arg_expander \<Rightarrow> macro \<Rightarrow> token \<Rightarrow> 'l expander \<Rightarrow> (token list option \<times> 'l expander) option" where
  "expandMacro lx ea m ident x =
     (if mc_type m = kTypeObj
      then map_option (\<lambda>ts. (Some (placeReplacements ident (tk_location ident) ts), x)) (objectReplacements m ident)
      else
        Option.bind (collectMacroArgs lx ea m ident x) (\<lambda>(r, x).
          case r of
            None \<Rightarrow> Some (None, x)
          | Some (args, loc) \<Rightarrow>
              map_option (\<lambda>(ts, sh). (Some (placeReplacements ident loc ts), x\<lparr>mShared := sh\<rparr>))
                (replaceMacroParams (mTotalTokensInContexts x) (parameters m) args (replacements m) [] (mShared x))))"

definition pushMacro :: "'l lexer \<Rightarrow> arg_expander \<Rightarrow> nat \<Rightarrow> token \<Rightarrow> 'l expander \<Rightarrow> (bool \<times> 'l expander) option" where
  "pushMacro lx ea i ident x =
     Option.bind (expandMacro lx ea (store (mShared x) ! i) ident x) (\<lambda>(r, x).
       case r of
         None \<Rightarrow> Some (False, x)
       | Some ts \<Rightarrow>
           Some (True,
                 x\<lparr>mShared := modify_macro i (\<lambda>m. m\<lparr>disabled := True\<rparr>) (mShared x),
                   mContextStack := \<lparr>cx_macro = i, cx_index = 0, cx_replacements = ts\<rparr> # mContextStack x,
                   mTotalTokensInContexts := mTotalTokensInContexts x + length ts\<rparr>))"

section \<open>The lexer\<close>

text \<open>The operator \<open>defined\<close>, behind its name.\<close>

definition lexDefined :: "'l lexer \<Rightarrow> expander_settings \<Rightarrow> token \<Rightarrow> 'l expander \<Rightarrow> (token \<times> 'l expander) option" where
  "lexDefined lx es t x =
     (if mContextStack x \<noteq> [] \<and> es_webgl es then Some (t, x)
      else
        Option.bind (getToken lx x) (\<lambda>(t, x).
          let paren = (tk_type t = LEFT_PAREN)
          in Option.bind (if paren then getToken lx x else Some (t, x)) (\<lambda>(t, x).
               if tk_type t \<noteq> IDENTIFIER
               then Some (t, x_report PP_UNEXPECTED_TOKEN (tk_location t) (tk_text t) x)
               else
                 let expression = (if macroSet (mShared x) (tk_text t) \<noteq> None then ''1'' else ''0'')
                 in Option.bind (if paren then getToken lx x else Some (t, x)) (\<lambda>(t, x).
                      if paren \<and> tk_type t \<noteq> RIGHT_PAREN
                      then Some (t, x_report PP_UNEXPECTED_TOKEN (tk_location t) (tk_text t) x)
                      else Some (t\<lparr>tk_type := CONST_INT, tk_text := expression\<rparr>, x)))))"

definition bump :: "nat \<Rightarrow> int \<Rightarrow> 'l expander \<Rightarrow> 'l expander" where
  "bump i d x = x\<lparr>mShared := modify_macro i (\<lambda>m. m\<lparr>expansionCount := expansionCount m + d\<rparr>) (mShared x)\<rparr>"

text \<open>One round of the loop of \<open>lex\<close>: it ends with a token, or goes on.\<close>

definition lexStep ::
  "'l lexer \<Rightarrow> expander_settings \<Rightarrow> arg_expander \<Rightarrow> 'l expander \<Rightarrow> (token \<times> 'l expander + 'l expander) option" where
  "lexStep lx es ea x =
     Option.bind (getToken lx x) (\<lambda>(t, x).
       if tk_type t \<noteq> IDENTIFIER then Some (Inl (t, x))
       else if mParseDefined es \<and> tk_text t = ''defined'' then map_option Inl (lexDefined lx es t x)
       else if expansionDisabled t then Some (Inl (t, x))
       else
         case macroSet (mShared x) (tk_text t) of
           None \<Rightarrow> Some (Inl (t, x))
         | Some i \<Rightarrow>
             if disabled (store (mShared x) ! i) then Some (Inl (setExpansionDisabled True t, x))
             else
               let x = bump i 1 x
               in if mc_type (store (mShared x) ! i) = kTypeFunc
                  then
                    Option.bind (isNextTokenLeftParen lx x) (\<lambda>(paren, x).
                      if paren then map_option (\<lambda>(_, x). Inr x) (pushMacro lx ea i t x)
                      else Some (Inl (t, bump i (-1) x)))
                  else map_option (\<lambda>(_, x). Inr x) (pushMacro lx ea i t x))"

partial_function (option) lexLoop ::
  "'l lexer \<Rightarrow> expander_settings \<Rightarrow> arg_expander \<Rightarrow> 'l expander \<Rightarrow> (token \<times> 'l expander) option" where
  "lexLoop lx es ea x =
     Option.bind (lexStep lx es ea x) (\<lambda>r.
       case r of
         Inl result \<Rightarrow> Some result
       | Inr x \<Rightarrow> lexLoop lx es ea x)"

text \<open>The nested expander over the tokens of an argument, for a depth of the nesting that is left.\<close>

partial_function (option) argLoop ::
  "expander_settings \<Rightarrow> arg_expander \<Rightarrow> nat \<Rightarrow> nat \<Rightarrow> token list \<Rightarrow> token \<Rightarrow> token list expander \<Rightarrow>
   ((token list \<times> token \<times> nat) option \<times> shared) option" where
  "argLoop es ea tot n out t x =
     (if tk_type t = LAST then Some (Some (out, t, n), mShared x)
      else
        Option.bind (lexLoop TokenLexer es ea x) (\<lambda>(t', x).
          if kMaxContextTokens < n + 1 + tot
          then Some (None, report PP_OUT_OF_MEMORY (tk_location t') (tk_text t') (mShared x))
          else argLoop es ea tot (n + 1) (out @ [t]) t' x))"

fun expandArg :: "expander_settings \<Rightarrow> nat \<Rightarrow> arg_expander" where
  "expandArg es 0 t tot n arg sh =
     Some (None, report PP_MACRO_INVOCATION_CHAIN_TOO_DEEP (tk_location t) (tk_text t) sh)"
| "expandArg es (Suc depth) t tot n arg sh =
     Option.bind (lexLoop TokenLexer es (expandArg es depth) (MacroExpander arg sh)) (\<lambda>(t, x).
       argLoop es (expandArg es depth) tot n [] t x)"

text \<open>\<open>MacroExpander::lex\<close>, for \<open>maxMacroExpansionDepth\<close>.\<close>

definition x_lex :: "'l lexer \<Rightarrow> expander_settings \<Rightarrow> nat \<Rightarrow> 'l expander \<Rightarrow> (token \<times> 'l expander) option" where
  "x_lex lx es depth x = lexLoop lx es (expandArg es depth) x"

end
