(* ===== verification/Pp_Expander_Inv.thy ===== *)
theory Pp_Expander_Inv
  imports Pp_Expander "HOL-Library.Multiset_Order"
begin

text \<open>
  The invariant of a macro expander, the contract of a lexer below it, and the measure that makes its
  loops end.

  Every macro on the stack is disabled, so that no macro is on it twice and the stack is never higher than
  the number of macros. A token of a context is worth more the lower its context is: expanding it replaces
  it by tokens that are worth less.
\<close>

section \<open>What the shared part keeps\<close>

definition wf_macro :: "macro \<Rightarrow> bool" where
  "wf_macro m \<longleftrightarrow>
     (predefined m \<longrightarrow> mc_type m = kTypeObj \<and> length (replacements m) = 1) \<and>
     (\<forall>t \<in> set (replacements m). tk_type t \<noteq> LAST) \<and> 0 \<le> expansionCount m"

definition wf_shared :: "shared \<Rightarrow> bool" where
  "wf_shared sh \<longleftrightarrow>
     (\<forall>m \<in> set (store sh). wf_macro m) \<and>
     (\<forall>n i. macroSet sh n = Some i \<longrightarrow> i < length (store sh) \<and> mc_name (store sh ! i) = n)"

definition same_macro :: "macro \<Rightarrow> macro \<Rightarrow> bool" where
  "same_macro m n \<longleftrightarrow>
     predefined m = predefined n \<and> mc_type m = mc_type n \<and> mc_name m = mc_name n \<and>
     parameters m = parameters n \<and> replacements m = replacements n"

text \<open>
  What the work of others does to the shared part: macros are not removed from the store and not changed
  but for their flag and count, a macro that was disabled still is, and counts of expansions in progress
  are not lost.
\<close>

definition macro_le :: "macro \<Rightarrow> macro \<Rightarrow> bool" where
  "macro_le m n \<longleftrightarrow>
     same_macro m n \<and> (disabled m \<longrightarrow> disabled n) \<and> expansionCount m \<le> expansionCount n"

definition evolves :: "shared \<Rightarrow> shared \<Rightarrow> bool" where
  "evolves sh sh' \<longleftrightarrow>
     length (store sh) \<le> length (store sh') \<and>
     (\<forall>i < length (store sh). macro_le (store sh ! i) (store sh' ! i))"

lemma macro_le_refl [simp]: "macro_le m m"
  by (simp add: macro_le_def same_macro_def)

lemma macro_le_trans: "macro_le a b \<Longrightarrow> macro_le b c \<Longrightarrow> macro_le a c"
  by (auto simp: macro_le_def same_macro_def)

lemma evolves_refl [simp, intro]: "evolves sh sh"
  by (simp add: evolves_def)

lemma evolves_trans [trans]: "evolves a b \<Longrightarrow> evolves b c \<Longrightarrow> evolves a c"
  unfolding evolves_def by (meson macro_le_trans order_trans order_less_le_trans)

lemma evolves_report [simp]: "evolves sh (report d l t sh')  = evolves sh sh'"
  "evolves (report d l t sh) sh'  = evolves sh sh'"
  by (simp_all add: evolves_def)

lemma wf_report [simp]: "wf_shared (report d l t sh) = wf_shared sh"
  by (simp add: wf_shared_def)

section \<open>The invariant of an expander\<close>

text \<open>The macros an expander has disabled: those on its stack, and those it will enable again.\<close>

definition held :: "'l expander \<Rightarrow> nat list" where
  "held x = map cx_macro (mContextStack x) @ mMacrosToReenable x"

definition wf_context :: "macro_context \<Rightarrow> bool" where
  "wf_context c \<longleftrightarrow>
     cx_index c \<le> length (cx_replacements c) \<and> (\<forall>t \<in> set (cx_replacements c). tk_type t \<noteq> LAST)"

text \<open>\<open>sh\<close> is the shared part when the expander was made: what others had disabled stays so.\<close>

definition base_inv :: "shared \<Rightarrow> 'l expander \<Rightarrow> bool" where
  "base_inv sh x \<longleftrightarrow>
     length (store sh) \<le> length (store (mShared x)) \<and>
     (\<forall>i < length (store sh).
        same_macro (store sh ! i) (store (mShared x) ! i) \<and>
        (disabled (store sh ! i) \<longrightarrow> disabled (store (mShared x) ! i) \<and> i \<notin> set (held x)) \<and>
        expansionCount (store sh ! i) + of_bool (i \<in> cx_macro ` set (mContextStack x))
          \<le> expansionCount (store (mShared x) ! i))"

definition held_inv :: "'l expander \<Rightarrow> bool" where
  "held_inv x \<longleftrightarrow>
     distinct (held x) \<and>
     (\<forall>i \<in> set (held x). i < length (store (mShared x)) \<and> disabled (store (mShared x) ! i)) \<and>
     (\<forall>i \<in> cx_macro ` set (mContextStack x). 1 \<le> expansionCount (store (mShared x) ! i)) \<and>
     (\<not> mDeferReenablingMacros x \<longrightarrow> mMacrosToReenable x = [])"

definition stack_inv :: "'l expander \<Rightarrow> bool" where
  "stack_inv x \<longleftrightarrow>
     (\<forall>c \<in> set (mContextStack x). wf_context c) \<and>
     mTotalTokensInContexts x = sum_list (map (\<lambda>c. length (cx_replacements c)) (mContextStack x)) \<and>
     (mReserveToken x \<noteq> None \<longrightarrow> mContextStack x = [])"

definition x_inv :: "shared \<Rightarrow> 'l expander \<Rightarrow> bool" where
  "x_inv sh x \<longleftrightarrow> wf_shared (mShared x) \<and> base_inv sh x \<and> held_inv x \<and> stack_inv x"

lemma x_inv_evolves: "x_inv sh x \<Longrightarrow> evolves sh (mShared x)"
  unfolding x_inv_def base_inv_def evolves_def macro_le_def
  by (auto simp: of_bool_def split: if_splits)

lemma stack_height:
  assumes "x_inv sh x"
  shows "length (mContextStack x) \<le> length (store (mShared x))"
proof -
  have "set (map cx_macro (mContextStack x)) \<subseteq> {..<length (store (mShared x))}"
    and "distinct (map cx_macro (mContextStack x))"
    using assms by (auto simp: x_inv_def held_inv_def held_def)
  then show ?thesis
    by (metis card_lessThan card_mono distinct_card finite_lessThan length_map)
qed

lemma stack_height_free:
  assumes "x_inv sh x" and "i < length (store (mShared x))" and "i \<notin> set (held x)"
  shows "length (mContextStack x) < length (store (mShared x))"
proof -
  have "set (i # map cx_macro (mContextStack x)) \<subseteq> {..<length (store (mShared x))}"
    and "distinct (i # map cx_macro (mContextStack x))"
    using assms by (auto simp: x_inv_def held_inv_def held_def)
  then have "length (i # map cx_macro (mContextStack x)) \<le> length (store (mShared x))"
    by (metis card_lessThan card_mono distinct_card finite_lessThan)
  then show ?thesis by simp
qed

section \<open>The measure\<close>

fun stack_weight :: "nat \<Rightarrow> macro_context list \<Rightarrow> nat multiset" where
  "stack_weight n [] = {#}"
| "stack_weight n (c # cs) =
     replicate_mset (length (cx_replacements c) - cx_index c) (n - length cs) + stack_weight n cs"

definition reserve_weight :: "nat \<Rightarrow> token option \<Rightarrow> nat multiset" where
  "reserve_weight n r = (case r of None \<Rightarrow> {#} | Some t \<Rightarrow> if tk_type t = LAST then {#} else {#n + 1#})"

definition weight :: "'l expander \<Rightarrow> nat multiset" where
  "weight x =
     stack_weight (length (store (mShared x))) (mContextStack x) +
     reserve_weight (length (store (mShared x))) (mReserveToken x)"

text \<open>What a token of a new context is worth.\<close>

definition new_level :: "'l expander \<Rightarrow> nat" where
  "new_level x = length (store (mShared x)) - length (mContextStack x)"

lemma weight_shared: "length (store sh) = length (store (mShared x)) \<Longrightarrow> weight (x\<lparr>mShared := sh\<rparr>) = weight x"
  by (simp add: weight_def)

section \<open>Popping contexts\<close>

lemma popMacro_simps [simp]:
  "mLexer (popMacro x) = mLexer x" "mReserveToken (popMacro x) = mReserveToken x"
  "mDeferReenablingMacros (popMacro x) = mDeferReenablingMacros x"
  "macroSet (mShared (popMacro x)) = macroSet (mShared x)"
  "length (store (mShared (popMacro x))) = length (store (mShared x))"
  by (simp_all add: popMacro_def Let_def)

lemma wf_shared_modify:
  assumes "wf_shared sh" and "\<And>m. same_macro m (f m)"
    and "i < length (store sh) \<Longrightarrow> 0 \<le> expansionCount (f (store sh ! i))"
  shows "wf_shared (modify_macro i f sh)"
proof -
  have "wf_macro (f (store sh ! i))" if i: "i < length (store sh)"
  proof -
    have "wf_macro (store sh ! i)" using assms(1) nth_mem [OF i] by (simp add: wf_shared_def)
    then show ?thesis
      using assms(2) [of "store sh ! i"] assms(3) [OF i] unfolding wf_macro_def same_macro_def by simp
  qed
  moreover have "mc_name (f (store sh ! i)) = mc_name (store sh ! i)"
    using assms(2) [of "store sh ! i"] by (simp add: same_macro_def)
  ultimately show ?thesis
    using assms(1) unfolding wf_shared_def modify_macro_def
    by (auto simp: nth_update_if all_set_conv_all_nth)
qed


text \<open>The store behind a popped context.\<close>

lemma popMacro_store:
  "mContextStack x = c # cs \<Longrightarrow>
   store (mShared (popMacro x)) ! i =
     (if i = cx_macro c \<and> i < length (store (mShared x))
      then (store (mShared x) ! i)
             \<lparr>disabled := (if mDeferReenablingMacros x then disabled (store (mShared x) ! i) else False),
              expansionCount := expansionCount (store (mShared x) ! i) - 1\<rparr>
      else store (mShared x) ! i)"
  by (auto simp: popMacro_def Let_def store_modify)

lemma popMacro_held:
  "mContextStack x = c # cs \<Longrightarrow>
   mContextStack (popMacro x) = cs \<and>
   mMacrosToReenable (popMacro x) =
     (if mDeferReenablingMacros x then mMacrosToReenable x @ [cx_macro c] else mMacrosToReenable x) \<and>
   mTotalTokensInContexts (popMacro x) = mTotalTokensInContexts x - length (cx_replacements c)"
  by (simp add: popMacro_def Let_def)

lemma popMacro_inv:
  assumes inv: "x_inv sh x" and top: "mContextStack x = c # cs"
  shows "x_inv sh (popMacro x)" and "set (held (popMacro x)) \<subseteq> set (held x)"
proof -
  let ?y = "popMacro x" and ?i = "cx_macro c"
  note y = popMacro_held [OF top]
  have "?i \<notin> cx_macro ` set cs" using inv top by (simp add: x_inv_def held_inv_def held_def)
  then have d: "\<forall>d \<in> set cs. cx_macro d \<noteq> ?i" by (metis imageI)
  have c: "?i < length (store (mShared x))" "?i \<notin> set (mMacrosToReenable x)"
    "1 \<le> expansionCount (store (mShared x) ! ?i)" "disabled (store (mShared x) ! ?i)"
    using inv top by (auto simp: x_inv_def held_inv_def held_def)
  show sub: "set (held ?y) \<subseteq> set (held x)"
    using y top by (auto simp: held_def)
  have "wf_shared (mShared ?y)"
  proof -
    have wf: "wf_shared (mShared x)" using inv by (simp add: x_inv_def)
    have "wf_macro (store (mShared ?y) ! i)" if "i < length (store (mShared x))" for i
      using wf that c unfolding popMacro_store [OF top]
      by (auto simp: wf_shared_def wf_macro_def all_set_conv_all_nth)
    then show ?thesis
      using wf unfolding wf_shared_def
      by (auto simp: popMacro_store [OF top] all_set_conv_all_nth)
  qed
  moreover have "base_inv sh ?y"
    using inv c d sub unfolding base_inv_def x_inv_def
    by (auto simp: popMacro_store [OF top] y top same_macro_def held_def split: if_splits)
  moreover have "held_inv ?y"
    using inv c d unfolding held_inv_def x_inv_def
    by (auto simp: popMacro_store [OF top] y top held_def)
  moreover have "stack_inv ?y"
    using inv y top by (auto simp: stack_inv_def x_inv_def)
  ultimately show "x_inv sh ?y"
    by (simp add: x_inv_def)
qed


lemma popMacro_weight:
  assumes "mContextStack x = c # cs" and "context_empty c" and "mReserveToken x = None"
  shows "weight (popMacro x) = weight x"
  using assms by (simp add: weight_def popMacro_held reserve_weight_def context_empty_def)

lemma popEmptyContexts_inv:
  assumes "x_inv sh x" and "mReserveToken x = None"
  shows "x_inv sh (popEmptyContexts x) \<and> set (held (popEmptyContexts x)) \<subseteq> set (held x) \<and>
    mLexer (popEmptyContexts x) = mLexer x \<and> mReserveToken (popEmptyContexts x) = None \<and>
    mDeferReenablingMacros (popEmptyContexts x) = mDeferReenablingMacros x \<and>
    macroSet (mShared (popEmptyContexts x)) = macroSet (mShared x) \<and>
    length (store (mShared (popEmptyContexts x))) = length (store (mShared x)) \<and>
    weight (popEmptyContexts x) = weight x \<and>
    (mContextStack (popEmptyContexts x) \<noteq> [] \<longrightarrow> \<not> context_empty (hd (mContextStack (popEmptyContexts x))))"
  using assms
proof (induction x rule: popEmptyContexts.induct)
  case (1 x)
  show ?case
  proof (cases "mContextStack x \<noteq> [] \<and> context_empty (hd (mContextStack x))")
    case True
    then obtain c cs where top: "mContextStack x = c # cs" "context_empty c" by (cases "mContextStack x") auto
    have "popEmptyContexts x = popEmptyContexts (popMacro x)"
      using True by (subst popEmptyContexts.simps) simp
    moreover have "x_inv sh (popMacro x)" "set (held (popMacro x)) \<subseteq> set (held x)"
      using popMacro_inv [OF "1.prems"(1) top(1)] by simp_all
    ultimately show ?thesis
      using "1.IH" [OF True] popMacro_weight [OF top "1.prems"(2)] "1.prems"(2) by auto
  next
    case False
    then have "popEmptyContexts x = x" by (subst popEmptyContexts.simps) auto
    then show ?thesis using False "1.prems" by auto
  qed
qed

text \<open>Popping does not change what a macro is.\<close>

lemma same_macro_refl [simp]: "same_macro m m"
  by (simp add: same_macro_def)

lemma same_macro_trans: "same_macro a b \<Longrightarrow> same_macro b c \<Longrightarrow> same_macro a c"
  by (simp add: same_macro_def)

lemma popEmptyContexts_same: "same_macro (store (mShared x) ! i) (store (mShared (popEmptyContexts x)) ! i)"
proof (induction x rule: popEmptyContexts.induct)
  case (1 x)
  show ?case
  proof (cases "mContextStack x \<noteq> [] \<and> context_empty (hd (mContextStack x))")
    case True
    then obtain c cs where top: "mContextStack x = c # cs" by (cases "mContextStack x") auto
    have "popEmptyContexts x = popEmptyContexts (popMacro x)"
      using True by (subst popEmptyContexts.simps) simp
    moreover have "same_macro (store (mShared x) ! i) (store (mShared (popMacro x)) ! i)"
      by (simp add: popMacro_store [OF top] same_macro_def)
    ultimately show ?thesis
      using "1.IH" [OF True] same_macro_trans by metis
  next
    case False
    then have "popEmptyContexts x = x" by (subst popEmptyContexts.simps) auto
    then show ?thesis by simp
  qed
qed

text \<open>The counts of other macros stay.\<close>

lemma popEmptyContexts_count:
  "i \<notin> set (held x) \<Longrightarrow>
   expansionCount (store (mShared (popEmptyContexts x)) ! i) = expansionCount (store (mShared x) ! i)"
proof (induction x rule: popEmptyContexts.induct)
  case (1 x)
  show ?case
  proof (cases "mContextStack x \<noteq> [] \<and> context_empty (hd (mContextStack x))")
    case True
    then obtain c cs where top: "mContextStack x = c # cs" by (cases "mContextStack x") auto
    have "popEmptyContexts x = popEmptyContexts (popMacro x)"
      using True by (subst popEmptyContexts.simps) simp
    moreover have "i \<noteq> cx_macro c" "i \<notin> set (held (popMacro x))"
      using "1.prems" popMacro_held [OF top] by (auto simp: held_def top)
    ultimately show ?thesis
      using "1.IH" [OF True] by (simp add: popMacro_store [OF top])
  next
    case False
    then have "popEmptyContexts x = x" by (subst popEmptyContexts.simps) auto
    then show ?thesis by simp
  qed
qed

text \<open>The invariant does not care what happens to the shared part as long as it evolves.\<close>

lemma x_inv_shared:
  assumes inv: "x_inv sh x" and wf: "wf_shared sh'" and ev: "evolves (mShared x) sh'"
  shows "x_inv sh (x\<lparr>mShared := sh'\<rparr>)"
proof -
  have le: "macro_le (store (mShared x) ! i) (store sh' ! i)" if "i < length (store (mShared x))" for i
    using ev that by (simp add: evolves_def)
  have len: "length (store (mShared x)) \<le> length (store sh')"
    using ev by (simp add: evolves_def)
  have held: "held (x\<lparr>mShared := sh'\<rparr>) = held x"
    by (simp add: held_def)
  have "base_inv sh (x\<lparr>mShared := sh'\<rparr>)"
    unfolding base_inv_def held
  proof (intro conjI allI impI)
    show "length (store sh) \<le> length (store (mShared (x\<lparr>mShared := sh'\<rparr>)))"
      using inv len by (simp add: x_inv_def base_inv_def)
    fix i assume i: "i < length (store sh)"
    have le: "macro_le (store (mShared x) ! i) (store sh' ! i)"
      using inv i by (intro le) (simp add: x_inv_def base_inv_def)
    have old: "same_macro (store sh ! i) (store (mShared x) ! i)"
      "expansionCount (store sh ! i) + of_bool (i \<in> cx_macro ` set (mContextStack x))
          \<le> expansionCount (store (mShared x) ! i)"
      "disabled (store sh ! i) \<Longrightarrow> disabled (store (mShared x) ! i) \<and> i \<notin> set (held x)"
      using inv i by (simp_all add: x_inv_def base_inv_def)
    show "same_macro (store sh ! i) (store (mShared (x\<lparr>mShared := sh'\<rparr>)) ! i)"
      using le old(1) by (simp add: macro_le_def same_macro_def)
    show "expansionCount (store sh ! i) + of_bool (i \<in> cx_macro ` set (mContextStack (x\<lparr>mShared := sh'\<rparr>)))
          \<le> expansionCount (store (mShared (x\<lparr>mShared := sh'\<rparr>)) ! i)"
      using le old(2) by (simp add: macro_le_def)
    assume d: "disabled (store sh ! i)"
    show "disabled (store (mShared (x\<lparr>mShared := sh'\<rparr>)) ! i)" "i \<notin> set (held x)"
      using le old(3) [OF d] by (simp_all add: macro_le_def)
  qed
  moreover have "held_inv (x\<lparr>mShared := sh'\<rparr>)"
    unfolding held_inv_def held
  proof (intro conjI ballI)
    show "distinct (held x)" using inv by (simp add: x_inv_def held_inv_def)
    show "\<not> mDeferReenablingMacros (x\<lparr>mShared := sh'\<rparr>) \<longrightarrow> mMacrosToReenable (x\<lparr>mShared := sh'\<rparr>) = []"
      using inv by (simp add: x_inv_def held_inv_def)
  next
    fix i assume "i \<in> set (held x)"
    then have "i < length (store (mShared x))" "disabled (store (mShared x) ! i)"
      using inv by (simp_all add: x_inv_def held_inv_def)
    then show "i < length (store (mShared (x\<lparr>mShared := sh'\<rparr>)))"
        "disabled (store (mShared (x\<lparr>mShared := sh'\<rparr>)) ! i)"
      using le [of i] len by (simp_all add: macro_le_def)
  next
    fix i assume i: "i \<in> cx_macro ` set (mContextStack (x\<lparr>mShared := sh'\<rparr>))"
    then have "i \<in> set (held x)" by (auto simp: held_def)
    then have "i < length (store (mShared x))" using inv by (simp add: x_inv_def held_inv_def)
    moreover have "1 \<le> expansionCount (store (mShared x) ! i)"
      using i inv by (auto simp: x_inv_def held_inv_def)
    ultimately show "1 \<le> expansionCount (store (mShared (x\<lparr>mShared := sh'\<rparr>)) ! i)"
      using le [of i] by (simp add: macro_le_def)
  qed
  moreover have "stack_inv (x\<lparr>mShared := sh'\<rparr>)"
    using inv by (simp add: x_inv_def stack_inv_def)
  ultimately show ?thesis
    using wf by (simp add: x_inv_def)
qed

section \<open>The contract of a lexer\<close>

text \<open>
  A lexer has tokens \<open>left\<close>: every call but one at the end of the text takes one. It may use an expander
  of its own on the same macros, and, when \<open>grows\<close>, add macros to the store.
\<close>

locale lexer =
  fixes lx :: "'l lexer" and ok :: "'l \<Rightarrow> bool" and left :: "'l \<Rightarrow> nat" and grows :: bool
  assumes lexes: "\<lbrakk>wf_shared sh; ok l\<rbrakk> \<Longrightarrow>
    \<exists>t l' sh'. lx l sh = Some (t, l', sh') \<and> ok l' \<and> wf_shared sh' \<and> evolves sh sh' \<and>
      (left l' < left l \<or>
       tk_type t = LAST \<and> left l' = left l \<and> length (store sh') = length (store sh)) \<and>
      (\<not> grows \<longrightarrow> length (store sh') = length (store sh))"
begin

text \<open>The order in which the work of an expander decreases.\<close>

definition before :: "'l expander \<Rightarrow> 'l expander \<Rightarrow> bool" where
  "before x y \<longleftrightarrow>
     left (mLexer x) < left (mLexer y) \<or>
     left (mLexer x) = left (mLexer y) \<and> length (store (mShared x)) = length (store (mShared y)) \<and>
       weight x < weight y"

definition not_after :: "'l expander \<Rightarrow> 'l expander \<Rightarrow> bool" where
  "not_after x y \<longleftrightarrow>
     left (mLexer x) < left (mLexer y) \<or>
     left (mLexer x) = left (mLexer y) \<and> length (store (mShared x)) = length (store (mShared y)) \<and>
       weight x \<le> weight y"

lemma before_not_after: "before x y \<Longrightarrow> not_after x y"
  by (auto simp: before_def not_after_def)

lemma not_after_refl [simp]: "not_after x x"
  by (simp add: not_after_def)

lemma before_trans: "before x y \<Longrightarrow> before y z \<Longrightarrow> before x z"
  by (auto simp: before_def)

lemma before_le_trans: "before x y \<Longrightarrow> not_after y z \<Longrightarrow> before x z"
  by (auto simp: before_def not_after_def)

lemma le_before_trans: "not_after x y \<Longrightarrow> before y z \<Longrightarrow> before x z"
  by (auto simp: before_def not_after_def)

lemma not_after_trans: "not_after x y \<Longrightarrow> not_after y z \<Longrightarrow> not_after x z"
  by (auto simp: not_after_def)

lemma wfp_before: "wfp before"
proof -
  have "wf (inv_image (less_than <*lex*> {(M :: nat multiset, N). M < N}) (\<lambda>x. (left (mLexer x), weight x)))"
    by (intro wf_inv_image wf_lex_prod wf_less_multiset) auto
  then have "wf {(x, y). before x y}"
    by (rule wf_subset) (auto simp: before_def)
  then show ?thesis by (simp add: wfp_def)
qed

text \<open>
  Taking a token: one of the lexer, or one that is worth more than those of a context that is pushed next.
\<close>

definition takes :: "'l expander \<Rightarrow> token \<Rightarrow> 'l expander \<Rightarrow> bool" where
  "takes x t x' \<longleftrightarrow>
     left (mLexer x') < left (mLexer x) \<or>
     left (mLexer x') = left (mLexer x) \<and> length (store (mShared x')) = length (store (mShared x)) \<and>
       (if tk_type t = LAST then weight x' \<le> weight x
        else \<exists>level. weight x = add_mset level (weight x') \<and> new_level x' < level)"

lemma takes_before: "takes x t x' \<Longrightarrow> tk_type t \<noteq> LAST \<Longrightarrow> before x' x"
  by (auto simp: takes_def before_def)

lemma takes_not_after: "takes x t x' \<Longrightarrow> not_after x' x"
  by (auto simp: takes_def not_after_def split: if_splits)

lemma getToken_cases:
  assumes inv: "x_inv sh x" and "ok (mLexer x)"
  obtains (reserve) t where "mReserveToken x = Some t" "mContextStack x = []"
      "getToken lx x = Some (t, x\<lparr>mReserveToken := None\<rparr>)"
  | (stack) y c cs where "mReserveToken x = None" "y = popEmptyContexts x" "mContextStack y = c # cs"
      "cx_index c < length (cx_replacements c)"
      "getToken lx x = Some (cx_replacements c ! cx_index c, y\<lparr>mContextStack := c\<lparr>cx_index := cx_index c + 1\<rparr> # cs\<rparr>)"
  | (lexed) y t l' sh' where "mReserveToken x = None" "y = popEmptyContexts x" "mContextStack y = []"
      "lx (mLexer y) (mShared y) = Some (t, l', sh')" "ok l'" "wf_shared sh'" "evolves (mShared y) sh'"
      "left l' < left (mLexer y) \<or>
       tk_type t = LAST \<and> left l' = left (mLexer y) \<and> length (store sh') = length (store (mShared y))"
      "\<not> grows \<longrightarrow> length (store sh') = length (store (mShared y))"
      "getToken lx x = Some (t, y\<lparr>mLexer := l', mShared := sh'\<rparr>)"
proof (cases "mReserveToken x")
  case (Some t)
  then show ?thesis
    using reserve inv by (simp add: getToken_def x_inv_def stack_inv_def)
next
  case None
  define y where "y = popEmptyContexts x"
  note y = popEmptyContexts_inv [OF inv None, folded y_def]
  show ?thesis
  proof (cases "mContextStack y")
    case Nil
    have "wf_shared (mShared y)" using y by (simp add: x_inv_def)
    then obtain t l' sh' where
      l: "lx (mLexer y) (mShared y) = Some (t, l', sh')" "ok l'" "wf_shared sh'" "evolves (mShared y) sh'"
      "left l' < left (mLexer y) \<or>
       tk_type t = LAST \<and> left l' = left (mLexer y) \<and> length (store sh') = length (store (mShared y))"
      "\<not> grows \<longrightarrow> length (store sh') = length (store (mShared y))"
      using lexes [of "mShared y" "mLexer y"] y assms(2) by auto
    moreover have "getToken lx x = Some (t, y\<lparr>mLexer := l', mShared := sh'\<rparr>)"
      using None l(1) Nil by (simp add: getToken_def Let_def y_def [symmetric])
    ultimately show ?thesis
      using lexed None y_def Nil by blast
  next
    case (Cons c cs)
    have "wf_context c" using y Cons by (simp add: x_inv_def stack_inv_def)
    then have "cx_index c < length (cx_replacements c)"
      using y Cons by (simp add: wf_context_def context_empty_def)
    then show ?thesis
      using stack None y_def Cons by (simp add: getToken_def)
  qed
qed


lemma advance_inv:
  assumes inv: "x_inv sh y" and top: "mContextStack y = c # cs" and i: "i \<le> length (cx_replacements c)"
  shows "x_inv sh (y\<lparr>mContextStack := c\<lparr>cx_index := i\<rparr> # cs\<rparr>)"
    and "held (y\<lparr>mContextStack := c\<lparr>cx_index := i\<rparr> # cs\<rparr>) = held y"
proof -
  let ?z = "y\<lparr>mContextStack := c\<lparr>cx_index := i\<rparr> # cs\<rparr>"
  show held: "held ?z = held y" by (simp add: held_def top)
  have "cx_macro ` set (mContextStack ?z) = cx_macro ` set (mContextStack y)" by (simp add: top)
  then have "base_inv sh ?z" "held_inv ?z"
    using inv unfolding x_inv_def base_inv_def held_inv_def held by simp_all
  moreover have "stack_inv ?z"
    using inv i by (simp add: x_inv_def stack_inv_def top wf_context_def)
  ultimately show "x_inv sh ?z" using inv by (simp add: x_inv_def)
qed

lemma reserve_inv:
  assumes "x_inv sh x" and "mContextStack x = []"
  shows "x_inv sh (x\<lparr>mReserveToken := r\<rparr>)" and "held (x\<lparr>mReserveToken := r\<rparr>) = held x"
  using assms by (simp_all add: x_inv_def base_inv_def held_inv_def stack_inv_def held_def)

lemma lexer_inv: "x_inv sh (x\<lparr>mLexer := l\<rparr>) = x_inv sh x" and lexer_held: "held (x\<lparr>mLexer := l\<rparr>) = held x"
  by (simp_all add: x_inv_def base_inv_def held_inv_def stack_inv_def held_def)

lemma lexed_inv:
  assumes "x_inv sh y" and "wf_shared sh'" and "evolves (mShared y) sh'"
  shows "x_inv sh (y\<lparr>mLexer := l', mShared := sh'\<rparr>)"
proof -
  have "y\<lparr>mLexer := l', mShared := sh'\<rparr> = y\<lparr>mShared := sh'\<rparr>\<lparr>mLexer := l'\<rparr>" by simp
  then show ?thesis using x_inv_shared [OF assms] by (simp only: lexer_inv)
qed

lemma shared_held: "held (x\<lparr>mShared := s\<rparr>) = held x"
  by (simp add: held_def)

text \<open>
  Where an expander gets to: it lets macros go, the store is not smaller, and expansions that others have
  in progress are still counted.
\<close>

definition onward :: "'l expander \<Rightarrow> 'l expander \<Rightarrow> bool" where
  "onward x x' \<longleftrightarrow>
     set (held x') \<subseteq> set (held x) \<and> length (store (mShared x)) \<le> length (store (mShared x')) \<and>
     (\<not> grows \<longrightarrow> length (store (mShared x')) = length (store (mShared x))) \<and>
     (\<forall>i < length (store (mShared x)). same_macro (store (mShared x) ! i) (store (mShared x') ! i)) \<and>
     (\<forall>i < length (store (mShared x)). i \<notin> set (held x) \<longrightarrow>
        expansionCount (store (mShared x) ! i) \<le> expansionCount (store (mShared x') ! i))"

lemma onward_refl [simp]: "onward x x"
  by (simp add: onward_def)

lemma onward_trans: "onward x y \<Longrightarrow> onward y z \<Longrightarrow> onward x z"
  unfolding onward_def
  by (auto; meson order_trans order_less_le_trans subset_iff same_macro_trans)

lemma onward_pop: "x_inv sh x \<Longrightarrow> mReserveToken x = None \<Longrightarrow> onward x (popEmptyContexts x)"
  using popEmptyContexts_inv [of sh x] by (auto simp: onward_def popEmptyContexts_count popEmptyContexts_same)

lemma onward_evolves:
  "evolves (mShared x) (mShared x') \<Longrightarrow> set (held x') \<subseteq> set (held x) \<Longrightarrow>
   (\<not> grows \<Longrightarrow> length (store (mShared x')) = length (store (mShared x))) \<Longrightarrow> onward x x'"
  by (simp add: onward_def evolves_def macro_le_def)

text \<open>What a call of \<open>getToken\<close> gives.\<close>

definition good_token :: "shared \<Rightarrow> 'l expander \<Rightarrow> token \<Rightarrow> 'l expander \<Rightarrow> bool" where
  "good_token sh x t x' \<longleftrightarrow>
     x_inv sh x' \<and> ok (mLexer x') \<and> mReserveToken x' = None \<and> onward x x' \<and>
     mDeferReenablingMacros x' = mDeferReenablingMacros x \<and>
     (tk_type t = LAST \<longrightarrow> mContextStack x' = []) \<and> takes x t x'"

lemma getToken_ok:
  assumes inv: "x_inv sh x" and okl: "ok (mLexer x)"
  shows "\<exists>t x'. getToken lx x = Some (t, x') \<and> good_token sh x t x'"
  using inv okl
proof (cases rule: getToken_cases)
  case (reserve t)
  have "takes x t (x\<lparr>mReserveToken := None\<rparr>)"
    using reserve by (simp add: takes_def weight_def reserve_weight_def new_level_def)
  then show ?thesis
    using reserve reserve_inv [OF inv reserve(2)] okl by (auto simp: good_token_def onward_def)
next
  case (stack y c cs)
  note y = popEmptyContexts_inv [OF inv stack(1), folded stack(2)]
  let ?z = "y\<lparr>mContextStack := c\<lparr>cx_index := cx_index c + 1\<rparr> # cs\<rparr>"
  have z: "x_inv sh ?z" "held ?z = held y"
    using advance_inv [of sh y c cs "cx_index c + 1"] y stack(3,4) by simp_all
  have height: "length cs < length (store (mShared y))"
    using stack_height [of sh y] y stack(3) by simp
  have no_last: "tk_type (cx_replacements c ! cx_index c) \<noteq> LAST"
    using y stack(3,4) by (auto simp: x_inv_def stack_inv_def wf_context_def)
  have "weight y = add_mset (length (store (mShared y)) - length cs) (weight ?z)"
    using stack(3,4) by (simp add: weight_def Suc_diff_Suc [symmetric])
  moreover have "new_level ?z < length (store (mShared y)) - length cs"
    using height by (simp add: new_level_def)
  ultimately have "takes x (cx_replacements c ! cx_index c) ?z"
    using y no_last by (auto simp: takes_def)
  then show ?thesis
    using stack(5) z y okl no_last onward_trans [OF onward_pop [OF inv stack(1), folded stack(2)], of ?z]
    by (auto simp: good_token_def onward_def)
next
  case (lexed y t l' sh')
  note y = popEmptyContexts_inv [OF inv lexed(1), folded lexed(2)]
  let ?z = "y\<lparr>mLexer := l', mShared := sh'\<rparr>"
  have z: "x_inv sh ?z" "held ?z = held y"
    using lexed_inv [of sh y sh'] y lexed(6,7) by (auto simp: held_def)
  have "takes x t ?z"
    using lexed(3,8) y by (auto simp: takes_def weight_def reserve_weight_def)
  moreover have "onward x ?z"
    using onward_trans [OF onward_pop [OF inv lexed(1), folded lexed(2)] onward_evolves [of y ?z]] lexed(7,9) z
    by simp
  ultimately show ?thesis
    using lexed(3,5,10) z y by (auto simp: good_token_def)
qed

text \<open>Looking at the next token: it stays, and is worth what it was.\<close>

lemma isNextTokenLeftParen_ok:
  assumes inv: "x_inv sh x" and okl: "ok (mLexer x)"
  shows "\<exists>p x'. isNextTokenLeftParen lx x = Some (p, x') \<and> x_inv sh x' \<and> ok (mLexer x') \<and>
    onward x x' \<and> mDeferReenablingMacros x' = mDeferReenablingMacros x \<and> not_after x' x"
  using inv okl
proof (cases rule: getToken_cases)
  case (reserve t)
  have "ungetToken t (x\<lparr>mReserveToken := None\<rparr>) = x"
    using reserve(1,2) by (simp add: ungetToken_def)
  then show ?thesis
    using reserve(3) inv okl by (simp add: isNextTokenLeftParen_def)
next
  case (stack y c cs)
  note y = popEmptyContexts_inv [OF inv stack(1), folded stack(2)]
  have "ungetToken t (y\<lparr>mContextStack := c\<lparr>cx_index := cx_index c + 1\<rparr> # cs\<rparr>) = y" for t
    using stack(3) by (simp add: ungetToken_def)
  then show ?thesis
    using stack(5) y okl onward_pop [OF inv stack(1), folded stack(2)]
    by (auto simp: isNextTokenLeftParen_def not_after_def)
next
  case (lexed y t l' sh')
  note y = popEmptyContexts_inv [OF inv lexed(1), folded lexed(2)]
  let ?z = "y\<lparr>mLexer := l', mShared := sh', mReserveToken := Some t\<rparr>"
  have "x_inv sh (y\<lparr>mLexer := l', mShared := sh'\<rparr>)"
    using lexed_inv [of sh y sh'] y lexed(6,7) by blast
  then have z: "x_inv sh ?z" "held ?z = held y"
    using reserve_inv(1) [of sh "y\<lparr>mLexer := l', mShared := sh'\<rparr>" "Some t"] lexed(3)
    by (simp_all add: held_def)
  have "ungetToken t (y\<lparr>mLexer := l', mShared := sh'\<rparr>) = ?z"
    using lexed(3) by (simp add: ungetToken_def)
  moreover have "not_after ?z x"
    using lexed(3,8) y by (auto simp: not_after_def weight_def reserve_weight_def)
  moreover have "onward x ?z"
    using onward_trans [OF onward_pop [OF inv lexed(1), folded lexed(2)] onward_evolves [of y ?z]] lexed(7,9) z
    by simp
  ultimately show ?thesis
    using lexed(5,10) z y by (auto simp: isNextTokenLeftParen_def)
qed

end

section \<open>All tokens\<close>

text \<open>The tokens up to the end of the text, which a caller of \<open>lex\<close> gets.\<close>

partial_function (option) lexAll :: "'l lexer \<Rightarrow> 'l \<Rightarrow> shared \<Rightarrow> (token list \<times> 'l \<times> shared) option" where
  "lexAll lx l sh =
     Option.bind (lx l sh) (\<lambda>(t, l, sh).
       if tk_type t = LAST then Some ([], l, sh)
       else Option.bind (lexAll lx l sh) (\<lambda>(ts, r). Some (t # ts, r)))"

context lexer
begin

lemma lexAll_ok:
  assumes "wf_shared sh" and "ok l"
  shows "\<exists>ts l' sh'. lexAll lx l sh = Some (ts, l', sh') \<and> ok l' \<and> wf_shared sh' \<and> evolves sh sh' \<and>
           length ts + left l' \<le> left l \<and> (\<not> grows \<longrightarrow> length (store sh') = length (store sh))"
  using assms
proof (induction "left l" arbitrary: l sh rule: less_induct)
  case less
  obtain t l1 sh1 where lex: "lx l sh = Some (t, l1, sh1)" "ok l1" "wf_shared sh1" "evolves sh sh1"
    "left l1 < left l \<or> tk_type t = LAST \<and> left l1 = left l \<and> length (store sh1) = length (store sh)"
    "\<not> grows \<longrightarrow> length (store sh1) = length (store sh)"
    using lexes [OF less.prems] by blast
  show ?case
  proof (cases "tk_type t = LAST")
    case True
    then show ?thesis using lex by (subst lexAll.simps) auto
  next
    case False
    then have "left l1 < left l" using lex(5) by simp
    from less.hyps [OF this lex(3,2)] obtain ts l2 sh2 where r: "lexAll lx l1 sh1 = Some (ts, l2, sh2)" "ok l2" "wf_shared sh2"
      "evolves sh1 sh2" "length ts + left l2 \<le> left l1" "\<not> grows \<longrightarrow> length (store sh2) = length (store sh1)"
      by blast
    have "lexAll lx l sh = Some (t # ts, l2, sh2)"
      using lex(1) r(1) False by (subst lexAll.simps) simp
    then show ?thesis
      using r lex(4,6) \<open>left l1 < left l\<close> evolves_trans by fastforce
  qed
qed

end

end
