(* ===== verification/Pp_Expander_Ends.thy ===== *)
theory Pp_Expander_Ends
  imports Pp_Expander_Inv
begin

text \<open>
  Every call of \<open>MacroExpander::lex\<close> ends, on any lexer that keeps the contract of the locale \<open>lexer\<close>,
  whatever the macros are: the invariant holds again, and the expander has got on. A nested expander reads
  a finite list of tokens and is bounded in its own nesting by the depth.
\<close>

definition no_last :: "token list \<Rightarrow> bool" where
  "no_last ts \<longleftrightarrow> (\<forall>t \<in> set ts. tk_type t \<noteq> LAST)"

lemma no_last_simps [simp]:
  "no_last []" "no_last (t # ts) \<longleftrightarrow> tk_type t \<noteq> LAST \<and> no_last ts" "no_last (a @ b) \<longleftrightarrow> no_last a \<and> no_last b"
  by (auto simp: no_last_def)

lemma no_last_placed [simp]: "no_last (placeReplacements ident loc ts) = no_last ts"
  by (cases ts) (auto simp: no_last_def)

lemma no_last_push_arg:
  "\<forall>a \<in> set args. no_last a \<Longrightarrow> args \<noteq> [] \<Longrightarrow> tk_type t \<noteq> LAST \<Longrightarrow>
   \<forall>a \<in> set (push_arg_token t args). no_last a"
  by (auto simp: push_arg_token_def dest: in_set_butlastD)

lemma push_arg_nonempty [simp]: "push_arg_token t args \<noteq> []"
  by (simp add: push_arg_token_def)

section \<open>The arguments\<close>

context lexer
begin

text \<open>
  Tokens have been taken that pay for a context on the stack as it is now.
\<close>

definition paid :: "'l expander \<Rightarrow> 'l expander \<Rightarrow> bool" where
  "paid x x' \<longleftrightarrow>
     left (mLexer x') < left (mLexer x) \<or>
     left (mLexer x') = left (mLexer x) \<and> length (store (mShared x')) = length (store (mShared x)) \<and>
       (\<exists>level. add_mset level (weight x') \<le> weight x \<and> new_level x' < level)"

lemma takes_paid: "takes x t x' \<Longrightarrow> tk_type t \<noteq> LAST \<Longrightarrow> paid x x'"
  by (fastforce simp: takes_def paid_def)

lemma not_after_paid: "not_after y x \<Longrightarrow> paid y x' \<Longrightarrow> paid x x'"
  by (auto simp: not_after_def paid_def) (meson le_less_trans order_trans less_le_trans)+

lemma x_report_simps [simp]:
  "mLexer (x_report d l t x) = mLexer x" "mReserveToken (x_report d l t x) = mReserveToken x"
  "mContextStack (x_report d l t x) = mContextStack x" "held (x_report d l t x) = held x"
  "mDeferReenablingMacros (x_report d l t x) = mDeferReenablingMacros x"
  "store (mShared (x_report d l t x)) = store (mShared x)" "weight (x_report d l t x) = weight x"
  "new_level (x_report d l t x) = new_level x"
  by (simp_all add: x_report_def held_def weight_def new_level_def)

lemma x_report_inv [simp]: "x_inv sh (x_report d l t x) = x_inv sh x"
  by (simp add: x_report_def x_inv_def base_inv_def held_inv_def stack_inv_def held_def)

lemma collectLoop_ok:
  assumes "x_inv sh x" and "ok (mLexer x)" and "\<forall>a \<in> set args. no_last a" and "args \<noteq> []" and "n \<noteq> 0"
  shows "\<exists>r x'. collectLoop lx ident n args t x = Some (r, x') \<and> x_inv sh x' \<and> ok (mLexer x') \<and>
    mDeferReenablingMacros x' = mDeferReenablingMacros x \<and> onward x x' \<and> not_after x' x \<and>
    (\<forall>args' t'. r = Some (args', t') \<longrightarrow>
       (\<forall>a \<in> set args'. no_last a) \<and> paid x x' \<and> mReserveToken x' = None)"
  using wfp_before assms
proof (induction x arbitrary: args n t rule: wfp_induct_rule)
  case (less x)
  obtain u y where u: "getToken lx x = Some (u, y)" and y: "good_token sh x u y"
    using getToken_ok [OF less.prems(1,2)] by blast
  show ?case
  proof (cases "tk_type u = LAST")
    case True
    let ?y = "x_report PP_MACRO_UNTERMINATED_INVOCATION (tk_location ident) (tk_text ident) y"
    have stack: "mContextStack y = []" using y True by (simp add: good_token_def)
    then have unget: "ungetToken u ?y = ?y\<lparr>mReserveToken := Some u\<rparr>"
      by (simp add: ungetToken_def)
    have "x_inv sh (?y\<lparr>mReserveToken := Some u\<rparr>)" "held (?y\<lparr>mReserveToken := Some u\<rparr>) = held y"
      using reserve_inv [of sh ?y] stack y by (simp_all add: good_token_def)
    moreover have "not_after (?y\<lparr>mReserveToken := Some u\<rparr>) x"
      using takes_not_after [of x u y] y stack True
      by (simp add: good_token_def not_after_def weight_def reserve_weight_def)
    ultimately show ?thesis
      using u y True less.prems(5) unget
      by (subst collectLoop.simps) (simp add: good_token_def onward_def)
  next
    case False
    define m where "m = (if tk_type u = LEFT_PAREN then n + 1 else if tk_type u = RIGHT_PAREN then n - 1 else n)"
    define as where "as =
      (if tk_type u = LEFT_PAREN then push_arg_token u args
       else if tk_type u = RIGHT_PAREN then if n - 1 \<noteq> 0 then push_arg_token u args else args
       else if tk_type u = COMMA then if n = 1 then args @ [[]] else push_arg_token u args
       else push_arg_token u args)"
    have step: "collectLoop lx ident n args t x = collectLoop lx ident m as u y"
      using u False less.prems(5) by (subst collectLoop.simps) (simp add: m_def as_def)
    have as: "\<forall>a \<in> set as. no_last a" "as \<noteq> []"
      using no_last_push_arg [of args u] less.prems(3,4) False by (auto simp: as_def)
    have taken: "paid x y" "before y x" "not_after y x"
      using y False takes_paid takes_before takes_not_after by (auto simp: good_token_def)
    show ?thesis
    proof (cases "m = 0")
      case True
      then have "collectLoop lx ident m as u y = Some (Some (as, u), y)"
        by (subst collectLoop.simps) simp
      then show ?thesis
        using step y as taken by (simp add: good_token_def)
    next
      case m: False
      obtain r x' where "collectLoop lx ident m as u y = Some (r, x')" "x_inv sh x'" "ok (mLexer x')"
        "mDeferReenablingMacros x' = mDeferReenablingMacros y" "onward y x'" "not_after x' y"
        "\<forall>args' t'. r = Some (args', t') \<longrightarrow>
          (\<forall>a \<in> set args'. no_last a) \<and> paid y x' \<and> mReserveToken x' = None"
        using less.IH [OF taken(2) _ _ as m, of u] y by (auto simp: good_token_def)
      then show ?thesis
        using step y taken onward_trans [of x y x'] not_after_trans [of x' y x] not_after_paid [of y x x']
        by (auto simp: good_token_def)
    qed
  qed
qed

end

section \<open>What a nested expander has to do\<close>

locale expanding = lexer lx ok left grows for lx :: "'l lexer" and ok left grows +
  fixes ea :: arg_expander
  assumes expands: "\<lbrakk>wf_shared sh; no_last arg\<rbrakk> \<Longrightarrow>
    \<exists>r sh'. ea t tot n arg sh = Some (r, sh') \<and> wf_shared sh' \<and> evolves sh sh' \<and>
      length (store sh') = length (store sh) \<and>
      (\<forall>arg' t' n'. r = Some (arg', t', n') \<longrightarrow> no_last arg')"
begin

lemma expandArgs_ok:
  "\<lbrakk>wf_shared sh; \<forall>a \<in> set args. no_last a\<rbrakk> \<Longrightarrow>
   \<exists>r sh'. expandArgs ea t tot n args sh = Some (r, sh') \<and> wf_shared sh' \<and> evolves sh sh' \<and>
     length (store sh') = length (store sh) \<and>
     (\<forall>args'. r = Some args' \<longrightarrow> length args' = length args \<and> (\<forall>a \<in> set args'. no_last a))"
proof (induction args arbitrary: t n sh)
  case (Cons arg args)
  obtain r sh1 where r: "ea t tot n arg sh = Some (r, sh1)" "wf_shared sh1" "evolves sh sh1"
    "length (store sh1) = length (store sh)" "\<forall>arg' t' n'. r = Some (arg', t', n') \<longrightarrow> no_last arg'"
    using expands [OF Cons.prems(1)] Cons.prems(2) by (metis list.set_intros(1))
  show ?case
  proof (cases r)
    case None
    then show ?thesis using r by simp
  next
    case (Some q)
    obtain arg' t' n' where q: "q = (arg', t', n')" by (cases q)
    obtain rs sh2 where "expandArgs ea t' tot n' args sh1 = Some (rs, sh2)" "wf_shared sh2" "evolves sh1 sh2"
      "length (store sh2) = length (store sh1)"
      "\<forall>args'. rs = Some args' \<longrightarrow> length args' = length args \<and> (\<forall>a \<in> set args'. no_last a)"
      using Cons.IH [OF r(2)] Cons.prems(2) by (metis list.set_intros(2))
    then show ?thesis
      using r Some q evolves_trans [of sh sh1 sh2] by auto
  qed
qed simp

end

section \<open>Enabling again\<close>

lemma fold_enable_store:
  "length (store (fold (\<lambda>i. modify_macro i (\<lambda>m. m\<lparr>disabled := False\<rparr>)) ids sh)) = length (store sh)"
  "macroSet (fold (\<lambda>i. modify_macro i (\<lambda>m. m\<lparr>disabled := False\<rparr>)) ids sh) = macroSet sh"
  "store (fold (\<lambda>i. modify_macro i (\<lambda>m. m\<lparr>disabled := False\<rparr>)) ids sh) ! j =
     (if j \<in> set ids \<and> j < length (store sh) then (store sh ! j)\<lparr>disabled := False\<rparr> else store sh ! j)"
  by (induction ids arbitrary: sh) (auto simp: store_modify)

lemma reenable_simps [simp]:
  "mLexer (reenableMacros x) = mLexer x" "mReserveToken (reenableMacros x) = mReserveToken x"
  "mContextStack (reenableMacros x) = mContextStack x"
  "mTotalTokensInContexts (reenableMacros x) = mTotalTokensInContexts x"
  "\<not> mDeferReenablingMacros (reenableMacros x)" "mMacrosToReenable (reenableMacros x) = []"
  "macroSet (mShared (reenableMacros x)) = macroSet (mShared x)"
  "length (store (mShared (reenableMacros x))) = length (store (mShared x))"
  "weight (reenableMacros x) = weight x" "new_level (reenableMacros x) = new_level x"
  by (simp_all add: reenableMacros_def fold_enable_store weight_def new_level_def)

lemma reenable_store:
  "store (mShared (reenableMacros x)) ! j =
     (if j \<in> set (mMacrosToReenable x) \<and> j < length (store (mShared x))
      then (store (mShared x) ! j)\<lparr>disabled := False\<rparr> else store (mShared x) ! j)"
  by (simp add: reenableMacros_def fold_enable_store)

lemma reenable_inv:
  assumes "x_inv sh x"
  shows "x_inv sh (reenableMacros x)" and "set (held (reenableMacros x)) \<subseteq> set (held x)"
proof -
  have stack: "i \<notin> set (mMacrosToReenable x)" if "i \<in> cx_macro ` set (mContextStack x)" for i
    using assms that by (auto simp: x_inv_def held_inv_def held_def)
  have wf: "wf_shared (mShared (reenableMacros x))"
    using assms by (auto simp: x_inv_def wf_shared_def all_set_conv_all_nth reenable_store wf_macro_def)
  have "base_inv sh (reenableMacros x)"
    using assms by (auto simp: x_inv_def base_inv_def reenable_store held_def same_macro_def)
  moreover have "held_inv (reenableMacros x)"
    using assms stack by (auto simp: x_inv_def held_inv_def reenable_store held_def)
  moreover have "stack_inv (reenableMacros x)"
    using assms by (simp add: x_inv_def stack_inv_def)
  ultimately show "x_inv sh (reenableMacros x)"
    using wf by (simp add: x_inv_def)
  show "set (held (reenableMacros x)) \<subseteq> set (held x)"
    by (auto simp: held_def)
qed


lemma defer_inv:
  assumes "x_inv sh x"
  shows "x_inv sh (x\<lparr>mDeferReenablingMacros := True\<rparr>)"
  using assms by (simp add: x_inv_def base_inv_def held_inv_def stack_inv_def held_def)

context expanding
begin

lemma reenable_onward: "onward x (reenableMacros x)"
  unfolding onward_def by (auto simp: reenable_store held_def same_macro_def)

lemma reenable_measure [simp]:
  "not_after (reenableMacros x) y = not_after x y" "paid y (reenableMacros x) = paid y x"
  by (simp_all add: not_after_def paid_def)

lemma defer_measure [simp]:
  "not_after y (x\<lparr>mDeferReenablingMacros := True\<rparr>) = not_after y x"
  "paid (x\<lparr>mDeferReenablingMacros := True\<rparr>) y = paid x y"
  "onward (x\<lparr>mDeferReenablingMacros := True\<rparr>) y = onward x y"
  by (simp_all add: not_after_def paid_def onward_def weight_def held_def)

lemma collectMacroArgs_ok:
  assumes inv: "x_inv sh x" and okl: "ok (mLexer x)"
  shows "\<exists>r x'. collectMacroArgs lx ea m ident x = Some (r, x') \<and> x_inv sh x' \<and> ok (mLexer x') \<and>
    \<not> mDeferReenablingMacros x' \<and> onward x x' \<and> not_after x' x \<and>
    (\<forall>args loc. r = Some (args, loc) \<longrightarrow>
       length args = length (parameters m) \<and> (\<forall>a \<in> set args. no_last a) \<and> paid x x' \<and> mReserveToken x' = None)"
proof -
  obtain t y where t: "getToken lx x = Some (t, y)" and y: "good_token sh x t y"
    using getToken_ok [OF inv okl] by blast
  let ?y = "y\<lparr>mDeferReenablingMacros := True\<rparr>"
  obtain r z where r: "collectLoop lx ident 1 [[]] t ?y = Some (r, z)" "x_inv sh z" "ok (mLexer z)"
    "onward y z" "not_after z y"
    "\<forall>args' t'. r = Some (args', t') \<longrightarrow> (\<forall>a \<in> set args'. no_last a) \<and> paid y z \<and> mReserveToken z = None"
    using collectLoop_ok [of sh ?y "[[]]" 1 ident t] y defer_inv [of sh y] by (auto simp: good_token_def)
  have xz: "onward x z" "not_after z x"
    using y r(4,5) onward_trans [of x y z] not_after_trans [of z y x] takes_not_after [of x t y]
    by (auto simp: good_token_def)
  show ?thesis
  proof (cases r)
    case None
    then show ?thesis
      using t r xz reenable_inv [OF r(2)] onward_trans [OF xz(1) reenable_onward]
      by (simp add: collectMacroArgs_def)
  next
    case (Some q)
    then obtain as u where q: "r = Some (as, u)" by (cases q) auto
    have as: "\<forall>a \<in> set as. no_last a" "paid x z" "mReserveToken z = None"
      using r(6) q y not_after_paid [of y x z] takes_not_after [of x t y] by (auto simp: good_token_def)
    define args where "args = (if parameters m = [] \<and> length as = 1 \<and> hd as = [] then [] else as)"
    have args: "\<forall>a \<in> set args. no_last a" using as by (auto simp: args_def)
    show ?thesis
    proof (cases "length args = length (parameters m)")
      case False
      define w where "w = x_report (if length args < length (parameters m) then PP_MACRO_TOO_FEW_ARGS
          else PP_MACRO_TOO_MANY_ARGS) (tk_location ident) (tk_text ident) z"
      have w: "x_inv sh w" "ok (mLexer w)" "onward x w" "not_after w x"
        using r xz by (simp_all add: w_def onward_def not_after_def)
      have "collectMacroArgs lx ea m ident x = Some (None, reenableMacros w)"
        using False
        by (simp only: collectMacroArgs_def t r(1) [unfolded q] Option.bind.simps prod.case option.case Let_def
            args_def [symmetric]) (simp add: w_def)
      then show ?thesis
        using w reenable_inv [OF w(1)] onward_trans [OF w(3) reenable_onward] by simp
    next
      case True
      have "wf_shared (mShared z)" using r(2) by (simp add: x_inv_def)
      then obtain rs sh' where rs: "expandArgs ea u (mTotalTokensInContexts z) 0 args (mShared z) = Some (rs, sh')"
        "wf_shared sh'" "evolves (mShared z) sh'" "length (store sh') = length (store (mShared z))"
        "\<forall>args'. rs = Some args' \<longrightarrow> length args' = length args \<and> (\<forall>a \<in> set args'. no_last a)"
        using expandArgs_ok [OF _ args] by blast
      define w where "w = z\<lparr>mShared := sh'\<rparr>"
      have w: "x_inv sh w" "ok (mLexer w)" "onward x w" "not_after w x" "paid x w"
        using x_inv_shared [OF r(2) rs(2,3)] r(3) xz as rs(3,4) onward_trans [OF xz(1) onward_evolves [of z w]]
        by (simp_all add: w_def shared_held not_after_def paid_def weight_shared new_level_def)
      have "collectMacroArgs lx ea m ident x =
          Some (map_option (\<lambda>args. (args, tk_location u)) rs, reenableMacros w)"
        using True rs(1)
        by (simp only: collectMacroArgs_def t r(1) [unfolded q] Option.bind.simps prod.case option.case Let_def
            args_def [symmetric]) (simp add: w_def)
      then show ?thesis
        using w reenable_inv [OF w(1)] onward_trans [OF w(3) reenable_onward] rs(5) True as(3)
        by (auto simp: w_def)
    qed
  qed
qed

end

section \<open>Replacement and the push\<close>

lemma find_index_le: "find_index a bs \<le> length bs"
  by (induction bs) auto

lemma replaceMacroParams_ok:
  "\<lbrakk>length args = length params; \<forall>a \<in> set args. no_last a; no_last repls; no_last out\<rbrakk> \<Longrightarrow>
   \<exists>ts sh'. replaceMacroParams tot params args repls out sh = Some (ts, sh') \<and> no_last ts \<and>
     wf_shared sh' = wf_shared sh \<and> evolves sh sh' \<and> length (store sh') = length (store sh)"
proof (induction tot params args repls out sh rule: replaceMacroParams.induct)
  case (2 tot params args repl repls out sh)
  define i where "i = find_index (tk_text repl) params"
  show ?case
  proof (cases "out \<noteq> [] \<and> kMaxContextTokens < length out + tot")
    case True
    then show ?thesis using 2(8) by simp
  next
    case stop: False
    show ?thesis
    proof (cases "tk_type repl \<noteq> IDENTIFIER \<or> i = length params")
      case True
      then show ?thesis
        using 2(1) [OF stop] 2(2) [OF stop _ i_def] 2(5-8) stop by (auto simp: i_def [symmetric])
    next
      case False
      then have i: "i < length args" using find_index_le [of "tk_text repl" params] 2(5) by (simp add: i_def)
      show ?thesis
      proof (cases "args ! i")
        case Nil
        then show ?thesis
          using 2(3) [OF stop _ i_def _ _ Nil] 2(5-8) stop False i by (auto simp: i_def [symmetric])
      next
        case (Cons a arg)
        have "no_last (a # arg)" using 2(6) nth_mem [OF i] Cons by metis
        then show ?thesis
          using 2(4) [OF stop _ i_def _ _ Cons] 2(5-8) stop False i Cons by (auto simp: i_def [symmetric])
      qed
    qed
  qed
qed simp

lemma objectReplacements_ok:
  "wf_macro m \<Longrightarrow> mc_type m = kTypeObj \<Longrightarrow> \<exists>ts. objectReplacements m ident = Some ts \<and> no_last ts"
  by (cases "replacements m") (auto simp: objectReplacements_def wf_macro_def no_last_def)

context expanding
begin

lemma expandMacro_ok:
  assumes inv: "x_inv sh x" and okl: "ok (mLexer x)" and m: "wf_macro m"
    and open_: "\<not> mDeferReenablingMacros x" and res: "mc_type m = kTypeObj \<Longrightarrow> mReserveToken x = None"
  shows "\<exists>r x'. expandMacro lx ea m ident x = Some (r, x') \<and> x_inv sh x' \<and> ok (mLexer x') \<and>
    \<not> mDeferReenablingMacros x' \<and> onward x x' \<and> not_after x' x \<and>
    (\<forall>ts. r = Some ts \<longrightarrow> no_last ts \<and> mReserveToken x' = None \<and>
       (if mc_type m = kTypeObj then x' = x else paid x x'))"
proof (cases "mc_type m")
  case kTypeObj
  then show ?thesis
    using objectReplacements_ok [OF m kTypeObj, of ident] inv okl open_ res
    by (auto simp: expandMacro_def)
next
  case kTypeFunc
  obtain r y where r: "collectMacroArgs lx ea m ident x = Some (r, y)" "x_inv sh y" "ok (mLexer y)"
    "\<not> mDeferReenablingMacros y" "onward x y" "not_after y x"
    "\<forall>args loc. r = Some (args, loc) \<longrightarrow>
       length args = length (parameters m) \<and> (\<forall>a \<in> set args. no_last a) \<and> paid x y \<and> mReserveToken y = None"
    using collectMacroArgs_ok [OF inv okl] by blast
  show ?thesis
  proof (cases r)
    case None
    then show ?thesis using r kTypeFunc by (simp add: expandMacro_def)
  next
    case (Some q)
    then obtain args loc where q: "r = Some (args, loc)" by (cases q) auto
    have "no_last (replacements m)" using m by (simp add: wf_macro_def no_last_def)
    then obtain ts sh' where
      ts: "replaceMacroParams (mTotalTokensInContexts y) (parameters m) args (replacements m) [] (mShared y) = Some (ts, sh')"
      "no_last ts" "wf_shared sh' = wf_shared (mShared y)" "evolves (mShared y) sh'"
      "length (store sh') = length (store (mShared y))"
      using replaceMacroParams_ok [of args "parameters m" "replacements m" "[]"] r(7) q
      by (metis no_last_simps(1))
    define w where "w = y\<lparr>mShared := sh'\<rparr>"
    have "x_inv sh w" "ok (mLexer w)" "onward x w" "not_after w x" "paid x w"
      using x_inv_shared [OF r(2), of sh'] r ts q onward_trans [OF r(5) onward_evolves [of y w]]
      by (simp_all add: w_def x_inv_def shared_held not_after_def paid_def weight_shared new_level_def)
    moreover have "expandMacro lx ea m ident x = Some (Some (placeReplacements ident loc ts), w)"
      using r(1) q ts(1) kTypeFunc by (simp add: expandMacro_def w_def)
    ultimately show ?thesis using ts(2) r(4,7) q kTypeFunc by (simp add: w_def)
  qed
qed

end


section \<open>One round of the lexer\<close>

text \<open>A macro that may be pushed: nobody holds it, and its expansion is counted.\<close>

definition free_macro :: "shared \<Rightarrow> 'l expander \<Rightarrow> nat \<Rightarrow> bool" where
  "free_macro sh x i \<longleftrightarrow>
     i < length (store (mShared x)) \<and> i \<notin> set (held x) \<and> 1 \<le> expansionCount (store (mShared x) ! i) \<and>
     (i < length (store sh) \<longrightarrow>
        \<not> disabled (store sh ! i) \<and>
        expansionCount (store sh ! i) + 1 \<le> expansionCount (store (mShared x) ! i))"

lemma push_inv:
  assumes inv: "x_inv sh x" and free: "free_macro sh x i" and ts: "no_last ts" and res: "mReserveToken x = None"
  shows "x_inv sh (x\<lparr>mShared := modify_macro i (\<lambda>m. m\<lparr>disabled := True\<rparr>) (mShared x),
    mContextStack := \<lparr>cx_macro = i, cx_index = 0, cx_replacements = ts\<rparr> # mContextStack x,
    mTotalTokensInContexts := mTotalTokensInContexts x + length ts\<rparr>)" (is "x_inv sh ?y")
proof -
  have held: "held ?y = i # held x" by (simp add: held_def)
  have wf: "wf_shared (mShared ?y)"
    using inv wf_shared_modify [of "mShared x" "\<lambda>m. m\<lparr>disabled := True\<rparr>" i]
    by (auto simp: x_inv_def same_macro_def wf_shared_def wf_macro_def)
  have "base_inv sh ?y"
    using inv free unfolding x_inv_def base_inv_def held
    by (auto simp: store_modify free_macro_def same_macro_def of_bool_def)
  moreover have "held_inv ?y"
    using inv free unfolding x_inv_def held_inv_def held
    by (auto simp: store_modify free_macro_def)
  moreover have "stack_inv ?y"
    using inv ts res by (auto simp: x_inv_def stack_inv_def wf_context_def no_last_def)
  ultimately show ?thesis using wf by (simp add: x_inv_def)
qed

lemma bump_simps [simp]:
  "mLexer (bump i d x) = mLexer x" "mReserveToken (bump i d x) = mReserveToken x"
  "mContextStack (bump i d x) = mContextStack x" "held (bump i d x) = held x"
  "mDeferReenablingMacros (bump i d x) = mDeferReenablingMacros x"
  "macroSet (mShared (bump i d x)) = macroSet (mShared x)" "mMacrosToReenable (bump i d x) = mMacrosToReenable x"
  "length (store (mShared (bump i d x))) = length (store (mShared x))"
  "weight (bump i d x) = weight x" "new_level (bump i d x) = new_level x"
  by (simp_all add: bump_def held_def weight_def new_level_def)

lemma bump_store:
  "store (mShared (bump i d x)) ! j =
     (if i = j \<and> j < length (store (mShared x))
      then (store (mShared x) ! j)\<lparr>expansionCount := expansionCount (store (mShared x) ! j) + d\<rparr>
      else store (mShared x) ! j)"
  by (auto simp: bump_def store_modify)

lemma bump_evolves: "evolves (mShared x) (mShared (bump i 1 x))"
  by (auto simp: evolves_def macro_le_def same_macro_def bump_store)

lemma bump_up:
  assumes "x_inv sh x"
  shows "x_inv sh (bump i 1 x)"
proof -
  have "bump i 1 x = x\<lparr>mShared := mShared (bump i 1 x)\<rparr>" by (simp add: bump_def)
  moreover have "wf_shared (mShared (bump i 1 x))"
    using assms wf_shared_modify [of "mShared x" "\<lambda>m. m\<lparr>expansionCount := expansionCount m + 1\<rparr>" i]
    by (auto simp: x_inv_def bump_def same_macro_def wf_shared_def wf_macro_def)
  ultimately show ?thesis
    using x_inv_shared [OF assms _ bump_evolves] by metis
qed

lemma bump_down:
  assumes inv: "x_inv sh x" and free: "free_macro sh x i"
  shows "x_inv sh (bump i (-1) x)"
proof -
  have i: "i \<notin> cx_macro ` set (mContextStack x)" using free by (auto simp: free_macro_def held_def)
  have held: "held (bump i (-1) x) = held x" by simp
  have wf: "wf_shared (mShared (bump i (-1) x))"
    using inv free wf_shared_modify [of "mShared x" "\<lambda>m. m\<lparr>expansionCount := expansionCount m + -1\<rparr>" i]
    by (auto simp: x_inv_def bump_def same_macro_def free_macro_def)
  have "base_inv sh (bump i (-1) x)"
    using inv free i unfolding x_inv_def base_inv_def held
    by (auto simp: bump_store free_macro_def same_macro_def)
  moreover have "held_inv (bump i (-1) x)"
    using inv free i unfolding x_inv_def held_inv_def held
    by (auto simp: bump_store free_macro_def)
  moreover have "stack_inv (bump i (-1) x)"
    using inv by (simp add: x_inv_def stack_inv_def bump_def)
  ultimately show ?thesis using wf by (simp add: x_inv_def)
qed

context expanding
begin

lemma paid_push:
  assumes "paid x y" and "mLexer z = mLexer y" and "length (store (mShared z)) = length (store (mShared y))"
    and "mReserveToken y = None" and "mReserveToken z = None"
    and "mContextStack z = \<lparr>cx_macro = i, cx_index = 0, cx_replacements = ts\<rparr> # mContextStack y"
  shows "before z x"
proof -
  have z: "weight z = replicate_mset (length ts) (new_level y) + weight y"
    using assms(3-6) by (simp add: weight_def new_level_def reserve_weight_def)
  have "weight z < weight x"
    if "add_mset level (weight y) \<le> weight x" "new_level y < level" for level
  proof -
    have "replicate_mset (length ts) (new_level y) < {#level#}"
      using that(2) by (simp add: mset_lt_single_right_iff)
    then have "weight z < add_mset level (weight y)"
      using add_strict_right_mono [of "replicate_mset (length ts) (new_level y)" "{#level#}" "weight y"]
      by (simp add: z)
    then show ?thesis using that(1) by (rule less_le_trans)
  qed
  then show ?thesis using assms(1-3) by (auto simp: paid_def before_def)
qed

lemma free_onward:
  "free_macro sh x i \<Longrightarrow> onward x x' \<Longrightarrow> free_macro sh x' i"
  unfolding free_macro_def onward_def
  by (auto intro: order_trans less_le_trans)

lemma pushMacro_ok:
  assumes inv: "x_inv sh x" and okl: "ok (mLexer x)" and free: "free_macro sh x i"
    and open_: "\<not> mDeferReenablingMacros x"
    and res: "mc_type (store (mShared x) ! i) = kTypeObj \<Longrightarrow> mReserveToken x = None" 
    and w: "mc_type (store (mShared x) ! i) = kTypeObj \<Longrightarrow> paid w x" "not_after x w"
  shows "\<exists>b x'. pushMacro lx ea i ident x = Some (b, x') \<and> x_inv sh x' \<and> ok (mLexer x') \<and>
    \<not> mDeferReenablingMacros x' \<and> (\<not> grows \<longrightarrow> length (store (mShared x')) = length (store (mShared x))) \<and>
    (if b then before x' w else not_after x' x)"
proof -
  have "wf_macro (store (mShared x) ! i)"
    using inv free by (simp add: x_inv_def wf_shared_def free_macro_def)
  then obtain r y where r: "expandMacro lx ea (store (mShared x) ! i) ident x = Some (r, y)" "x_inv sh y"
    "ok (mLexer y)" "\<not> mDeferReenablingMacros y" "onward x y" "not_after y x"
    "\<forall>ts. r = Some ts \<longrightarrow> no_last ts \<and> mReserveToken y = None \<and>
       (if mc_type (store (mShared x) ! i) = kTypeObj then y = x else paid x y)"
    using expandMacro_ok [OF inv okl _ open_ res] by blast
  show ?thesis
  proof (cases r)
    case None
    then have "pushMacro lx ea i ident x = Some (False, y)" using r(1) by (simp add: pushMacro_def)
    then show ?thesis using r(2-6) unfolding onward_def by (intro exI [of _ False] exI [of _ y]) simp
  next
    case (Some ts)
    then have ts: "no_last ts" "mReserveToken y = None" "paid w y"
      using r(7) w not_after_paid [of x w y] by (auto split: if_splits)
    define z where "z = y\<lparr>mShared := modify_macro i (\<lambda>m. m\<lparr>disabled := True\<rparr>) (mShared y),
      mContextStack := \<lparr>cx_macro = i, cx_index = 0, cx_replacements = ts\<rparr> # mContextStack y,
      mTotalTokensInContexts := mTotalTokensInContexts y + length ts\<rparr>"
    have "x_inv sh z"
      unfolding z_def by (rule push_inv [OF r(2) free_onward [OF free r(5)] ts(1,2)])
    moreover have "before z w"
      by (rule paid_push [OF ts(3)]) (simp_all add: z_def ts(2))
    moreover have "pushMacro lx ea i ident x = Some (True, z)"
      using r(1) Some by (simp add: pushMacro_def z_def)
    ultimately show ?thesis
      using r(3,4,5) by (intro exI [of _ True] exI [of _ z]) (simp add: z_def onward_def)
  qed
qed


text \<open>What holds when \<open>lex\<close> returns a token.\<close>

definition lexed :: "shared \<Rightarrow> 'l expander \<Rightarrow> token \<Rightarrow> 'l expander \<Rightarrow> bool" where
  "lexed sh x t x' \<longleftrightarrow>
     x_inv sh x' \<and> ok (mLexer x') \<and> \<not> mDeferReenablingMacros x' \<and> not_after x' x \<and>
     (\<not> grows \<longrightarrow> length (store (mShared x')) = length (store (mShared x))) \<and>
     (tk_type t = LAST \<longrightarrow> mContextStack x' = []) \<and> (tk_type t \<noteq> LAST \<longrightarrow> before x' x)"

lemma lexed_getToken: "good_token sh x t y \<Longrightarrow> \<not> mDeferReenablingMacros x \<Longrightarrow> lexed sh x t y"
  using takes_not_after [of x t y] takes_before [of x t y]
  by (simp add: lexed_def good_token_def onward_def)

lemma lexed_again: "lexed sh y t z \<Longrightarrow> before y x \<Longrightarrow> (\<not> grows \<Longrightarrow> length (store (mShared y)) = length (store (mShared x)))
   \<Longrightarrow> lexed sh x t z"
  using before_not_after [of z x] le_before_trans [of z y x]
  by (auto simp: lexed_def)

lemma lexed_report [simp]: "lexed sh x t (x_report d l s x') = lexed sh x t x'"
  by (simp add: lexed_def not_after_def before_def)

lemma lexed_type: "lexed sh x t x' \<Longrightarrow> tk_type t \<noteq> LAST \<Longrightarrow> tk_type u \<noteq> LAST \<Longrightarrow> lexed sh x u x'"
  by (simp add: lexed_def)

lemma getToken_again:
  assumes "lexed sh x t y" and "tk_type t \<noteq> LAST"
  shows "\<exists>u z. getToken lx y = Some (u, z) \<and> lexed sh x u z"
proof -
  obtain u z where "getToken lx y = Some (u, z)" "good_token sh y u z"
    using getToken_ok [of sh y] assms by (auto simp: lexed_def)
  then show ?thesis
    using lexed_getToken [of sh y u z] lexed_again [of sh y u z x] assms by (auto simp: lexed_def)
qed

lemma lexDefined_ok:
  assumes "lexed sh x t y" and "tk_type t \<noteq> LAST"
  shows "\<exists>u z. lexDefined lx es t y = Some (u, z) \<and> lexed sh x u z"
proof (cases "mContextStack y \<noteq> [] \<and> es_webgl es")
  case True
  then show ?thesis using assms by (simp add: lexDefined_def)
next
  case False
  obtain t1 y1 where 1: "getToken lx y = Some (t1, y1)" "lexed sh x t1 y1"
    using getToken_again [OF assms] by blast
  obtain t2 y2 where 2: "(if tk_type t1 = LEFT_PAREN then getToken lx y1 else Some (t1, y1)) = Some (t2, y2)"
      "lexed sh x t2 y2"
    using getToken_again [OF 1(2)] 1(2) by (cases "tk_type t1 = LEFT_PAREN") auto
  show ?thesis
  proof (cases "tk_type t2 = IDENTIFIER")
    case ident: True
    obtain t3 y3 where 3: "(if tk_type t1 = LEFT_PAREN then getToken lx y2 else Some (t2, y2)) = Some (t3, y3)"
        "lexed sh x t3 y3" "tk_type t1 \<noteq> LEFT_PAREN \<longrightarrow> t3 = t2"
      using getToken_again [OF 2(2)] 2(2) ident by (cases "tk_type t1 = LEFT_PAREN") auto
    show ?thesis
    proof (cases "tk_type t1 = LEFT_PAREN \<and> tk_type t3 \<noteq> RIGHT_PAREN")
      case True
      have "lexDefined lx es t y = Some (t3, x_report PP_UNEXPECTED_TOKEN (tk_location t3) (tk_text t3) y3)"
        using False 1(1) 2(1) 3(1) ident True by (auto simp: lexDefined_def Let_def)
      then show ?thesis using 3(2) by simp
    next
      case ok: False
      then have "tk_type t3 \<noteq> LAST" using 3(3) ident by auto
      then have "lexed sh x (t3\<lparr>tk_type := CONST_INT, tk_text := s\<rparr>) y3" for s
        using lexed_type [OF 3(2)] by simp
      moreover have "lexDefined lx es t y = Some (t3\<lparr>tk_type := CONST_INT,
          tk_text := if macroSet (mShared y2) (tk_text t2) \<noteq> None then ''1'' else ''0''\<rparr>, y3)"
        using False 1(1) 2(1) 3(1) ident ok by (auto simp: lexDefined_def Let_def)
      ultimately show ?thesis by blast
    qed
  next
    case no: False
    have "lexDefined lx es t y = Some (t2, x_report PP_UNEXPECTED_TOKEN (tk_location t2) (tk_text t2) y2)"
      using False 1(1) 2(1) no by (auto simp: lexDefined_def Let_def)
    then show ?thesis using 2(2) by simp
  qed
qed

lemma lexStep_ok:
  assumes inv: "x_inv sh x" and okl: "ok (mLexer x)" and open_: "\<not> mDeferReenablingMacros x"
  shows "(\<exists>t x'. lexStep lx es ea x = Some (Inl (t, x')) \<and> lexed sh x t x') \<or>
    (\<exists>x'. lexStep lx es ea x = Some (Inr x') \<and> x_inv sh x' \<and> ok (mLexer x') \<and> \<not> mDeferReenablingMacros x' \<and>
       (\<not> grows \<longrightarrow> length (store (mShared x')) = length (store (mShared x))) \<and> before x' x)"
proof -
  obtain t y where t: "getToken lx x = Some (t, y)" and y: "good_token sh x t y"
    using getToken_ok [OF inv okl] by blast
  note lexed = lexed_getToken [OF y open_]
  show ?thesis
  proof (cases "tk_type t = IDENTIFIER")
    case False
    then show ?thesis using t lexed by (simp add: lexStep_def)
  next
    case ident: True
    have plain: "mParseDefined es \<and> tk_text t = ''defined'' \<or> expansionDisabled t \<or>
        macroSet (mShared y) (tk_text t) = None \<Longrightarrow> ?thesis"
      using t lexed ident lexDefined_ok [OF lexed, of es] by (auto simp: lexStep_def)
    show ?thesis
    proof (cases "mParseDefined es \<and> tk_text t = ''defined'' \<or> expansionDisabled t \<or>
        macroSet (mShared y) (tk_text t) = None")
      case True
      then show ?thesis by (rule plain)
    next
      case nonplain: False
      then obtain i where i: "macroSet (mShared y) (tk_text t) = Some i" by auto
      show ?thesis
      proof (cases "disabled (store (mShared y) ! i)")
        case True
        then show ?thesis
          using t ident nonplain i lexed_type [OF lexed, of "setExpansionDisabled True t"]
          by (auto simp: lexStep_def)
      next
        case enabled: False
        define z where "z = bump i 1 y"
        have inv_y: "x_inv sh y" and res: "mReserveToken y = None" using y by (simp_all add: good_token_def)
        have range: "i < length (store (mShared y))" using inv_y i by (simp add: x_inv_def wf_shared_def)
        have "i \<notin> set (held y)" using inv_y enabled by (auto simp: x_inv_def held_inv_def)
        then have free: "free_macro sh z i"
          using inv_y enabled range
          by (auto simp: free_macro_def z_def bump_store x_inv_def base_inv_def wf_shared_def wf_macro_def
              of_bool_def split: if_splits)
        have z: "x_inv sh z" "ok (mLexer z)" "\<not> mDeferReenablingMacros z" "mReserveToken z = None"
          "length (store (mShared z)) = length (store (mShared y))"
          using bump_up [OF inv_y] y open_ by (simp_all add: z_def good_token_def)
        have measure: "paid x z" "before z x"
          using takes_paid [of x t y] takes_before [of x t y] y ident
          by (simp_all add: paid_def before_def z_def good_token_def)
        have grow: "\<not> grows \<longrightarrow> length (store (mShared z)) = length (store (mShared x))"
          using y by (simp add: z_def good_token_def onward_def)
        show ?thesis
        proof (cases "mc_type (store (mShared z) ! i)")
          case kTypeObj
          obtain b x' where b: "pushMacro lx ea i t z = Some (b, x')" "x_inv sh x'" "ok (mLexer x')"
            "\<not> mDeferReenablingMacros x'" "\<not> grows \<longrightarrow> length (store (mShared x')) = length (store (mShared z))"
            "if b then before x' x else not_after x' z"
            using pushMacro_ok [OF z(1,2) free z(3) _ measure(1), of t] z(4) before_not_after [OF measure(2)]
            by blast
          then have "before x' x" using le_before_trans [OF _ measure(2)] by (cases b) auto
          then show ?thesis
            using t ident nonplain i enabled kTypeObj b grow
            by (auto simp: lexStep_def Let_def z_def [symmetric])
        next
          case kTypeFunc
          obtain p w where w: "isNextTokenLeftParen lx z = Some (p, w)" "x_inv sh w" "ok (mLexer w)" "onward z w"
            "mDeferReenablingMacros w = mDeferReenablingMacros z" "not_after w z"
            using isNextTokenLeftParen_ok [OF z(1,2)] by blast
          have free_w: "free_macro sh w i" using free_onward [OF free w(4)] .
          have w_x: "before w x" using le_before_trans [OF w(6) measure(2)] .
          show ?thesis
          proof (cases p)
            case False
            define v where "v = bump i (-1) w"
            have "lexed sh x t v"
              using bump_down [OF w(2) free_w] w w_x before_not_after [OF w_x] ident z(3) grow
              by (simp add: lexed_def v_def not_after_def before_def onward_def)
            then show ?thesis
              using t ident nonplain i enabled kTypeFunc w(1) False
              by (auto simp: lexStep_def Let_def z_def [symmetric] v_def)
          next
            case True
            have kind: "mc_type (store (mShared w) ! i) = kTypeFunc"
              using w(4) free kTypeFunc by (simp add: onward_def free_macro_def same_macro_def)
            obtain b x' where b: "pushMacro lx ea i t w = Some (b, x')" "x_inv sh x'" "ok (mLexer x')"
              "\<not> mDeferReenablingMacros x'" "\<not> grows \<longrightarrow> length (store (mShared x')) = length (store (mShared w))"
              "if b then before x' z else not_after x' w"
              using kind pushMacro_ok [OF w(2,3) free_w _ _ _ w(6), of t] w(5) z(3) by auto
            then have "before x' x"
              using le_before_trans [OF _ w_x] before_trans [OF _ measure(2)] by (cases b) auto
            then show ?thesis
              using t ident nonplain i enabled kTypeFunc w(1) True b grow w(4)
              by (auto simp: lexStep_def Let_def z_def [symmetric] onward_def)
          qed
        qed
      qed
    qed
  qed
qed


lemma lexLoop_ok:
  assumes "x_inv sh x" and "ok (mLexer x)" and "\<not> mDeferReenablingMacros x"
  shows "\<exists>t x'. lexLoop lx es ea x = Some (t, x') \<and> lexed sh x t x'"
  using wfp_before assms
proof (induction x rule: wfp_induct_rule)
  case (less x)
  from lexStep_ok [OF less.prems, of es] show ?case
  proof
    assume "\<exists>t x'. lexStep lx es ea x = Some (Inl (t, x')) \<and> lexed sh x t x'"
    then show ?thesis by (subst lexLoop.simps) auto
  next
    assume "\<exists>x'. lexStep lx es ea x = Some (Inr x') \<and> x_inv sh x' \<and> ok (mLexer x') \<and> \<not> mDeferReenablingMacros x' \<and>
       (\<not> grows \<longrightarrow> length (store (mShared x')) = length (store (mShared x))) \<and> before x' x"
    then obtain y where y: "lexStep lx es ea x = Some (Inr y)" "x_inv sh y" "ok (mLexer y)"
      "\<not> mDeferReenablingMacros y" "\<not> grows \<longrightarrow> length (store (mShared y)) = length (store (mShared x))"
      "before y x" by blast
    obtain t z where "lexLoop lx es ea y = Some (t, z)" "lexed sh y t z"
      using less.IH [OF y(6,2,3,4)] by blast
    moreover from this have "lexed sh x t z"
      using lexed_again y(5,6) by blast
    ultimately show ?thesis using y(1) by (subst lexLoop.simps) auto
  qed
qed

end

section \<open>Nested expanders\<close>

lemma MacroExpander_inv: "wf_shared sh \<Longrightarrow> x_inv sh (MacroExpander l sh)"
  by (simp add: x_inv_def base_inv_def held_inv_def stack_inv_def held_def MacroExpander_def same_macro_def)

lemma MacroExpander_simps [simp]:
  "mLexer (MacroExpander l sh) = l" "mShared (MacroExpander l sh) = sh" "\<not> mDeferReenablingMacros (MacroExpander l sh)"
  "mContextStack (MacroExpander l sh) = []" "held (MacroExpander l sh) = []"
  by (simp_all add: MacroExpander_def held_def)

text \<open>A list of tokens is a lexer that leaves the macros alone.\<close>

interpretation tokens: lexer TokenLexer no_last length False
proof
  fix sh and l :: "token list"
  assume "wf_shared sh" and "no_last l"
  then show "\<exists>t l' sh'. TokenLexer l sh = Some (t, l', sh') \<and> no_last l' \<and> wf_shared sh' \<and> evolves sh sh' \<and>
      (length l' < length l \<or> tk_type t = LAST \<and> length l' = length l \<and> length (store sh') = length (store sh)) \<and>
      (\<not> False \<longrightarrow> length (store sh') = length (store sh))"
    by (cases l) (auto simp: reset_token_def)
qed

locale nested_expanding = expanding TokenLexer no_last length False ea for ea
begin

lemma argLoop_ok:
  assumes "x_inv sh x" and "no_last (mLexer x)" and "\<not> mDeferReenablingMacros x" and "no_last out"
  shows "\<exists>r sh'. argLoop es ea tot n out t x = Some (r, sh') \<and> wf_shared sh' \<and> evolves sh sh' \<and>
    length (store sh') = length (store (mShared x)) \<and> (\<forall>arg' t' n'. r = Some (arg', t', n') \<longrightarrow> no_last arg')"
  using tokens.wfp_before assms
proof (induction x arbitrary: n out t rule: wfp_induct_rule)
  case (less x)
  show ?case
  proof (cases "tk_type t = LAST")
    case True
    then show ?thesis
      using less.prems x_inv_evolves [OF less.prems(1)] by (subst argLoop.simps) (simp add: x_inv_def)
  next
    case False
    obtain u y where u: "lexLoop TokenLexer es ea x = Some (u, y)" and y: "lexed sh x u y"
      using lexLoop_ok [OF less.prems(1,2,3)] by blast
    have inv: "x_inv sh y" "no_last (mLexer y)" "\<not> mDeferReenablingMacros y"
      "length (store (mShared y)) = length (store (mShared x))"
      using y by (simp_all add: lexed_def)
    have out: "no_last (out @ [t])" using less.prems(4) False by simp
    consider (stop) "kMaxContextTokens < n + 1 + tot" | (last) "tk_type u = LAST" "\<not> kMaxContextTokens < n + 1 + tot"
      | (more) "before y x" "\<not> kMaxContextTokens < n + 1 + tot"
      using y by (auto simp: lexed_def)
    then show ?thesis
    proof cases
      case stop
      then show ?thesis
        using False u inv x_inv_evolves [OF inv(1)] by (subst argLoop.simps) (simp add: x_inv_def)
    next
      case last
      then have "argLoop es ea tot (n + 1) (out @ [t]) u y = Some (Some (out @ [t], u, n + 1), mShared y)"
        by (subst argLoop.simps) simp
      then show ?thesis
        using False last(2) u inv x_inv_evolves [OF inv(1)] out by (subst argLoop.simps) (simp add: x_inv_def)
    next
      case more
      show ?thesis
        using less.IH [OF more(1) inv(1-3) out, of "n + 1" u] False more(2) u inv(4) by (subst argLoop.simps) simp
    qed
  qed
qed

end

lemma expandArg_expanding: "nested_expanding (expandArg es depth)"
proof (induction depth)
  case 0
  show ?case
    by unfold_locales simp
next
  case (Suc depth)
  show ?case
  proof
    fix sh arg t tot n
    assume wf: "wf_shared sh" and arg: "no_last arg"
    let ?x = "MacroExpander arg sh"
    obtain u y where u: "lexLoop TokenLexer es (expandArg es depth) ?x = Some (u, y)"
        and y: "expanding.lexed no_last length False sh ?x u y"
      using expanding.lexLoop_ok [OF nested_expanding.axioms [OF Suc.IH] MacroExpander_inv [OF wf], of arg es] arg
      by auto
    then have "x_inv sh y" "no_last (mLexer y)" "\<not> mDeferReenablingMacros y"
        "length (store (mShared y)) = length (store sh)"
      by (simp_all add: expanding.lexed_def [OF nested_expanding.axioms [OF Suc.IH]])
    then show "\<exists>r sh'. expandArg es (Suc depth) t tot n arg sh = Some (r, sh') \<and> wf_shared sh' \<and> evolves sh sh' \<and>
        length (store sh') = length (store sh) \<and> (\<forall>arg' t' n'. r = Some (arg', t', n') \<longrightarrow> no_last arg')"
      using nested_expanding.argLoop_ok [OF Suc.IH, of sh y "[]" es tot n u] u by auto
  qed
qed

interpretation nested: nested_expanding "expandArg es depth" for es depth
  by (rule expandArg_expanding)


section \<open>The whole expander\<close>

context lexer
begin

lemma expanding_nested: "expanding lx ok left grows (expandArg es depth)"
  by unfold_locales (rule nested.expands)

lemmas x_lexed = expanding.lexed_def [OF expanding_nested]

lemma x_lex_ok:
  assumes "x_inv sh x" and "ok (mLexer x)" and "\<not> mDeferReenablingMacros x"
  shows "\<exists>t x'. x_lex lx es depth x = Some (t, x') \<and> x_inv sh x' \<and> ok (mLexer x') \<and> \<not> mDeferReenablingMacros x' \<and>
    not_after x' x \<and> (\<not> grows \<longrightarrow> length (store (mShared x')) = length (store (mShared x))) \<and>
    (tk_type t = LAST \<longrightarrow> mContextStack x' = []) \<and> (tk_type t \<noteq> LAST \<longrightarrow> before x' x)"
  using expanding.lexLoop_ok [OF expanding_nested assms, of es es depth]
  by (simp add: x_lex_def x_lexed)

end

text \<open>All tokens up to the end of the text.\<close>

partial_function (option) readTokens ::
  "'l lexer \<Rightarrow> expander_settings \<Rightarrow> nat \<Rightarrow> 'l expander \<Rightarrow> (token list \<times> 'l expander) option" where
  "readTokens lx es depth x =
     Option.bind (x_lex lx es depth x) (\<lambda>(t, x).
       if tk_type t = LAST then Some ([], x)
       else Option.bind (readTokens lx es depth x) (\<lambda>(ts, x). Some (t # ts, x)))"

context lexer
begin

lemma readTokens_ok:
  assumes "x_inv sh x" and "ok (mLexer x)" and "\<not> mDeferReenablingMacros x"
  shows "\<exists>ts x'. readTokens lx es depth x = Some (ts, x') \<and> x_inv sh x' \<and> mContextStack x' = [] \<and>
    no_last ts \<and> \<not> mDeferReenablingMacros x'"
  using wfp_before assms
proof (induction x rule: wfp_induct_rule)
  case (less x)
  obtain t y where t: "x_lex lx es depth x = Some (t, y)" "x_inv sh y" "ok (mLexer y)" "\<not> mDeferReenablingMacros y"
    "tk_type t = LAST \<longrightarrow> mContextStack y = []" "tk_type t \<noteq> LAST \<longrightarrow> before y x"
    using x_lex_ok [OF less.prems, of es depth] by blast
  show ?case
  proof (cases "tk_type t = LAST")
    case True
    then show ?thesis using t by (subst readTokens.simps) simp
  next
    case False
    then obtain ts z where "readTokens lx es depth y = Some (ts, z)" "x_inv sh z" "mContextStack z = []" "no_last ts"
      "\<not> mDeferReenablingMacros z"
      using less.IH [of y] t by blast
    then show ?thesis using t(1) False by (subst readTokens.simps) simp
  qed
qed

end

end
