(* ===== verification/Pp_Expander_Props.thy ===== *)
theory Pp_Expander_Props
  imports Pp_Expander_Ends
begin

text \<open>
  What the macro expander computes. For object-like macros a recursive function over the text says it: a
  macro is replaced by its expanded replacement list in which it is hidden, and a hidden name is marked
  so that it is never expanded. The stack of contexts, the flags and the counts of the code implement that
  function and leave the macros as they were, on every lexer of which the next tokens are known. Before
  that, the operator \<open>defined\<close> is a number, where the expander is told to evaluate it.
\<close>

section \<open>The reference\<close>

definition macroOf :: "shared \<Rightarrow> token \<Rightarrow> nat option" where
  "macroOf sh t = (if tk_type t = IDENTIFIER \<and> \<not> expansionDisabled t then macroSet sh (tk_text t) else None)"

definition replacementOf :: "shared \<Rightarrow> nat \<Rightarrow> token \<Rightarrow> token list" where
  "replacementOf sh i t =
     (case objectReplacements (store sh ! i) t of
        None \<Rightarrow> []
      | Some ts \<Rightarrow> placeReplacements t (tk_location t) ts)"

function expandObjects :: "shared \<Rightarrow> nat set \<Rightarrow> token list \<Rightarrow> token list" where
  "expandObjects sh hidden [] = []"
| "expandObjects sh hidden (t # ts) =
     (case macroOf sh t of
        None \<Rightarrow> [t]
      | Some i \<Rightarrow>
          if i \<in> hidden \<or> length (store sh) \<le> i then [setExpansionDisabled True t]
          else expandObjects sh (insert i hidden) (replacementOf sh i t)) @
     expandObjects sh hidden ts"
  by pat_completeness auto
termination
proof (relation "measures [\<lambda>(sh, hidden, ts). card ({..<length (store sh)} - hidden), \<lambda>(sh, hidden, ts). length ts]",
       goal_cases)
  case (2 sh hidden t ts i)
  then have "i \<in> {..<length (store sh)} - hidden" by auto
  then have "card ({..<length (store sh)} - insert i hidden) < card ({..<length (store sh)} - hidden)"
    by (intro psubset_card_mono) auto
  then show ?case by simp
qed simp_all

lemma expandObjects_Cons:
  "expandObjects sh hidden (t # ts) = expandObjects sh hidden [t] @ expandObjects sh hidden ts"
  by simp

lemma expandObjects_append: "expandObjects sh hidden (ts @ us) = expandObjects sh hidden ts @ expandObjects sh hidden us"
  by (induction ts) simp_all

section \<open>The state of the code and what it stands for\<close>

text \<open>The macros of \<open>sh\<close> with those in \<open>ids\<close> being expanded.\<close>

definition mark :: "bool \<Rightarrow> macro \<Rightarrow> macro" where
  "mark b m = (if b then m\<lparr>disabled := True, expansionCount := expansionCount m + 1\<rparr> else m)"

definition marked :: "shared \<Rightarrow> nat set \<Rightarrow> shared" where
  "marked sh ids = sh\<lparr>store := map (\<lambda>i. mark (i \<in> ids) (store sh ! i)) [0..<length (store sh)]\<rparr>"

lemma marked_simps [simp]:
  "length (store (marked sh ids)) = length (store sh)" "macroSet (marked sh ids) = macroSet sh"
  "i < length (store sh) \<Longrightarrow> store (marked sh ids) ! i = mark (i \<in> ids) (store sh ! i)"
  by (simp_all add: marked_def)

lemma marked_empty [simp]: "marked sh {} = sh"
  by (simp add: marked_def mark_def map_nth)

lemma shared_eqI:
  assumes "length (store a) = length (store b)" and "\<And>i. i < length (store b) \<Longrightarrow> store a ! i = store b ! i"
    and "macroSet a = macroSet b" and "diags a = diags b"
  shows "a = (b :: shared)"
  using assms by (cases a; cases b) (auto intro: nth_equalityI)

definition ids :: "'l expander \<Rightarrow> nat set" where
  "ids x = cx_macro ` set (mContextStack x)"

text \<open>
  The operator \<open>defined\<close> in a text: it stands for a number, at the place of its last token. A text in which
  it is not used in the right way has no meaning here.
\<close>

definition is_defined :: "token \<Rightarrow> bool" where
  "is_defined t \<longleftrightarrow> tk_type t = IDENTIFIER \<and> tk_text t = ''defined''"

definition defined_value :: "shared \<Rightarrow> string \<Rightarrow> token \<Rightarrow> token" where
  "defined_value sh n t = t\<lparr>tk_type := CONST_INT, tk_text := if macroSet sh n \<noteq> None then ''1'' else ''0''\<rparr>"

fun resolveDefined :: "shared \<Rightarrow> token list \<Rightarrow> token list option" where
  "resolveDefined sh [] = Some []"
| "resolveDefined sh (t # ts) =
     (if \<not> is_defined t then map_option (\<lambda>us. t # us) (resolveDefined sh ts)
      else
        case ts of
          n # us \<Rightarrow>
            if tk_type n = IDENTIFIER
            then map_option (\<lambda>us. defined_value sh (tk_text n) n # us) (resolveDefined sh us)
            else
              (case us of
                 m # r # us \<Rightarrow>
                   if tk_type n = LEFT_PAREN \<and> tk_type m = IDENTIFIER \<and> tk_type r = RIGHT_PAREN
                   then map_option (\<lambda>us. defined_value sh (tk_text m) r # us) (resolveDefined sh us)
                   else None
               | _ \<Rightarrow> None)
        | [] \<Rightarrow> None)"

definition resolve :: "bool \<Rightarrow> shared \<Rightarrow> token list \<Rightarrow> token list option" where
  "resolve pd sh ts = (if pd then resolveDefined sh ts else Some ts)"

definition off :: "shared \<Rightarrow> nat set" where
  "off sh = {i. i < length (store sh) \<and> disabled (store sh ! i)}"

text \<open>Macros that are all object-like, without \<open>defined\<close> in their replacements when it is an operator.\<close>

definition object_macro :: "bool \<Rightarrow> macro \<Rightarrow> bool" where
  "object_macro pd m \<longleftrightarrow>
     mc_type m = kTypeObj \<and>
     (pd \<longrightarrow> (\<forall>t \<in> set (replacements m). \<not> is_defined t \<and> (predefined m \<longrightarrow> tk_type t \<noteq> IDENTIFIER)))"

text \<open>Macros whose replacements are on one line, as those of all directives are.\<close>

definition newline_free :: "token list \<Rightarrow> bool" where
  "newline_free ts \<longleftrightarrow> (\<forall>t \<in> set ts. tk_type t \<noteq> NEWLINE)"

definition newline_free_macros :: "shared \<Rightarrow> bool" where
  "newline_free_macros sh \<longleftrightarrow> (\<forall>m \<in> set (store sh). newline_free (replacements m))"

lemma newline_free_types: "map tk_type ts = map tk_type us \<Longrightarrow> newline_free ts = newline_free us"
proof -
  assume "map tk_type ts = map tk_type us"
  then have "set (map tk_type ts) = set (map tk_type us)" by simp
  then show ?thesis by (auto simp: newline_free_def) (metis imageE imageI)+
qed

lemma placed_types: "map tk_type (placeReplacements ident loc ts) = map tk_type ts"
  by (cases ts) (simp_all add: setHasLeadingSpace_def setAtStartOfLine_def)

lemma placed_undefined:
  "\<forall>t \<in> set ts. \<not> is_defined t \<Longrightarrow> \<forall>t \<in> set (placeReplacements ident loc ts). \<not> is_defined t"
  by (cases ts) (auto simp: is_defined_def setHasLeadingSpace_def setAtStartOfLine_def)

lemma replaceFirst_types: "replaceFirst x rs = Some ts \<Longrightarrow> map tk_type ts = map tk_type rs"
  by (cases rs) auto

lemma object_replacements_types:
  "objectReplacements m t = Some ts \<Longrightarrow> map tk_type ts = map tk_type (replacements m)"
  by (auto simp: objectReplacements_def dest: replaceFirst_types split: if_splits)

lemma object_replacements_undefined:
  assumes m: "object_macro True m" and ts: "objectReplacements m t = Some ts"
  shows "\<forall>t \<in> set ts. \<not> is_defined t"
proof (cases "predefined m")
  case True
  then have "\<forall>n \<in> set (map tk_type (replacements m)). n \<noteq> IDENTIFIER" using m by (simp add: object_macro_def)
  then show ?thesis unfolding object_replacements_types [OF ts, symmetric] by (simp add: is_defined_def)
next
  case False
  then have "ts = replacements m" using ts by (simp add: objectReplacements_def)
  then show ?thesis using m by (simp add: object_macro_def)
qed

fun pending :: "shared \<Rightarrow> macro_context list \<Rightarrow> token list" where
  "pending sh [] = []"
| "pending sh (c # cs) =
     expandObjects sh (off sh \<union> cx_macro ` set (c # cs)) (drop (cx_index c) (cx_replacements c)) @ pending sh cs"

definition to_come :: "shared \<Rightarrow> 'l expander \<Rightarrow> token list \<Rightarrow> token list" where
  "to_come sh x ts = pending sh (mContextStack x) @ expandObjects sh (off sh) ts"

section \<open>A lexer with known tokens\<close>

text \<open>A lexer that gives known tokens, maybe not all that it has, and touches nothing else.\<close>

locale listing = lexer lx ok left grows for lx :: "'l lexer" and ok left grows +
  fixes gives :: "'l \<Rightarrow> token list \<Rightarrow> bool"
  assumes gives_ok: "gives l ts \<Longrightarrow> ok l"
    and gives_lex: "gives l (t # ts) \<Longrightarrow> \<exists>l'. (\<forall>sh. lx l sh = Some (t, l', sh)) \<and> gives l' ts"
begin

text \<open>The tokens \<open>ts\<close> are those that the lexer still gives, and \<open>us\<close> is what they stand for.\<close>

definition listing_inv :: "bool \<Rightarrow> shared \<Rightarrow> token list \<Rightarrow> 'l expander \<Rightarrow> bool" where
  "listing_inv pd sh ts x \<longleftrightarrow>
     x_inv sh x \<and> \<not> mDeferReenablingMacros x \<and> mReserveToken x = None \<and> gives (mLexer x) ts \<and>
     mShared x = marked sh (ids x) \<and> (\<forall>m \<in> set (store sh). object_macro pd m) \<and>
     (pd \<longrightarrow> (\<forall>c \<in> set (mContextStack x). \<forall>t \<in> set (cx_replacements c). \<not> is_defined t)) \<and>
     (newline_free_macros sh \<longrightarrow> (\<forall>c \<in> set (mContextStack x). newline_free (cx_replacements c)))"

definition expanding_objects :: "bool \<Rightarrow> shared \<Rightarrow> token list \<Rightarrow> token list \<Rightarrow> 'l expander \<Rightarrow> bool" where
  "expanding_objects pd sh ts us x \<longleftrightarrow> listing_inv pd sh ts x \<and> resolve pd sh ts = Some us"

lemma popMacro_objects:
  assumes x: "listing_inv pd sh ts x" and top: "mContextStack x = c # cs" and empty: "context_empty c"
  shows "listing_inv pd sh ts (popMacro x)" and "to_come sh (popMacro x) us = to_come sh x us"
proof -
  have inv: "x_inv sh x" and sh: "mShared x = marked sh (ids x)" using x by (simp_all add: listing_inv_def)
  have c: "cx_macro c \<notin> cx_macro ` set cs" "cx_macro c \<in> set (held x)"
    using inv top by (simp_all add: x_inv_def held_inv_def held_def)
  have i: "cx_macro c < length (store sh)" "\<not> disabled (store sh ! cx_macro c)"
    using inv c(2) sh by (auto simp: x_inv_def held_inv_def base_inv_def)
  have ids: "ids (popMacro x) = cx_macro ` set cs" "ids x = insert (cx_macro c) (cx_macro ` set cs)"
    by (simp_all add: ids_def top)
  have "mShared (popMacro x) = marked sh (ids (popMacro x))"
  proof (rule shared_eqI)
    show "diags (mShared (popMacro x)) = diags (marked sh (ids (popMacro x)))"
      using sh by (simp add: popMacro_def Let_def marked_def)
    fix j assume "j < length (store (marked sh (ids (popMacro x))))"
    then show "store (mShared (popMacro x)) ! j = store (marked sh (ids (popMacro x))) ! j"
      using x i c(1) by (auto simp: popMacro_store [OF top] sh ids mark_def listing_inv_def)
  qed (use sh in simp_all)
  then show "listing_inv pd sh ts (popMacro x)"
    using x popMacro_inv(1) [OF inv top] by (simp add: listing_inv_def top)
  show "to_come sh (popMacro x) us = to_come sh x us"
    using empty by (simp add: to_come_def top context_empty_def)
qed

lemma popEmptyContexts_objects:
  "listing_inv pd sh ts x \<Longrightarrow>
   listing_inv pd sh ts (popEmptyContexts x) \<and> to_come sh (popEmptyContexts x) us = to_come sh x us"
proof (induction x rule: popEmptyContexts.induct)
  case (1 x)
  show ?case
  proof (cases "mContextStack x \<noteq> [] \<and> context_empty (hd (mContextStack x))")
    case True
    then obtain c cs where top: "mContextStack x = c # cs" "context_empty c" by (cases "mContextStack x") auto
    have "popEmptyContexts x = popEmptyContexts (popMacro x)"
      using True by (subst popEmptyContexts.simps) simp
    then show ?thesis
      using "1.IH" [OF True] popMacro_objects [OF "1.prems" top] by simp
  next
    case False
    then have "popEmptyContexts x = x" by (subst popEmptyContexts.simps) auto
    then show ?thesis using "1.prems" by simp
  qed
qed

lemma popEmptyContexts_nonempty:
  assumes "mContextStack x = [] \<or> \<not> context_empty (hd (mContextStack x))"
  shows "popEmptyContexts x = x"
  using assms by (subst popEmptyContexts.simps) auto

lemma getToken_raw:
  assumes x: "listing_inv pd sh (t # ts) x" and "mContextStack x = []"
  shows "\<exists>x'. getToken lx x = Some (t, x') \<and> listing_inv pd sh ts x' \<and> mContextStack x' = []"
proof -
  have inv: "x_inv sh x" "gives (mLexer x) (t # ts)" "mReserveToken x = None"
    using x by (simp_all add: listing_inv_def)
  have okl: "ok (mLexer x)" using gives_ok [OF inv(2)] .
  obtain l' where l': "\<And>sh. lx (mLexer x) sh = Some (t, l', sh)" "gives l' ts" using gives_lex [OF inv(2)] by blast
  have p: "popEmptyContexts x = x" using assms(2) by (simp add: popEmptyContexts_nonempty)
  have "getToken lx x = Some (t, x\<lparr>mLexer := l', mShared := mShared x\<rparr>)"
    using inv(3) assms(2) l'(1) by (simp add: getToken_def p)
  moreover have "x_inv sh (x\<lparr>mLexer := l', mShared := mShared x\<rparr>)"
    using inv(1) by (simp add: lexer_inv)
  then have "listing_inv pd sh ts (x\<lparr>mLexer := l', mShared := mShared x\<rparr>)"
    using x l'(2) assms(2) unfolding listing_inv_def by (simp add: ids_def)
  ultimately show ?thesis using assms(2) by auto
qed

lemma getToken_objects:
  assumes x: "expanding_objects pd sh ts us x" and come: "to_come sh x us \<noteq> []"
  shows "\<exists>t x'. getToken lx x = Some (t, x') \<and>
    (newline_free_macros sh \<and> tk_type t = NEWLINE \<longrightarrow> mContextStack x' = []) \<and>
    (\<not> (pd \<and> is_defined t) \<and> (\<exists>ts' us'. expanding_objects pd sh ts' us' x' \<and>
        to_come sh x us = expandObjects sh (off sh \<union> ids x') [t] @ to_come sh x' us') \<or>
     pd \<and> is_defined t \<and> (\<exists>ts'. ts = t # ts' \<and> listing_inv pd sh ts' x' \<and> mContextStack x' = [] \<and>
        to_come sh x us = expandObjects sh (off sh) us))"
proof -
  have inv: "x_inv sh x" "listing_inv pd sh ts x" and us: "resolve pd sh ts = Some us"
    using x by (simp_all add: expanding_objects_def listing_inv_def)
  have res: "mReserveToken x = None" using inv(2) by (simp add: listing_inv_def)
  define y where "y = popEmptyContexts x"
  have y: "listing_inv pd sh ts y" "to_come sh y us = to_come sh x us"
    using popEmptyContexts_objects [OF inv(2)] by (simp_all add: y_def)
  have top: "mContextStack y \<noteq> [] \<longrightarrow> \<not> context_empty (hd (mContextStack y))" and resy: "mReserveToken y = None"
    using popEmptyContexts_inv [OF inv(1) res] by (simp_all add: y_def)
  then have "popEmptyContexts y = y" by (intro popEmptyContexts_nonempty) blast
  then have get: "getToken lx y = getToken lx x"
    using res resy by (simp add: getToken_def flip: y_def)
  show ?thesis
  proof (cases "mContextStack y")
    case Nil
    then have "to_come sh x us = expandObjects sh (off sh) us" using y(2) by (simp add: to_come_def)
    then have "ts \<noteq> []" using us come by (auto simp: resolve_def split: if_splits)
    then obtain t ts' where ts: "ts = t # ts'" by (cases ts) auto
    obtain z where z: "getToken lx x = Some (t, z)" "listing_inv pd sh ts' z" "mContextStack z = []"
      using getToken_raw [of pd sh t ts' y] y(1) Nil ts get by auto
    show ?thesis
    proof (cases "pd \<and> is_defined t")
      case True
      then show ?thesis using z ts \<open>to_come sh x us = _\<close> by blast
    next
      case False
      then obtain us' where us': "us = t # us'" "resolve pd sh ts' = Some us'"
        using us ts by (auto simp: resolve_def split: if_splits)
      have "to_come sh x us = expandObjects sh (off sh \<union> ids z) [t] @ to_come sh z us'"
        using expandObjects_Cons [of sh "off sh" t us'] \<open>to_come sh x us = _\<close> \<open>us = _\<close> z(3)
        by (simp add: to_come_def ids_def del: expandObjects.simps(2))
      then show ?thesis
        using z False \<open>resolve pd sh ts' = _\<close> unfolding expanding_objects_def by blast
    qed
  next
    case (Cons c cs)
    let ?t = "cx_replacements c ! cx_index c" and ?z = "y\<lparr>mContextStack := c\<lparr>cx_index := cx_index c + 1\<rparr> # cs\<rparr>"
    have ids: "ids ?z = ids y" by (simp add: ids_def Cons)
    have "cx_index c \<le> length (cx_replacements c)"
      using y(1) Cons by (simp add: listing_inv_def x_inv_def stack_inv_def wf_context_def)
    then have less: "cx_index c < length (cx_replacements c)" using top Cons by (simp add: context_empty_def)
    then have "getToken lx x = Some (?t, ?z)"
      using resy Cons \<open>popEmptyContexts y = y\<close> by (simp only: get [symmetric]) (simp add: getToken_def)
    moreover have "\<not> (pd \<and> is_defined ?t)" using y(1) Cons less by (auto simp: listing_inv_def)
    moreover have "listing_inv pd sh ts ?z"
      using y(1) advance_inv(1) [of sh y c cs "cx_index c + 1"] Cons less ids by (simp add: listing_inv_def)
    moreover have "drop (cx_index c) (cx_replacements c) = ?t # drop (cx_index c + 1) (cx_replacements c)"
      using less by (simp add: Cons_nth_drop_Suc)
    then have "to_come sh y us = expandObjects sh (off sh \<union> ids ?z) [?t] @ to_come sh ?z us"
      unfolding to_come_def ids ids_def Cons
      by (simp add: expandObjects_Cons [of _ _ ?t "drop _ _"] del: expandObjects.simps(2))
    moreover have "tk_type ?t \<noteq> NEWLINE" if "newline_free_macros sh"
      using y(1) Cons less that by (simp add: listing_inv_def newline_free_def)
    ultimately show ?thesis using us y(2) unfolding expanding_objects_def by auto
  qed
qed

text \<open>The operator \<open>defined\<close> is evaluated as the reference does it.\<close>

lemma lexDefined_objects:
  assumes x: "listing_inv True sh ts x" "mContextStack x = []" and d: "is_defined d"
    and r: "resolveDefined sh (d # ts) = Some us"
  shows "\<exists>t us' ts' x'. lexDefined lx es d x = Some (t, x') \<and> us = t # us' \<and> tk_type t = CONST_INT \<and>
    expanding_objects True sh ts' us' x' \<and> mContextStack x' = []"
proof -
  have set: "macroSet (mShared y) = macroSet sh" if "listing_inv True sh us y" for us y
    using that by (simp add: listing_inv_def)
  obtain n ns where ts: "ts = n # ns" using r d by (cases ts) auto
  obtain x1 where x1: "getToken lx x = Some (n, x1)" "listing_inv True sh ns x1" "mContextStack x1 = []"
    using getToken_raw [of True sh n ns x] x ts by auto
  show ?thesis
  proof (cases "tk_type n = IDENTIFIER")
    case True
    then show ?thesis
      using x x1 d r ts set [OF x1(2)]
      by (auto simp: lexDefined_def defined_value_def expanding_objects_def resolve_def)
  next
    case False
    then obtain m c ms where ns: "ns = m # c # ms" "tk_type n = LEFT_PAREN" "tk_type m = IDENTIFIER" "tk_type c = RIGHT_PAREN"
      using r d ts by (auto split: list.splits if_splits)
    obtain x2 where x2: "getToken lx x1 = Some (m, x2)" "listing_inv True sh (c # ms) x2" "mContextStack x2 = []"
      using getToken_raw [of True sh m "c # ms" x1] x1 ns by auto
    obtain x3 where x3: "getToken lx x2 = Some (c, x3)" "listing_inv True sh ms x3" "mContextStack x3 = []"
      using getToken_raw [of True sh c ms x2] x2 by auto
    show ?thesis
      using x x1 x2 x3 d r ts ns set [OF x2(2)]
      by (auto simp: lexDefined_def defined_value_def expanding_objects_def resolve_def)
  qed
qed

section \<open>One round\<close>

lemma disabled_objects:
  assumes "listing_inv pd sh ts x" and "i < length (store sh)"
  shows "disabled (store (mShared x) ! i) \<longleftrightarrow> i \<in> off sh \<union> ids x"
  using assms by (auto simp: listing_inv_def mark_def off_def)

lemma push_objects:
  assumes x: "listing_inv pd sh ts x" and i: "i < length (store sh)" "i \<notin> off sh \<union> ids x"
    and name: "macroSet sh (tk_text t) = Some i"
  shows "\<exists>x'. pushMacro lx ea i t (bump i 1 x) = Some (True, x') \<and> listing_inv pd sh ts x' \<and>
    to_come sh x' us = expandObjects sh (insert i (off sh \<union> ids x)) (replacementOf sh i t) @ to_come sh x us"
proof -
  define y where "y = bump i 1 x"
  have inv: "x_inv sh x" and sh: "mShared x = marked sh (ids x)" and obj: "mc_type (store sh ! i) = kTypeObj"
    using x i(1) nth_mem [of i "store sh"] by (auto simp: listing_inv_def object_macro_def simp del: nth_mem)
  have wf: "wf_shared (mShared x)" using inv by (simp add: x_inv_def)
  have "wf_macro (store (mShared x) ! i)" using wf i(1) sh nth_mem [of i "store (mShared x)"] by (simp add: wf_shared_def)
  then have m: "wf_macro (store sh ! i)" using sh i by (simp add: mark_def)
  have same: "objectReplacements (store (mShared y) ! i) t = objectReplacements (store sh ! i) t"
    "mc_type (store (mShared y) ! i) = kTypeObj"
    using sh i obj by (auto simp: y_def bump_store mark_def objectReplacements_def)
  obtain rs where rs: "objectReplacements (store sh ! i) t = Some rs" "no_last rs"
    using objectReplacements_ok [OF m obj] by blast
  define ps where "ps = placeReplacements t (tk_location t) rs"
  define z where "z = y\<lparr>mShared := modify_macro i (\<lambda>m. m\<lparr>disabled := True\<rparr>) (mShared y),
      mContextStack := \<lparr>cx_macro = i, cx_index = 0, cx_replacements = ps\<rparr> # mContextStack y,
      mTotalTokensInContexts := mTotalTokensInContexts y + length ps\<rparr>"
  have push: "pushMacro lx ea i t y = Some (True, z)"
    using same rs by (simp add: pushMacro_def expandMacro_def z_def ps_def)
  have "i \<notin> set (held x)"
    using x i(2) by (auto simp: held_def ids_def listing_inv_def x_inv_def held_inv_def)
  then have free: "free_macro sh y i"
    using i m sh inv by (auto simp: free_macro_def y_def bump_store mark_def off_def wf_macro_def)
  have "x_inv sh z"
    unfolding z_def
    by (rule push_inv [OF _ free]) (use bump_up [OF inv] rs(2) x in \<open>simp_all add: y_def ps_def listing_inv_def\<close>)
  moreover have "mShared z = marked sh (ids z)"
  proof (rule shared_eqI)
    show "diags (mShared z) = diags (marked sh (ids z))"
      using sh by (simp add: z_def y_def bump_def marked_def)
    fix j assume "j < length (store (marked sh (ids z)))"
    then show "store (mShared z) ! j = store (marked sh (ids z)) ! j"
      using sh i by (auto simp: z_def y_def store_modify bump_store mark_def ids_def off_def)
  qed (use sh in \<open>simp_all add: z_def y_def\<close>)
  moreover have "\<forall>t \<in> set ps. \<not> is_defined t" if pd
    using object_replacements_undefined [OF _ rs(1)] placed_undefined x i(1) that
    by (simp add: ps_def listing_inv_def)
  then have "\<forall>c \<in> set (mContextStack z). \<forall>t \<in> set (cx_replacements c). \<not> is_defined t" if pd
    using x that by (auto simp: z_def y_def listing_inv_def)
  moreover have "\<forall>c \<in> set (mContextStack z). newline_free (cx_replacements c)" if "newline_free_macros sh"
    using x i(1) that newline_free_types [OF placed_types] newline_free_types [OF object_replacements_types [OF rs(1)]]
    by (auto simp: z_def y_def ps_def listing_inv_def newline_free_macros_def)
  moreover have "\<not> mDeferReenablingMacros z" "mReserveToken z = None" "gives (mLexer z) ts"
    "\<forall>m \<in> set (store sh). object_macro pd m"
    using x by (simp_all add: listing_inv_def z_def y_def)
  ultimately have "listing_inv pd sh ts z"
    unfolding listing_inv_def by blast
  moreover have "to_come sh z us = expandObjects sh (insert i (off sh \<union> ids x)) (replacementOf sh i t) @ to_come sh x us"
    by (simp add: to_come_def z_def y_def ids_def replacementOf_def rs ps_def)
  ultimately show ?thesis using push by (auto simp: y_def)
qed

lemma lexStep_objects:
  assumes x: "expanding_objects (mParseDefined es) sh ts us x" and ne: "to_come sh x us \<noteq> []"
  shows "\<exists>ts' us'.
    (\<exists>t x'. lexStep lx es ea x = Some (Inl (t, x')) \<and> expanding_objects (mParseDefined es) sh ts' us' x' \<and>
       to_come sh x us = t # to_come sh x' us' \<and>
       (newline_free_macros sh \<and> tk_type t = NEWLINE \<longrightarrow> mContextStack x' = [])) \<or>
    (\<exists>x'. lexStep lx es ea x = Some (Inr x') \<and> expanding_objects (mParseDefined es) sh ts' us' x' \<and>
       to_come sh x us = to_come sh x' us')"
proof -
  let ?pd = "mParseDefined es"
  from getToken_objects [OF x ne] obtain t y where t: "getToken lx x = Some (t, y)"
    and line: "newline_free_macros sh \<and> tk_type t = NEWLINE \<longrightarrow> mContextStack y = []"
    and alt: "\<not> (?pd \<and> is_defined t) \<and> (\<exists>ts' us'. expanding_objects ?pd sh ts' us' y \<and>
        to_come sh x us = expandObjects sh (off sh \<union> ids y) [t] @ to_come sh y us') \<or>
     ?pd \<and> is_defined t \<and> (\<exists>ts'. ts = t # ts' \<and> listing_inv ?pd sh ts' y \<and> mContextStack y = [] \<and>
        to_come sh x us = expandObjects sh (off sh) us)"
    by blast
  from alt show ?thesis
  proof (elim disjE conjE exE)
    fix ts' assume d: "?pd" "is_defined t" "ts = t # ts'" "listing_inv ?pd sh ts' y" "mContextStack y = []"
      "to_come sh x us = expandObjects sh (off sh) us"
    then have "resolveDefined sh (t # ts') = Some us" using x by (simp add: expanding_objects_def resolve_def)
    then obtain v us' ts'' z where z: "lexDefined lx es t y = Some (v, z)" "us = v # us'" "tk_type v = CONST_INT"
      "expanding_objects True sh ts'' us' z" "mContextStack z = []"
      using lexDefined_objects [of sh ts' y t us es] d by auto
    have "lexStep lx es ea x = Some (Inl (v, z))"
      using t z(1) d(1,2) by (simp add: lexStep_def is_defined_def)
    moreover have "to_come sh x us = v # to_come sh z us'"
      using z d(6) by (simp add: to_come_def macroOf_def)
    ultimately show ?thesis using z(4,5) d(1) by auto
  next
    fix ts' us' assume y: "expanding_objects ?pd sh ts' us' y" and nd: "\<not> (?pd \<and> is_defined t)"
      and come: "to_come sh x us = expandObjects sh (off sh \<union> ids y) [t] @ to_come sh y us'"
    have inv: "listing_inv ?pd sh ts' y" using y by (simp add: expanding_objects_def)
    have set: "macroSet (mShared y) = macroSet sh" using inv by (simp add: listing_inv_def)
    show ?thesis
    proof (cases "macroOf sh t")
      case None
      have "lexStep lx es ea x = Some (Inl (t, y))"
        using t None nd set by (auto simp: lexStep_def macroOf_def is_defined_def split: if_splits)
      then show ?thesis using None come y line by auto
    next
      case (Some i)
      then have ident: "tk_type t = IDENTIFIER" "\<not> expansionDisabled t" "macroSet sh (tk_text t) = Some i"
        by (auto simp: macroOf_def split: if_splits)
      have i: "i < length (store sh)"
        using inv ident(3) set by (auto simp: listing_inv_def x_inv_def wf_shared_def)
      show ?thesis
      proof (cases "i \<in> off sh \<union> ids y")
        case True
        then have "lexStep lx es ea x = Some (Inl (setExpansionDisabled True t, y))"
          using t ident nd set disabled_objects [OF inv i] by (auto simp: lexStep_def is_defined_def)
        then show ?thesis using come y Some True ident(1) by auto
      next
        case False
        have "mc_type (store (mShared (bump i 1 y)) ! i) = kTypeObj"
          using inv i by (auto simp: bump_store listing_inv_def mark_def object_macro_def)
        moreover obtain z where "pushMacro lx ea i t (bump i 1 y) = Some (True, z)" "listing_inv ?pd sh ts' z"
          "to_come sh z us' = expandObjects sh (insert i (off sh \<union> ids y)) (replacementOf sh i t) @ to_come sh y us'"
          using push_objects [OF inv i False ident(3)] by blast
        moreover have "lexStep lx es ea x = Some (Inr z)" if "pushMacro lx ea i t (bump i 1 y) = Some (True, z)"
            "mc_type (store (mShared (bump i 1 y)) ! i) = kTypeObj" for z
          using that t ident nd set disabled_objects [OF inv i] False by (auto simp: lexStep_def Let_def is_defined_def)
        ultimately have "\<exists>z. lexStep lx es ea x = Some (Inr z) \<and> expanding_objects ?pd sh ts' us' z \<and>
            to_come sh x us = to_come sh z us'"
          using y come Some i False unfolding expanding_objects_def by auto
        then show ?thesis by blast
      qed
    qed
  qed
qed

section \<open>The whole text\<close>

lemma x_lex_objects:
  assumes "expanding_objects (mParseDefined es) sh ts us x" and "to_come sh x us = t # vs"
  shows "\<exists>x' ts' us'. x_lex lx es depth x = Some (t, x') \<and> expanding_objects (mParseDefined es) sh ts' us' x' \<and>
    to_come sh x' us' = vs \<and> (newline_free_macros sh \<and> tk_type t = NEWLINE \<longrightarrow> mContextStack x' = [])"
  unfolding x_lex_def using wfp_before assms
proof (induction x arbitrary: ts us rule: wfp_induct_rule)
  case (less x)
  have inv: "x_inv sh x" "ok (mLexer x)" "\<not> mDeferReenablingMacros x"
    using less.prems(1) gives_ok by (auto simp: expanding_objects_def listing_inv_def)
  have "to_come sh x us \<noteq> []" using less.prems(2) by simp
  from lexStep_objects [OF less.prems(1) this, of "expandArg es depth"] show ?case
  proof (elim exE disjE conjE)
    fix ts' us' v x'
    assume v: "lexStep lx es (expandArg es depth) x = Some (Inl (v, x'))" and
      x': "expanding_objects (mParseDefined es) sh ts' us' x'" "to_come sh x us = v # to_come sh x' us'"
      "newline_free_macros sh \<and> tk_type v = NEWLINE \<longrightarrow> mContextStack x' = []"
    then have "t = v" "to_come sh x' us' = vs" using less.prems(2) by simp_all
    moreover have "lexLoop lx es (expandArg es depth) x = Some (v, x')"
      using v by (subst lexLoop.simps) simp
    ultimately show ?thesis using x'(1,3) by blast
  next
    fix ts' us' y
    assume y: "lexStep lx es (expandArg es depth) x = Some (Inr y)" "expanding_objects (mParseDefined es) sh ts' us' y"
      "to_come sh x us = to_come sh y us'"
    then have "before y x"
      using expanding.lexStep_ok [OF expanding_nested inv, of es es depth] by auto
    moreover have "lexLoop lx es (expandArg es depth) x = lexLoop lx es (expandArg es depth) y"
      using y(1) by (subst lexLoop.simps) simp
    ultimately show ?thesis
      using less.IH [of y] y(2,3) less.prems(2) by simp
  qed
qed

lemma readTokens_objects:
  assumes "expanding_objects (mParseDefined es) sh ts us x" and "to_come sh x us = vs @ e # ws"
    and "no_last vs" and "tk_type e = LAST"
  shows "\<exists>x'. readTokens lx es depth x = Some (vs, x') \<and> mShared x' = sh"
  using assms
proof (induction vs arbitrary: ts us x)
  case Nil
  then obtain x' ts' us' where x': "x_lex lx es depth x = Some (e, x')" "expanding_objects (mParseDefined es) sh ts' us' x'"
    using x_lex_objects [OF Nil(1), of e ws depth] by auto
  then have "mContextStack x' = []"
    using x_lex_ok [of sh x es depth] Nil(1,4) gives_ok by (auto simp: expanding_objects_def listing_inv_def)
  then show ?case
    using x' Nil(4) by (subst readTokens.simps) (simp add: expanding_objects_def listing_inv_def ids_def)
next
  case (Cons v vs)
  then obtain x' ts' us' where x': "x_lex lx es depth x = Some (v, x')" "expanding_objects (mParseDefined es) sh ts' us' x'"
    "to_come sh x' us' = vs @ e # ws"
    using x_lex_objects [OF Cons.prems(1), of v "vs @ e # ws" depth] by auto
  obtain x'' where "readTokens lx es depth x' = Some (vs, x'')" "mShared x'' = sh"
    using Cons.IH [OF x'(2,3)] Cons.prems(3,4) by (auto simp: no_last_def)
  then show ?case using x'(1) Cons.prems(3) by (subst readTokens.simps) (simp add: no_last_def)
qed

lemma starting_objects:
  assumes "wf_shared sh" and "gives l ts" and "resolve pd sh ts = Some us" and "\<forall>m \<in> set (store sh). object_macro pd m"
  shows "expanding_objects pd sh ts us (MacroExpander l sh) \<and> to_come sh (MacroExpander l sh) us = expandObjects sh (off sh) us"
  using assms MacroExpander_inv [OF assms(1), of l]
  by (auto simp: expanding_objects_def listing_inv_def ids_def to_come_def MacroExpander_def)

end

text \<open>A list of tokens; behind it are ends of the text.\<close>

definition gives_list :: "token list \<Rightarrow> token list \<Rightarrow> bool" where
  "gives_list ts us \<longleftrightarrow> no_last ts \<and> (\<exists>n. us = ts @ replicate n reset_token)"

interpretation token_list: listing TokenLexer no_last length False gives_list
proof unfold_locales
  fix l t ts
  show "gives_list l ts \<Longrightarrow> no_last l" by (simp add: gives_list_def)
  assume "gives_list l (t # ts)"
  then show "\<exists>l'. (\<forall>sh. TokenLexer l sh = Some (t, l', sh)) \<and> gives_list l' ts"
    by (cases l) (auto simp: gives_list_def no_last_def Cons_replicate_eq)
qed

lemma no_last_replacementOf:
  assumes "wf_macro (store sh ! i)" and "mc_type (store sh ! i) = kTypeObj"
  shows "no_last (replacementOf sh i t)"
  using objectReplacements_ok [OF assms, of t] by (auto simp: replacementOf_def)

lemma no_last_expandObjects:
  assumes "\<forall>m \<in> set (store sh). wf_macro m \<and> mc_type m = kTypeObj"
  shows "no_last ts \<Longrightarrow> no_last (expandObjects sh hidden ts)"
  using assms
proof (induction sh hidden ts rule: expandObjects.induct)
  case (2 sh hidden t ts)
  have "no_last (expandObjects sh hidden [t])"
  proof (cases "macroOf sh t")
    case (Some i)
    show ?thesis
    proof (cases "i \<in> hidden \<or> length (store sh) \<le> i")
      case False
      then have "no_last (expandObjects sh (insert i hidden) (replacementOf sh i t))"
        using "2.IH"(1) [OF Some False] "2.prems"(2) by (simp add: no_last_replacementOf)
      then show ?thesis using Some False by simp
    qed (use Some "2.prems"(1) in \<open>auto simp: setExpansionDisabled_def\<close>)
  qed (use "2.prems"(1) in simp)
  moreover have "no_last (expandObjects sh hidden ts)" using "2.IH"(2) "2.prems" by simp
  ultimately show ?case unfolding expandObjects_Cons [of sh hidden t ts] no_last_def set_append by blast
qed simp

section \<open>Properties\<close>

text \<open>
  C0. On every lexer that comes to an end, with any macros, recursive ones and function-like ones too, the
  macro expander comes to an end: \<open>lex\<close> always returns, and after finitely many calls it returns the end
  of the text, with every context popped. The macros keep their definitions, what others had disabled is
  still disabled, and no expansion in progress is lost.
\<close>

theorem macro_expander_ends:
  assumes "lexer lx ok left grows" and "wf_shared sh" and "ok l"
  shows "\<exists>ts x. readTokens lx es depth (MacroExpander l sh) = Some (ts, x) \<and> mContextStack x = [] \<and>
    no_last ts \<and> evolves sh (mShared x)"
  using lexer.readTokens_ok [OF assms(1) MacroExpander_inv [OF assms(2)], of l es depth] assms(3) x_inv_evolves
  by force

text \<open>Two macros, a function-like one that calls itself in its body and an object-like one that names it.\<close>

definition ident_token :: "string \<Rightarrow> token" where
  "ident_token s = reset_token\<lparr>tk_type := IDENTIFIER, tk_text := s\<rparr>"

definition char_token :: "int \<Rightarrow> token" where
  "char_token c = reset_token\<lparr>tk_type := c\<rparr>"

definition recursive_macros :: shared where
  "recursive_macros =
     \<lparr>store = [Macro\<lparr>mc_type := kTypeFunc, mc_name := ''f'', parameters := [''x''],
                replacements := [ident_token ''x'', ident_token ''f'', char_token LEFT_PAREN, ident_token ''g'', char_token RIGHT_PAREN]\<rparr>,
               Macro\<lparr>mc_name := ''g'', replacements := [ident_token ''f'']\<rparr>],
      macroSet = [''f'' \<mapsto> 0, ''g'' \<mapsto> 1], diags = []\<rparr>"

lemma recursive_macros_ok: "wf_shared recursive_macros"
  by (auto simp: recursive_macros_def wf_shared_def wf_macro_def Macro_def ident_token_def char_token_def
      reset_token_def)

theorem macro_expander_ends_witness:
  "\<exists>ts x. readTokens TokenLexer \<lparr>es_webgl = True, mParseDefined = False\<rparr> 1000
      (MacroExpander [ident_token ''g'', char_token LEFT_PAREN, ident_token ''g'', char_token RIGHT_PAREN] recursive_macros) =
      Some (ts, x) \<and> mContextStack x = [] \<and> no_last ts \<and> evolves recursive_macros (mShared x)"
  by (rule macro_expander_ends [OF tokens.lexer_axioms recursive_macros_ok])
    (simp add: ident_token_def char_token_def)

text \<open>
  C25. With object-like macros only, the expander hands out exactly the text in which every macro name is
  replaced, again and again, by its replacement list, with the name of a macro hidden inside its own
  replacement and marked there so that it is never expanded; and it leaves the macros as it found them.
\<close>

theorem object_macros_expand:
  assumes "wf_shared sh" and "no_last ts" and "\<forall>m \<in> set (store sh). mc_type m = kTypeObj"
    and "\<not> mParseDefined es"
  shows "\<exists>x. readTokens TokenLexer es depth (MacroExpander ts sh) = Some (expandObjects sh (off sh) ts, x) \<and>
    mShared x = sh"
proof -
  let ?x = "MacroExpander ts sh"
  have "token_list.expanding_objects False sh (ts @ [reset_token]) (ts @ [reset_token]) ?x \<and>
      to_come sh ?x (ts @ [reset_token]) = expandObjects sh (off sh) (ts @ [reset_token])"
    using assms by (intro token_list.starting_objects) (auto simp: gives_list_def resolve_def object_macro_def intro: exI [of _ 1])
  moreover have "expandObjects sh (off sh) (ts @ [reset_token]) = expandObjects sh (off sh) ts @ reset_token # []"
    by (simp add: expandObjects_append macroOf_def reset_token_def)
  moreover have "no_last (expandObjects sh (off sh) ts)"
    using assms by (intro no_last_expandObjects) (simp_all add: wf_shared_def)
  ultimately show ?thesis
    using token_list.readTokens_objects [of es sh "ts @ [reset_token]" "ts @ [reset_token]" ?x] assms(4)
    by (simp add: reset_token_def)
qed

definition object_macros :: shared where
  "object_macros =
     \<lparr>store = [Macro\<lparr>mc_name := ''a'', replacements := [ident_token ''b'', ident_token ''a'']\<rparr>,
               Macro\<lparr>mc_name := ''b'', replacements := [ident_token ''a'', ident_token ''c'']\<rparr>],
      macroSet = [''a'' \<mapsto> 0, ''b'' \<mapsto> 1], diags = []\<rparr>"

theorem object_macros_expand_witness:
  "\<exists>out x. readTokens TokenLexer \<lparr>es_webgl = False, mParseDefined = False\<rparr> 0
      (MacroExpander [ident_token ''a''] object_macros) = Some (out, x) \<and>
      map tk_text out = [''a'', ''c'', ''a''] \<and> map expansionDisabled out = [True, False, True] \<and>
      mShared x = object_macros"
proof -
  have "wf_shared object_macros" "\<forall>m \<in> set (store object_macros). mc_type m = kTypeObj"
    by (auto simp: object_macros_def wf_shared_def wf_macro_def Macro_def ident_token_def reset_token_def)
  moreover have "off object_macros = {}"
    by (auto simp: off_def object_macros_def Macro_def nth_Cons' split: if_splits)
  moreover have "map tk_text (expandObjects object_macros {} [ident_token ''a'']) = [''a'', ''c'', ''a'']"
    "map expansionDisabled (expandObjects object_macros {} [ident_token ''a'']) = [True, False, True]"
    by (simp_all add: object_macros_def macroOf_def replacementOf_def ident_token_def objectReplacements_def Macro_def
        expansionDisabled_def reset_token_def setHasLeadingSpace_def setAtStartOfLine_def set_flag_def
        setExpansionDisabled_def hasLeadingSpace_def atStartOfLine_def)
  ultimately show ?thesis
    using object_macros_expand [of object_macros "[ident_token ''a'']" "\<lparr>es_webgl = False, mParseDefined = False\<rparr>" 0]
    by (auto simp: ident_token_def)
qed

end
