(* ===== verification/Pp_Expression.thy ===== *)
theory Pp_Expression
  imports Pp_Expander_Ends "HOL-Library.Signed_Division"
begin

text \<open>
  \<open>ExpressionParser\<close> (src/src/compiler/preprocessor/ExpressionParser.cpp): the parser of the expressions of
  \<open>#if\<close>, \<open>#elif\<close> and \<open>#line\<close>. The file is the output of bison; the model has its tables and its automaton:
  a stack of states and values, a lookahead token, the decision by \<open>yypact\<close>, \<open>yycheck\<close> and \<open>yytable\<close>, the
  reductions with their actions, and the limit of the stack. No state has an action on the error token,
  so that an error ends the parse.

  The tokens come from a lexer that is a parameter, as is the report of an error: the states of the model
  are over the state of that lexer.
\<close>

section \<open>The tables\<close>

definition yytranslate :: "int list" where
  "yytranslate =
    [0, 2, 2, 2, 2, 2, 2, 2, 2, 2, 2, 2, 2, 2, 2, 2, 2, 2, 2, 2, 2, 2, 2, 2, 2, 2, 2, 2, 2, 2, 2, 2, 2,
     24, 2, 2, 2, 22, 9, 2, 26, 27, 20, 18, 2, 19, 2, 21, 2, 2, 2, 2, 2, 2, 2, 2, 2, 2, 2, 2, 12, 2,
     13, 2, 2, 2, 2, 2, 2, 2, 2, 2, 2, 2, 2, 2, 2, 2, 2, 2, 2, 2, 2, 2, 2, 2, 2, 2, 2, 2, 2, 2, 2, 2,
     8, 2, 2, 2, 2, 2, 2, 2, 2, 2, 2, 2, 2, 2, 2, 2, 2, 2, 2, 2, 2, 2, 2, 2, 2, 2, 2, 2, 2, 2, 7, 2,
     25, 2, 2, 2, 2, 2, 2, 2, 2, 2, 2, 2, 2, 2, 2, 2, 2, 2, 2, 2, 2, 2, 2, 2, 2, 2, 2, 2, 2, 2, 2, 2,
     2, 2, 2, 2, 2, 2, 2, 2, 2, 2, 2, 2, 2, 2, 2, 2, 2, 2, 2, 2, 2, 2, 2, 2, 2, 2, 2, 2, 2, 2, 2, 2, 2,
     2, 2, 2, 2, 2, 2, 2, 2, 2, 2, 2, 2, 2, 2, 2, 2, 2, 2, 2, 2, 2, 2, 2, 2, 2, 2, 2, 2, 2, 2, 2, 2, 2,
     2, 2, 2, 2, 2, 2, 2, 2, 2, 2, 2, 2, 2, 2, 2, 2, 2, 2, 2, 2, 2, 2, 2, 2, 2, 2, 2, 2, 2, 2, 2, 2, 1,
     2, 3, 4, 5, 6, 10, 11, 14, 15, 16, 17, 23]"

definition yypact :: "int list" where
  "yypact =
    [31, -12, -12, 31, 31, 31, 31, 31, 51, 76, -12, -12, -12, -12, 53, -12, -12, -12, 31, 31, 31, 31,
     31, 31, 31, 31, 31, 31, 31, 31, 31, 31, 31, 31, -12, 31, 31, 124, 138, 26, 149, 149, -11, -11,
     -11, -11, 154, 154, -8, -8, -12, -12, -12, 93, 109]"

definition yydefact :: "int list" where
  "yydefact =
    [0, 3, 4, 0, 0, 0, 0, 0, 0, 2, 28, 27, 25, 26, 0, 1, 5, 7, 0, 0, 0, 0, 0, 0, 0, 0, 0, 0, 0, 0, 0,
     0, 0, 0, 29, 0, 0, 9, 10, 11, 13, 12, 17, 16, 15, 14, 19, 18, 21, 20, 24, 23, 22, 6, 8]"

definition yypgoto :: "int list" where
  "yypgoto =
    [-12, -12, -3, -12, -12]"

definition yydefgoto :: "int list" where
  "yydefgoto =
    [-1, 8, 9, 35, 36]"

definition yytable :: "int list" where
  "yytable =
    [10, 11, 12, 13, 14, 27, 28, 29, 30, 31, 32, 33, 31, 32, 33, 37, 38, 39, 40, 41, 42, 43, 44, 45,
     46, 47, 48, 49, 50, 51, 52, 0, 53, 54, 1, 2, 21, 22, 23, 24, 25, 26, 27, 28, 29, 30, 31, 32, 33,
     3, 4, 15, 0, 0, 0, 5, 6, 7, 16, 17, 18, 19, 20, 21, 22, 23, 24, 25, 26, 27, 28, 29, 30, 31, 32,
     33, 0, 0, 0, 0, 34, 16, 17, 18, 19, 20, 21, 22, 23, 24, 25, 26, 27, 28, 29, 30, 31, 32, 33, 17,
     18, 19, 20, 21, 22, 23, 24, 25, 26, 27, 28, 29, 30, 31, 32, 33, 18, 19, 20, 21, 22, 23, 24, 25,
     26, 27, 28, 29, 30, 31, 32, 33, 19, 20, 21, 22, 23, 24, 25, 26, 27, 28, 29, 30, 31, 32, 33, 20,
     21, 22, 23, 24, 25, 26, 27, 28, 29, 30, 31, 32, 33, 23, 24, 25, 26, 27, 28, 29, 30, 31, 32, 33,
     29, 30, 31, 32, 33]"

definition yycheck :: "int list" where
  "yycheck =
    [3, 4, 5, 6, 7, 16, 17, 18, 19, 20, 21, 22, 20, 21, 22, 18, 19, 20, 21, 22, 23, 24, 25, 26, 27, 28,
     29, 30, 31, 32, 33, -1, 35, 36, 3, 4, 10, 11, 12, 13, 14, 15, 16, 17, 18, 19, 20, 21, 22, 18, 19,
     0, -1, -1, -1, 24, 25, 26, 5, 6, 7, 8, 9, 10, 11, 12, 13, 14, 15, 16, 17, 18, 19, 20, 21, 22, -1,
     -1, -1, -1, 27, 5, 6, 7, 8, 9, 10, 11, 12, 13, 14, 15, 16, 17, 18, 19, 20, 21, 22, 6, 7, 8, 9, 10,
     11, 12, 13, 14, 15, 16, 17, 18, 19, 20, 21, 22, 7, 8, 9, 10, 11, 12, 13, 14, 15, 16, 17, 18, 19,
     20, 21, 22, 8, 9, 10, 11, 12, 13, 14, 15, 16, 17, 18, 19, 20, 21, 22, 9, 10, 11, 12, 13, 14, 15,
     16, 17, 18, 19, 20, 21, 22, 12, 13, 14, 15, 16, 17, 18, 19, 20, 21, 22, 18, 19, 20, 21, 22]"

definition yyr1 :: "int list" where
  "yyr1 =
    [0, 28, 29, 30, 30, 31, 30, 32, 30, 30, 30, 30, 30, 30, 30, 30, 30, 30, 30, 30, 30, 30, 30, 30, 30,
     30, 30, 30, 30, 30]"

definition yyr2 :: "int list" where
  "yyr2 =
    [0, 2, 1, 1, 1, 0, 4, 0, 4, 3, 3, 3, 3, 3, 3, 3, 3, 3, 3, 3, 3, 3, 3, 3, 3, 2, 2, 2, 2, 3]"

abbreviation (input) "YYFINAL \<equiv> (15 :: nat)"
abbreviation (input) "YYLAST \<equiv> (176 :: int)"
abbreviation (input) "YYNTOKENS \<equiv> (28 :: int)"
abbreviation (input) "YYPACT_NINF \<equiv> (-12 :: int)"

definition YYTRANSLATE :: "int \<Rightarrow> nat" where
  "YYTRANSLATE x = (if 0 \<le> x \<and> x \<le> 268 then nat (yytranslate ! nat x) else 2)"

datatype yy_decision = Shift nat | Reduce nat | SyntaxError

text \<open>The action of a state without a look at the next token, and with it.\<close>

definition yydefault :: "nat \<Rightarrow> yy_decision" where
  "yydefault s = (let n = nat (yydefact ! s) in if n = 0 then SyntaxError else Reduce n)"

definition yypact_value_is_default :: "nat \<Rightarrow> bool" where
  "yypact_value_is_default s \<longleftrightarrow> yypact ! s = YYPACT_NINF"

definition yydecide :: "nat \<Rightarrow> nat \<Rightarrow> yy_decision" where
  "yydecide s tok =
     (let n = yypact ! s + int tok
      in if n < 0 \<or> YYLAST < n \<or> yycheck ! nat n \<noteq> int tok then yydefault s
         else let m = yytable ! nat n in if m \<le> 0 then Reduce (nat (- m)) else Shift (nat m))"

text \<open>The state behind a reduction by rule \<open>r\<close>, on top of state \<open>s\<close>.\<close>

definition yygoto :: "nat \<Rightarrow> nat \<Rightarrow> nat" where
  "yygoto r s =
     (let n = nat (yyr1 ! r - YYNTOKENS); m = yypgoto ! n + int s
      in if 0 \<le> m \<and> m \<le> YYLAST \<and> yycheck ! nat m = int s then nat (yytable ! nat m) else nat (yydefgoto ! n))"

section \<open>State\<close>

type_synonym i32 = "32 word"

record error_settings =
  unexpectedIdentifier :: diag_id
  integerLiteralsMustFit32BitSignedRange :: bool

text \<open>The context: the lexer, the token, the result, the flags and the count of ignored errors.\<close>

record 's pp_context =
  ct_source :: 's
  ct_token :: token
  ct_result :: i32
  ct_parsePresetToken :: bool
  ct_errorSettings :: error_settings
  ct_valid :: bool
  ct_ignoreErrors :: int

text \<open>The top of the stack is the head of the list. The lookahead is the result of \<open>yylex\<close>, if one is read.\<close>

record 's yyparser =
  yystack :: "(nat \<times> i32) list"
  yychar :: "int option"
  yylval :: i32
  yycontext :: "'s pp_context"

text \<open>What a parser uses: the lexer and the report of an error.\<close>

record 's token_source =
  ts_lex :: "'s \<Rightarrow> (token \<times> 's) option"
  ts_report :: "diag_id \<Rightarrow> source_location \<Rightarrow> string \<Rightarrow> 's \<Rightarrow> 's"

definition isIgnoringErrors :: "'s pp_context \<Rightarrow> bool" where
  "isIgnoringErrors ct \<longleftrightarrow> 0 < ct_ignoreErrors ct"

definition startIgnoreErrors :: "'s pp_context \<Rightarrow> 's pp_context" where
  "startIgnoreErrors ct = ct\<lparr>ct_ignoreErrors := ct_ignoreErrors ct + 1\<rparr>"

definition endIgnoreErrors :: "'s pp_context \<Rightarrow> 's pp_context" where
  "endIgnoreErrors ct = ct\<lparr>ct_ignoreErrors := ct_ignoreErrors ct - 1\<rparr>"

definition ct_report :: "'s token_source \<Rightarrow> diag_id \<Rightarrow> string \<Rightarrow> 's pp_context \<Rightarrow> 's pp_context" where
  "ct_report src d text ct = ct\<lparr>ct_source := ts_report src d (tk_location (ct_token ct)) text (ct_source ct)\<rparr>"

definition yyerror :: "'s token_source \<Rightarrow> string \<Rightarrow> 's pp_context \<Rightarrow> 's pp_context" where
  "yyerror src reason = ct_report src PP_INVALID_EXPRESSION reason"

section \<open>The lexer of the parser\<close>

text \<open>The type of the lookahead, its value (\<^term>\<open>None\<close> leaves the old one) and the context.\<close>

definition yylex :: "'s token_source \<Rightarrow> 's pp_context \<Rightarrow> (int \<times> i32 option \<times> 's pp_context) option" where
  "yylex src ct =
     Option.bind (if ct_parsePresetToken ct then Some (ct_token ct, ct_source ct) else ts_lex src (ct_source ct))
       (\<lambda>(t, s).
         let ct = ct\<lparr>ct_source := s, ct_token := t, ct_parsePresetToken := False\<rparr>;
             type = tk_type t
         in if type = CONST_INT
            then
              let (fits, val) = uValue t;
                  ct = (if \<not> fits \<or>
                           \<not> fst (iValue t) \<and> integerLiteralsMustFit32BitSignedRange (ct_errorSettings ct)
                        then (ct_report src PP_INTEGER_OVERFLOW (tk_text t) ct)\<lparr>ct_valid := False\<rparr>
                        else ct)
              in Some (258, Some (of_nat val), ct)
            else if type = IDENTIFIER then Some (259, Some (-1), ct)
            else if type = OP_OR then Some (260, None, ct)
            else if type = OP_AND then Some (261, None, ct)
            else if type = OP_NE then Some (263, None, ct)
            else if type = OP_EQ then Some (262, None, ct)
            else if type = OP_GE then Some (265, None, ct)
            else if type = OP_LE then Some (264, None, ct)
            else if type = OP_RIGHT then Some (267, None, ct)
            else if type = OP_LEFT then Some (266, None, ct)
            else if type \<in> {124, 94, 38, 62, 60, 45, 43, 37, 47, 42, 33, 126, 40, 41} then Some (type, None, ct)
            else Some (0, None, ct))"

section \<open>The actions\<close>

definition WrappingSum :: "i32 \<Rightarrow> i32 \<Rightarrow> i32" where
  "WrappingSum a b = a + b"

definition WrappingDiff :: "i32 \<Rightarrow> i32 \<Rightarrow> i32" where
  "WrappingDiff a b = a - b"

definition WrappingMul :: "i32 \<Rightarrow> i32 \<Rightarrow> i32" where
  "WrappingMul a b = word_of_int (take_bit 32 (sint a * sint b))"

abbreviation i32_min :: i32 where
  "i32_min \<equiv> 2147483648"

definition truth :: "bool \<Rightarrow> i32" where
  "truth b = (if b then 1 else 0)"

text \<open>The text of two operands, and the error of an operator unless errors are ignored.\<close>

definition operands_text :: "i32 \<Rightarrow> string \<Rightarrow> i32 \<Rightarrow> string" where
  "operands_text a op b = integer_text (sint a) @ op @ integer_text (sint b)"

definition operator_error :: "'s token_source \<Rightarrow> diag_id \<Rightarrow> string \<Rightarrow> 's pp_context \<Rightarrow> 's pp_context" where
  "operator_error src d text ct =
     (if isIgnoringErrors ct then ct else (ct_report src d text ct)\<lparr>ct_valid := False\<rparr>)"

definition shift_right :: "'s token_source \<Rightarrow> i32 \<Rightarrow> i32 \<Rightarrow> 's pp_context \<Rightarrow> i32 \<times> 's pp_context" where
  "shift_right src a b ct =
     (if b <s 0 \<or> 31 <s b then (0, operator_error src PP_UNDEFINED_SHIFT (operands_text a '' >> '' b) ct)
      else (drop_bit (unat b) a, ct))"

definition shift_left :: "'s token_source \<Rightarrow> i32 \<Rightarrow> i32 \<Rightarrow> 's pp_context \<Rightarrow> i32 \<times> 's pp_context" where
  "shift_left src a b ct =
     (if b <s 0 \<or> 31 <s b then (0, operator_error src PP_UNDEFINED_SHIFT (operands_text a '' << '' b) ct)
      else (push_bit (unat b) a, ct))"

definition remainder :: "'s token_source \<Rightarrow> i32 \<Rightarrow> i32 \<Rightarrow> 's pp_context \<Rightarrow> i32 \<times> 's pp_context" where
  "remainder src a b ct =
     (if b = 0 then (0, operator_error src PP_DIVISION_BY_ZERO (operands_text a '' % '' b) ct)
      else if a = i32_min \<and> b = -1 then (0, ct)
      else (word_of_int (sint a smod sint b), ct))"

definition quotient_of :: "'s token_source \<Rightarrow> i32 \<Rightarrow> i32 \<Rightarrow> 's pp_context \<Rightarrow> i32 \<times> 's pp_context" where
  "quotient_of src a b ct =
     (if b = 0 then (0, operator_error src PP_DIVISION_BY_ZERO (operands_text a '' / '' b) ct)
      else if a = i32_min \<and> b = -1 then (2147483647, ct)
      else (word_of_int (sint a sdiv sint b), ct))"

text \<open>
  The action of a rule on the values of its right side, the last one first: the value of the left side and
  the context. The default is the first value of the right side.
\<close>

definition yyaction :: "'s token_source \<Rightarrow> nat \<Rightarrow> i32 list \<Rightarrow> 's pp_context \<Rightarrow> i32 \<times> 's pp_context" where
  "yyaction src r vs ct =
     (let v = (if vs = [] then 0 else last vs); a = vs ! 2; b = hd vs
      in if r = 4 then
           (v, if isIgnoringErrors ct then ct
               else (ct_report src (unexpectedIdentifier (ct_errorSettings ct)) (tk_text (ct_token ct)) ct)
                      \<lparr>ct_valid := False\<rparr>)
         else if r = 6 then
           (if vs ! 3 \<noteq> 0 then (1, endIgnoreErrors ct) else (truth (vs ! 3 \<noteq> 0 \<or> b \<noteq> 0), ct))
         else if r = 8 then
           (if vs ! 3 = 0 then (0, endIgnoreErrors ct) else (truth (vs ! 3 \<noteq> 0 \<and> b \<noteq> 0), ct))
         else if r = 9 then (a OR b, ct)
         else if r = 10 then (a XOR b, ct)
         else if r = 11 then (a AND b, ct)
         else if r = 12 then (truth (a \<noteq> b), ct)
         else if r = 13 then (truth (a = b), ct)
         else if r = 14 then (truth (b <=s a), ct)
         else if r = 15 then (truth (a <=s b), ct)
         else if r = 16 then (truth (b <s a), ct)
         else if r = 17 then (truth (a <s b), ct)
         else if r = 18 then shift_right src a b ct
         else if r = 19 then shift_left src a b ct
         else if r = 20 then (WrappingDiff a b, ct)
         else if r = 21 then (WrappingSum a b, ct)
         else if r = 22 then remainder src a b ct
         else if r = 23 then quotient_of src a b ct
         else if r = 24 then (WrappingMul a b, ct)
         else if r = 25 then (truth (b = 0), ct)
         else if r = 26 then (NOT b, ct)
         else if r = 27 then (if b = i32_min then i32_min else - b, ct)
         else if r = 28 then (b, ct)
         else if r = 29 then (vs ! 1, ct)
         else (v, ct))"

text \<open>
  The actions in the middle of a rule, which see the value two below the top of the stack: the operand
  before the operator.
\<close>

definition yymidaction :: "nat \<Rightarrow> (nat \<times> i32) list \<Rightarrow> 's pp_context \<Rightarrow> 's pp_context" where
  "yymidaction r stack ct =
     (let v = snd (stack ! 1)
      in if r = 5 \<and> v \<noteq> 0 \<or> r = 7 \<and> v = 0 then startIgnoreErrors ct else ct)"

section \<open>The automaton\<close>

text \<open>
  A step ends with the result of \<open>yyparse\<close> and the context, or goes on. A read behind the bottom of the
  stack is \<^term>\<open>None\<close>.
\<close>

definition YYMAXDEPTH :: nat where
  "YYMAXDEPTH = 10000"

definition yynewstate :: "'s token_source \<Rightarrow> nat \<Rightarrow> i32 \<Rightarrow> 's yyparser \<Rightarrow> (nat \<times> 's pp_context) + 's yyparser" where
  "yynewstate src s v y =
     (let y = y\<lparr>yystack := (s, v) # yystack y\<rparr>
      in if YYMAXDEPTH \<le> length (yystack y) then Inl (2, yyerror src ''memory exhausted'' (yycontext y))
         else if s = YYFINAL then Inl (0, yycontext y)
         else Inr y)"

definition yyreduce :: "'s token_source \<Rightarrow> nat \<Rightarrow> 's yyparser \<Rightarrow> ((nat \<times> 's pp_context) + 's yyparser) option" where
  "yyreduce src r y =
     (let n = nat (yyr2 ! r); stack = yystack y; ct = yycontext y
      in if length stack \<le> n then None
         else if r = 2 then Some (Inl (0, ct\<lparr>ct_result := snd (hd stack)\<rparr>))
         else
           let (v, ct) = yyaction src r (map snd (take n stack)) (yymidaction r stack ct);
               rest = drop n stack
           in Some (yynewstate src (yygoto r (fst (hd rest))) v (y\<lparr>yystack := rest, yycontext := ct\<rparr>)))"

definition yyact :: "'s token_source \<Rightarrow> yy_decision \<Rightarrow> 's yyparser \<Rightarrow> ((nat \<times> 's pp_context) + 's yyparser) option" where
  "yyact src d y =
     (case d of
        Shift s \<Rightarrow> Some (yynewstate src s (yylval y) (y\<lparr>yychar := None\<rparr>))
      | Reduce r \<Rightarrow> yyreduce src r y
      | SyntaxError \<Rightarrow> Some (Inl (1, yyerror src ''syntax error'' (yycontext y))))"

definition yylookahead :: "'s token_source \<Rightarrow> 's yyparser \<Rightarrow> (int \<times> 's yyparser) option" where
  "yylookahead src y =
     (case yychar y of
        Some c \<Rightarrow> Some (c, y)
      | None \<Rightarrow>
          map_option
            (\<lambda>(c, v, ct). (c, y\<lparr>yychar := Some c, yycontext := ct, yylval := (case v of None \<Rightarrow> yylval y | Some v \<Rightarrow> v)\<rparr>))
            (yylex src (yycontext y)))"

definition yystep :: "'s token_source \<Rightarrow> 's yyparser \<Rightarrow> ((nat \<times> 's pp_context) + 's yyparser) option" where
  "yystep src y =
     (let s = fst (hd (yystack y))
      in if yypact_value_is_default s then yyact src (yydefault s) y
         else Option.bind (yylookahead src y) (\<lambda>(c, y). yyact src (yydecide s (YYTRANSLATE c)) y))"

partial_function (option) yyloop :: "'s token_source \<Rightarrow> 's yyparser \<Rightarrow> (nat \<times> 's pp_context) option" where
  "yyloop src y =
     Option.bind (yystep src y) (\<lambda>r.
       case r of
         Inl result \<Rightarrow> Some result
       | Inr y \<Rightarrow> yyloop src y)"

definition yyparse :: "'s token_source \<Rightarrow> 's pp_context \<Rightarrow> (nat \<times> 's pp_context) option" where
  "yyparse src ct = yyloop src \<lparr>yystack = [(0, 0)], yychar = None, yylval = 0, yycontext = ct\<rparr>"

text \<open>
  \<open>ExpressionParser::parse\<close>: the token and the result before the call, whether the token is already read;
  afterwards the return value, the token, the result, the flag and the lexer.
\<close>

definition parseExpression ::
  "'s token_source \<Rightarrow> token \<Rightarrow> i32 \<Rightarrow> bool \<Rightarrow> error_settings \<Rightarrow> bool \<Rightarrow> 's \<Rightarrow>
   (bool \<times> token \<times> i32 \<times> bool \<times> 's) option" where
  "parseExpression src t result parsePresetToken settings valid s =
     map_option
       (\<lambda>(ret, ct).
         let ct = (if ret = 2 then ct_report src PP_OUT_OF_MEMORY [] ct else ct)
         in (ret = 0, ct_token ct, ct_result ct, ct_valid ct, ct_source ct))
       (yyparse src
         \<lparr>ct_source = s, ct_token = t, ct_result = result, ct_parsePresetToken = parsePresetToken,
          ct_errorSettings = settings, ct_valid = valid, ct_ignoreErrors = 0\<rparr>)"

end
