(* ===== verification/Pp_Expression_Ends.thy ===== *)
theory Pp_Expression_Ends
  imports Pp_Expression
begin

text \<open>
  The expression parser ends. What the automaton does is first read off its tables, state by state; the
  facts on the tables are evaluated once, and everything else rests on them. The stack then has a shape
  that every step keeps: no reduction ever takes more states than the stack has, every state that is
  uncovered has a successor, and the parser returns after finitely many steps on every lexer that ends.
\<close>

section \<open>What the tables say\<close>

text \<open>
  The states that await an operand; \<open>35\<close> and \<open>36\<close> are those behind \<open>||\<close> and \<open>&&\<close>. The token \<open>t\<close> of a
  binary operator leads to the state \<open>t + 11\<close>.
\<close>

definition awaiting :: "nat list" where
  "awaiting = [0, 3, 4, 5, 6, 7, 35, 36] @ [18..<34]"

text \<open>The state with the operand on top.\<close>

abbreviation expr :: "nat \<Rightarrow> nat" where
  "expr \<equiv> yygoto 3"

definition precedence :: "nat \<Rightarrow> nat" where
  "precedence t = (if t < 5 \<or> 22 < t then 0 else [1, 2, 3, 4, 5, 6, 6, 7, 7, 7, 7, 8, 8, 9, 9, 10, 10, 10] ! (t - 5))"

definition level :: "nat \<Rightarrow> nat" where
  "level s =
     (if s = 35 then 1 else if s = 36 then 2 else if s = 0 \<or> s = 7 then 0 else if s < 7 then 10
      else precedence (s - 11))"

text \<open>The rule that an operand on top of a state ends.\<close>

definition rule_of :: "nat \<Rightarrow> nat" where
  "rule_of s =
     (if s = 35 then 6 else if s = 36 then 8 else if s = 0 then 2
      else if s < 7 then [28, 27, 25, 26] ! (s - 3)
      else [9, 10, 11, 13, 12, 17, 16, 15, 14, 19, 18, 21, 20, 24, 23, 22] ! (s - 18))"

definition prefix_state :: "nat \<Rightarrow> nat option" where
  "prefix_state t =
     (if t = 3 then Some 1 else if t = 4 then Some 2 else if t = 18 then Some 3 else if t = 19 then Some 4
      else if t = 24 then Some 5 else if t = 25 then Some 6 else if t = 26 then Some 7 else None)"

definition decide :: "nat \<Rightarrow> nat \<Rightarrow> yy_decision" where
  "decide s t = (if yypact_value_is_default s then yydefault s else yydecide s t)"

definition operand_decision :: "nat \<Rightarrow> nat \<Rightarrow> yy_decision" where
  "operand_decision s t =
     (if level s < precedence t then Shift (t + 11)
      else if s = 7 then if t = 27 then Shift 34 else SyntaxError
      else Reduce (rule_of s))"

lemma awaiting_table:
  "\<forall>s \<in> set awaiting. \<forall>t \<in> set [0..<28].
     decide s t = (case prefix_state t of Some s' \<Rightarrow> Shift s' | None \<Rightarrow> SyntaxError)"
  by code_simp

lemma operand_table: "\<forall>s \<in> set awaiting. \<forall>t \<in> set [0..<28]. decide (expr s) t = operand_decision s t"
  by code_simp

lemma default_table:
  "\<forall>(s, r) \<in> set [(1, 3), (2, 4), (16, 5), (17, 7), (34, 29)]. yypact_value_is_default s \<and> yydefault s = Reduce r"
  by code_simp

lemma goto_table: "\<forall>s \<in> set awaiting. expr s \<noteq> 15 \<and>
   (\<forall>r \<in> set (4 # 29 # filter (\<lambda>r. r \<noteq> 2) (map rule_of (filter (\<lambda>s. s \<noteq> 7) awaiting))). yygoto r s = expr s)"
  by code_simp

lemma logic_table: "yygoto 5 16 = 35 \<and> yygoto 7 17 = 36"
  by code_simp

lemma length_table:
  "yyr2 ! 2 = 1 \<and> yyr2 ! 3 = 1 \<and> yyr2 ! 4 = 1 \<and> yyr2 ! 5 = 0 \<and> yyr2 ! 7 = 0 \<and> yyr2 ! 29 = 3 \<and> yyr2 ! 6 = 4 \<and> yyr2 ! 8 = 4 \<and>
   (\<forall>s \<in> set [3..<7]. yyr2 ! rule_of s = 2) \<and> (\<forall>s \<in> set [18..<34]. yyr2 ! rule_of s = 3)"
  by code_simp

lemma translate_table: "\<forall>c \<in> set [0..<269]. YYTRANSLATE (int c) < 28"
  by code_simp

section \<open>Decisions\<close>

lemma awaiting_decides:
  "s \<in> set awaiting \<Longrightarrow> t < 28 \<Longrightarrow> decide s t = (case prefix_state t of Some s' \<Rightarrow> Shift s' | None \<Rightarrow> SyntaxError)"
  using awaiting_table by simp

lemma operand_decides: "s \<in> set awaiting \<Longrightarrow> t < 28 \<Longrightarrow> decide (expr s) t = operand_decision s t"
  using operand_table by simp

lemma translated: "YYTRANSLATE c < 28"
proof (cases "0 \<le> c \<and> c \<le> 268")
  case True
  then obtain n where "c = int n" by (metis nonneg_int_cases)
  then show ?thesis using translate_table True by simp
qed (auto simp: YYTRANSLATE_def)

lemma awaiting_iff: "s \<in> set awaiting \<longleftrightarrow> s \<in> {0, 3, 4, 5, 6, 7, 35, 36} \<or> 18 \<le> s \<and> s < 34"
  unfolding awaiting_def set_append set_upt by auto

section \<open>The shape of the stack\<close>

inductive awaits :: "nat list \<Rightarrow> bool" where
  bottom: "awaits [0]"
| prefix: "awaits (u # st)" if "awaits st" "u \<in> {3, 4, 5, 6, 7}"
| infix_op: "awaits (p # expr s # s # st)" if "awaits (s # st)" "18 \<le> p" "p < 34"
| disjunct: "awaits (35 # 16 # expr s # s # st)" if "awaits (s # st)"
| conjunct: "awaits (36 # 17 # expr s # s # st)" if "awaits (s # st)"

inductive shape :: "nat list \<Rightarrow> bool" where
  waiting: "shape st" if "awaits st"
| atom: "shape (a # st)" if "awaits st" "a \<in> {1, 2}"
| operand: "shape (expr s # s # st)" if "awaits (s # st)"
| logic: "shape (p # expr s # s # st)" if "awaits (s # st)" "p \<in> {16, 17}"
| closed: "shape (34 # expr 7 # 7 # st)" if "awaits (7 # st)"


lemma awaits_awaiting: "awaits st \<Longrightarrow> \<exists>s st'. st = s # st' \<and> s \<in> set awaiting"
  by (induction rule: awaits.induct) (auto simp: awaiting_iff)

lemma shape_nonempty: "\<not> shape []"
  by (auto elim!: shape.cases dest: awaits_awaiting)

lemma awaits_top: "awaits (s # st) \<Longrightarrow> s \<in> set awaiting"
  using awaits_awaiting by blast

lemma shape_step_shift:
  assumes "shape st" and "decide (hd st) t = Shift s" and "t < 28"
  shows "shape (s # st) \<and> s \<noteq> 15 \<and> t \<noteq> 0"
  using assms(1)
proof cases
  case waiting
  then obtain s' st' where st: "st = s' # st'" "s' \<in> set awaiting" using awaits_awaiting by blast
  have "prefix_state t = Some s"
    using assms(2,3) awaiting_decides [OF st(2)] st by (auto split: option.splits)
  then have "s \<in> {1, 2, 3, 4, 5, 6, 7}" and "t \<noteq> 0"
    by (auto simp: prefix_state_def split: if_splits)
  then show ?thesis
    using waiting by (auto intro: shape.intros awaits.prefix)
next
  case (atom st' a)
  then show ?thesis using assms(2) default_table by (auto simp: decide_def)
next
  case (operand s' st')
  have "operand_decision s' t = Shift s"
    using operand assms(2,3) operand_decides [OF awaits_top] by simp
  then consider "level s' < precedence t" "s = t + 11" | "s' = 7" "s = 34" "t = 27"
    by (auto simp: operand_decision_def split: if_splits)
  then show ?thesis
  proof cases
    case 1
    then have "5 \<le> t" "t \<le> 22" by (auto simp: precedence_def split: if_splits)
    then consider "s = 16 \<or> s = 17" | "18 \<le> s" "s < 34" using 1(2) by linarith
    then show ?thesis
      using operand \<open>5 \<le> t\<close> by cases (auto intro: shape.intros awaits.infix_op)
  next
    case 2
    then show ?thesis using operand by (auto intro: shape.closed)
  qed
next
  case (logic s' st' p)
  then show ?thesis using assms(2) default_table by (auto simp: decide_def)
next
  case (closed st')
  then show ?thesis using assms(2) default_table by (auto simp: decide_def)
qed

lemma goto_expr:
  assumes "s \<in> set awaiting" and "r \<in> {4, 29} \<or> (\<exists>s' \<in> set awaiting. s' \<noteq> 7 \<and> r = rule_of s' \<and> r \<noteq> 2)"
  shows "yygoto r s = expr s"
proof -
  have "r \<in> set (4 # 29 # filter (\<lambda>r. r \<noteq> 2) (map rule_of (filter (\<lambda>s. s \<noteq> 7) awaiting)))"
    using assms(2) by auto
  then show ?thesis using goto_table assms(1) by blast
qed

lemma rule_of_awaiting:
  assumes "s \<in> set awaiting" and "s \<noteq> 7" and "s \<noteq> 0"
  shows "rule_of s \<noteq> 2 \<and> s' \<in> set awaiting \<longrightarrow> yygoto (rule_of s) s' = expr s'"
  using assms by (auto intro: goto_expr)



lemma expr_apart: "\<forall>s \<in> set awaiting. expr s \<notin> set [1, 2, 15, 16, 17]"
  by code_simp

lemma rule_apart: "\<forall>s \<in> set awaiting. s \<noteq> 0 \<longrightarrow> rule_of s \<noteq> 2"
  by code_simp

lemma length_of_rules:
  "s \<in> {3, 4, 5, 6} \<Longrightarrow> nat (yyr2 ! rule_of s) = 2"
  "18 \<le> s \<Longrightarrow> s < 34 \<Longrightarrow> nat (yyr2 ! rule_of s) = 3"
  "nat (yyr2 ! rule_of 35) = 4" "nat (yyr2 ! rule_of 36) = 4" "nat (yyr2 ! 29) = 3"
proof -
  have "s \<in> set [3..<7]" if "s \<in> {3, 4, 5, 6}" using that by auto
  then show "s \<in> {3, 4, 5, 6} \<Longrightarrow> nat (yyr2 ! rule_of s) = 2" using length_table by (metis nat_numeral)
  have "s \<in> set [18..<34]" if "18 \<le> s" "s < 34" using that unfolding set_upt by simp
  then show "18 \<le> s \<Longrightarrow> s < 34 \<Longrightarrow> nat (yyr2 ! rule_of s) = 3" using length_table by (metis nat_numeral)
qed (use length_table in \<open>simp_all add: rule_of_def\<close>)

lemma goto_rule:
  "s \<in> set awaiting \<Longrightarrow> s \<noteq> 0 \<Longrightarrow> s \<noteq> 7 \<Longrightarrow> s' \<in> set awaiting \<Longrightarrow> yygoto (rule_of s) s' = expr s'"
  using rule_apart by (intro goto_expr) auto

lemma awaits_prefixD: "awaits (7 # st) \<Longrightarrow> awaits st"
  by (auto elim: awaits.cases)

text \<open>The measure of the reductions.\<close>

definition stack_measure :: "nat list \<Rightarrow> nat" where
  "stack_measure st =
     2 * length st + (if st = [] then 0 else if hd st \<in> {16, 17} then 3 else if hd st \<in> {1, 2} then 1 else 0)"

lemma stack_measure_operand: "s \<in> set awaiting \<Longrightarrow> stack_measure (expr s # s # st) = 2 * length st + 4"
  using expr_apart by (auto simp: stack_measure_def)

text \<open>A reduction takes an operator with its operands, and leaves an operand on a state that awaits one.\<close>

definition reduces :: "nat list \<Rightarrow> nat \<Rightarrow> bool" where
  "reduces st r \<longleftrightarrow> nat (yyr2 ! r) < length st \<and>
     (r = 2 \<or>
      (\<exists>s st'. drop (nat (yyr2 ! r)) st = s # st' \<and> shape (yygoto r s # s # st') \<and> yygoto r s \<noteq> 15 \<and>
         stack_measure (yygoto r s # s # st') < stack_measure st))"

lemma reduces_operand:
  assumes "drop (nat (yyr2 ! r)) st = s # st'" and "awaits (s # st')" and "yygoto r s = expr s"
    and "2 \<le> nat (yyr2 ! r) \<or> nat (yyr2 ! r) = 1 \<and> hd st \<in> {1, 2}"
  shows "reduces st r"
proof -
  have s: "s \<in> set awaiting" using assms(2) by (rule awaits_top)
  have "length st - nat (yyr2 ! r) = Suc (length st')"
    using arg_cong [OF assms(1), of length] by simp
  then have n: "length st = nat (yyr2 ! r) + Suc (length st')" by linarith
  then have "2 * length st' + 4 < stack_measure st"
    using assms(4) by (auto simp: stack_measure_def)
  moreover have "nat (yyr2 ! r) < length st" using n by simp
  ultimately show ?thesis
    using assms(1-3) expr_apart s unfolding reduces_def
    by (auto simp: stack_measure_operand [OF s] intro: shape.operand)
qed

lemma reduces_binary:
  assumes "awaits (s # st)" and "s \<noteq> 0" and "s \<noteq> 7"
  shows "reduces (expr s # s # st) (rule_of s)"
proof -
  have s: "s \<in> set awaiting" using assms(1) by (rule awaits_top)
  note goto = goto_rule [OF s assms(2,3)]
  show ?thesis
    using assms(1)
  proof cases
    case bottom
    then show ?thesis using assms(2) by simp
  next
    case prefix
    then have u: "s \<in> {3, 4, 5, 6}" using assms(3) by simp
    obtain s' st' where "st = s' # st'" "s' \<in> set awaiting" using prefix awaits_awaiting by blast
    then show ?thesis
      using prefix length_of_rules(1) [OF u] goto [of s'] by (intro reduces_operand [of _ _ s' st']) auto
  next
    case (infix_op s' st')
    show ?thesis
      unfolding infix_op(1) using infix_op length_of_rules(2) [OF infix_op(3,4)] goto [OF awaits_top [OF infix_op(2)]]
      by (intro reduces_operand [of _ _ s' st']) (auto simp: numeral_3_eq_3)
  next
    case (disjunct s' st')
    then show ?thesis
      using length_of_rules(3) goto [OF awaits_top [OF disjunct(3)]] by (intro reduces_operand [of _ _ s' st']) auto
  next
    case (conjunct s' st')
    then show ?thesis
      using length_of_rules(4) goto [OF awaits_top [OF conjunct(3)]] by (intro reduces_operand [of _ _ s' st']) auto
  qed
qed

lemma shape_step_reduce:
  assumes "shape st" and "decide (hd st) t = Reduce r" and "t < 28"
  shows "reduces st r"
  using assms(1)
proof cases
  case waiting
  then show ?thesis
    using assms(2,3) awaiting_decides by (auto dest!: awaits_awaiting split: option.splits)
next
  case (atom st' a)
  then obtain s st'' where st: "st' = s # st''" "s \<in> set awaiting" using awaits_awaiting by blast
  have "r = (if a = 1 then 3 else 4)"
    using atom assms(2) default_table by (auto simp: decide_def)
  then show ?thesis
    using atom st length_table goto_expr [OF st(2), of 4]
    by (intro reduces_operand [of _ _ s st'']) (auto simp del: One_nat_def)
next
  case (operand s st')
  then have s: "s \<in> set awaiting" by (blast intro: awaits_top)
  then have r: "r = rule_of s" "s \<noteq> 7"
    using operand(1) assms(2,3) operand_decides [OF s, of t] by (auto simp: operand_decision_def split: if_splits)
  show ?thesis
  proof (cases "s = 0")
    case True
    then show ?thesis using r operand length_table by (simp add: reduces_def rule_of_def)
  next
    case False
    then show ?thesis using reduces_binary operand r by simp
  qed
next
  case (logic s st' p)
  then have "r = (if p = 16 then 5 else 7)" using assms(2) default_table by (auto simp: decide_def)
  then show ?thesis
    using logic length_table logic_table shape.waiting [OF awaits.disjunct [OF logic(2)]]
      shape.waiting [OF awaits.conjunct [OF logic(2)]]
    by (auto simp: reduces_def stack_measure_def)
next
  case (closed st')
  then obtain s st'' where st: "st' = s # st''" "s \<in> set awaiting" "awaits (s # st'')"
    using awaits_prefixD awaits_awaiting by blast
  have "r = 29" using closed assms(2) default_table by (auto simp: decide_def)
  then show ?thesis using closed st length_of_rules(5) goto_expr [OF st(2), of 29]
    by (intro reduces_operand [of _ _ s st'']) auto
qed

section \<open>The contract of the lexer\<close>

text \<open>
  The states of the lexer that can occur, and a rank that a token takes something of. A report of an error
  changes neither. The predicate on the states may speak of an earlier state too, so that whatever holds
  between a state and the next one holds after the whole parse.
\<close>

locale token_reader =
  fixes src :: "'s token_source" and ok :: "'s \<Rightarrow> bool" and rank :: "'s \<Rightarrow> 'r" and lower :: "'r \<Rightarrow> 'r \<Rightarrow> bool"
  assumes wf_lower: "wfp lower" and lower_trans: "lower a b \<Longrightarrow> lower b c \<Longrightarrow> lower a c"
    and lexes: "ok s \<Longrightarrow> \<exists>t s'. ts_lex src s = Some (t, s') \<and> ok s' \<and> (tk_type t \<noteq> LAST \<longrightarrow> lower (rank s') (rank s))"
    and report_ok: "ok s \<Longrightarrow> ok (ts_report src d l text s)"
    and report_rank: "rank (ts_report src d l text s) = rank s"
begin

definition same_source :: "'s pp_context \<Rightarrow> 's pp_context \<Rightarrow> bool" where
  "same_source ct' ct \<longleftrightarrow>
     (ok (ct_source ct) \<longrightarrow> ok (ct_source ct')) \<and> rank (ct_source ct') = rank (ct_source ct) \<and>
     ct_parsePresetToken ct' = ct_parsePresetToken ct"

lemma same_source_refl [simp]: "same_source ct ct"
  by (simp add: same_source_def)

lemma same_source_trans: "same_source a b \<Longrightarrow> same_source b c \<Longrightarrow> same_source a c"
  by (simp add: same_source_def)

lemma same_source_simps [simp]:
  "same_source (ct_report src d text ct) ct" "same_source (yyerror src text ct) ct"
  "same_source (ct'\<lparr>ct_valid := b\<rparr>) ct = same_source ct' ct"
  "same_source (ct'\<lparr>ct_result := v\<rparr>) ct = same_source ct' ct"
  "same_source (startIgnoreErrors ct) ct" "same_source (endIgnoreErrors ct) ct"
  "same_source (operator_error src d text ct) ct"
  by (simp_all add: same_source_def ct_report_def yyerror_def report_ok report_rank startIgnoreErrors_def
      endIgnoreErrors_def operator_error_def)

lemma same_source_operators [simp]:
  "same_source (snd (shift_right src a b ct)) ct" "same_source (snd (shift_left src a b ct)) ct"
  "same_source (snd (remainder src a b ct)) ct" "same_source (snd (quotient_of src a b ct)) ct"
  by (simp_all add: shift_right_def shift_left_def remainder_def quotient_of_def)

lemma yymidaction_same: "same_source (yymidaction r stack ct) ct"
  by (simp add: yymidaction_def Let_def)

lemma yyaction_same: "same_source (snd (yyaction src r vs ct)) ct"
  by (simp add: yyaction_def Let_def)

text \<open>
  The order of the steps: the first token may be read already; once the lookahead is the end, no token is
  read any more; a token that is shifted has been read.
\<close>

definition phase :: "'s yyparser \<Rightarrow> nat" where
  "phase y = (if yychar y = Some 0 then 0 else if ct_parsePresetToken (yycontext y) then 2 else 1)"

definition key :: "'s yyparser \<Rightarrow> nat \<times> 'r option \<times> nat \<times> nat" where
  "key y =
     (phase y, if phase y = 0 then None else Some (rank (ct_source (yycontext y))),
      if yychar y = None then 0 else 1, stack_measure (map fst (yystack y)))"

definition below :: "('r option \<times> 'r option) set" where
  "below = {(x, y). \<exists>a b. x = Some a \<and> y = Some b \<and> lower a b}"

definition sooner :: "'s yyparser \<Rightarrow> 's yyparser \<Rightarrow> bool" where
  "sooner y' y \<longleftrightarrow> (key y', key y) \<in> less_than <*lex*> below <*lex*> less_than <*lex*> less_than"

lemma wf_below: "wf below"
proof -
  have "wf {(a, b). lower a b}" using wf_lower by (simp add: wfp_def)
  then have "wf (inv_image ({(a, b). lower a b} <*lex*> less_than) (\<lambda>x. (the x, if x = None then 1 else (0::nat))))"
    by (intro wf_inv_image wf_lex_prod) auto
  then show ?thesis by (rule wf_subset) (auto simp: below_def)
qed

lemma wf_sooner: "wf {(y', y). sooner y' y}"
proof -
  have "wf (inv_image (less_than <*lex*> below <*lex*> less_than <*lex*> less_than) key)"
    by (intro wf_inv_image wf_lex_prod wf_below) auto
  then show ?thesis by (simp add: sooner_def inv_image_def)
qed

lemma sooner_trans: "sooner x y \<Longrightarrow> sooner y z \<Longrightarrow> sooner x z"
  unfolding sooner_def
  by (rule transD [of "less_than <*lex*> below <*lex*> less_than <*lex*> less_than"])
    (auto intro!: trans_lex_prod intro: transI lower_trans simp: below_def trans_def)

lemma below_simps [simp]: "(Some a, Some b) \<in> below \<longleftrightarrow> lower a b" "(None, x) \<notin> below" "(x, None) \<notin> below"
  by (auto simp: below_def)

definition good :: "'s yyparser \<Rightarrow> bool" where
  "good y \<longleftrightarrow>
     ok (ct_source (yycontext y)) \<and> shape (map fst (yystack y)) \<and>
     (yychar y \<noteq> None \<longrightarrow> \<not> ct_parsePresetToken (yycontext y))"

text \<open>What a step gives.\<close>

definition steps_to :: "'s yyparser \<Rightarrow> ((nat \<times> 's pp_context) + 's yyparser) option \<Rightarrow> bool" where
  "steps_to y r \<longleftrightarrow>
     (\<exists>n ct. r = Some (Inl (n, ct)) \<and> ok (ct_source ct)) \<or> (\<exists>y'. r = Some (Inr y') \<and> good y' \<and> sooner y' y)"

lemma yylex_ok:
  assumes "ok (ct_source ct)"
  shows "\<exists>c v ct'. yylex src ct = Some (c, v, ct') \<and> ok (ct_source ct') \<and> \<not> ct_parsePresetToken ct' \<and>
    (c = 0 \<or> ct_parsePresetToken ct \<or> lower (rank (ct_source ct')) (rank (ct_source ct)))"
proof -
  obtain t s where t: "(if ct_parsePresetToken ct then Some (ct_token ct, ct_source ct) else ts_lex src (ct_source ct)) = Some (t, s)"
    "ok s" "tk_type t \<noteq> LAST \<longrightarrow> ct_parsePresetToken ct \<or> lower (rank s) (rank (ct_source ct))"
    using lexes [OF assms] assms by (cases "ct_parsePresetToken ct") auto
  show ?thesis
    unfolding yylex_def t(1)
    using t(2,3) by (auto simp: Let_def ct_report_def report_ok report_rank split: prod.splits)
qed

lemma yylookahead_ok:
  assumes "good y"
  shows "\<exists>c y'. yylookahead src y = Some (c, y') \<and> good y' \<and> yystack y' = yystack y \<and> yychar y' = Some c \<and>
    (y' = y \<or> sooner y' y)"
proof (cases "yychar y")
  case None
  obtain c v ct' where "yylex src (yycontext y) = Some (c, v, ct')" "ok (ct_source ct')" "\<not> ct_parsePresetToken ct'"
    "c = 0 \<or> ct_parsePresetToken (yycontext y) \<or> lower (rank (ct_source ct')) (rank (ct_source (yycontext y)))"
    using yylex_ok [of "yycontext y"] assms by (auto simp: good_def)
  then show ?thesis
    using None assms by (auto simp: yylookahead_def good_def sooner_def key_def phase_def)
qed (use assms in \<open>simp add: yylookahead_def\<close>)

lemma yynewstate_ok:
  assumes "ok (ct_source (yycontext y))" and "shape (s # map fst (yystack y))" and "s \<noteq> 15"
    and "yychar y \<noteq> None \<longrightarrow> \<not> ct_parsePresetToken (yycontext y)"
    and "\<And>y'. yychar y' = yychar y \<Longrightarrow> yycontext y' = yycontext y \<Longrightarrow>
      map fst (yystack y') = s # map fst (yystack y) \<Longrightarrow> sooner y' y0"
  shows "steps_to y0 (Some (yynewstate src s v y))"
  using assms
  by (auto simp: yynewstate_def steps_to_def good_def Let_def yyerror_def ct_report_def report_ok)

lemma yyreduce_ok:
  assumes y: "good y" and r: "reduces (map fst (yystack y)) r"
  shows "steps_to y (yyreduce src r y)"
proof -
  let ?n = "nat (yyr2 ! r)" and ?st = "map fst (yystack y)" and ?ct = "yymidaction r (yystack y) (yycontext y)"
  have n: "?n < length (yystack y)" using r by (simp add: reduces_def)
  show ?thesis
  proof (cases "r = 2")
    case True
    then show ?thesis using n y by (simp add: yyreduce_def Let_def steps_to_def good_def)
  next
    case False
    then obtain s st where st: "drop ?n ?st = s # st" "shape (yygoto r s # s # st)" "yygoto r s \<noteq> 15"
      "stack_measure (yygoto r s # s # st) < stack_measure ?st"
      using r by (auto simp: reduces_def)
    obtain v ct where act: "yyaction src r (map snd (take ?n (yystack y))) ?ct = (v, ct)" by fastforce
    have same: "same_source ct (yycontext y)"
      using yyaction_same [of r "map snd (take ?n (yystack y))" ?ct] yymidaction_same act
      by (metis same_source_trans snd_conv)
    have rest: "map fst (drop ?n (yystack y)) = s # st" using st(1) by (simp add: drop_map)
    then have top: "fst (hd (drop ?n (yystack y))) = s" by (metis list.sel(1) hd_map list.map_disc_iff list.distinct(1))
    have "steps_to y (Some (yynewstate src (yygoto r s) v (y\<lparr>yystack := drop ?n (yystack y), yycontext := ct\<rparr>)))"
      using y same st
      by (intro yynewstate_ok)
        (auto simp: good_def same_source_def rest sooner_def key_def phase_def)
    then show ?thesis
      using n False by (simp add: yyreduce_def Let_def act top)
  qed
qed

lemma yyact_ok:
  assumes y: "good y" and "t < 28"
    and shift: "\<And>s. decide (fst (hd (yystack y))) t = Shift s \<Longrightarrow> \<exists>c. yychar y = Some c \<and> t = YYTRANSLATE c"
  shows "steps_to y (yyact src (decide (fst (hd (yystack y))) t) y)"
proof -
  have sh: "shape (map fst (yystack y))" using y by (simp add: good_def)
  then have "yystack y \<noteq> []" using shape_nonempty by auto
  then have top: "hd (map fst (yystack y)) = fst (hd (yystack y))" by (simp add: hd_map)
  show ?thesis
  proof (cases "decide (fst (hd (yystack y))) t")
    case (Shift s)
    then obtain c where c: "yychar y = Some c" "t = YYTRANSLATE c" using shift by blast
    have s: "shape (s # map fst (yystack y)) \<and> s \<noteq> 15 \<and> t \<noteq> 0"
      using shape_step_shift [OF sh _ assms(2)] Shift top by simp
    then have "c \<noteq> 0" using c by (auto simp: YYTRANSLATE_def yytranslate_def)
    then have "steps_to y (Some (yynewstate src s (yylval y) (y\<lparr>yychar := None\<rparr>)))"
      using y s c by (intro yynewstate_ok) (auto simp: good_def sooner_def key_def phase_def)
    then show ?thesis using Shift by (simp add: yyact_def)
  next
    case (Reduce r)
    then show ?thesis
      using yyreduce_ok [OF y shape_step_reduce [OF sh _ assms(2)]] top by (simp add: yyact_def)
  next
    case SyntaxError
    then show ?thesis using y by (simp add: yyact_def steps_to_def good_def yyerror_def ct_report_def report_ok)
  qed
qed

lemma yystep_ok:
  assumes y: "good y"
  shows "steps_to y (yystep src y)"
proof (cases "yypact_value_is_default (fst (hd (yystack y)))")
  case True
  then have "decide (fst (hd (yystack y))) 0 = yydefault (fst (hd (yystack y)))" by (simp add: decide_def)
  then show ?thesis
    using yyact_ok [OF y, of 0] True by (auto simp: yystep_def yydefault_def Let_def)
next
  case False
  obtain c z where z: "yylookahead src y = Some (c, z)" "good z" "yystack z = yystack y" "yychar z = Some c"
    "z = y \<or> sooner z y"
    using yylookahead_ok [OF y] by blast
  have "steps_to z (yyact src (decide (fst (hd (yystack z))) (YYTRANSLATE c)) z)"
    using z by (intro yyact_ok) (auto simp: translated)
  moreover have "sooner z' y" if "sooner z' z" for z'
    using z(5) that sooner_trans by blast
  ultimately show ?thesis
    using False z by (auto simp: yystep_def steps_to_def decide_def)
qed

lemma yyloop_ok:
  assumes "good y"
  shows "\<exists>n ct. yyloop src y = Some (n, ct) \<and> ok (ct_source ct)"
  using wf_sooner assms
proof (induction y rule: wf_induct_rule)
  case (less y)
  from yystep_ok [OF less.prems] show ?case
    unfolding steps_to_def
  proof (elim disjE exE conjE)
    fix n ct
    assume "yystep src y = Some (Inl (n, ct))" "ok (ct_source ct)"
    then show ?thesis by (subst yyloop.simps) simp
  next
    fix y'
    assume y': "yystep src y = Some (Inr y')" "good y'" "sooner y' y"
    then obtain n ct where "yyloop src y' = Some (n, ct)" "ok (ct_source ct)" using less.IH by blast
    then show ?thesis using y' by (subst yyloop.simps) simp
  qed
qed

lemma parseExpression_ok:
  assumes "ok s"
  shows "\<exists>ret t' v valid' s'. parseExpression src t result preset es valid s = Some (ret, t', v, valid', s') \<and> ok s'"
proof -
  let ?ct = "\<lparr>ct_source = s, ct_token = t, ct_result = result, ct_parsePresetToken = preset, ct_errorSettings = es,
    ct_valid = valid, ct_ignoreErrors = 0\<rparr>"
  have "good \<lparr>yystack = [(0, 0)], yychar = None, yylval = 0, yycontext = ?ct\<rparr>"
    using assms by (auto simp: good_def intro: shape.waiting awaits.bottom)
  then obtain n ct where "yyparse src ?ct = Some (n, ct)" "ok (ct_source ct)"
    unfolding yyparse_def using yyloop_ok by blast
  then show ?thesis by (auto simp: parseExpression_def Let_def ct_report_def report_ok)
qed

end

section \<open>On the macro expander\<close>

text \<open>The lexer of the conditions: a macro expander on another lexer.\<close>

definition expander_source :: "'l lexer \<Rightarrow> expander_settings \<Rightarrow> nat \<Rightarrow> 'l expander token_source" where
  "expander_source lx es depth = \<lparr>ts_lex = x_lex lx es depth, ts_report = x_report\<rparr>"

context lexer
begin

definition lower :: "nat \<times> nat multiset \<Rightarrow> nat \<times> nat multiset \<Rightarrow> bool" where
  "lower a b \<longleftrightarrow> fst a < fst b \<or> fst a = fst b \<and> snd a < snd b"

definition expander_rank :: "'l expander \<Rightarrow> nat \<times> nat multiset" where
  "expander_rank x = (left (mLexer x), weight x)"

definition expander_ok :: "shared \<Rightarrow> 'l expander \<Rightarrow> 'l expander \<Rightarrow> bool" where
  "expander_ok sh x0 x \<longleftrightarrow>
     x_inv sh x \<and> ok (mLexer x) \<and> \<not> mDeferReenablingMacros x \<and> not_after x x0 \<and>
     (\<not> grows \<longrightarrow> length (store (mShared x)) = length (store (mShared x0)))"

lemma lower_before: "before x y \<Longrightarrow> lower (expander_rank x) (expander_rank y)"
  by (auto simp: before_def lower_def expander_rank_def)

lemma wfp_lower: "wfp lower"
proof -
  have "wf (less_than <*lex*> {(M :: nat multiset, N). M < N})"
    by (intro wf_lex_prod wf_less_multiset) auto
  then have "wf {(a, b). lower a b}" by (rule wf_subset) (auto simp: lower_def)
  then show ?thesis by (simp add: wfp_def)
qed

lemma expander_report_rank: "expander_rank (x_report d l t x) = expander_rank x"
  by (simp add: expander_rank_def)

lemma expander_report_ok: "expander_ok sh x0 (x_report d l t x) = expander_ok sh x0 x"
  by (simp add: expander_ok_def not_after_def)

lemma expander_lexes:
  assumes "expander_ok sh x0 x"
  shows "\<exists>t x'. x_lex lx es depth x = Some (t, x') \<and> expander_ok sh x0 x' \<and>
    (tk_type t \<noteq> LAST \<longrightarrow> lower (expander_rank x') (expander_rank x))"
proof -
  obtain t x' where "x_lex lx es depth x = Some (t, x')" "x_inv sh x'" "ok (mLexer x')" "\<not> mDeferReenablingMacros x'"
    "not_after x' x" "\<not> grows \<longrightarrow> length (store (mShared x')) = length (store (mShared x))"
    "tk_type t \<noteq> LAST \<longrightarrow> before x' x"
    using x_lex_ok [of sh x es depth] assms by (auto simp: expander_ok_def)
  then show ?thesis
    using assms not_after_trans [of x' x x0] lower_before [of x' x] by (auto simp: expander_ok_def)
qed

end

sublocale lexer \<subseteq> expressions: token_reader "expander_source lx es depth" "expander_ok sh x0" expander_rank lower
  for es depth sh x0
proof unfold_locales
  show "wfp lower" by (rule wfp_lower)
  show "lower a b \<Longrightarrow> lower b c \<Longrightarrow> lower a c" for a b c by (auto simp: lower_def)
  show "expander_ok sh x0 x \<Longrightarrow> \<exists>t x'. ts_lex (expander_source lx es depth) x = Some (t, x') \<and> expander_ok sh x0 x' \<and>
      (tk_type t \<noteq> LAST \<longrightarrow> lower (expander_rank x') (expander_rank x))" for x
    using expander_lexes [of sh x0 x es depth] by (simp add: expander_source_def)
qed (simp_all add: expander_source_def expander_report_ok expander_report_rank)

text \<open>
  A condition on any lexer that ends: the parser returns, and the expander is where the contract of the
  lexer lets it be.
\<close>

context lexer
begin

lemma condition_ok:
  assumes "wf_shared sh" and "ok l"
  shows "\<exists>ret t' v valid' x. parseExpression (expander_source lx es depth) t result preset settings valid (MacroExpander l sh)
      = Some (ret, t', v, valid', x) \<and> expander_ok sh (MacroExpander l sh) x"
  by (rule expressions.parseExpression_ok)
    (use assms MacroExpander_inv in \<open>simp add: expander_ok_def MacroExpander_def\<close>)

end

end
