(* ===== verification/Pp_Expression_Value.thy ===== *)
theory Pp_Expression_Value
  imports Pp_Expression_Ends
begin

text \<open>
  The expression parser computes. The expressions have a grammar, stratified by how strongly the operators
  bind, and values over the integers. From a state that awaits an operand, the automaton of the tables reads
  the tokens of an expression and leaves its value, and it stops before an operator that binds less; the
  errors in operands of \<open>||\<close> and \<open>&&\<close> that are not needed do not count. The stack of the parser limits the
  number of tokens: at most two of its places are taken by one of them.
\<close>

section \<open>Expressions and their values\<close>

text \<open>
  The expressions of the preprocessor, and their values: signed integers of 32 bits, with the operands that
  \<open>||\<close> and \<open>&&\<close> do not need left out. \<^term>\<open>None\<close> is an expression that is an error to evaluate: a name
  that is not defined, a division by zero or a shift by a count that is out of range.
\<close>

datatype unary_op = Minus | Plus | Negation | Complement

datatype binary_op =
  BitOr | BitXor | BitAnd | Equal | NotEqual | Less | Greater | LessEq | GreaterEq | ShiftLeft | ShiftRight |
  Add | Subtract | Multiply | Divide | Modulo

datatype expression =
  Literal nat | Name | Unary unary_op expression | Binary binary_op expression expression |
  Either expression expression | Both expression expression

definition wrap :: "int \<Rightarrow> int" where
  "wrap i = (i + 2 ^ 31) mod 2 ^ 32 - 2 ^ 31"

fun unary_value :: "unary_op \<Rightarrow> int \<Rightarrow> int" where
  "unary_value Minus a = wrap (- a)"
| "unary_value Plus a = a"
| "unary_value Negation a = of_bool (a = 0)"
| "unary_value Complement a = - a - 1"

fun binary_value :: "binary_op \<Rightarrow> int \<Rightarrow> int \<Rightarrow> int option" where
  "binary_value BitOr a b = Some (a OR b)"
| "binary_value BitXor a b = Some (a XOR b)"
| "binary_value BitAnd a b = Some (a AND b)"
| "binary_value Equal a b = Some (of_bool (a = b))"
| "binary_value NotEqual a b = Some (of_bool (a \<noteq> b))"
| "binary_value Less a b = Some (of_bool (a < b))"
| "binary_value Greater a b = Some (of_bool (a > b))"
| "binary_value LessEq a b = Some (of_bool (a \<le> b))"
| "binary_value GreaterEq a b = Some (of_bool (a \<ge> b))"
| "binary_value ShiftLeft a b = (if 0 \<le> b \<and> b \<le> 31 then Some (wrap (a * 2 ^ nat b)) else None)"
| "binary_value ShiftRight a b = (if 0 \<le> b \<and> b \<le> 31 then Some (wrap ((a mod 2 ^ 32) div 2 ^ nat b)) else None)"
| "binary_value Add a b = Some (wrap (a + b))"
| "binary_value Subtract a b = Some (wrap (a - b))"
| "binary_value Multiply a b = Some (wrap (a * b))"
| "binary_value Divide a b =
     (if b = 0 then None else if a = - (2 ^ 31) \<and> b = -1 then Some (2 ^ 31 - 1)
      else Some (sgn a * sgn b * (\<bar>a\<bar> div \<bar>b\<bar>)))"
| "binary_value Modulo a b = (if b = 0 then None else Some (sgn a * (\<bar>a\<bar> mod \<bar>b\<bar>)))"

fun value_of :: "expression \<Rightarrow> int option" where
  "value_of (Literal n) = Some (wrap (int n))"
| "value_of Name = None"
| "value_of (Unary u e) = map_option (unary_value u) (value_of e)"
| "value_of (Binary b e f) = Option.bind (value_of e) (\<lambda>i. Option.bind (value_of f) (binary_value b i))"
| "value_of (Either e f) =
     Option.bind (value_of e) (\<lambda>i. if i \<noteq> 0 then Some 1 else map_option (\<lambda>j. of_bool (j \<noteq> 0)) (value_of f))"
| "value_of (Both e f) =
     Option.bind (value_of e) (\<lambda>i. if i = 0 then Some 0 else map_option (\<lambda>j. of_bool (j \<noteq> 0)) (value_of f))"

section \<open>The actions compute the values\<close>

lemma wrap_signed: "wrap i = signed_take_bit 31 i"
  by (simp add: wrap_def signed_take_bit_eq_take_bit_shift take_bit_eq_mod)

lemma sint_of_int [simp]: "sint (word_of_int i :: i32) = wrap i"
  by (simp add: wrap_signed signed_of_int)

lemma sint_of_nat [simp]: "sint (word_of_nat n :: i32) = wrap (int n)"
  by (simp add: wrap_signed signed_of_nat)

lemma wrap_self: "- (2 ^ 31) \<le> i \<Longrightarrow> i < 2 ^ 31 \<Longrightarrow> wrap i = i"
  by (simp add: wrap_def)

lemma wrap_take_bit [simp]: "wrap (take_bit 32 i) = wrap i"
  by (simp add: wrap_def take_bit_eq_mod mod_simps)

lemma sint_range: "- (2 ^ 31) \<le> sint (w :: i32)" "sint (w :: i32) < 2 ^ 31"
  using sint_greater_eq [of w] sint_less [of w] by simp_all

lemma wrap_sint [simp]: "wrap (sint (w :: i32)) = sint w"
  by (rule wrap_self) (rule sint_range)+

lemma sint_truth [simp]: "sint (truth b) = of_bool b"
  by (simp add: truth_def)

lemma sint_eq: "w = (v :: i32) \<longleftrightarrow> sint w = sint v"
  by (auto intro: signed_word_eqI)

lemma sint_via_int:
  assumes "w = (word_of_int i :: i32)"
  shows "sint w = wrap i"
  unfolding assms by (rule sint_of_int)

lemma sint_min [simp]: "sint i32_min = - (2 ^ 31)"
  by (subst sint_via_int [of _ "2 ^ 31"]) (simp_all add: wrap_def)

lemma sint_add: "sint (a + b :: i32) = wrap (sint a + sint b)"
  by (rule sint_via_int) simp

lemma sint_diff: "sint (a - b :: i32) = wrap (sint a - sint b)"
  by (rule sint_via_int) simp

lemma sint_mult: "sint (a * b :: i32) = wrap (sint a * sint b)"
  by (rule sint_via_int) simp

lemma sint_uminus: "sint (- a :: i32) = wrap (- sint a)"
  by (rule sint_via_int) simp

lemma sint_not: "sint (NOT a :: i32) = - sint a - 1"
proof -
  have "sint (NOT a) = wrap (- sint a - 1)"
    by (rule sint_via_int) (simp add: not_eq_complement)
  also have "\<dots> = - sint a - 1" using sint_range [of a] by (intro wrap_self) auto
  finally show ?thesis .
qed

lemma uint_mod_sint: "uint (a :: i32) = sint a mod 2 ^ 32"
  by (simp add: uint_sint take_bit_eq_mod)

lemma sint_uint: "sint (a :: i32) = wrap (uint a)"
  by (rule sint_via_int) simp

lemma sint_logical:
  "sint (a OR b :: i32) = sint a OR sint b" "sint (a AND b :: i32) = sint a AND sint b"
  "sint (a XOR b :: i32) = sint a XOR sint b"
  by (simp_all add: signed_or_eq signed_and_eq signed_xor_eq)

lemma unat_count:
  assumes "0 \<le> sint (b :: i32)"
  shows "unat b = nat (sint b)"
proof -
  have "uint b = sint b"
    using assms sint_range(2) [of b] by (simp add: uint_mod_sint)
  then show ?thesis by (simp flip: nat_uint_eq)
qed

lemma sint_push_bit:
  assumes "0 \<le> sint (b :: i32)"
  shows "sint (push_bit (unat b) (a :: i32)) = wrap (sint a * 2 ^ nat (sint b))"
proof (rule sint_via_int)
  show "push_bit (unat b) a = word_of_int (sint a * 2 ^ nat (sint b))"
    by (simp add: unat_count [OF assms] push_bit_eq_mult)
qed

lemma uint_drop_bit: "uint (drop_bit n (a :: i32)) = drop_bit n (uint a)"
  by transfer (simp add: drop_bit_take_bit)

lemma sint_drop_bit:
  assumes "0 \<le> sint (b :: i32)"
  shows "sint (drop_bit (unat b) (a :: i32)) = wrap ((sint a mod 2 ^ 32) div 2 ^ nat (sint b))"
proof -
  have "uint (drop_bit (unat b) a) = uint a div 2 ^ nat (sint b)"
    by (simp only: uint_drop_bit unat_count [OF assms] drop_bit_eq_div [of _ "uint a"])
  then show ?thesis
    using sint_uint [of "drop_bit (unat b) a"] by (simp only: uint_mod_sint [of a])
qed

lemma sint_sdiv:
  assumes "sint (a :: i32) \<noteq> - (2 ^ 31) \<or> sint b \<noteq> -1"
  shows "sint (word_of_int (sint a sdiv sint b) :: i32) = sgn (sint a) * sgn (sint b) * (\<bar>sint a\<bar> div \<bar>sint (b :: i32)\<bar>)"
proof -
  have r: "- \<bar>sint a\<bar> \<le> sint a sdiv sint b" "sint a sdiv sint b \<le> \<bar>sint a\<bar>"
    using sdiv_int_range [of "sint a" "sint b"] by simp_all
  have "sint a sdiv sint b < 2 ^ 31"
  proof (cases "sint a = - (2 ^ 31)")
    case True
    then have "sint a sdiv sint b \<noteq> - sint a" using assms int_sdiv_negated_is_minus1 [of "sint a" "sint b"] by simp
    then show ?thesis using r(2) unfolding True by simp
  next
    case False
    then show ?thesis using r sint_range [of a] by linarith
  qed
  then have "wrap (sint a sdiv sint b) = sint a sdiv sint b"
    using r(1) sint_range [of a] by (intro wrap_self) linarith+
  then show ?thesis unfolding sint_of_int by (simp add: signed_divide_int_def)
qed

lemma sint_smod:
  assumes "sint (b :: i32) \<noteq> 0"
  shows "sint (word_of_int (sint (a :: i32) smod sint b) :: i32) = sgn (sint a) * (\<bar>sint a\<bar> mod \<bar>sint (b :: i32)\<bar>)"
proof -
  have "wrap (sint a smod sint b) = sint a smod sint b"
    using smod_int_range [OF assms, of "sint a"] sint_range [of b]
    by (intro wrap_self) (auto simp: abs_if split: if_splits)
  then show ?thesis unfolding sint_of_int by (simp add: signed_modulo_int_def)
qed

lemma sint_order: "(a <s b) = (sint a < sint (b :: i32))" "(a <=s b) = (sint a \<le> sint b)"
  by (simp_all add: word_sless_alt word_sle_eq)


text \<open>The symbol of an operator in the grammar, its type as a token, and its precedence.\<close>

fun symbol_of :: "binary_op \<Rightarrow> nat" where
  "symbol_of BitOr = 7" | "symbol_of BitXor = 8" | "symbol_of BitAnd = 9" | "symbol_of Equal = 10"
| "symbol_of NotEqual = 11" | "symbol_of Less = 12" | "symbol_of Greater = 13" | "symbol_of LessEq = 14"
| "symbol_of GreaterEq = 15" | "symbol_of ShiftLeft = 16" | "symbol_of ShiftRight = 17" | "symbol_of Add = 18"
| "symbol_of Subtract = 19" | "symbol_of Multiply = 20" | "symbol_of Divide = 21" | "symbol_of Modulo = 22"

fun unary_state :: "unary_op \<Rightarrow> nat" where
  "unary_state Plus = 3" | "unary_state Minus = 4" | "unary_state Negation = 5" | "unary_state Complement = 6"

fun unary_symbol :: "unary_op \<Rightarrow> nat" where
  "unary_symbol Plus = 18" | "unary_symbol Minus = 19" | "unary_symbol Negation = 24" | "unary_symbol Complement = 25"

definition errs :: "'s token_source \<Rightarrow> 's pp_context \<Rightarrow> 's pp_context \<Rightarrow> bool" where
  "errs src ct ct' \<longleftrightarrow> (\<exists>d text. ct' = operator_error src d text ct)"

definition computes ::
  "'s token_source \<Rightarrow> int option \<Rightarrow> 's pp_context \<Rightarrow> i32 \<times> 's pp_context \<Rightarrow> bool" where
  "computes src v ct r \<longleftrightarrow>
     (case v of Some i \<Rightarrow> sint (fst r) = i \<and> snd r = ct | None \<Rightarrow> errs src ct (snd r))"

lemma errs_operator [simp]: "errs src ct (operator_error src d text ct)"
  by (auto simp: errs_def)

lemma computes_simps [simp]:
  "computes src (Some i) ct (w, ct') \<longleftrightarrow> sint w = i \<and> ct' = ct"
  "computes src None ct (w, ct') \<longleftrightarrow> errs src ct ct'"
  by (simp_all add: computes_def)

lemma shifts_compute:
  "computes src (binary_value ShiftLeft (sint a) (sint b)) ct (shift_left src a b ct)"
  "computes src (binary_value ShiftRight (sint a) (sint b)) ct (shift_right src a b ct)"
  by (auto simp: shift_left_def shift_right_def sint_order sint_push_bit sint_drop_bit)

lemma quotients_compute:
  "computes src (binary_value Divide (sint a) (sint b)) ct (quotient_of src a b ct)" (is ?div)
  "computes src (binary_value Modulo (sint a) (sint b)) ct (remainder src a b ct)" (is ?mod)
proof -
  have zero: "b = 0 \<longleftrightarrow> sint b = 0" and min: "a = i32_min \<longleftrightarrow> sint a = - (2 ^ 31)" and one: "b = -1 \<longleftrightarrow> sint b = -1"
    by (simp_all add: sint_eq)
  show ?div
    unfolding quotient_of_def zero min one
    using sint_sdiv [of a b] by (auto simp: wrap_def)
  show ?mod
    unfolding remainder_def zero min one
    using sint_smod [of b a] by (auto simp: zmod_minus1)
qed

lemma binary_action:
  "computes src (binary_value p (sint a) (sint b)) ct (yyaction src (rule_of (symbol_of p + 11)) [b, x, a] ct)"
  using shifts_compute [of src a b ct] quotients_compute [of src a b ct]
  by (cases p)
    (simp_all add: rule_of_def yyaction_def Let_def sint_logical sint_order sint_add sint_diff sint_mult sint_eq
      WrappingSum_def WrappingDiff_def WrappingMul_def)

lemma unary_action:
  "computes src (Some (unary_value u (sint b))) ct (yyaction src (rule_of (unary_state u)) [b, x] ct)"
  by (cases u) (auto simp: rule_of_def yyaction_def Let_def sint_uminus sint_not sint_eq wrap_def)

lemma computes_word:
  assumes "\<And>ct. computes src (Some i) ct (f ct)"
  shows "\<exists>w. (\<forall>ct. f ct = (w, ct)) \<and> sint w = i"
proof (intro exI conjI allI)
  fix ct
  have *: "sint (fst (f ct)) = i" "snd (f ct) = ct" for ct
    using assms [of ct] by (simp_all add: computes_def)
  have "word_of_int i = fst (f ct)" unfolding * (1) [of ct, symmetric] by simp
  then show "f ct = (word_of_int i, ct)" using * [of ct] by (simp add: prod_eq_iff)
  show "sint (word_of_int i :: i32) = i" using *(1) [of ct] wrap_sint [of "fst (f ct)"] by simp
qed

lemma unary_action_value:
  "\<exists>w. (\<forall>ct. yyaction src (rule_of (unary_state u)) [b, x] ct = (w, ct)) \<and> sint w = unary_value u (sint b)"
  by (rule computes_word) (rule unary_action)

section \<open>The grammar\<close>

text \<open>
  The tokens of an expression, with operators that bind at least as strongly as \<open>p\<close>: all of them are left
  associative, and a token of an integer has a value that fits, in 31 bits when \<open>sg\<close> says so.
\<close>

fun binds :: "binary_op \<Rightarrow> nat" where
  "binds BitOr = 3" | "binds BitXor = 4" | "binds BitAnd = 5" | "binds Equal = 6" | "binds NotEqual = 6"
| "binds Less = 7" | "binds Greater = 7" | "binds LessEq = 7" | "binds GreaterEq = 7"
| "binds ShiftLeft = 8" | "binds ShiftRight = 8" | "binds Add = 9" | "binds Subtract = 9"
| "binds Multiply = 10" | "binds Divide = 10" | "binds Modulo = 10"

fun binary_type :: "binary_op \<Rightarrow> int" where
  "binary_type BitOr = 124" | "binary_type BitXor = 94" | "binary_type BitAnd = 38" | "binary_type Equal = OP_EQ"
| "binary_type NotEqual = OP_NE" | "binary_type Less = 60" | "binary_type Greater = 62"
| "binary_type LessEq = OP_LE" | "binary_type GreaterEq = OP_GE" | "binary_type ShiftLeft = OP_LEFT"
| "binary_type ShiftRight = OP_RIGHT" | "binary_type Add = 43" | "binary_type Subtract = 45"
| "binary_type Multiply = 42" | "binary_type Divide = 47" | "binary_type Modulo = 37"

fun unary_type :: "unary_op \<Rightarrow> int" where
  "unary_type Plus = 43" | "unary_type Minus = 45" | "unary_type Negation = 33" | "unary_type Complement = 126"

definition fits :: "bool \<Rightarrow> token \<Rightarrow> bool" where
  "fits sg t \<longleftrightarrow> (tk_type t = CONST_INT \<longrightarrow> fst (uValue t) \<and> (sg \<longrightarrow> fst (iValue t)))"

inductive phrase :: "bool \<Rightarrow> nat \<Rightarrow> expression \<Rightarrow> token list \<Rightarrow> bool" for sg where
  literal: "phrase sg p (Literal n) [t]" if "tk_type t = CONST_INT" "snd (uValue t) = n" "fits sg t"
| name: "phrase sg p Name [t]" if "tk_type t = IDENTIFIER"
| parens: "phrase sg p e (l # ts @ [r])" if "phrase sg 1 e ts" "tk_type l = LEFT_PAREN" "tk_type r = RIGHT_PAREN"
| unary: "phrase sg p (Unary u e) (t # ts)" if "phrase sg 11 e ts" "tk_type t = unary_type u" "p \<le> 11"
| binary: "phrase sg p (Binary b e f) (ts @ t # us)"
    if "phrase sg (binds b) e ts" "phrase sg (Suc (binds b)) f us" "tk_type t = binary_type b" "p \<le> binds b"
| either: "phrase sg p (Either e f) (ts @ t # us)"
    if "phrase sg 1 e ts" "phrase sg 2 f us" "tk_type t = OP_OR" "p \<le> 1"
| both: "phrase sg p (Both e f) (ts @ t # us)"
    if "phrase sg 2 e ts" "phrase sg 3 f us" "tk_type t = OP_AND" "p \<le> 2"

section \<open>What the lexer makes of a token\<close>

definition token_codes :: "(int \<times> int) list" where
  "token_codes =
     [(CONST_INT, 258), (IDENTIFIER, 259), (OP_OR, 260), (OP_AND, 261), (OP_EQ, 262), (OP_NE, 263), (OP_LE, 264),
      (OP_GE, 265), (OP_LEFT, 266), (OP_RIGHT, 267)]
     @ map (\<lambda>c. (c, c)) [124, 94, 38, 62, 60, 45, 43, 37, 47, 42, 33, 126, 40, 41]"

definition token_code :: "int \<Rightarrow> int" where
  "token_code type = (case map_of token_codes type of Some c \<Rightarrow> c | None \<Rightarrow> 0)"

definition token_value :: "token \<Rightarrow> i32 option" where
  "token_value t =
     (if tk_type t = CONST_INT then Some (of_nat (snd (uValue t))) else if tk_type t = IDENTIFIER then Some (-1) else None)"

definition symbol :: "token \<Rightarrow> nat" where
  "symbol t = YYTRANSLATE (token_code (tk_type t))"

lemma binary_symbol: "tk_type t = binary_type b \<Longrightarrow> symbol t = symbol_of b"
  by (cases b) (simp_all add: symbol_def token_code_def token_codes_def YYTRANSLATE_def yytranslate_def)

lemma unary_symbol: "tk_type t = unary_type u \<Longrightarrow> symbol t = unary_symbol u"
  by (cases u) (simp_all add: symbol_def token_code_def token_codes_def YYTRANSLATE_def yytranslate_def)

lemma symbol_simps:
  "tk_type t = CONST_INT \<Longrightarrow> symbol t = 3" "tk_type t = IDENTIFIER \<Longrightarrow> symbol t = 4"
  "tk_type t = OP_OR \<Longrightarrow> symbol t = 5" "tk_type t = OP_AND \<Longrightarrow> symbol t = 6"
  "tk_type t = LEFT_PAREN \<Longrightarrow> symbol t = 26" "tk_type t = RIGHT_PAREN \<Longrightarrow> symbol t = 27"
  by (simp_all add: symbol_def token_code_def token_codes_def YYTRANSLATE_def yytranslate_def)

lemma symbol_less: "symbol t < 28"
  by (simp add: symbol_def translated)

lemma binds_precedence: "precedence (symbol_of b) = binds b" "18 \<le> symbol_of b + 11" "symbol_of b + 11 < 34"
  by (cases b; simp add: precedence_def)+

lemma yylex_token:
  assumes "(if ct_parsePresetToken ct then Some (ct_token ct, ct_source ct) else ts_lex src (ct_source ct)) = Some (t, s)"
    and "fits (integerLiteralsMustFit32BitSignedRange (ct_errorSettings ct)) t"
  shows "yylex src ct = Some (token_code (tk_type t), token_value t,
    ct\<lparr>ct_source := s, ct_token := t, ct_parsePresetToken := False\<rparr>)"
  using assms(2)
  by (auto simp: yylex_def assms(1) Let_def fits_def token_code_def token_codes_def token_value_def split: prod.splits)

section \<open>The parse of an expression\<close>

text \<open>A lexer that gives a known list of tokens; reports do not change it.\<close>

locale expression_source =
  fixes src :: "'s token_source" and gives :: "'s \<Rightarrow> token list \<Rightarrow> bool"
  assumes gives_lex: "gives s (t # ts) \<Longrightarrow> \<exists>s'. ts_lex src s = Some (t, s') \<and> gives s' ts"
    and gives_report: "gives s ts \<Longrightarrow> gives (ts_report src d l text s) ts"
begin

text \<open>The tokens ahead of the parser, whether the expression is valid so far, and the depth of the operands that do not count.\<close>

definition ahead :: "bool \<Rightarrow> 's yyparser \<Rightarrow> token list \<Rightarrow> bool \<Rightarrow> int \<Rightarrow> bool" where
  "ahead sg y ts v k \<longleftrightarrow>
     (let ct = yycontext y
      in ct_valid ct = v \<and> ct_ignoreErrors ct = k \<and> integerLiteralsMustFit32BitSignedRange (ct_errorSettings ct) = sg \<and>
         (case yychar y of
            None \<Rightarrow>
              if ct_parsePresetToken ct then ts \<noteq> [] \<and> ct_token ct = hd ts \<and> gives (ct_source ct) (tl ts)
              else gives (ct_source ct) ts
          | Some c \<Rightarrow>
              ts \<noteq> [] \<and> ct_token ct = hd ts \<and> gives (ct_source ct) (tl ts) \<and> \<not> ct_parsePresetToken ct \<and>
              c = token_code (tk_type (hd ts)) \<and> (\<forall>w. token_value (hd ts) = Some w \<longrightarrow> yylval y = w)))"

lemma lookahead_ahead:
  assumes "ahead sg y (t # ts) v k" and "fits sg t"
  shows "\<exists>y'. yylookahead src y = Some (token_code (tk_type t), y') \<and> ahead sg y' (t # ts) v k \<and> yystack y' = yystack y \<and>
    yychar y' = Some (token_code (tk_type t)) \<and> ct_result (yycontext y') = ct_result (yycontext y)"
proof (cases "yychar y")
  case None
  obtain s where s: "(if ct_parsePresetToken (yycontext y) then Some (ct_token (yycontext y), ct_source (yycontext y))
      else ts_lex src (ct_source (yycontext y))) = Some (t, s)" "gives s ts"
    using assms(1) None by (cases "ct_parsePresetToken (yycontext y)") (auto simp: ahead_def Let_def dest: gives_lex)
  have "yylex src (yycontext y) = Some (token_code (tk_type t), token_value t,
      (yycontext y)\<lparr>ct_source := s, ct_token := t, ct_parsePresetToken := False\<rparr>)"
    using s(1) assms by (intro yylex_token) (auto simp: ahead_def Let_def)
  then show ?thesis
    using None assms(1) s(2) by (simp add: yylookahead_def ahead_def Let_def)
qed (use assms in \<open>auto simp: yylookahead_def ahead_def Let_def\<close>)

text \<open>A step, once its decision is known.\<close>

lemma decision_step:
  assumes y: "ahead sg y (t # ts) v k" and "fits sg t" and "decide (fst (hd (yystack y))) (symbol t) = d"
  shows "\<exists>y'. yystep src y = yyact src d y' \<and> ahead sg y' (t # ts) v k \<and> yystack y' = yystack y \<and>
    ((\<exists>s. d = Shift s) \<longrightarrow> yychar y' \<noteq> None)"
proof (cases "yypact_value_is_default (fst (hd (yystack y)))")
  case True
  then show ?thesis
    using assms by (auto simp: yystep_def decide_def yydefault_def Let_def split: if_splits)
next
  case False
  obtain y' where "yylookahead src y = Some (token_code (tk_type t), y')" "ahead sg y' (t # ts) v k"
    "yystack y' = yystack y" "yychar y' = Some (token_code (tk_type t))"
    using lookahead_ahead [OF assms(1,2)] by blast
  then show ?thesis
    using False assms(3) by (auto simp: yystep_def decide_def symbol_def)
qed

lemma yyloop_step: "yystep src y = Some (Inr y') \<Longrightarrow> yyloop src y = yyloop src y'"
  by (subst yyloop.simps) simp

lemma shift_step:
  assumes y: "ahead sg y (t # ts) v k" and "fits sg t" and "decide (fst (hd (yystack y))) (symbol t) = Shift s"
    and "s \<noteq> 15" and "length (yystack y) + 1 < YYMAXDEPTH"
  shows "\<exists>y' w. yyloop src y = yyloop src y' \<and> yystack y' = (s, w) # yystack y \<and> ahead sg y' ts v k \<and>
    (\<forall>x. token_value t = Some x \<longrightarrow> w = x)"
proof -
  obtain y1 where y1: "yystep src y = yyact src (Shift s) y1" "ahead sg y1 (t # ts) v k" "yystack y1 = yystack y"
    "yychar y1 \<noteq> None"
    using decision_step [OF assms(1-3)] by blast
  let ?y = "y1\<lparr>yychar := None, yystack := (s, yylval y1) # yystack y\<rparr>"
  have "yystep src y = Some (Inr ?y)"
    using y1(3) assms(4,5) by (simp add: y1(1) yyact_def yynewstate_def)
  moreover have "ahead sg ?y ts v k" "\<forall>x. token_value t = Some x \<longrightarrow> yylval y1 = x"
    using y1(2,4) by (auto simp: ahead_def Let_def)
  ultimately show ?thesis by (intro exI [of _ ?y] exI [of _ "yylval y1"]) (auto dest: yyloop_step)
qed

text \<open>The change of the context by an action: nothing, an error, or the end of an operand that does not count.\<close>

definition acts :: "'s pp_context \<Rightarrow> 's pp_context \<Rightarrow> bool \<Rightarrow> int \<Rightarrow> bool" where
  "acts ct ct' v k \<longleftrightarrow>
     ct_valid ct' = v \<and> ct_ignoreErrors ct' = k \<and> ct_errorSettings ct' = ct_errorSettings ct \<and>
     ct_token ct' = ct_token ct \<and> ct_parsePresetToken ct' = ct_parsePresetToken ct \<and>
     (\<forall>ts. gives (ct_source ct) ts \<longrightarrow> gives (ct_source ct') ts)"

lemma acts_ahead: "ahead sg y ts v k \<Longrightarrow> acts (yycontext y) ct v' k' \<Longrightarrow>
    ahead sg (y\<lparr>yystack := st, yycontext := ct\<rparr>) ts v' k'"
  by (auto simp: ahead_def acts_def Let_def split: option.splits)

lemma acts_refl: "acts ct ct (ct_valid ct) (ct_ignoreErrors ct)"
  by (simp add: acts_def)

lemma acts_errs: "errs src ct ct' \<Longrightarrow> acts ct ct' (ct_valid ct \<and> 0 < ct_ignoreErrors ct) (ct_ignoreErrors ct)"
  by (cases "0 < ct_ignoreErrors ct")
    (auto simp: errs_def acts_def operator_error_def isIgnoringErrors_def ct_report_def gives_report)

lemma computes_acts:
  "computes src r ct (w, ct') \<Longrightarrow>
   acts ct ct' (ct_valid ct \<and> (0 < ct_ignoreErrors ct \<or> r \<noteq> None)) (ct_ignoreErrors ct) \<and> (\<forall>i. r = Some i \<longrightarrow> sint w = i)"
  using acts_errs [of ct ct'] acts_refl by (cases r) auto

lemma reduce_step:
  assumes y: "ahead sg y (t # ts) v k" and "fits sg t" and "decide (fst (hd (yystack y))) (symbol t) = Reduce r"
    and "r \<noteq> 2" and "yystack y = st @ (s, w0) # rest" and "length st = nat (yyr2 ! r)"
    and action: "\<And>ct. ct_valid ct = v \<Longrightarrow> ct_ignoreErrors ct = k \<Longrightarrow>
      \<exists>ct'. yyaction src r (map snd st) (yymidaction r (yystack y) ct) = (w, ct') \<and> acts ct ct' v' k'"
    and "yygoto r s \<noteq> 15" and "length rest + 2 < YYMAXDEPTH"
  shows "\<exists>y'. yyloop src y = yyloop src y' \<and> yystack y' = (yygoto r s, w) # (s, w0) # rest \<and> ahead sg y' (t # ts) v' k'"
proof -
  obtain y1 where y1: "yystep src y = yyreduce src r y1" "ahead sg y1 (t # ts) v k" "yystack y1 = yystack y"
    using decision_step [OF assms(1-3)] by (auto simp: yyact_def)
  obtain ct where ct: "yyaction src r (map snd st) (yymidaction r (yystack y) (yycontext y1)) = (w, ct)"
    "acts (yycontext y1) ct v' k'"
    using action [of "yycontext y1"] y1(2) by (auto simp: ahead_def Let_def)
  let ?y = "y1\<lparr>yystack := (yygoto r s, w) # (s, w0) # rest, yycontext := ct\<rparr>"
  have "yystep src y = Some (Inr ?y)"
    using assms(4,6,8,9) ct(1) unfolding y1(1) yyreduce_def y1(3) assms(5) by (simp add: yynewstate_def)
  then show ?thesis
    using acts_ahead [OF y1(2) ct(2)] by (intro exI [of _ ?y]) (auto dest: yyloop_step)
qed

text \<open>
  An operand on the stack: the parser has read the tokens, its errors have made the expression invalid
  unless they do not count, and the value is that of the expression.
\<close>

definition operand_read ::
  "bool \<Rightarrow> 's yyparser \<Rightarrow> expression \<Rightarrow> token list \<Rightarrow> bool \<Rightarrow> int \<Rightarrow> 's yyparser \<Rightarrow> i32 \<Rightarrow> bool" where
  "operand_read sg y e ts v k y' w \<longleftrightarrow>
     yyloop src y = yyloop src y' \<and> yystack y' = (expr (fst (hd (yystack y))), w) # yystack y \<and>
     ahead sg y' ts (v \<and> (0 < k \<or> value_of e \<noteq> None)) k \<and> (\<forall>i. value_of e = Some i \<longrightarrow> sint w = i)"

definition parses :: "bool \<Rightarrow> nat \<Rightarrow> expression \<Rightarrow> token list \<Rightarrow> bool" where
  "parses sg p e ts \<longleftrightarrow>
     (\<forall>y t rest v k. ahead sg y (ts @ t # rest) v k \<longrightarrow> fits sg t \<longrightarrow> precedence (symbol t) \<le> p \<longrightarrow> yystack y \<noteq> [] \<longrightarrow>
        fst (hd (yystack y)) \<in> set awaiting \<longrightarrow> level (fst (hd (yystack y))) < p \<longrightarrow> 0 \<le> k \<longrightarrow>
        length (yystack y) + 2 * length ts < YYMAXDEPTH \<longrightarrow>
        (\<exists>y' w. operand_read sg y e (t # rest) v k y' w))"

lemma parsesI:
  assumes "\<And>y t rest s w0 st v k. \<lbrakk>ahead sg y (ts @ t # rest) v k; fits sg t; precedence (symbol t) \<le> p;
    yystack y = (s, w0) # st; s \<in> set awaiting; level s < p; 0 \<le> k; length st + 1 + 2 * length ts < YYMAXDEPTH\<rbrakk> \<Longrightarrow>
    \<exists>y' w. operand_read sg y e (t # rest) v k y' w"
  shows "parses sg p e ts"
  unfolding parses_def
proof (intro allI impI)
  fix y t rest v k
  assume *: "ahead sg y (ts @ t # rest) v k" "fits sg t" "precedence (symbol t) \<le> p" "yystack y \<noteq> []"
    "fst (hd (yystack y)) \<in> set awaiting" "level (fst (hd (yystack y))) < p" "0 \<le> k"
    "length (yystack y) + 2 * length ts < YYMAXDEPTH"
  then show "\<exists>y' w. operand_read sg y e (t # rest) v k y' w"
    by (cases "yystack y") (auto intro!: assms simp del: list.size(4) simp: length_Cons)
qed

lemma parsesE:
  assumes "parses sg p e ts" and "ahead sg y (ts @ t # rest) v k" "fits sg t" "precedence (symbol t) \<le> p"
    "yystack y = (s, w0) # st" "s \<in> set awaiting" "level s < p" "0 \<le> k" "length st + 1 + 2 * length ts < YYMAXDEPTH"
  obtains y' w where "yyloop src y = yyloop src y'" "yystack y' = (expr s, w) # (s, w0) # st"
    "ahead sg y' (t # rest) (v \<and> (0 < k \<or> value_of e \<noteq> None)) k" "\<forall>i. value_of e = Some i \<longrightarrow> sint w = i"
  using assms unfolding parses_def operand_read_def by fastforce

lemma defaults: "decide (Suc 0) t = Reduce 3" "decide 2 t = Reduce 4" "decide 16 t = Reduce 5" "decide 17 t = Reduce 7"
  "decide 34 t = Reduce 29"
  using default_table by (simp_all add: decide_def)

lemma expr_not_15: "s \<in> set awaiting \<Longrightarrow> expr s \<noteq> 15"
  using goto_table by blast

lemma parses_literal:
  assumes "tk_type u = CONST_INT" and "snd (uValue u) = n" and "fits sg u"
  shows "parses sg p (Literal n) [u]"
proof (rule parsesI)
  fix y t rest s w0 st v k
  assume y: "ahead sg y ([u] @ t # rest) v k" "fits sg t" "yystack y = (s, w0) # st" "s \<in> set awaiting"
    "length st + 1 + 2 * length [u] < YYMAXDEPTH"
  have "decide (fst (hd (yystack y))) (symbol u) = Shift 1"
    using y(3,4) assms(1) by (simp add: awaiting_decides symbol_simps prefix_state_def)
  then obtain y1 w where y1: "yyloop src y = yyloop src y1" "yystack y1 = (1, w) # (s, w0) # st" "ahead sg y1 (t # rest) v k"
    "w = of_nat n"
    using shift_step [of sg y u "t # rest" v k 1] y assms by (auto simp: token_value_def)
  have "\<exists>y'. yyloop src y1 = yyloop src y' \<and> yystack y' = (yygoto 3 s, w) # (s, w0) # st \<and> ahead sg y' (t # rest) v k"
    using y y1 length_table expr_not_15 [of s]
    by (intro reduce_step [where st = "[(1, w)]" and v = v]) (auto simp: defaults yyaction_def yymidaction_def acts_def)
  then show "\<exists>y' w. operand_read sg y (Literal n) (t # rest) v k y' w"
    using y1(1,4) y(3) unfolding operand_read_def by auto
qed

lemma parses_name:
  assumes "tk_type u = IDENTIFIER"
  shows "parses sg p Name [u]"
proof (rule parsesI)
  fix y t rest s w0 st v k
  assume y: "ahead sg y ([u] @ t # rest) v k" "fits sg t" "yystack y = (s, w0) # st" "s \<in> set awaiting"
    "length st + 1 + 2 * length [u] < YYMAXDEPTH"
  have "decide (fst (hd (yystack y))) (symbol u) = Shift 2"
    using y(3,4) assms(1) by (simp add: awaiting_decides symbol_simps prefix_state_def)
  then obtain y1 w where y1: "yyloop src y = yyloop src y1" "yystack y1 = (2, w) # (s, w0) # st" "ahead sg y1 (t # rest) v k"
    using shift_step [of sg y u "t # rest" v k 2] y assms by (auto simp: fits_def)
  have act: "\<exists>ct'. yyaction src 4 [w] ct = (w, ct') \<and> acts ct ct' (ct_valid ct \<and> 0 < ct_ignoreErrors ct) (ct_ignoreErrors ct)" for ct
    by (simp add: yyaction_def acts_def isIgnoringErrors_def ct_report_def gives_report)
  have "\<exists>y'. yyloop src y1 = yyloop src y' \<and> yystack y' = (yygoto 4 s, w) # (s, w0) # st \<and> ahead sg y' (t # rest) (v \<and> 0 < k) k"
    using y y1 length_table expr_not_15 [of s] act goto_expr [of s 4]
    by (intro reduce_step [where st = "[(2, w)]" and v = v]) (auto simp: defaults yymidaction_def)
  then show "\<exists>y' w. operand_read sg y Name (t # rest) v k y' w"
    using y1(1) y(3,4) goto_expr [of s 4] unfolding operand_read_def by auto
qed

lemma decide_operand:
  assumes "s \<in> set awaiting" and "precedence (symbol t) \<le> level s" and "s \<noteq> 7"
  shows "decide (expr s) (symbol t) = Reduce (rule_of s)"
  using assms operand_decides [OF assms(1) symbol_less] by (simp add: operand_decision_def)

lemma decide_operator:
  assumes "s \<in> set awaiting" and "level s < precedence (symbol t)"
  shows "decide (expr s) (symbol t) = Shift (symbol t + 11)"
  using assms operand_decides [OF assms(1) symbol_less] by (simp add: operand_decision_def)

lemma fits_operator: "tk_type t \<noteq> CONST_INT \<Longrightarrow> fits sg t"
  by (simp add: fits_def)

lemma unary_operator:
  assumes "tk_type t = unary_type u"
  shows "fits sg t" and "prefix_state (symbol t) = Some (unary_state u)" and "unary_state u \<in> set awaiting"
    and "level (unary_state u) = 10" and "unary_state u \<in> {3, 4, 5, 6}"
  using assms unary_symbol [OF assms]
  by (cases u; simp add: fits_def prefix_state_def awaiting_iff level_def)+

lemma precedence_le: "precedence t \<le> 10"
proof -
  have "\<forall>t \<in> set [0..<23]. precedence t \<le> 10" by code_simp
  then show ?thesis by (cases "t < 23") (auto simp: precedence_def)
qed

lemma rule_plain: "s \<in> set awaiting \<Longrightarrow> rule_of s \<noteq> 5 \<and> rule_of s \<noteq> 7"
proof -
  have "\<forall>s \<in> set awaiting. rule_of s \<noteq> 5 \<and> rule_of s \<noteq> 7" by code_simp
  then show "s \<in> set awaiting \<Longrightarrow> rule_of s \<noteq> 5 \<and> rule_of s \<noteq> 7" by blast
qed

text \<open>The end of an operator: its operands are on the stack, and what follows binds less.\<close>

lemma operator_reduces:
  assumes y: "ahead sg y (t # ts) v k" "fits sg t" and stack: "yystack y = (expr u, w2) # st @ (s, w0) # rest"
    and u: "u \<in> set awaiting" "u \<noteq> 0" "u \<noteq> 7" and t: "precedence (symbol t) \<le> level u"
    and len: "Suc (length st) = nat (yyr2 ! rule_of u)" and s: "s \<in> set awaiting"
    and action: "\<And>ct. ct_valid ct = v \<Longrightarrow> ct_ignoreErrors ct = k \<Longrightarrow>
      \<exists>ct'. yyaction src (rule_of u) (w2 # map snd st) ct = (w, ct') \<and> acts ct ct' v' k'"
    and depth: "length rest + 2 < YYMAXDEPTH"
  shows "\<exists>y'. yyloop src y = yyloop src y' \<and> yystack y' = (expr s, w) # (s, w0) # rest \<and> ahead sg y' (t # ts) v' k'"
proof -
  have g: "yygoto (rule_of u) s = expr s" by (rule goto_rule [OF u s])
  have "\<exists>y'. yyloop src y = yyloop src y' \<and> yystack y' = (yygoto (rule_of u) s, w) # (s, w0) # rest \<and> ahead sg y' (t # ts) v' k'"
  proof (rule reduce_step [OF y])
    show "decide (fst (hd (yystack y))) (symbol t) = Reduce (rule_of u)"
      using decide_operand [OF u(1) t u(3)] stack by simp
    show "rule_of u \<noteq> 2" using rule_apart u by blast
    show "yystack y = ((expr u, w2) # st) @ (s, w0) # rest" using stack by simp
    show "length ((expr u, w2) # st) = nat (yyr2 ! rule_of u)" using len by simp
    show "\<exists>ct'. yyaction src (rule_of u) (map snd ((expr u, w2) # st)) (yymidaction (rule_of u) (yystack y) ct) = (w, ct') \<and>
      acts ct ct' v' k'" if "ct_valid ct = v" "ct_ignoreErrors ct = k" for ct
      using action [OF that] rule_plain [OF u(1)] by (simp add: yymidaction_def)
    show "yygoto (rule_of u) s \<noteq> 15" using expr_not_15 [OF s] g by simp
  qed (rule depth)
  then show ?thesis unfolding g .
qed

lemma acts_same: "ct_valid ct = v \<Longrightarrow> ct_ignoreErrors ct = k \<Longrightarrow> acts ct ct v k"
  by (simp add: acts_def)

lemma parses_unary:
  assumes e: "parses sg 11 e ts" and u: "tk_type u = unary_type o'"
  shows "parses sg p (Unary o' e) (u # ts)"
proof (rule parsesI)
  fix y t rest s w0 st v k
  assume y: "ahead sg y ((u # ts) @ t # rest) v k" "fits sg t" "yystack y = (s, w0) # st" "s \<in> set awaiting" "0 \<le> k"
    "length st + 1 + 2 * length (u # ts) < YYMAXDEPTH"
  let ?u = "unary_state o'"
  note u' = unary_operator [OF u]
  have "decide (fst (hd (yystack y))) (symbol u) = Shift ?u"
    using y(3,4) u' by (simp add: awaiting_decides symbol_less)
  then obtain y1 w1 where y1: "yyloop src y = yyloop src y1" "yystack y1 = (?u, w1) # (s, w0) # st" "ahead sg y1 (ts @ t # rest) v k"
    using shift_step [of sg y u "ts @ t # rest" v k ?u] y u' by auto
  obtain y2 w2 where y2: "yyloop src y1 = yyloop src y2" "yystack y2 = (expr ?u, w2) # (?u, w1) # (s, w0) # st"
    "ahead sg y2 (t # rest) (v \<and> (0 < k \<or> value_of e \<noteq> None)) k" "\<forall>i. value_of e = Some i \<longrightarrow> sint w2 = i"
    using parsesE [OF e y1(3) y(2) _ y1(2) u'(3) _ y(5)] u'(4) y(6) precedence_le [of "symbol t"] by auto
  obtain w where act: "\<And>ct. yyaction src (rule_of ?u) [w2, w1] ct = (w, ct)" "sint w = unary_value o' (sint w2)"
    using unary_action_value [of src o' w2 w1] by fastforce
  have "\<exists>y'. yyloop src y2 = yyloop src y' \<and> yystack y' = (expr s, w) # (s, w0) # st \<and>
      ahead sg y' (t # rest) (v \<and> (0 < k \<or> value_of e \<noteq> None)) k"
  proof (rule operator_reduces [OF y2(3) y(2) _ u'(3)])
    show "yystack y2 = (expr ?u, w2) # [(?u, w1)] @ (s, w0) # st" using y2(2) by simp
    show "Suc (length [(?u, w1)]) = nat (yyr2 ! rule_of ?u)" using length_of_rules(1) [OF u'(5)] by simp
  qed (use u'(4,5) precedence_le [of "symbol t"] y(4,6) act(1) in \<open>auto intro: acts_same\<close>)
  then show "\<exists>y' w. operand_read sg y (Unary o' e) (t # rest) v k y' w"
    using y1(1) y2(1,4) y(3) act(2) unfolding operand_read_def by auto
qed

lemma yyaction_value: "fst (yyaction src r vs ct) = fst (yyaction src r vs ct')"
  by (simp add: yyaction_def Let_def shift_left_def shift_right_def remainder_def quotient_of_def)

lemma binary_acts:
  "\<exists>w. (\<forall>ct. \<exists>ct'. yyaction src (rule_of (symbol_of b + 11)) [w2, x, w1] ct = (w, ct') \<and>
     acts ct ct' (ct_valid ct \<and> (0 < ct_ignoreErrors ct \<or> binary_value b (sint w1) (sint w2) \<noteq> None)) (ct_ignoreErrors ct)) \<and>
   (\<forall>i. binary_value b (sint w1) (sint w2) = Some i \<longrightarrow> sint w = i)"
proof -
  let ?r = "rule_of (symbol_of b + 11)" and ?v = "binary_value b (sint w1) (sint w2)"
  define w where "w = fst (yyaction src ?r [w2, x, w1] undefined)"
  have "\<exists>ct'. yyaction src ?r [w2, x, w1] ct = (w, ct')" for ct
    using yyaction_value [of ?r "[w2, x, w1]" ct undefined] unfolding w_def by (metis surj_pair fst_conv)
  moreover have "acts ct ct' (ct_valid ct \<and> (0 < ct_ignoreErrors ct \<or> ?v \<noteq> None)) (ct_ignoreErrors ct) \<and>
      (\<forall>i. ?v = Some i \<longrightarrow> sint w = i)" if "yyaction src ?r [w2, x, w1] ct = (w, ct')" for ct ct'
    using computes_acts [of ?v ct w ct'] binary_action [of src b w1 w2 ct x] that by simp
  ultimately show ?thesis by meson
qed

lemma parses_binary:
  assumes e: "parses sg (binds b) e ts" and f: "parses sg (Suc (binds b)) f us" and u: "tk_type u = binary_type b"
    and p: "p \<le> binds b"
  shows "parses sg p (Binary b e f) (ts @ u # us)"
proof (rule parsesI)
  fix y t rest s w0 st v k
  assume y: "ahead sg y ((ts @ u # us) @ t # rest) v k" "fits sg t" "precedence (symbol t) \<le> p" "yystack y = (s, w0) # st"
    "s \<in> set awaiting" "level s < p" "0 \<le> k" "length st + 1 + 2 * length (ts @ u # us) < YYMAXDEPTH"
  let ?u = "symbol_of b + 11"
  note sym = binary_symbol [OF u]
  have fu: "fits sg u" using u by (intro fits_operator) (cases b; simp)
  have aw: "?u \<in> set awaiting" "level ?u = binds b" "?u \<noteq> 0" "?u \<noteq> 7"
    using binds_precedence [of b] by (auto simp: awaiting_iff level_def)
  have y1: "ahead sg y (ts @ u # us @ t # rest) v k" using y(1) by simp
  obtain y1 w1 where y1: "yyloop src y = yyloop src y1" "yystack y1 = (expr s, w1) # (s, w0) # st"
    "ahead sg y1 (u # us @ t # rest) (v \<and> (0 < k \<or> value_of e \<noteq> None)) k" "\<forall>i. value_of e = Some i \<longrightarrow> sint w1 = i"
    using parsesE [OF e y1 fu _ y(4,5) _ y(7)] y(6,8) p sym binds_precedence [of b] by auto
  have "decide (fst (hd (yystack y1))) (symbol u) = Shift ?u"
    using decide_operator [OF y(5), of u] y(6) p sym binds_precedence [of b] y1(2) by simp
  then obtain y2 w where y2: "yyloop src y1 = yyloop src y2" "yystack y2 = (?u, w) # (expr s, w1) # (s, w0) # st"
    "ahead sg y2 (us @ t # rest) (v \<and> (0 < k \<or> value_of e \<noteq> None)) k"
    using shift_step [OF y1(3) fu, of ?u] y(8) y1(2) binds_precedence(2) [of b] by auto
  obtain y3 w2 where y3: "yyloop src y2 = yyloop src y3" "yystack y3 = (expr ?u, w2) # (?u, w) # (expr s, w1) # (s, w0) # st"
    "ahead sg y3 (t # rest) ((v \<and> (0 < k \<or> value_of e \<noteq> None)) \<and> (0 < k \<or> value_of f \<noteq> None)) k"
    "\<forall>i. value_of f = Some i \<longrightarrow> sint w2 = i"
    using parsesE [OF f y2(3) y(2) _ y2(2) aw(1) _ y(7)] y(3,8) p aw(2) by auto
  obtain w' where act: "\<And>ct. \<exists>ct'. yyaction src (rule_of ?u) [w2, w, w1] ct = (w', ct') \<and>
     acts ct ct' (ct_valid ct \<and> (0 < ct_ignoreErrors ct \<or> binary_value b (sint w1) (sint w2) \<noteq> None)) (ct_ignoreErrors ct)"
    "\<forall>i. binary_value b (sint w1) (sint w2) = Some i \<longrightarrow> sint w' = i"
    using binary_acts [of b w2 w w1] by blast
  let ?v = "(v \<and> (0 < k \<or> value_of e \<noteq> None)) \<and> (0 < k \<or> value_of f \<noteq> None)"
  have "\<exists>y'. yyloop src y3 = yyloop src y' \<and> yystack y' = (expr s, w') # (s, w0) # st \<and>
      ahead sg y' (t # rest) (?v \<and> (0 < k \<or> binary_value b (sint w1) (sint w2) \<noteq> None)) k"
  proof (rule operator_reduces [OF y3(3) y(2) _ aw(1,3,4)])
    show "yystack y3 = (expr ?u, w2) # [(?u, w), (expr s, w1)] @ (s, w0) # st" using y3(2) by simp
    show "Suc (length [(?u, w), (expr s, w1)]) = nat (yyr2 ! rule_of ?u)"
      using length_of_rules(2) [OF binds_precedence(2,3)] by simp
    show "\<exists>ct'. yyaction src (rule_of ?u) (w2 # map snd [(?u, w), (expr s, w1)]) ct = (w', ct') \<and>
        acts ct ct' (?v \<and> (0 < k \<or> binary_value b (sint w1) (sint w2) \<noteq> None)) k" if "ct_valid ct = ?v" "ct_ignoreErrors ct = k" for ct
      using act(1) [of ct] that by simp
  qed (use aw(2) y(3,5,8) p in auto)
  moreover have "(?v \<and> (0 < k \<or> binary_value b (sint w1) (sint w2) \<noteq> None)) = (v \<and> (0 < k \<or> value_of (Binary b e f) \<noteq> None))"
    using y1(4) y3(4) by (cases "value_of e"; cases "value_of f") auto
  moreover have "\<forall>i. value_of (Binary b e f) = Some i \<longrightarrow> sint w' = i"
    using act(2) y1(4) y3(4) by (auto simp: bind_eq_Some_conv)
  ultimately show "\<exists>y' w. operand_read sg y (Binary b e f) (t # rest) v k y' w"
    using y1(1) y2(1) y3(1) y(4) unfolding operand_read_def by auto
qed

lemma parses_parens:
  assumes e: "parses sg 1 e ts" and l: "tk_type l = LEFT_PAREN" and r: "tk_type r = RIGHT_PAREN"
  shows "parses sg p e (l # ts @ [r])"
proof (rule parsesI)
  fix y t rest s w0 st v k
  assume y: "ahead sg y ((l # ts @ [r]) @ t # rest) v k" "fits sg t" "yystack y = (s, w0) # st" "s \<in> set awaiting" "0 \<le> k"
    "length st + 1 + 2 * length (l # ts @ [r]) < YYMAXDEPTH"
  let ?v = "v \<and> (0 < k \<or> value_of e \<noteq> None)"
  have fl: "fits sg l" "fits sg r" using l r by (simp_all add: fits_def)
  have y0: "ahead sg y (l # ts @ r # t # rest) v k" using y(1) by simp
  have "decide (fst (hd (yystack y))) (symbol l) = Shift 7"
    using y(3,4) l by (simp add: awaiting_decides symbol_simps prefix_state_def)
  then obtain y1 w1 where y1: "yyloop src y = yyloop src y1" "yystack y1 = (7, w1) # (s, w0) # st"
    "ahead sg y1 (ts @ r # t # rest) v k"
    using shift_step [OF y0 fl(1), of 7] y(3,6) by auto
  have aw: "7 \<in> set awaiting" "level 7 = 0" by (simp_all add: awaiting_iff level_def)
  obtain y2 w2 where y2: "yyloop src y1 = yyloop src y2" "yystack y2 = (expr 7, w2) # (7, w1) # (s, w0) # st"
    "ahead sg y2 (r # t # rest) ?v k" "\<forall>i. value_of e = Some i \<longrightarrow> sint w2 = i"
    using parsesE [OF e y1(3) fl(2) _ y1(2) aw(1) _ y(5)] r y(6) aw(2) by (auto simp: symbol_simps precedence_def)
  have "decide (fst (hd (yystack y2))) (symbol r) = Shift 34"
    using operand_decides [OF aw(1) symbol_less [of r]] r y2(2) by (simp add: operand_decision_def symbol_simps precedence_def)
  then obtain y3 w3 where y3: "yyloop src y2 = yyloop src y3" "yystack y3 = (34, w3) # (expr 7, w2) # (7, w1) # (s, w0) # st"
    "ahead sg y3 (t # rest) ?v k"
    using shift_step [OF y2(3) fl(2), of 34] y(6) y2(2) by auto
  have "\<exists>y'. yyloop src y3 = yyloop src y' \<and> yystack y' = (yygoto 29 s, w2) # (s, w0) # st \<and> ahead sg y' (t # rest) ?v k"
  proof (rule reduce_step [OF y3(3) y(2)])
    show "decide (fst (hd (yystack y3))) (symbol t) = Reduce 29" using y3(2) by (simp add: defaults)
    show "yystack y3 = [(34, w3), (expr 7, w2), (7, w1)] @ (s, w0) # st" using y3(2) by simp
    show "length [(34, w3), (expr 7, w2), (7, w1)] = nat (yyr2 ! 29)" using length_of_rules(5) by simp
    show "yygoto 29 s \<noteq> 15" using goto_expr [OF y(4), of 29] expr_not_15 [OF y(4)] by simp
  qed (use y(6) in \<open>auto simp: yyaction_def yymidaction_def intro: acts_same\<close>)
  then show "\<exists>y' w. operand_read sg y e (t # rest) v k y' w"
    using y1(1) y2(1,4) y3(1) y(3) goto_expr [OF y(4), of 29] unfolding operand_read_def by auto
qed

text \<open>The operators \<open>||\<close> and \<open>&&\<close>: their second operand may not count.\<close>

lemma logic_begins:
  fixes r q :: nat
  assumes y: "ahead sg y (u # u' # ts) v k" and fits: "fits sg u" "fits sg u'"
    and stack: "yystack y = (expr s, w1) # (s, w0) # st" and s: "s \<in> set awaiting" "level s < precedence (symbol u)"
    and depth: "length st + 4 < YYMAXDEPTH"
    and logic: "symbol u = 5 \<and> r = 5 \<and> q = 35 \<or> symbol u = 6 \<and> r = 7 \<and> q = 36"
    and k': "k' = (if (w1 \<noteq> 0) = (r = 5) then k + 1 else k)"
  shows "\<exists>y' w w'. yyloop src y = yyloop src y' \<and>
    yystack y' = (q, w) # (symbol u + 11, w') # (expr s, w1) # (s, w0) # st \<and> ahead sg y' (u' # ts) v k'"
proof -
  have "decide (fst (hd (yystack y))) (symbol u) = Shift (symbol u + 11)"
    using decide_operator [OF s] stack by simp
  then obtain y1 w' where y1: "yyloop src y = yyloop src y1"
    "yystack y1 = (symbol u + 11, w') # (expr s, w1) # (s, w0) # st" "ahead sg y1 (u' # ts) v k"
    using shift_step [OF y fits(1), of "symbol u + 11"] stack depth logic by auto
  have "\<exists>y'. yyloop src y1 = yyloop src y' \<and>
      yystack y' = (yygoto r (symbol u + 11), 0) # (symbol u + 11, w') # (expr s, w1) # (s, w0) # st \<and> ahead sg y' (u' # ts) v k'"
  proof (rule reduce_step [OF y1(3) fits(2)])
    show "decide (fst (hd (yystack y1))) (symbol u') = Reduce r" using y1(2) logic by (auto simp: defaults)
    show "yystack y1 = [] @ (symbol u + 11, w') # (expr s, w1) # (s, w0) # st" using y1(2) by simp
    show "length [] = nat (yyr2 ! r)" using logic length_table by auto
    show "\<exists>ct'. yyaction src r (map snd []) (yymidaction r (yystack y1) ct) = (0, ct') \<and> acts ct ct' v k'"
      if "ct_valid ct = v" "ct_ignoreErrors ct = k" for ct
      using that logic k' y1(2) by (auto simp: yyaction_def yymidaction_def startIgnoreErrors_def acts_def)
    show "yygoto r (symbol u + 11) \<noteq> 15" using logic logic_table by auto
  qed (use logic depth in auto)
  then show ?thesis using y1(1) logic logic_table by auto
qed

lemma logic_ends:
  assumes "ct_ignoreErrors ct = (if (w1 \<noteq> 0) = (q = 35) then k + 1 else k)" and "q = 35 \<or> q = 36"
  shows "\<exists>ct'. yyaction src (rule_of q) [w2, x, x', w1] ct =
      (if (w1 \<noteq> 0) = (q = 35) then truth (w1 \<noteq> 0) else truth (w2 \<noteq> 0), ct') \<and> acts ct ct' (ct_valid ct) k"
  using assms(2) assms(1)
  by (elim disjE; cases "w1 = 0"; simp add: rule_of_def yyaction_def truth_def endIgnoreErrors_def acts_def)

lemma phrase_first: "phrase sg p e ts \<Longrightarrow> \<exists>u us. ts = u # us \<and> fits sg u"
proof (induction rule: phrase.induct)
  case (unary e ts t u p)
  then show ?case by (cases u) (auto simp: fits_def)
qed (auto simp: fits_def)

lemma parses_logic:
  assumes e: "parses sg n e ts" and f: "parses sg (Suc n) f us" and us: "us = u' # us'" "fits sg u'"
    and logic: "n = 1 \<and> tk_type u = OP_OR \<and> mk = Either \<or> n = 2 \<and> tk_type u = OP_AND \<and> mk = Both"
    and p: "p \<le> n" and ts: "ts \<noteq> []"
  shows "parses sg p (mk e f) (ts @ u # us)"
proof (rule parsesI)
  fix y t rest s w0 st v k
  assume y: "ahead sg y ((ts @ u # us) @ t # rest) v k" "fits sg t" "precedence (symbol t) \<le> p" "yystack y = (s, w0) # st"
    "s \<in> set awaiting" "level s < p" "0 \<le> k" "length st + 1 + 2 * length (ts @ u # us) < YYMAXDEPTH"
  define q where "q = (if n = 1 then 35 else 36 :: nat)"
  define r where "r = (if n = 1 then 5 else 7 :: nat)"
  have q: "q = 35 \<or> q = 36" "q \<in> set awaiting" "level q = n" "q \<noteq> 0" "q \<noteq> 7" "nat (yyr2 ! rule_of q) = 4"
    "(q = 35) = (r = 5)" and fu: "fits sg u" and n: "precedence (symbol u) = n"
    using logic length_of_rules(3,4)
    by (auto simp: q_def r_def awaiting_iff level_def fits_def symbol_simps precedence_def)
  have ts1: "1 \<le> length ts" using ts by (cases ts) auto
  have y0: "ahead sg y (ts @ u # us @ t # rest) v k" using y(1) by simp
  let ?v = "v \<and> (0 < k \<or> value_of e \<noteq> None)"
  obtain y1 w1 where y1: "yyloop src y = yyloop src y1" "yystack y1 = (expr s, w1) # (s, w0) # st"
    "ahead sg y1 (u # us @ t # rest) ?v k" "\<forall>i. value_of e = Some i \<longrightarrow> sint w1 = i"
    using parsesE [OF e y0 fu _ y(4,5) _ y(7)] y(6,8) p n by auto
  define k' where "k' = (if (w1 \<noteq> 0) = (r = 5) then k + 1 else k)"
  obtain y2 x x' where y2: "yyloop src y1 = yyloop src y2"
    "yystack y2 = (q, x) # (symbol u + 11, x') # (expr s, w1) # (s, w0) # st" "ahead sg y2 (us @ t # rest) ?v k'"
    using logic_begins [of sg y1 u u' "us' @ t # rest" ?v k s w1 w0 st r q k'] y1 y us fu n p logic ts1
    by (auto simp: q_def r_def k'_def symbol_simps)
  have "0 \<le> k'" using y(7) by (simp add: k'_def)
  then obtain y3 w2 where y3: "yyloop src y2 = yyloop src y3"
    "yystack y3 = (expr q, w2) # (q, x) # (symbol u + 11, x') # (expr s, w1) # (s, w0) # st"
    "ahead sg y3 (t # rest) (?v \<and> (0 < k' \<or> value_of f \<noteq> None)) k'" "\<forall>i. value_of f = Some i \<longrightarrow> sint w2 = i"
    using parsesE [OF f y2(3) y(2) _ y2(2) q(2)] y(3,8) p q(3) ts1 by auto
  let ?w = "if (w1 \<noteq> 0) = (q = 35) then truth (w1 \<noteq> 0) else truth (w2 \<noteq> 0)"
  have "\<exists>y'. yyloop src y3 = yyloop src y' \<and> yystack y' = (expr s, ?w) # (s, w0) # st \<and>
      ahead sg y' (t # rest) (?v \<and> (0 < k' \<or> value_of f \<noteq> None)) k"
  proof (rule operator_reduces [OF y3(3) y(2) _ q(2,4,5)])
    show "yystack y3 = (expr q, w2) # [(q, x), (symbol u + 11, x'), (expr s, w1)] @ (s, w0) # st" using y3(2) by simp
    show "\<exists>ct'. yyaction src (rule_of q) (w2 # map snd [(q, x), (symbol u + 11, x'), (expr s, w1)]) ct = (?w, ct') \<and>
        acts ct ct' (?v \<and> (0 < k' \<or> value_of f \<noteq> None)) k"
      if "ct_valid ct = (?v \<and> (0 < k' \<or> value_of f \<noteq> None))" "ct_ignoreErrors ct = k'" for ct
      using logic_ends [of ct w1 q k w2 x x'] that q(1,7) by (simp add: k'_def)
  qed (use q y(3,5,8) p in auto)
  moreover have "(?v \<and> (0 < k' \<or> value_of f \<noteq> None)) = (v \<and> (0 < k \<or> value_of (mk e f) \<noteq> None))"
    and "\<forall>i. value_of (mk e f) = Some i \<longrightarrow> sint ?w = i"
    using y1(4) y3(4) logic y(7) by (auto simp: k'_def q_def r_def sint_eq bind_eq_Some_conv split: if_splits)
  ultimately show "\<exists>y' w. operand_read sg y (mk e f) (t # rest) v k y' w"
    using y1(1) y2(1) y3(1) y(4) unfolding operand_read_def by auto
qed

theorem phrase_parses: "phrase sg p e ts \<Longrightarrow> parses sg p e ts"
proof (induction rule: phrase.induct)
  case (either e ts f us t p)
  then show ?case
    using parses_logic [of sg 1 e ts f us _ _ t Either p] phrase_first [of sg 2 f us] phrase_first [of sg 1 e ts]
    by (auto simp: numeral_2_eq_2)
next
  case (both e ts f us t p)
  then show ?case
    using parses_logic [of sg 2 e ts f us _ _ t Both p] phrase_first [of sg 3 f us] phrase_first [of sg 2 e ts]
    by (auto simp: numeral_3_eq_3)
qed (auto intro: parses_literal parses_name parses_parens parses_unary parses_binary)

lemma parse_value:
  assumes e: "phrase (integerLiteralsMustFit32BitSignedRange es) 1 e ts" and len: "length ts < 5000"
    and t: "precedence (symbol t) = 0" "fits (integerLiteralsMustFit32BitSignedRange es) t"
    and s: "if preset then u # us = ts @ t # rest \<and> gives s us else gives s (ts @ t # rest)"
  shows "\<exists>w s'. parseExpression src u result preset es valid s = Some (True, t, w, valid \<and> value_of e \<noteq> None, s') \<and>
    gives s' rest \<and> (\<forall>i. value_of e = Some i \<longrightarrow> sint w = i)"
proof -
  let ?sg = "integerLiteralsMustFit32BitSignedRange es"
  let ?ct = "\<lparr>ct_source = s, ct_token = u, ct_result = result, ct_parsePresetToken = preset, ct_errorSettings = es,
    ct_valid = valid, ct_ignoreErrors = 0\<rparr>"
  let ?y = "\<lparr>yystack = [(0, 0)], yychar = None, yylval = 0, yycontext = ?ct\<rparr>"
  have aw: "0 \<in> set awaiting" "level 0 = 0" by (simp_all add: awaiting_iff level_def)
  have "ts @ t # rest \<noteq> []" by simp
  then have y: "ahead ?sg ?y (ts @ t # rest) valid 0"
    using s by (auto simp: ahead_def split: if_splits) (metis list.sel(1,3))+
  obtain y' w where y': "yyloop src ?y = yyloop src y'" "yystack y' = (expr 0, w) # [(0, 0)]"
    "ahead ?sg y' (t # rest) (valid \<and> (0 < (0::int) \<or> value_of e \<noteq> None)) 0" "\<forall>i. value_of e = Some i \<longrightarrow> sint w = i"
    using parsesE [OF phrase_parses [OF e] y t(2), of 0 0 "[]"] aw t(1) len by (auto simp: YYMAXDEPTH_def)
  have d: "decide (expr 0) (symbol t) = Reduce 2"
    using decide_operand [OF aw(1), of t] t(1) by (simp add: rule_of_def)
  have "\<not> yypact_value_is_default (expr 0)" by code_simp
  then obtain z where z: "yystep src y' = yyact src (Reduce 2) z" "ahead ?sg z (t # rest) (valid \<and> value_of e \<noteq> None) 0"
      "yystack z = yystack y'" "yychar z \<noteq> None"
    using lookahead_ahead [OF y'(3) t(2)] d y'(2) by (auto simp: yystep_def decide_def symbol_def)
  have "yyloop src y' = Some (0, (yycontext z)\<lparr>ct_result := w\<rparr>)"
    using z(1,3) y'(2) length_table by (subst yyloop.simps) (simp add: yyact_def yyreduce_def)
  then show ?thesis
    using y'(1,4) z(2,4) by (auto simp: parseExpression_def yyparse_def ahead_def Let_def)
qed

end

end
