(* ===== verification/Pp_Conditions.thy ===== *)
theory Pp_Conditions
  imports Pp_Expander_Props Pp_Expression_Value
begin

text \<open>
  The conditions of \<open>#if\<close> and \<open>#elif\<close>, and the numbers of \<open>#line\<close>: the expression parser on a macro expander
  on the tokens of a line. This theory puts the parts together.
\<close>

section \<open>Reports do not change what a text stands for\<close>

lemma replacementOf_report [simp]: "replacementOf (report d l s sh) i t = replacementOf sh i t"
  by (simp add: replacementOf_def report_def)

lemma macroOf_report [simp]: "macroOf (report d l s sh) t = macroOf sh t"
  by (simp add: macroOf_def report_def)

lemma expandObjects_report [simp]: "expandObjects (report d l s sh) hidden ts = expandObjects sh hidden ts"
proof (induction sh hidden ts rule: expandObjects.induct)
  case (2 sh hidden t ts)
  then show ?case by (auto split: option.splits)
qed simp

lemma off_report [simp]: "off (report d l s sh) = off sh"
  by (simp add: off_def report_def)

lemma resolve_report [simp]: "resolve pd (report d l s sh) ts = resolve pd sh ts"
proof -
  have "resolveDefined (report d l s sh) ts = resolveDefined sh ts"
    by (induction sh ts rule: resolveDefined.induct) (auto simp: defined_value_def report_def split: list.splits)
  then show ?thesis by (simp add: resolve_def)
qed

lemma newline_free_macros_report [simp]: "newline_free_macros (report d l s sh) = newline_free_macros sh"
  by (simp add: newline_free_macros_def report_def)

lemma pending_report [simp]: "pending (report d l s sh) cs = pending sh cs"
  by (induction cs) simp_all

lemma marked_report: "marked (report d l s sh) js = report d l s (marked sh js)"
  by (simp add: marked_def report_def)

lemma x_inv_report: "x_inv (report d l s sh) x = x_inv sh x"
  by (simp add: x_inv_def base_inv_def)

context listing
begin

lemma expanding_report:
  assumes "expanding_objects pd sh ts us x"
  shows "expanding_objects pd (report d l s sh) ts us (x_report d l s x) \<and>
    to_come (report d l s sh) (x_report d l s x) us = to_come sh x us"
proof -
  have "ids (x_report d l s x) = ids x" by (simp add: ids_def)
  moreover have "mShared (x_report d l s x) = report d l s (mShared x)" by (simp add: x_report_def)
  ultimately show ?thesis
    using assms by (simp add: expanding_objects_def listing_inv_def marked_report to_come_def x_inv_report)
qed

definition gives_expanded :: "bool \<Rightarrow> 'l expander \<Rightarrow> token list \<Rightarrow> bool" where
  "gives_expanded pd x vs \<longleftrightarrow> (\<exists>sh ts us. expanding_objects pd sh ts us x \<and> to_come sh x us = vs)"

end

sublocale listing \<subseteq> texts: expression_source "expander_source lx es depth" "gives_expanded (mParseDefined es)"
  for es depth
proof unfold_locales
  fix x t vs
  assume "gives_expanded (mParseDefined es) x (t # vs)"
  then obtain sh ts us where "expanding_objects (mParseDefined es) sh ts us x" "to_come sh x us = t # vs"
    by (auto simp: gives_expanded_def)
  then obtain x' ts' us' where "x_lex lx es depth x = Some (t, x')" "expanding_objects (mParseDefined es) sh ts' us' x'"
    "to_come sh x' us' = vs"
    using x_lex_objects [of es sh ts us x t vs depth] by blast
  then show "\<exists>x'. ts_lex (expander_source lx es depth) x = Some (t, x') \<and> gives_expanded (mParseDefined es) x' vs"
    by (auto simp: expander_source_def gives_expanded_def)
next
  fix x vs d l s
  assume "gives_expanded (mParseDefined es) x vs"
  then show "gives_expanded (mParseDefined es) (ts_report (expander_source lx es depth) d l s x) vs"
    using expanding_report by (auto simp: expander_source_def gives_expanded_def) blast
qed

text \<open>The same for other reports as a whole.\<close>

lemma diags_expandObjects [simp]: "expandObjects (sh\<lparr>diags := ds\<rparr>) hidden ts = expandObjects sh hidden ts"
proof (induction sh hidden ts rule: expandObjects.induct)
  case (2 sh hidden t ts)
  then show ?case by (auto simp: macroOf_def replacementOf_def split: option.splits)
qed simp

lemma diags_off [simp]: "off (sh\<lparr>diags := ds\<rparr>) = off sh"
  by (simp add: off_def)

lemma diags_resolve [simp]: "resolve pd (sh\<lparr>diags := ds\<rparr>) ts = resolve pd sh ts"
proof -
  have "resolveDefined (sh\<lparr>diags := ds\<rparr>) ts = resolveDefined sh ts"
    by (induction sh ts rule: resolveDefined.induct) (auto simp: defined_value_def split: list.splits)
  then show ?thesis by (simp add: resolve_def)
qed

lemma resolveDefined_append:
  "resolveDefined sh ts = Some us \<Longrightarrow> \<not> is_defined t \<Longrightarrow> resolveDefined sh (ts @ [t]) = Some (us @ [t])"
proof (induction "length ts" arbitrary: ts us rule: less_induct)
  case less
  show ?case
  proof (cases ts)
    case (Cons u rest)
    show ?thesis
    proof (cases "is_defined u")
      case False
      then show ?thesis using less.prems less.hyps [of rest] Cons by auto
    next
      case True
      then obtain n ns where rest: "rest = n # ns" using less.prems(1) Cons by (cases rest) auto
      show ?thesis
      proof (cases "tk_type n = IDENTIFIER")
        case i: True
        then show ?thesis using less.prems less.hyps [of ns] Cons rest True by auto
      next
        case i: False
        then obtain m r ms where "ns = m # r # ms" "tk_type n = LEFT_PAREN" "tk_type m = IDENTIFIER" "tk_type r = RIGHT_PAREN"
          using less.prems(1) Cons rest True by (auto split: list.splits if_splits)
        then show ?thesis using less.prems less.hyps [of ms] Cons rest True by auto
      qed
    qed
  qed (use less.prems in simp)
qed

lemma resolve_append: "resolve pd sh ts = Some us \<Longrightarrow> \<not> is_defined t \<Longrightarrow> resolve pd sh (ts @ [t]) = Some (us @ [t])"
  by (auto simp: resolve_def resolveDefined_append split: if_splits)

lemma end_of_line_symbol:
  "tk_type t = NEWLINE \<Longrightarrow> symbol t = 0" "tk_type t = LAST \<Longrightarrow> symbol t = 0"
  by (simp_all add: symbol_def token_code_def token_codes_def YYTRANSLATE_def yytranslate_def)

lemma end_of_line_token:
  assumes "tk_type t \<in> {NEWLINE, LAST}"
  shows "\<not> is_defined t" and "precedence (symbol t) = 0" and "fits sg t" and "expandObjects sh hidden [t] = [t]"
  using assms end_of_line_symbol [of t]
  by (auto simp: is_defined_def precedence_def fits_def macroOf_def)

context listing
begin

lemma condition_value:
  assumes "wf_shared sh" and "gives l (ts @ [t])" and "\<forall>m \<in> set (store sh). object_macro (mParseDefined es) m"
    and "resolve (mParseDefined es) sh ts = Some us"
    and "phrase (integerLiteralsMustFit32BitSignedRange settings) 1 e (expandObjects sh (off sh) us)"
    and "length (expandObjects sh (off sh) us) < 5000" and t: "tk_type t \<in> {NEWLINE, LAST}"
  shows "\<exists>w x. parseExpression (expander_source lx es depth) t0 result False settings valid (MacroExpander l sh)
      = Some (True, t, w, valid \<and> value_of e \<noteq> None, x) \<and> (\<forall>i. value_of e = Some i \<longrightarrow> sint w = i)"
proof -
  have "resolve (mParseDefined es) sh (ts @ [t]) = Some (us @ [t])"
    using assms(4) by (intro resolve_append end_of_line_token t)
  from starting_objects [OF assms(1,2) this assms(3)]
  have "gives_expanded (mParseDefined es) (MacroExpander l sh) (expandObjects sh (off sh) us @ t # [])"
    unfolding gives_expanded_def expandObjects_append end_of_line_token(4) [OF t] by blast
  then show ?thesis
    using texts.parse_value [OF assms(5,6) end_of_line_token(2,3) [OF t], of False] by fastforce
qed

end

section \<open>A condition and the end of its line\<close>

text \<open>
  When the tokens end with the end of the line, the expander has nothing left behind it: no macro is being
  expanded, and the macros are what they were. The shared part is known up to its reports.
\<close>

context listing
begin

definition gives_line :: "shared \<Rightarrow> bool \<Rightarrow> 'l expander \<Rightarrow> token list \<Rightarrow> bool" where
  "gives_line sh pd x vs \<longleftrightarrow>
     newline_free_macros sh \<and>
     (if vs = [] then mContextStack x = [] else tk_type (last vs) = NEWLINE) \<and>
     (\<exists>ds ts us. expanding_objects pd (sh\<lparr>diags := ds\<rparr>) ts us x \<and> to_come (sh\<lparr>diags := ds\<rparr>) x us = vs)"

lemma gives_line_source:
  "expression_source (expander_source lx es depth) (gives_line sh (mParseDefined es))"
proof unfold_locales
  fix x t vs
  assume "gives_line sh (mParseDefined es) x (t # vs)"
  then obtain ds ts us where x: "newline_free_macros sh" "tk_type (last (t # vs)) = NEWLINE"
    "expanding_objects (mParseDefined es) (sh\<lparr>diags := ds\<rparr>) ts us x" "to_come (sh\<lparr>diags := ds\<rparr>) x us = t # vs"
    by (auto simp: gives_line_def)
  then have "newline_free_macros (sh\<lparr>diags := ds\<rparr>)" by (simp add: newline_free_macros_def)
  with x_lex_objects [OF x(3,4), of depth] obtain x' ts' us' where "x_lex lx es depth x = Some (t, x')"
    "expanding_objects (mParseDefined es) (sh\<lparr>diags := ds\<rparr>) ts' us' x'" "to_come (sh\<lparr>diags := ds\<rparr>) x' us' = vs"
    "tk_type t = NEWLINE \<longrightarrow> mContextStack x' = []"
    by blast
  then show "\<exists>x'. ts_lex (expander_source lx es depth) x = Some (t, x') \<and> gives_line sh (mParseDefined es) x' vs"
    using x(1,2) by (auto simp: expander_source_def gives_line_def split: if_splits)
next
  fix x vs d l s
  assume "gives_line sh (mParseDefined es) x vs"
  then obtain ds ts us where x: "newline_free_macros sh" "if vs = [] then mContextStack x = [] else tk_type (last vs) = NEWLINE"
    "expanding_objects (mParseDefined es) (sh\<lparr>diags := ds\<rparr>) ts us x" "to_come (sh\<lparr>diags := ds\<rparr>) x us = vs"
    unfolding gives_line_def by blast
  have "report d l s (sh\<lparr>diags := ds\<rparr>) = sh\<lparr>diags := ds @ [(d, l, s)]\<rparr>" by (simp add: report_def)
  moreover have "mContextStack (x_report d l s x) = mContextStack x" by simp
  ultimately show "gives_line sh (mParseDefined es) (ts_report (expander_source lx es depth) d l s x) vs"
    using x(1,2) expanding_report [OF x(3), of d l s] x(4) unfolding gives_line_def
    by (intro conjI exI [of _ "ds @ [(d, l, s)]"] exI [of _ ts] exI [of _ us]) (simp_all add: expander_source_def)
qed

lemma condition_line:
  assumes "wf_shared sh" and "gives l (ts @ [t])" and "\<forall>m \<in> set (store sh). object_macro (mParseDefined es) m"
    and "resolve (mParseDefined es) sh ts = Some us"
    and "phrase (integerLiteralsMustFit32BitSignedRange settings) 1 e (expandObjects sh (off sh) us)"
    and "length (expandObjects sh (off sh) us) < 5000" and t: "tk_type t = NEWLINE" and "newline_free_macros sh"
  shows "\<exists>w x ds ts' us'. parseExpression (expander_source lx es depth) t0 result False settings valid (MacroExpander l sh)
      = Some (True, t, w, valid \<and> value_of e \<noteq> None, x) \<and> (\<forall>i. value_of e = Some i \<longrightarrow> sint w = i) \<and>
      gives (mLexer x) ts' \<and> resolve (mParseDefined es) sh ts' = Some us' \<and> expandObjects sh (off sh) us' = [] \<and>
      mShared x = sh\<lparr>diags := ds\<rparr>"
proof -
  have e: "tk_type t \<in> {NEWLINE, LAST}" using t by simp
  have "resolve (mParseDefined es) sh (ts @ [t]) = Some (us @ [t])"
    using assms(4) by (intro resolve_append end_of_line_token e)
  from starting_objects [OF assms(1,2) this assms(3)]
  have "gives_line sh (mParseDefined es) (MacroExpander l sh) (expandObjects sh (off sh) us @ t # [])"
    using assms(8) t unfolding gives_line_def expandObjects_append end_of_line_token(4) [OF e]
    by (intro conjI exI [of _ "diags sh"] exI [of _ "ts @ [t]"] exI [of _ "us @ [t]"]) simp_all
  then obtain w x where w: "parseExpression (expander_source lx es depth) t0 result False settings valid (MacroExpander l sh)
      = Some (True, t, w, valid \<and> value_of e \<noteq> None, x)" "gives_line sh (mParseDefined es) x []"
      "\<forall>i. value_of e = Some i \<longrightarrow> sint w = i"
    using expression_source.parse_value [OF gives_line_source assms(5,6) end_of_line_token(2,3) [OF e], of False] by fastforce
  then obtain ds ts' us' where x: "mContextStack x = []" "expanding_objects (mParseDefined es) (sh\<lparr>diags := ds\<rparr>) ts' us' x"
      "to_come (sh\<lparr>diags := ds\<rparr>) x us' = []"
    by (auto simp: gives_line_def)
  have "resolve (mParseDefined es) sh ts' = Some us'" "gives (mLexer x) ts'" "mShared x = sh\<lparr>diags := ds\<rparr>"
    using x(1,2) by (simp_all add: expanding_objects_def listing_inv_def ids_def)
  moreover have "expandObjects sh (off sh) us' = []"
    using x(1,3) by (simp add: to_come_def)
  ultimately show ?thesis using w(1,3) by blast
qed

end

section \<open>Properties\<close>

text \<open>
  C26. The expression parser always returns, whatever the tokens of the lexer, the macros and the settings:
  its automaton never reads below its stack, never finds a state without a successor and does not loop,
  not even on errors. Macros keep their definitions, and the lexer is not read behind its end.
\<close>

theorem expression_parser_returns:
  assumes "lexer lx ok left grows" and "wf_shared sh" and "ok l"
  shows "\<exists>ret t' v valid' x. parseExpression (expander_source lx es depth) t result preset settings valid (MacroExpander l sh)
      = Some (ret, t', v, valid', x) \<and> evolves sh (mShared x) \<and> left (mLexer x) \<le> left l"
  using lexer.condition_ok [OF assms, of es depth t result preset settings valid] x_inv_evolves
    lexer.expander_ok_def [OF assms(1), of sh "MacroExpander l sh"] lexer.not_after_def [OF assms(1)]
  by (fastforce simp: MacroExpander_def)

text \<open>The tokens of \<open>(1 && ( ~\<close>, which are no expression.\<close>

theorem expression_parser_returns_witness:
  "\<exists>ret t' v valid' x.
     parseExpression (expander_source TokenLexer \<lparr>es_webgl = True, mParseDefined = True\<rparr> 1000) reset_token 0 False
       \<lparr>unexpectedIdentifier = PP_CONDITIONAL_UNEXPECTED_TOKEN, integerLiteralsMustFit32BitSignedRange = False\<rparr> True
       (MacroExpander [char_token LEFT_PAREN, reset_token\<lparr>tk_type := CONST_INT, tk_text := ''1''\<rparr>, char_token OP_AND,
          char_token LEFT_PAREN, char_token 126] recursive_macros) = Some (ret, t', v, valid', x) \<and>
     evolves recursive_macros (mShared x) \<and> length (mLexer x) \<le> 5"
  using expression_parser_returns [OF tokens.lexer_axioms recursive_macros_ok,
      of "[char_token LEFT_PAREN, reset_token\<lparr>tk_type := CONST_INT, tk_text := ''1''\<rparr>, char_token OP_AND,
          char_token LEFT_PAREN, char_token 126]"]
  by (simp add: char_token_def numeral_eq_Suc)


text \<open>The condition \<open>defined(A) && B << 2 == 8 || 1 / 0\<close> with the macros \<open>A\<close>, empty, and \<open>B\<close>, the number 2.\<close>

definition int_token :: "string \<Rightarrow> token" where
  "int_token s = reset_token\<lparr>tk_type := CONST_INT, tk_text := s\<rparr>"

definition condition_macros :: shared where
  "condition_macros =
     \<lparr>store = [Macro\<lparr>mc_name := ''A''\<rparr>, Macro\<lparr>mc_name := ''B'', replacements := [int_token ''2'']\<rparr>],
      macroSet = [''A'' \<mapsto> 0, ''B'' \<mapsto> 1], diags = []\<rparr>"

definition condition_tokens :: "token list" where
  "condition_tokens =
     [ident_token ''defined'', char_token LEFT_PAREN, ident_token ''A'', char_token RIGHT_PAREN, char_token OP_AND,
      ident_token ''B'', char_token OP_LEFT, int_token ''2'', char_token OP_EQ, int_token ''8'', char_token OP_OR,
      int_token ''1'', char_token 47, int_token ''0'']"

definition condition_text :: "token list" where
  "condition_text =
     ([int_token ''1''] @ char_token OP_AND # ([int_token ''2''] @ char_token OP_LEFT # [int_token ''2'']) @
       char_token OP_EQ # [int_token ''8'']) @ char_token OP_OR # [int_token ''1''] @ char_token 47 # [int_token ''0'']"

lemma condition_macros_off: "off condition_macros = {}"
  by (auto simp: off_def condition_macros_def Macro_def nth_Cons' split: if_splits)

lemma condition_tokens_expanded:
  "\<exists>us. resolve True condition_macros condition_tokens = Some us \<and>
     expandObjects condition_macros (off condition_macros) us = condition_text"
  unfolding condition_macros_off
  by (simp add: condition_tokens_def condition_text_def resolve_def is_defined_def defined_value_def ident_token_def char_token_def
      int_token_def condition_macros_def macroOf_def replacementOf_def objectReplacements_def Macro_def
        expansionDisabled_def reset_token_def setHasLeadingSpace_def setAtStartOfLine_def set_flag_def
        setExpansionDisabled_def hasLeadingSpace_def atStartOfLine_def SourceLocation_def)

lemma literal_token:
  assumes "(c, n) \<in> {(CHR ''0'', 0), (CHR ''1'', 1), (CHR ''2'', 2), (CHR ''8'', 8)}"
  shows "phrase False p (Literal n) [int_token [c]]"
proof -
  have "uValue (int_token [c]) = (True, n)"
    using assms
    by (auto simp: uValue_def int_token_def reset_token_def numeric_lex_int_def number_value_def number_digits_def
        numeric_base_int_def hex_digit_value_def)
  then show ?thesis
    by (intro phrase.literal) (simp_all add: fits_def int_token_def)
qed

lemma condition_phrase:
  "phrase False 1 (Either (Both (Literal 1) (Binary Equal (Binary ShiftLeft (Literal 2) (Literal 2)) (Literal 8)))
     (Binary Divide (Literal 1) (Literal 0))) condition_text"
  unfolding condition_text_def
  by (intro phrase.either phrase.both phrase.binary literal_token) (simp_all add: char_token_def)


end
