(* ===== verification/Pp_Directives.thy ===== *)
theory Pp_Directives
  imports Pp_Expression_Ends "HOL-Library.Monad_Syntax"
begin

text \<open>
  \<open>DirectiveParser\<close> (src/src/compiler/preprocessor/DirectiveParser.{h,cpp}): the lexer between the tokenizer
  and the macro expander. It executes the directives and drops the groups that conditions exclude.

  The tokenizer is a parameter: the three operations the parser calls. The calls of the directive handler,
  an interface of the client, are collected in the order of the calls. A state is that of the parser with
  the token and what all parts of the preprocessor share; an operation is \<^term>\<open>None\<close> if it does not
  end. The theory Pp_Directives_Ends shows that this never happens.
\<close>

section \<open>State\<close>

datatype shader_spec =
  SH_GLES2_SPEC | SH_WEBGL_SPEC | SH_GLES3_SPEC | SH_WEBGL2_SPEC | SH_GLES3_1_SPEC | SH_WEBGL3_SPEC |
  SH_GL_CORE_SPEC | SH_GL_COMPATIBILITY_SPEC

definition IsWebGLBasedSpec :: "shader_spec \<Rightarrow> bool" where
  "IsWebGLBasedSpec spec \<longleftrightarrow> spec = SH_WEBGL_SPEC \<or> spec = SH_WEBGL2_SPEC \<or> spec = SH_WEBGL3_SPEC"

definition IsDesktopGLSpec :: "shader_spec \<Rightarrow> bool" where
  "IsDesktopGLSpec spec \<longleftrightarrow> spec = SH_GL_CORE_SPEC \<or> spec = SH_GL_COMPATIBILITY_SPEC"

record preprocessor_settings =
  maxMacroExpansionDepth :: nat
  shaderSpec :: shader_spec

definition PreprocessorSettings :: "shader_spec \<Rightarrow> preprocessor_settings" where
  "PreprocessorSettings spec = \<lparr>maxMacroExpansionDepth = 1000, shaderSpec = spec\<rparr>"

text \<open>The settings of a macro expander with the flag of its constructor.\<close>

definition expanderSettings :: "preprocessor_settings \<Rightarrow> bool \<Rightarrow> expander_settings" where
  "expanderSettings st parseDefined =
     \<lparr>es_webgl = IsWebGLBasedSpec (shaderSpec st), mParseDefined = parseDefined\<rparr>"

record 'l tokenizer_class =
  tc_lex :: "'l lexer"
  tc_setLineNumber :: "int \<Rightarrow> 'l \<Rightarrow> 'l"
  tc_setFileNumber :: "int \<Rightarrow> 'l \<Rightarrow> 'l"

datatype directive_event =
  handleError source_location string
| handlePragma source_location string string bool
| handleExtension source_location string string
| handleVersion source_location int shader_spec

record conditional_block =
  cb_type :: string
  cb_location :: source_location
  skipBlock :: bool
  skipGroup :: bool
  foundValidGroup :: bool
  foundElseGroup :: bool

text \<open>The head of the list is the back of the vector.\<close>

record 'l directive_parser =
  mPastFirstStatement :: bool
  mSeenNonPreprocessorToken :: bool
  mConditionalStack :: "conditional_block list"
  mTokenizer :: 'l
  mShaderVersion :: int
  mDirectiveHandler :: "directive_event list"

record 'l directive_state = "'l directive_parser" +
  ds_token :: token
  ds_shared :: shared

definition DirectiveParser :: "'l \<Rightarrow> 'l directive_parser" where
  "DirectiveParser l =
     \<lparr>mPastFirstStatement = False, mSeenNonPreprocessorToken = False, mConditionalStack = [], mTokenizer = l,
      mShaderVersion = 100, mDirectiveHandler = []\<rparr>"

section \<open>Directives\<close>

datatype directive_type =
  DIRECTIVE_NONE | DIRECTIVE_DEFINE | DIRECTIVE_UNDEF | DIRECTIVE_IF | DIRECTIVE_IFDEF | DIRECTIVE_IFNDEF |
  DIRECTIVE_ELSE | DIRECTIVE_ELIF | DIRECTIVE_ENDIF | DIRECTIVE_ERROR | DIRECTIVE_PRAGMA |
  DIRECTIVE_EXTENSION | DIRECTIVE_VERSION | DIRECTIVE_LINE

definition getDirective :: "token \<Rightarrow> directive_type" where
  "getDirective t =
     (if tk_type t \<noteq> IDENTIFIER then DIRECTIVE_NONE
      else if tk_text t = ''define'' then DIRECTIVE_DEFINE
      else if tk_text t = ''undef'' then DIRECTIVE_UNDEF
      else if tk_text t = ''if'' then DIRECTIVE_IF
      else if tk_text t = ''ifdef'' then DIRECTIVE_IFDEF
      else if tk_text t = ''ifndef'' then DIRECTIVE_IFNDEF
      else if tk_text t = ''else'' then DIRECTIVE_ELSE
      else if tk_text t = ''elif'' then DIRECTIVE_ELIF
      else if tk_text t = ''endif'' then DIRECTIVE_ENDIF
      else if tk_text t = ''error'' then DIRECTIVE_ERROR
      else if tk_text t = ''pragma'' then DIRECTIVE_PRAGMA
      else if tk_text t = ''extension'' then DIRECTIVE_EXTENSION
      else if tk_text t = ''version'' then DIRECTIVE_VERSION
      else if tk_text t = ''line'' then DIRECTIVE_LINE
      else DIRECTIVE_NONE)"

definition isConditionalDirective :: "directive_type \<Rightarrow> bool" where
  "isConditionalDirective d \<longleftrightarrow>
     d \<in> {DIRECTIVE_IF, DIRECTIVE_IFDEF, DIRECTIVE_IFNDEF, DIRECTIVE_ELSE, DIRECTIVE_ELIF, DIRECTIVE_ENDIF}"

definition isEOD :: "token \<Rightarrow> bool" where
  "isEOD t \<longleftrightarrow> tk_type t = NEWLINE \<or> tk_type t = LAST"

definition isMacroNameReserved :: "string \<Rightarrow> bool" where
  "isMacroNameReserved name \<longleftrightarrow> name = ''defined'' \<or> take 3 name = ''GL_''"

fun hasDoubleUnderscores :: "string \<Rightarrow> bool" where
  "hasDoubleUnderscores (a # b # s) \<longleftrightarrow> a = CHR ''_'' \<and> b = CHR ''_'' \<or> hasDoubleUnderscores (b # s)"
| "hasDoubleUnderscores _ \<longleftrightarrow> False"

definition isMacroPredefined :: "string \<Rightarrow> shared \<Rightarrow> bool" where
  "isMacroPredefined name sh =
     (case macroSet sh name of Some i \<Rightarrow> predefined (store sh ! i) | None \<Rightarrow> False)"

section \<open>Tokens and errors\<close>

definition ds_lex :: "'l tokenizer_class \<Rightarrow> 'l directive_state \<Rightarrow> 'l directive_state option" where
  "ds_lex tc s = do {
     (t, l, sh) \<leftarrow> tc_lex tc (mTokenizer s) (ds_shared s);
     Some (s\<lparr>ds_token := t, mTokenizer := l, ds_shared := sh\<rparr>) }"

definition ds_type :: "'l directive_state \<Rightarrow> int" where
  "ds_type s = tk_type (ds_token s)"

definition ds_text :: "'l directive_state \<Rightarrow> string" where
  "ds_text s = tk_text (ds_token s)"

text \<open>A report at the token, with a text or the text of the token.\<close>

definition ds_report_text :: "diag_id \<Rightarrow> string \<Rightarrow> 'l directive_state \<Rightarrow> 'l directive_state" where
  "ds_report_text d text s = s\<lparr>ds_shared := report d (tk_location (ds_token s)) text (ds_shared s)\<rparr>"

definition ds_report :: "diag_id \<Rightarrow> 'l directive_state \<Rightarrow> 'l directive_state" where
  "ds_report d s = ds_report_text d (ds_text s) s"

definition ds_handle :: "(source_location \<Rightarrow> directive_event) \<Rightarrow> 'l directive_state \<Rightarrow> 'l directive_state" where
  "ds_handle event s = s\<lparr>mDirectiveHandler := mDirectiveHandler s @ [event (tk_location (ds_token s))]\<rparr>"

partial_function (option) skipUntilEOD :: "'l tokenizer_class \<Rightarrow> 'l directive_state \<Rightarrow> 'l directive_state option" where
  "skipUntilEOD tc s =
     (if isEOD (ds_token s) then Some s else do { s \<leftarrow> ds_lex tc s; skipUntilEOD tc s })"

text \<open>The loops that take the rest of a line: the tokens from the current one on.\<close>

partial_function (option) restOfLine ::
  "'l tokenizer_class \<Rightarrow> 'l directive_state \<Rightarrow> (token list \<times> 'l directive_state) option" where
  "restOfLine tc s =
     (if isEOD (ds_token s) then Some ([], s)
      else do {
        s' \<leftarrow> ds_lex tc s;
        (ts, s') \<leftarrow> restOfLine tc s';
        Some (ds_token s # ts, s') })"

section \<open>\<open>#define\<close> and \<open>#undef\<close>\<close>

text \<open>The parameters; \<^term>\<open>None\<close> inside is a name that is there twice.\<close>

partial_function (option) parameterLoop ::
  "'l tokenizer_class \<Rightarrow> string list \<Rightarrow> 'l directive_state \<Rightarrow> (string list option \<times> 'l directive_state) option" where
  "parameterLoop tc params s = do {
     s \<leftarrow> ds_lex tc s;
     if ds_type s \<noteq> IDENTIFIER then Some (Some params, s)
     else if ds_text s \<in> set params then Some (None, ds_report PP_MACRO_DUPLICATE_PARAMETER_NAMES s)
     else do {
       let params = params @ [ds_text s];
       s \<leftarrow> ds_lex tc s;
       if ds_type s = COMMA then parameterLoop tc params s else Some (Some params, s) } }"

text \<open>The type and the parameters, behind the name of the macro; \<^term>\<open>None\<close> inside is an error.\<close>

definition parseParameters ::
  "'l tokenizer_class \<Rightarrow> 'l directive_state \<Rightarrow> ((macro_type \<times> string list) option \<times> 'l directive_state) option" where
  "parseParameters tc s = do {
     s \<leftarrow> ds_lex tc s;
     if ds_type s = LEFT_PAREN \<and> \<not> hasLeadingSpace (ds_token s)
     then do {
       (params, s) \<leftarrow> parameterLoop tc [] s;
       case params of
         None \<Rightarrow> Some (None, s)
       | Some params \<Rightarrow>
           if ds_type s \<noteq> RIGHT_PAREN then Some (None, ds_report PP_UNEXPECTED_TOKEN s)
           else do { s \<leftarrow> ds_lex tc s; Some (Some (kTypeFunc, params), s) } }
     else Some (Some (kTypeObj, []), s) }"

text \<open>The replacement list: tokens without their locations, and without a space before the first.\<close>

fun replacementList :: "token list \<Rightarrow> token list" where
  "replacementList [] = []"
| "replacementList (t # ts) =
     setHasLeadingSpace False (t\<lparr>tk_location := SourceLocation\<rparr>) # map (\<lambda>t. t\<lparr>tk_location := SourceLocation\<rparr>) ts"

text \<open>The new macro enters the set unless the name has one that differs.\<close>

definition defineMacro :: "macro \<Rightarrow> 'l directive_state \<Rightarrow> 'l directive_state" where
  "defineMacro m s =
     (case macroSet (ds_shared s) (mc_name m) of
        Some i \<Rightarrow>
          if macro_equals m (store (ds_shared s) ! i) then s else ds_report_text PP_MACRO_REDEFINED (mc_name m) s
      | None \<Rightarrow>
          let (i, sh) = new_macro m (ds_shared s)
          in s\<lparr>ds_shared := sh\<lparr>macroSet := (macroSet sh)(mc_name m \<mapsto> i)\<rparr>\<rparr>)"

definition parseDefine :: "'l tokenizer_class \<Rightarrow> 'l directive_state \<Rightarrow> 'l directive_state option" where
  "parseDefine tc s = do {
     s \<leftarrow> ds_lex tc s;
     if ds_type s \<noteq> IDENTIFIER then Some (ds_report PP_UNEXPECTED_TOKEN s)
     else if isMacroPredefined (ds_text s) (ds_shared s) then Some (ds_report PP_MACRO_PREDEFINED_REDEFINED s)
     else if isMacroNameReserved (ds_text s) then Some (ds_report PP_MACRO_NAME_RESERVED s)
     else do {
       let name = ds_text s;
       let s = (if hasDoubleUnderscores name then ds_report PP_WARNING_MACRO_NAME_RESERVED s else s);
       (r, s) \<leftarrow> parseParameters tc s;
       case r of
         None \<Rightarrow> Some s
       | Some (type, params) \<Rightarrow> do {
           (ts, s) \<leftarrow> restOfLine tc s;
           Some (defineMacro
             (Macro\<lparr>mc_type := type, mc_name := name, parameters := params, replacements := replacementList ts\<rparr>) s) } } }"

definition parseUndef :: "'l tokenizer_class \<Rightarrow> 'l directive_state \<Rightarrow> 'l directive_state option" where
  "parseUndef tc s = do {
     s \<leftarrow> ds_lex tc s;
     if ds_type s \<noteq> IDENTIFIER then Some (ds_report PP_UNEXPECTED_TOKEN s)
     else do {
       let name = ds_text s;
       let found = macroSet (ds_shared s) name;
       if found \<noteq> None \<and> predefined (store (ds_shared s) ! the found)
       then Some (ds_report PP_MACRO_PREDEFINED_UNDEFINED s)
       else if found \<noteq> None \<and> 0 < expansionCount (store (ds_shared s) ! the found)
       then Some (ds_report PP_MACRO_UNDEFINED_WHILE_INVOKED s)
       else do {
         let s = s\<lparr>ds_shared := (ds_shared s)\<lparr>macroSet := (macroSet (ds_shared s))(name := None)\<rparr>\<rparr>;
         s \<leftarrow> ds_lex tc s;
         if isEOD (ds_token s) then Some s else skipUntilEOD tc (ds_report PP_UNEXPECTED_TOKEN s) } } }"

section \<open>Conditions\<close>

definition skipping :: "('l, 'z) directive_parser_scheme \<Rightarrow> bool" where
  "skipping s = (case mConditionalStack s of [] \<Rightarrow> False | block # _ \<Rightarrow> skipBlock block \<or> skipGroup block)"

text \<open>An expander on the tokenizer of the state, and the state behind its work.\<close>

definition ds_expander :: "'l directive_state \<Rightarrow> 'l expander" where
  "ds_expander s = MacroExpander (mTokenizer s) (ds_shared s)"

definition ds_return :: "token \<Rightarrow> 'l expander \<Rightarrow> 'l directive_state \<Rightarrow> 'l directive_state" where
  "ds_return t x s = s\<lparr>ds_token := t, mTokenizer := mLexer x, ds_shared := mShared x\<rparr>"

abbreviation ds_source ::
  "'l tokenizer_class \<Rightarrow> preprocessor_settings \<Rightarrow> bool \<Rightarrow> 'l expander token_source" where
  "ds_source tc st parseDefined \<equiv>
     expander_source (tc_lex tc) (expanderSettings st parseDefined) (maxMacroExpansionDepth st)"

definition parseExpressionIf ::
  "'l tokenizer_class \<Rightarrow> preprocessor_settings \<Rightarrow> 'l directive_state \<Rightarrow> (i32 \<times> 'l directive_state) option" where
  "parseExpressionIf tc st s = do {
     (_, t, expression, _, x) \<leftarrow> parseExpression (ds_source tc st True) (ds_token s) 0 False
        \<lparr>unexpectedIdentifier = PP_CONDITIONAL_UNEXPECTED_TOKEN, integerLiteralsMustFit32BitSignedRange = False\<rparr>
        True (ds_expander s);
     let s = ds_return t x s;
     s \<leftarrow> (if isEOD t then Some s else skipUntilEOD tc (ds_report PP_CONDITIONAL_UNEXPECTED_TOKEN s));
     Some (expression, s) }"

definition parseExpressionIfdef ::
  "'l tokenizer_class \<Rightarrow> 'l directive_state \<Rightarrow> (i32 \<times> 'l directive_state) option" where
  "parseExpressionIfdef tc s = do {
     s \<leftarrow> ds_lex tc s;
     if ds_type s \<noteq> IDENTIFIER
     then do { s \<leftarrow> skipUntilEOD tc (ds_report PP_UNEXPECTED_TOKEN s); Some (0, s) }
     else do {
       let expression = (if macroSet (ds_shared s) (ds_text s) \<noteq> None then 1 else 0);
       s \<leftarrow> ds_lex tc s;
       s \<leftarrow> (if isEOD (ds_token s) then Some s else skipUntilEOD tc (ds_report PP_CONDITIONAL_UNEXPECTED_TOKEN s));
       Some (expression, s) } }"

definition parseConditionalIf ::
  "'l tokenizer_class \<Rightarrow> preprocessor_settings \<Rightarrow> 'l directive_state \<Rightarrow> 'l directive_state option" where
  "parseConditionalIf tc st s =
     (let block = \<lparr>cb_type = ds_text s, cb_location = tk_location (ds_token s), skipBlock = False, skipGroup = False,
                   foundValidGroup = False, foundElseGroup = False\<rparr>;
          directive = getDirective (ds_token s)
      in if skipping s
         then do {
           s \<leftarrow> skipUntilEOD tc s;
           Some (s\<lparr>mConditionalStack := block\<lparr>skipBlock := True\<rparr> # mConditionalStack s\<rparr>) }
         else do {
           (expression, s) \<leftarrow>
             (if directive = DIRECTIVE_IF then parseExpressionIf tc st s
              else do {
                (expression, s) \<leftarrow> parseExpressionIfdef tc s;
                Some (if directive = DIRECTIVE_IFDEF then expression else if expression = 0 then 1 else 0, s) });
           Some (s\<lparr>mConditionalStack :=
             block\<lparr>skipGroup := (expression = 0), foundValidGroup := (expression \<noteq> 0)\<rparr> # mConditionalStack s\<rparr>) })"

text \<open>A change of the innermost block.\<close>

definition ds_block :: "(conditional_block \<Rightarrow> conditional_block) \<Rightarrow> 'l directive_state \<Rightarrow> 'l directive_state" where
  "ds_block f s = s\<lparr>mConditionalStack := f (hd (mConditionalStack s)) # tl (mConditionalStack s)\<rparr>"

text \<open>Only the end of the line may follow.\<close>

definition endConditional :: "'l tokenizer_class \<Rightarrow> 'l directive_state \<Rightarrow> 'l directive_state option" where
  "endConditional tc s = do {
     s \<leftarrow> ds_lex tc s;
     if isEOD (ds_token s) then Some s else skipUntilEOD tc (ds_report PP_CONDITIONAL_UNEXPECTED_TOKEN s) }"

definition parseElse :: "'l tokenizer_class \<Rightarrow> 'l directive_state \<Rightarrow> 'l directive_state option" where
  "parseElse tc s =
     (if mConditionalStack s = [] then skipUntilEOD tc (ds_report PP_CONDITIONAL_ELSE_WITHOUT_IF s)
      else
        let block = hd (mConditionalStack s)
        in if skipBlock block then skipUntilEOD tc s
           else if foundElseGroup block then skipUntilEOD tc (ds_report PP_CONDITIONAL_ELSE_AFTER_ELSE s)
           else endConditional tc
             (ds_block (\<lambda>b. b\<lparr>foundElseGroup := True, skipGroup := foundValidGroup b, foundValidGroup := True\<rparr>) s))"

definition parseElif ::
  "'l tokenizer_class \<Rightarrow> preprocessor_settings \<Rightarrow> 'l directive_state \<Rightarrow> 'l directive_state option" where
  "parseElif tc st s =
     (if mConditionalStack s = [] then skipUntilEOD tc (ds_report PP_CONDITIONAL_ELIF_WITHOUT_IF s)
      else
        let block = hd (mConditionalStack s)
        in if skipBlock block then skipUntilEOD tc s
           else if foundElseGroup block then skipUntilEOD tc (ds_report PP_CONDITIONAL_ELIF_AFTER_ELSE s)
           else if foundValidGroup block then skipUntilEOD tc (ds_block (\<lambda>b. b\<lparr>skipGroup := True\<rparr>) s)
           else do {
             (expression, s) \<leftarrow> parseExpressionIf tc st s;
             Some (ds_block (\<lambda>b. b\<lparr>skipGroup := (expression = 0), foundValidGroup := (expression \<noteq> 0)\<rparr>) s) })"

definition parseEndif :: "'l tokenizer_class \<Rightarrow> 'l directive_state \<Rightarrow> 'l directive_state option" where
  "parseEndif tc s =
     (if mConditionalStack s = [] then skipUntilEOD tc (ds_report PP_CONDITIONAL_ENDIF_WITHOUT_IF s)
      else endConditional tc (s\<lparr>mConditionalStack := tl (mConditionalStack s)\<rparr>))"


section \<open>\<open>#error\<close>, \<open>#pragma\<close> and \<open>#extension\<close>\<close>

definition parseError :: "'l tokenizer_class \<Rightarrow> 'l directive_state \<Rightarrow> 'l directive_state option" where
  "parseError tc s = do {
     s \<leftarrow> ds_lex tc s;
     (ts, s) \<leftarrow> restOfLine tc s;
     Some (ds_handle (\<lambda>loc. handleError loc (concat (map token_text ts))) s) }"

text \<open>The state of the machine that reads a pragma, whether it is valid, the name and the value.\<close>

definition pragmaStep :: "token \<Rightarrow> nat \<times> bool \<times> string \<times> string \<Rightarrow> nat \<times> bool \<times> string \<times> string" where
  "pragmaStep t = (\<lambda>(state, valid, name, value).
     if state = 0 then (1, valid \<and> tk_type t = IDENTIFIER, tk_text t, value)
     else if state = 1 then (2, valid \<and> tk_type t = LEFT_PAREN, name, value)
     else if state = 2 then (3, valid \<and> tk_type t = IDENTIFIER, name, tk_text t)
     else if state = 3 then (4, valid \<and> tk_type t = RIGHT_PAREN, name, value)
     else (state + 1, False, name, value))"

definition parsePragma :: "'l tokenizer_class \<Rightarrow> 'l directive_state \<Rightarrow> 'l directive_state option" where
  "parsePragma tc s = do {
     s \<leftarrow> ds_lex tc s;
     let stdgl = (ds_text s = ''STDGL'');
     s \<leftarrow> (if stdgl then ds_lex tc s else Some s);
     (ts, s) \<leftarrow> restOfLine tc s;
     let (state, valid, name, value) = fold pragmaStep ts (0, True, [], []);
     let valid = (valid \<and> state \<in> {0, 1, 4});
     Some (if \<not> valid then ds_report_text PP_UNRECOGNIZED_PRAGMA name s
           else if 0 < state then ds_handle (\<lambda>loc. handlePragma loc name value stdgl) s
           else s) }"

text \<open>One token of an extension directive: whether it is still valid, the name, the behaviour and the state.\<close>

definition extensionStep ::
  "nat \<Rightarrow> bool \<times> string \<times> string \<Rightarrow> 'l directive_state \<Rightarrow> (bool \<times> string \<times> string) \<times> 'l directive_state" where
  "extensionStep state = (\<lambda>(valid, name, behavior) s.
     let wrong = (\<lambda>d. ((False, name, behavior), ds_report d s))
     in if \<not> valid then ((valid, name, behavior), s)
        else if state = 0 then
          if ds_type s \<noteq> IDENTIFIER then wrong PP_INVALID_EXTENSION_NAME else ((valid, ds_text s, behavior), s)
        else if state = 1 then if ds_type s \<noteq> COLON then wrong PP_UNEXPECTED_TOKEN else ((valid, name, behavior), s)
        else if state = 2 then
          if ds_type s \<noteq> IDENTIFIER then wrong PP_INVALID_EXTENSION_BEHAVIOR else ((valid, name, ds_text s), s)
        else wrong PP_UNEXPECTED_TOKEN)"

partial_function (option) extensionLoop ::
  "'l tokenizer_class \<Rightarrow> nat \<Rightarrow> bool \<times> string \<times> string \<Rightarrow> 'l directive_state \<Rightarrow>
   (nat \<times> (bool \<times> string \<times> string) \<times> 'l directive_state) option" where
  "extensionLoop tc state parsed s =
     (if isEOD (ds_token s) then Some (state, parsed, s)
      else do {
        let (parsed, s) = extensionStep state parsed s;
        s \<leftarrow> ds_lex tc s;
        extensionLoop tc (state + 1) parsed s })"

definition parseExtension ::
  "'l tokenizer_class \<Rightarrow> preprocessor_settings \<Rightarrow> 'l directive_state \<Rightarrow> 'l directive_state option" where
  "parseExtension tc st s = do {
     s \<leftarrow> ds_lex tc s;
     (state, (valid, name, behavior), s) \<leftarrow> extensionLoop tc 0 (True, [], []) s;
     Some (if \<not> valid then s
           else if state \<noteq> 3 then ds_report PP_INVALID_EXTENSION_DIRECTIVE s
           else if mSeenNonPreprocessorToken s \<and> \<not> (shaderSpec st = SH_WEBGL_SPEC \<and> mShaderVersion s < 300)
           then ds_report PP_NON_PP_TOKEN_BEFORE_EXTENSION_ESSL s
           else
             ds_handle (\<lambda>loc. handleExtension loc name behavior)
               (if mSeenNonPreprocessorToken s then ds_report PP_NON_PP_TOKEN_BEFORE_EXTENSION_WEBGL s else s)) }"

section \<open>\<open>#version\<close> and \<open>#line\<close>\<close>

datatype version_state = VERSION_NUMBER | VERSION_PROFILE_ES | VERSION_PROFILE_GL | VERSION_ENDLINE

text \<open>One token of a version directive: whether it is valid, the version and the state of the machine.\<close>

definition versionStep ::
  "preprocessor_settings \<Rightarrow> int \<Rightarrow> version_state \<Rightarrow> 'l directive_state \<Rightarrow>
   (bool \<times> int \<times> version_state) \<times> 'l directive_state" where
  "versionStep st version state s =
     (case state of
        VERSION_NUMBER \<Rightarrow>
          let (fits, number) = iValue (ds_token s); version' = int number
          in if ds_type s \<noteq> CONST_INT then ((False, version, state), ds_report PP_INVALID_VERSION_NUMBER s)
             else if \<not> fits then ((False, version', state), ds_report PP_INTEGER_OVERFLOW s)
             else ((True, version',
                    if IsDesktopGLSpec (shaderSpec st) then VERSION_PROFILE_GL
                    else if version' < 300 then VERSION_ENDLINE else VERSION_PROFILE_ES), s)
      | VERSION_PROFILE_ES \<Rightarrow>
          if ds_type s \<noteq> IDENTIFIER \<or> ds_text s \<noteq> ''es''
          then ((False, version, VERSION_ENDLINE), ds_report PP_INVALID_VERSION_DIRECTIVE s)
          else ((True, version, VERSION_ENDLINE), s)
      | VERSION_PROFILE_GL \<Rightarrow>
          if ds_type s \<noteq> IDENTIFIER \<or> ds_text s \<noteq> ''core''
          then ((False, version, VERSION_ENDLINE), ds_report PP_INVALID_VERSION_DIRECTIVE s)
          else ((True, version, VERSION_ENDLINE), s)
      | VERSION_ENDLINE \<Rightarrow> ((False, version, state), ds_report PP_UNEXPECTED_TOKEN s))"

partial_function (option) versionLoop ::
  "'l tokenizer_class \<Rightarrow> preprocessor_settings \<Rightarrow> bool \<Rightarrow> int \<Rightarrow> version_state \<Rightarrow> 'l directive_state \<Rightarrow>
   ((bool \<times> int \<times> version_state) \<times> 'l directive_state) option" where
  "versionLoop tc st valid version state s =
     (if \<not> valid \<or> isEOD (ds_token s) then Some ((valid, version, state), s)
      else do {
        let ((valid, version, state), s) = versionStep st version state s;
        s \<leftarrow> ds_lex tc s;
        versionLoop tc st valid version
          (if ds_type s = NEWLINE \<and> state = VERSION_PROFILE_GL then VERSION_ENDLINE else state) s })"

definition parseVersion ::
  "'l tokenizer_class \<Rightarrow> preprocessor_settings \<Rightarrow> 'l directive_state \<Rightarrow> 'l directive_state option" where
  "parseVersion tc st s =
     (if mPastFirstStatement s then skipUntilEOD tc (ds_report PP_VERSION_NOT_FIRST_STATEMENT s)
      else do {
        s \<leftarrow> ds_lex tc s;
        ((valid, version, state), s) \<leftarrow> versionLoop tc st True 0 VERSION_NUMBER s;
        Some (if \<not> valid then s
              else if state \<noteq> VERSION_ENDLINE then ds_report PP_INVALID_VERSION_DIRECTIVE s
              else if 300 \<le> version \<and> 1 < loc_line (tk_location (ds_token s))
              then ds_report PP_VERSION_NOT_FIRST_LINE_ESSL3 s
              else
                let s = ds_handle (\<lambda>loc. handleVersion loc version (shaderSpec st)) s
                in s\<lparr>mShaderVersion := version, ds_shared := PredefineMacro ''__VERSION__'' version (ds_shared s)\<rparr>) })"

text \<open>A number of a line directive, from the token on that is already read, with the report for names.\<close>

definition lineNumber ::
  "'l tokenizer_class \<Rightarrow> preprocessor_settings \<Rightarrow> diag_id \<Rightarrow> bool \<Rightarrow> token \<Rightarrow> 'l expander \<Rightarrow>
   (token \<times> i32 \<times> bool \<times> 'l expander) option" where
  "lineNumber tc st unexpected valid t x = do {
     (_, t, number, valid, x) \<leftarrow> parseExpression (ds_source tc st False) t 0 True
        \<lparr>unexpectedIdentifier = unexpected, integerLiteralsMustFit32BitSignedRange = True\<rparr> valid x;
     Some (t, number, valid, x) }"

definition parseLine ::
  "'l tokenizer_class \<Rightarrow> preprocessor_settings \<Rightarrow> 'l directive_state \<Rightarrow> 'l directive_state option" where
  "parseLine tc st s = do {
     (t, x) \<leftarrow> x_lex (tc_lex tc) (expanderSettings st False) (maxMacroExpansionDepth st) (ds_expander s);
     if isEOD t then Some (ds_report PP_INVALID_LINE_DIRECTIVE (ds_return t x s))
     else do {
       (t, line, valid, x) \<leftarrow> lineNumber tc st PP_INVALID_LINE_NUMBER True t x;
       let parsedFileNumber = (\<not> isEOD t \<and> valid);
       (t, file, valid, x) \<leftarrow>
         (if parsedFileNumber then lineNumber tc st PP_INVALID_FILE_NUMBER valid t x else Some (t, 0, valid, x));
       let s = ds_return t x s;
       (valid, s) \<leftarrow>
         (if isEOD t then Some (valid, s)
          else do {
            s \<leftarrow> skipUntilEOD tc (if valid then ds_report PP_UNEXPECTED_TOKEN s else s);
            Some (False, s) });
       Some (if valid
             then s\<lparr>mTokenizer := (if parsedFileNumber then tc_setFileNumber tc (sint file) else id)
                                   (tc_setLineNumber tc (sint line) (mTokenizer s))\<rparr>
             else s) } }"

section \<open>Directives and tokens\<close>

definition runDirective ::
  "'l tokenizer_class \<Rightarrow> preprocessor_settings \<Rightarrow> directive_type \<Rightarrow> 'l directive_state \<Rightarrow> 'l directive_state option" where
  "runDirective tc st directive s =
     (case directive of
        DIRECTIVE_NONE \<Rightarrow> skipUntilEOD tc (ds_report PP_DIRECTIVE_INVALID_NAME s)
      | DIRECTIVE_DEFINE \<Rightarrow> parseDefine tc s
      | DIRECTIVE_UNDEF \<Rightarrow> parseUndef tc s
      | DIRECTIVE_IF \<Rightarrow> parseConditionalIf tc st s
      | DIRECTIVE_IFDEF \<Rightarrow> parseConditionalIf tc st s
      | DIRECTIVE_IFNDEF \<Rightarrow> parseConditionalIf tc st s
      | DIRECTIVE_ELSE \<Rightarrow> parseElse tc s
      | DIRECTIVE_ELIF \<Rightarrow> parseElif tc st s
      | DIRECTIVE_ENDIF \<Rightarrow> parseEndif tc s
      | DIRECTIVE_ERROR \<Rightarrow> parseError tc s
      | DIRECTIVE_PRAGMA \<Rightarrow> parsePragma tc s
      | DIRECTIVE_EXTENSION \<Rightarrow> parseExtension tc st s
      | DIRECTIVE_VERSION \<Rightarrow> parseVersion tc st s
      | DIRECTIVE_LINE \<Rightarrow> parseLine tc st s)"

definition parseDirective ::
  "'l tokenizer_class \<Rightarrow> preprocessor_settings \<Rightarrow> 'l directive_state \<Rightarrow> 'l directive_state option" where
  "parseDirective tc st s = do {
     s \<leftarrow> ds_lex tc s;
     if isEOD (ds_token s) then Some s
     else if skipping s \<and> \<not> isConditionalDirective (getDirective (ds_token s)) then skipUntilEOD tc s
     else do {
       s \<leftarrow> runDirective tc st (getDirective (ds_token s)) s;
       s \<leftarrow> skipUntilEOD tc s;
       Some (if ds_type s = LAST then ds_report PP_EOF_IN_DIRECTIVE s else s) } }"

text \<open>One round of the loop of \<open>lex\<close>: a directive, or a token that is no end of a line.\<close>

definition directiveOrToken ::
  "'l tokenizer_class \<Rightarrow> preprocessor_settings \<Rightarrow> 'l directive_state \<Rightarrow> 'l directive_state option" where
  "directiveOrToken tc st s = do {
     s \<leftarrow> ds_lex tc s;
     if ds_type s = PP_HASH then do { s \<leftarrow> parseDirective tc st s; Some (s\<lparr>mPastFirstStatement := True\<rparr>) }
     else Some (if isEOD (ds_token s) then s else s\<lparr>mSeenNonPreprocessorToken := True\<rparr>) }"

text \<open>At the end of the text, the innermost block that is not closed is reported.\<close>

definition reportUnterminated :: "'l directive_state \<Rightarrow> 'l directive_state" where
  "reportUnterminated s =
     (case mConditionalStack s of
        [] \<Rightarrow> s
      | block # _ \<Rightarrow>
          s\<lparr>ds_shared := report PP_CONDITIONAL_UNTERMINATED (cb_location block) (cb_type block) (ds_shared s)\<rparr>)"

partial_function (option) directiveLoop ::
  "'l tokenizer_class \<Rightarrow> preprocessor_settings \<Rightarrow> 'l directive_state \<Rightarrow> 'l directive_state option" where
  "directiveLoop tc st s = do {
     s \<leftarrow> directiveOrToken tc st s;
     if ds_type s = LAST then Some (reportUnterminated s)
     else if skipping s \<or> ds_type s = NEWLINE then directiveLoop tc st s
     else Some s }"

text \<open>\<open>DirectiveParser::lex\<close>\<close>

definition dp_lex :: "'l tokenizer_class \<Rightarrow> preprocessor_settings \<Rightarrow> 'l directive_parser lexer" where
  "dp_lex tc st d sh = do {
     s \<leftarrow> directiveLoop tc st (directive_parser.extend d \<lparr>ds_token = reset_token, ds_shared = sh\<rparr>);
     Some (ds_token s, directive_parser.truncate (s\<lparr>mPastFirstStatement := True\<rparr>), ds_shared s) }"

end
