(* ===== verification/Pp_Tokenizer.thy ===== *)
theory Pp_Tokenizer
  imports Pp_Token Pp_Input
begin

text \<open>
  \<open>Tokenizer\<close> (src/src/compiler/preprocessor/Tokenizer.{l,h,cpp}): the scanner of the preprocessor. The file
  is the output of flex; the model has its tables, the loop that matches, the refill of the buffer by
  \<open>Input::read\<close>, the end of the text, and the action of each rule.

  The buffer of the model holds the characters from the beginning of the current token on. flex marks the
  end of the buffer by two NUL characters of a class of their own; in the model the end of the list is the
  end of the buffer, and a NUL of the text has the class it has for the code once it is known to be one. A
  write behind the memory of the buffer, an access outside of a table and an allocation that fails are \<^term>\<open>None\<close>. The
  size of the buffer is an \<open>int\<close> of the code, which wraps around (\<open>int32\<close>).
\<close>

section \<open>The tables\<close>

definition yy_accept :: "nat list" where
  "yy_accept =
    [0, 0, 0, 0, 0, 38, 36, 34, 35, 35, 33, 7, 33, 33, 33, 33, 33, 33, 33, 33, 9, 9, 33, 33, 33, 8,
     33, 33, 3, 5, 5, 4, 34, 35, 19, 27, 20, 30, 25, 12, 23, 13, 24, 10, 2, 1, 26, 10, 9, 11, 11,
     11, 9, 11, 9, 9, 14, 16, 18, 17, 15, 8, 31, 21, 32, 22, 3, 5, 6, 11, 10, 11, 10, 1, 10, 11,
     10, 0, 10, 9, 9, 9, 28, 29, 0, 10, 10, 10, 10, 9, 10, 10, 9, 10, 0]"

definition yy_ec :: "nat list" where
  "yy_ec =
    [0, 1, 1, 1, 1, 1, 1, 1, 1, 2, 3, 2, 2, 4, 1, 1, 1, 1, 1, 1, 1, 1, 1, 1, 1, 1, 1, 1, 1, 1, 1,
     1, 2, 5, 1, 6, 1, 7, 8, 1, 9, 9, 10, 11, 9, 12, 13, 14, 15, 16, 16, 16, 16, 16, 16, 16, 17,
     17, 9, 9, 18, 19, 20, 9, 1, 21, 21, 21, 21, 22, 23, 24, 24, 24, 24, 24, 24, 24, 24, 24, 24,
     24, 24, 24, 24, 25, 24, 24, 26, 24, 24, 9, 1, 9, 27, 24, 1, 21, 21, 21, 21, 22, 23, 24, 24,
     24, 24, 24, 24, 24, 24, 24, 24, 24, 24, 24, 24, 25, 24, 24, 26, 24, 24, 9, 28, 9, 9, 1, 1, 1,
     1, 1, 1, 1, 1, 1, 1, 1, 1, 1, 1, 1, 1, 1, 1, 1, 1, 1, 1, 1, 1, 1, 1, 1, 1, 1, 1, 1, 1, 1, 1,
     1, 1, 1, 1, 1, 1, 1, 1, 1, 1, 1, 1, 1, 1, 1, 1, 1, 1, 1, 1, 1, 1, 1, 1, 1, 1, 1, 1, 1, 1, 1,
     1, 1, 1, 1, 1, 1, 1, 1, 1, 1, 1, 1, 1, 1, 1, 1, 1, 1, 1, 1, 1, 1, 1, 1, 1, 1, 1, 1, 1, 1, 1,
     1, 1, 1, 1, 1, 1, 1, 1, 1, 1, 1, 1, 1, 1, 1, 1, 1, 1, 1, 1, 1, 1, 1, 1, 1, 1, 1, 1, 1, 1, 1,
     1, 1]"

definition yy_meta :: "nat list" where
  "yy_meta =
    [0, 1, 1, 2, 2, 1, 1, 1, 1, 1, 3, 1, 1, 4, 1, 5, 5, 5, 1, 1, 1, 5, 5, 5, 5, 5, 5, 1, 1]"

definition yy_base :: "nat list" where
  "yy_base =
    [0, 0, 0, 26, 28, 133, 195, 130, 195, 128, 105, 195, 104, 25, 195, 100, 23, 27, 32, 31, 38, 50,
     38, 93, 49, 0, 16, 51, 0, 195, 105, 87, 93, 195, 195, 195, 195, 195, 195, 195, 195, 195, 195,
     67, 195, 0, 195, 81, 55, 84, 98, 110, 53, 61, 0, 52, 39, 195, 195, 195, 33, 0, 195, 195, 195,
     195, 0, 195, 195, 113, 0, 126, 0, 0, 0, 133, 0, 56, 128, 0, 133, 0, 195, 195, 101, 141, 143,
     145, 0, 15, 154, 195, 0, 195, 195, 177, 32, 182, 187, 189]"

definition yy_def :: "nat list" where
  "yy_def =
    [0, 94, 1, 95, 95, 94, 94, 94, 94, 94, 94, 94, 94, 94, 94, 94, 94, 94, 94, 94, 94, 20, 94, 94,
     94, 96, 94, 94, 97, 94, 94, 94, 94, 94, 94, 94, 94, 94, 94, 94, 94, 94, 94, 94, 94, 98, 94,
     94, 20, 20, 49, 50, 50, 99, 21, 50, 94, 94, 94, 94, 94, 96, 94, 94, 94, 94, 97, 94, 94, 43,
     43, 69, 69, 98, 47, 50, 50, 94, 51, 50, 99, 50, 94, 94, 94, 71, 75, 94, 50, 50, 94, 94, 50,
     94, 0, 94, 94, 94, 94, 94]"

definition yy_nxt :: "nat list" where
  "yy_nxt =
    [0, 6, 7, 8, 9, 10, 11, 12, 13, 14, 15, 16, 17, 18, 19, 20, 21, 21, 22, 23, 24, 25, 25, 25, 25,
     25, 25, 26, 27, 29, 30, 29, 30, 36, 39, 62, 31, 61, 31, 41, 92, 44, 40, 63, 37, 45, 42, 43,
     43, 43, 46, 47, 83, 48, 48, 49, 56, 57, 82, 50, 51, 50, 50, 52, 53, 54, 54, 54, 59, 60, 64,
     87, 87, 87, 50, 55, 50, 81, 79, 65, 69, 50, 70, 70, 70, 50, 50, 50, 69, 71, 72, 69, 69, 69,
     50, 32, 74, 74, 74, 49, 49, 68, 50, 75, 76, 50, 50, 50, 67, 50, 50, 50, 58, 50, 50, 50, 90,
     90, 90, 38, 50, 77, 77, 35, 34, 78, 78, 78, 69, 69, 69, 33, 32, 94, 94, 69, 69, 84, 84, 94,
     94, 85, 85, 85, 84, 84, 50, 94, 86, 86, 86, 88, 94, 94, 94, 94, 94, 50, 89, 50, 87, 87, 87,
     94, 72, 94, 76, 94, 91, 90, 90, 90, 94, 94, 94, 94, 94, 93, 28, 28, 28, 28, 28, 66, 94, 94,
     66, 66, 73, 94, 73, 73, 73, 80, 80, 5, 94, 94, 94, 94, 94, 94, 94, 94, 94, 94, 94, 94, 94, 94,
     94, 94, 94, 94, 94, 94, 94, 94, 94, 94, 94, 94, 94, 94]"

definition yy_chk :: "nat list" where
  "yy_chk =
    [0, 1, 1, 1, 1, 1, 1, 1, 1, 1, 1, 1, 1, 1, 1, 1, 1, 1, 1, 1, 1, 1, 1, 1, 1, 1, 1, 1, 1, 3, 3,
     4, 4, 13, 16, 26, 3, 96, 4, 17, 89, 19, 16, 26, 13, 19, 17, 18, 18, 18, 19, 20, 60, 20, 20,
     20, 22, 22, 56, 20, 20, 20, 20, 20, 20, 21, 21, 21, 24, 24, 27, 77, 77, 77, 53, 21, 21, 55,
     52, 27, 43, 48, 43, 43, 43, 53, 53, 53, 43, 43, 43, 43, 43, 43, 47, 32, 47, 47, 47, 49, 49,
     31, 47, 47, 47, 47, 47, 47, 30, 49, 49, 50, 23, 50, 50, 50, 84, 84, 84, 15, 50, 51, 51, 12,
     10, 51, 51, 51, 69, 69, 69, 9, 7, 5, 0, 69, 69, 71, 71, 78, 78, 71, 71, 71, 75, 75, 80, 0, 75,
     75, 75, 78, 85, 85, 86, 86, 0, 80, 80, 80, 87, 87, 87, 0, 85, 0, 86, 0, 87, 90, 90, 90, 0, 0,
     0, 0, 0, 90, 95, 95, 95, 95, 95, 97, 0, 0, 97, 97, 98, 0, 98, 98, 98, 99, 99, 94, 94, 94, 94,
     94, 94, 94, 94, 94, 94, 94, 94, 94, 94, 94, 94, 94, 94, 94, 94, 94, 94, 94, 94, 94, 94, 94,
     94, 94]"

definition yy_class :: "char \<Rightarrow> nat" where
  "yy_class c = (if c = CHR 0x00 then 1 else yy_ec ! of_char c)"

definition table_at :: "nat list \<Rightarrow> nat \<Rightarrow> nat option" where
  "table_at xs i = (if i < length xs then Some (xs ! i) else None)"

text \<open>A transition: the default chain of a state until a table entry belongs to it.\<close>

partial_function (option) yy_transition :: "nat \<Rightarrow> nat \<Rightarrow> nat option" where
  "yy_transition s c =
     Option.bind (table_at yy_base s) (\<lambda>base.
       Option.bind (table_at yy_chk (base + c)) (\<lambda>chk.
         if chk = s then table_at yy_nxt (base + c)
         else
           Option.bind (table_at yy_def s) (\<lambda>s'.
             Option.bind (if 95 \<le> s' then table_at yy_meta c else Some c) (yy_transition s'))))"

abbreviation (input) "YY_JAM \<equiv> (94 :: nat)"
abbreviation (input) "YY_BUF_SIZE \<equiv> (16384 :: int)"
abbreviation (input) "YY_READ_BUF_SIZE \<equiv> (8192 :: int)"

section \<open>State\<close>

text \<open>The members of \<open>Tokenizer\<close> and of its context, and what flex keeps.\<close>

record tokenizer =
  tz_input :: pp_input
  scanLoc :: input_location
  leadingSpace :: bool
  lineStart :: bool
  mMaxTokenSize :: nat
  yy_init :: bool
  yy_comment :: bool
  yylineno :: int
  yyfileno :: int
  yy_buf :: string
  yy_buf_size :: int
  yy_eof_pending :: bool

definition Tokenizer :: "(string \<times> char) list \<Rightarrow> tokenizer" where
  "Tokenizer strings =
     \<lparr>tz_input = Input strings, scanLoc = \<lparr>sIndex = 0, cIndex = 0\<rparr>, leadingSpace = False, lineStart = False,
      mMaxTokenSize = 256, yy_init = False, yy_comment = False, yylineno = 0, yyfileno = 0, yy_buf = [],
      yy_buf_size = YY_BUF_SIZE, yy_eof_pending = False\<rparr>"

definition setFileNumber :: "int \<Rightarrow> tokenizer \<Rightarrow> tokenizer" where
  "setFileNumber i t = t\<lparr>yyfileno := i\<rparr>"

definition setLineNumber :: "int \<Rightarrow> tokenizer \<Rightarrow> tokenizer" where
  "setLineNumber i t = t\<lparr>yylineno := i\<rparr>"

definition setMaxTokenSize :: "nat \<Rightarrow> tokenizer \<Rightarrow> tokenizer" where
  "setMaxTokenSize n t = t\<lparr>mMaxTokenSize := n\<rparr>"

section \<open>The buffer\<close>

text \<open>
  Room for one more character behind the \<open>number_to_move\<close> characters that are kept. A negative size makes the allocation
  fail, which ends the program; a size of 0 would never grow.
\<close>

partial_function (option) growBuffer :: "int \<Rightarrow> int \<Rightarrow> int option" where
  "growBuffer room number_to_move =
     (if 0 < int32 (room - number_to_move - 1) then Some room
      else
        let new_size = int32 (room * 2);
            room = (if new_size \<le> 0 then int32 (room + room div 8) else int32 (room * 2))
        in if int32 (room + 2) < 0 then None else growBuffer room number_to_move)"

datatype eob_act = EOB_ACT_END_OF_FILE | EOB_ACT_CONTINUE_SCAN | EOB_ACT_LAST_MATCH

text \<open>
  The first \<open>n\<close> characters of the buffer, all it has, are kept. Behind the read, the buffer is extended when it has more
  characters than its size.
\<close>

definition yy_get_next_buffer :: "nat \<Rightarrow> tokenizer \<Rightarrow> (eob_act \<times> tokenizer) option" where
  "yy_get_next_buffer n t =
     (let number_to_move = int32 (int n)
      in Option.bind
           (if yy_eof_pending t then Some ([], t)
            else
              Option.bind (growBuffer (yy_buf_size t) number_to_move) (\<lambda>room.
                let num_to_read = min YY_READ_BUF_SIZE (int32 (room - number_to_move - 1))
                in Option.bind (read (nat num_to_read) (yylineno t) (tz_input t)) (\<lambda>(chars, line, input).
                     if room + 2 < int (n + length chars) then None
                     else Some (chars, t\<lparr>yylineno := line, tz_input := input, yy_buf_size := room\<rparr>))))
           (\<lambda>(chars, t).
             let yy_n_chars = int32 (int (length chars));
                 (act, t) =
                   (if yy_n_chars = 0
                    then if number_to_move = 0 then (EOB_ACT_END_OF_FILE, t\<lparr>yy_eof_pending := False\<rparr>)
                         else (EOB_ACT_LAST_MATCH, t\<lparr>yy_eof_pending := True\<rparr>)
                    else (EOB_ACT_CONTINUE_SCAN, t\<lparr>yy_buf := yy_buf t @ chars\<rparr>))
             in if yy_buf_size t < int32 (yy_n_chars + number_to_move)
                then
                  let new_size = int32 (int32 (yy_n_chars + number_to_move) + yy_n_chars div 2)
                  in if new_size < 0 then None else Some (act, t\<lparr>yy_buf_size := int32 (new_size - 2)\<rparr>)
                else Some (act, t)))"

section \<open>Matching\<close>

datatype match = Matched nat nat | AtEnd

text \<open>
  The state, the number of characters matched so far and the last accepting state with the number it has
  matched: the rule and the length of the longest match.
\<close>

definition yy_longest :: "(nat \<times> nat) option \<Rightarrow> tokenizer \<Rightarrow> (match \<times> tokenizer) option" where
  "yy_longest last_accepting t =
     Option.bind last_accepting (\<lambda>(s, n). map_option (\<lambda>act. (Matched act n, t)) (table_at yy_accept s))"

partial_function (option) yy_match :: "nat \<Rightarrow> nat \<Rightarrow> (nat \<times> nat) option \<Rightarrow> tokenizer \<Rightarrow> (match \<times> tokenizer) option" where
  "yy_match s n last_accepting t =
     Option.bind (table_at yy_accept s) (\<lambda>act.
       let accepting = (if act \<noteq> 0 then Some (s, n) else last_accepting)
       in if n < length (yy_buf t)
          then
            Option.bind (yy_transition s (yy_class (yy_buf t ! n))) (\<lambda>s'.
              if s' = YY_JAM then yy_longest accepting t else yy_match s' (n + 1) accepting t)
          else
            Option.bind (yy_get_next_buffer n t) (\<lambda>(act, t).
              case act of
                EOB_ACT_END_OF_FILE \<Rightarrow> Some (AtEnd, t)
              | EOB_ACT_CONTINUE_SCAN \<Rightarrow> yy_match s n last_accepting t
              | EOB_ACT_LAST_MATCH \<Rightarrow> yy_longest accepting t))"

section \<open>The actions\<close>

text \<open>The location moves behind the strings that have been scanned.\<close>

function nextStrings :: "tokenizer \<Rightarrow> tokenizer" where
  "nextStrings t =
     (let loc = scanLoc t
      in if sIndex loc < mCount (tz_input t) \<and> mLength (tz_input t) (sIndex loc) \<le> cIndex loc
         then nextStrings
           (t\<lparr>scanLoc := \<lparr>sIndex = sIndex loc + 1, cIndex = cIndex loc - mLength (tz_input t) (sIndex loc)\<rparr>,
              yyfileno := yyfileno t + 1, yylineno := 1\<rparr>)
         else t)"
  by pat_completeness auto
termination
  by (relation "measure (\<lambda>t. mCount (tz_input t) - sIndex (scanLoc t))") auto

declare nextStrings.simps [simp del]

definition yyloc :: "tokenizer \<Rightarrow> source_location" where
  "yyloc t = \<lparr>loc_file = yyfileno t, loc_line = yylineno t\<rparr>"

definition yy_user_action :: "nat \<Rightarrow> tokenizer \<Rightarrow> source_location \<times> tokenizer" where
  "yy_user_action yyleng t =
     (let t = nextStrings t
      in (yyloc t, t\<lparr>scanLoc := (scanLoc t)\<lparr>cIndex := cIndex (scanLoc t) + yyleng\<rparr>\<rparr>))"

text \<open>What \<open>yylex\<close> returns: the type of the token, its text and its location.\<close>

type_synonym scanned = "int \<times> string \<times> source_location"

definition line_overflow :: "source_location \<Rightarrow> scanned" where
  "line_overflow loc = (GOT_ERROR, ''Integer overflow on line number'', loc)"

definition yy_action :: "nat \<Rightarrow> string \<Rightarrow> tokenizer \<Rightarrow> (scanned option \<times> tokenizer) option" where
  "yy_action act text t =
     (let (loc, t) = yy_user_action (length text) t; first = [hd text]
      in if act \<in> {1, 3, 4} then Some (None, t)
         else if act = 2 then Some (None, t\<lparr>yy_comment := True\<rparr>)
         else if act = 5 then
           if yylineno t = INT_MAX then Some (Some (line_overflow loc), t)
           else Some (None, t\<lparr>yylineno := yylineno t + 1\<rparr>)
         else if act = 6 then Some (None, t\<lparr>leadingSpace := True, yy_comment := False\<rparr>)
         else if act = 7 then Some (Some (if lineStart t then PP_HASH else PP_OTHER, first, loc), t)
         else if act = 8 then Some (Some (IDENTIFIER, text, loc), t)
         else if act = 9 then Some (Some (CONST_INT, text, loc), t)
         else if act = 10 then Some (Some (260, text, loc), t)
         else if act = 11 then Some (Some (PP_NUMBER, text, loc), t)
         else if 12 \<le> act \<and> act \<le> 32 then Some (Some (int act + 249, text, loc), t)
         else if act = 33 then Some (Some (of_char (hd text), first, loc), t)
         else if act = 34 then Some (None, t\<lparr>leadingSpace := True\<rparr>)
         else if act = 35 then
           if yylineno t = INT_MAX then Some (Some (line_overflow loc), t)
           else Some (Some (NEWLINE, [CHR 10], loc), t\<lparr>yylineno := yylineno t + 1\<rparr>)
         else if act = 36 then Some (Some (PP_OTHER, first, loc), t)
         else None)"

definition yy_eof :: "tokenizer \<Rightarrow> shared \<Rightarrow> scanned \<times> tokenizer \<times> shared" where
  "yy_eof t sh =
     (let sIndexMax = mCount (tz_input t) - 1;
          t = (if sIndex (scanLoc t) \<noteq> sIndexMax
               then t\<lparr>scanLoc := \<lparr>sIndex = sIndexMax, cIndex = 0\<rparr>, yyfileno := int sIndexMax, yylineno := 1\<rparr> else t);
          sh = (if yylineno t = INT_MAX
                then report PP_TOKENIZER_ERROR (yyloc t) ''Integer overflow on line number'' sh
                else if yy_comment t then report PP_EOF_IN_COMMENT (yyloc t) ''EOF while in a comment'' sh
                else sh)
      in ((LAST, [], yyloc t), t, sh))"

partial_function (option) yylex_loop :: "tokenizer \<Rightarrow> shared \<Rightarrow> (scanned \<times> tokenizer \<times> shared) option" where
  "yylex_loop t sh =
     Option.bind (yy_match (if yy_comment t then 3 else 1) 0 None t) (\<lambda>(m, t).
       case m of
         AtEnd \<Rightarrow> Some (yy_eof t sh)
       | Matched act n \<Rightarrow>
           Option.bind (yy_action act (take n (yy_buf t)) (t\<lparr>yy_buf := drop n (yy_buf t)\<rparr>)) (\<lambda>(r, t).
             case r of
               None \<Rightarrow> yylex_loop t sh
             | Some scanned \<Rightarrow> Some (scanned, t, sh)))"

definition tz_yylex :: "tokenizer \<Rightarrow> shared \<Rightarrow> (scanned \<times> tokenizer \<times> shared) option" where
  "tz_yylex t sh =
     yylex_loop
       (if yy_init t then t
        else t\<lparr>yy_init := True, yyfileno := 0, yylineno := 1, leadingSpace := False, lineStart := True\<rparr>) sh"

text \<open>\<open>Tokenizer::lex\<close>\<close>

definition tz_lex :: "tokenizer \<Rightarrow> shared \<Rightarrow> (token \<times> tokenizer \<times> shared) option" where
  "tz_lex t sh =
     map_option
       (\<lambda>((type, text, loc), t, sh).
         let sh = (if type = GOT_ERROR then report PP_TOKENIZER_ERROR loc text sh else sh);
             type = (if type = GOT_ERROR then LAST else type);
             long = mMaxTokenSize t < length text;
             sh = (if long then report PP_TOKEN_TOO_LONG loc text sh else sh);
             text = (if long then take (mMaxTokenSize t) text else text);
             token = \<lparr>tk_type = type, tk_flags = 0, tk_location = loc, tk_text = text\<rparr>
         in (setHasLeadingSpace (leadingSpace t) (setAtStartOfLine (lineStart t) token),
             t\<lparr>lineStart := (type = NEWLINE), leadingSpace := False\<rparr>, sh))
       (tz_yylex t sh)"

end
