(* ===== verification/Pp_Tokenizer_Ends.thy ===== *)
theory Pp_Tokenizer_Ends
  imports Pp_Tokenizer Pp_Expander_Inv
begin

text \<open>
  The scanner ends: the tables of flex are safe, the first character of a token always matches a rule, so
  that every match consumes a character; the refill of the buffer never writes behind it when the shader is
  one string (or short). With that \<open>Tokenizer::lex\<close> keeps the contract \<open>lexer\<close> of the macro expander.
\<close>

section \<open>The tables are safe\<close>

text \<open>Every default chain ends in the state that has no entry of its own.\<close>

fun defaults :: "nat \<Rightarrow> nat \<Rightarrow> nat" where
  "defaults 0 s = s"
| "defaults (Suc k) s = (if s = YY_JAM then s else defaults k (yy_def ! s))"

lemma yy_tables_length:
  "length yy_accept = 95" "length yy_ec = 256" "length yy_meta = 29" "length yy_base = 100"
  "length yy_def = 100" "length yy_nxt = 224" "length yy_chk = 224"
  by (simp_all add: yy_accept_def yy_ec_def yy_meta_def yy_base_def yy_def_def yy_nxt_def yy_chk_def)

lemma table_at_Some [simp]: "i < length xs \<Longrightarrow> table_at xs i = Some (xs ! i)"
  by (simp add: table_at_def)

lemma yy_ec_classes: "list_all (\<lambda>c. c < 29) yy_ec"
  by code_simp

lemma yy_ec_positive: "list_all (\<lambda>c. 0 < c) (tl yy_ec)"
  by code_simp

lemma yy_meta_classes: "list_all (\<lambda>c. 0 < c \<and> c < 29) (tl yy_meta)"
  by code_simp

lemma yy_defaults: "list_all (\<lambda>s. defaults 6 s = YY_JAM) ([1..<95] @ [95..<100])"
  by code_simp

lemma yy_entries: "list_all (\<lambda>(k, n). k = 0 \<or> k = 94 \<or> 6 \<le> n \<and> n \<le> 94) (zip yy_chk yy_nxt)"
  by code_simp

lemma yy_jam: "yy_base ! 94 = 195" "list_all (\<lambda>(k, n). k = 94 \<and> n = 94) (drop 196 (zip yy_chk yy_nxt))"
  by code_simp+

lemma yy_rules: "list_all (\<lambda>act. act \<le> 36) (drop 6 yy_accept)" "yy_accept ! 1 = 0" "yy_accept ! 3 = 0"
  by code_simp+


lemma yy_bounds: "list_all (\<lambda>b. b \<le> 195) yy_base"
  "list_all (\<lambda>(s, d). s = 0 \<or> s = 94 \<or> 1 \<le> d \<and> d < 100) (zip [0..<100] yy_def)"
  by code_simp+

text \<open>In the start states every character is the beginning of a match.\<close>

lemma yy_start_1: "list_all (\<lambda>(k, n). k = 1 \<and> n \<noteq> 94 \<and> yy_accept ! n \<noteq> 0) (take 28 (tl (zip yy_chk yy_nxt)))"
  "yy_base ! 1 = 0"
  by code_simp+

lemma yy_start_3: "list_all (\<lambda>(k, n). k = 3 \<longrightarrow> n \<noteq> 94 \<and> yy_accept ! n \<noteq> 0) (zip yy_chk yy_nxt)"
  "yy_base ! 3 = 26" "yy_def ! 3 = 95" "yy_base ! 95 = 177"
  by code_simp+

lemma yy_start_95: "list_all (\<lambda>(k, n). k = 95 \<and> n \<noteq> 94 \<and> yy_accept ! n \<noteq> 0) (take 5 (drop 178 (zip yy_chk yy_nxt)))"
  "list_all (\<lambda>c. 1 \<le> c \<and> c \<le> 5) (tl yy_meta)"
  by code_simp+

lemma yy_base_range: "s < 100 \<Longrightarrow> yy_base ! s \<le> 195"
  using yy_bounds(1) [unfolded list_all_length, rule_format, of s] by (simp add: yy_tables_length)

lemma yy_transition_eq:
  assumes "s < 100" and "c < 29"
  shows "yy_transition s c =
    (if yy_chk ! (yy_base ! s + c) = s then Some (yy_nxt ! (yy_base ! s + c))
     else let s' = yy_def ! s in yy_transition s' (if 95 \<le> s' then yy_meta ! c else c))"
  using assms yy_base_range [OF assms(1)] by (subst yy_transition.simps) (simp add: yy_tables_length Let_def)

lemma yy_first:
  assumes "s = 1 \<or> s = 3" and c: "1 \<le> c" "c < 29"
  shows "\<exists>r. yy_transition s c = Some r \<and> r \<noteq> YY_JAM \<and> yy_accept ! r \<noteq> 0"
  using assms(1)
proof
  assume "s = 1"
  moreover have "yy_chk ! c = 1 \<and> yy_nxt ! c \<noteq> 94 \<and> yy_accept ! (yy_nxt ! c) \<noteq> 0"
    using yy_start_1(1) [unfolded list_all_length, rule_format, of "c - 1"] c
    by (simp add: yy_tables_length nth_tl)
  ultimately show ?thesis using c by (simp add: yy_transition_eq yy_start_1(2) [simplified])
next
  assume s: "s = 3"
  define m where "m = yy_meta ! c"
  have m: "1 \<le> m" "m \<le> 5"
    using yy_start_95(2) [unfolded list_all_length, rule_format, of "c - 1"] c
    by (simp_all add: yy_tables_length nth_tl m_def)
  have "yy_chk ! (177 + m) = 95 \<and> yy_nxt ! (177 + m) \<noteq> 94 \<and> yy_accept ! (yy_nxt ! (177 + m)) \<noteq> 0"
    using yy_start_95(1) [unfolded list_all_length, rule_format, of "m - 1"] m
    by (simp add: yy_tables_length)
  moreover have "yy_chk ! (26 + c) = 3 \<Longrightarrow> yy_nxt ! (26 + c) \<noteq> 94 \<and> yy_accept ! (yy_nxt ! (26 + c)) \<noteq> 0"
    using yy_start_3(1) [unfolded list_all_length, rule_format, of "26 + c"] c by (simp add: yy_tables_length)
  ultimately show ?thesis
    using s c m by (simp add: yy_transition_eq yy_start_3 yy_start_95 Let_def m_def [symmetric])
qed

lemma yy_class_range: "1 \<le> yy_class c \<and> yy_class c < 29"
proof (cases "c = CHR 0x00")
  case False
  define n where "n = (of_char c :: nat)"
  have "n \<noteq> 0"
  proof
    assume "n = 0"
    then have "char_of n = CHR 0x00" by (simp add: char_of_def)
    then show False using False by (simp add: n_def)
  qed
  moreover have n: "n < 256" unfolding n_def by (rule nat_of_char_less_256)
  ultimately have "0 < yy_ec ! n" and "yy_ec ! n < 29"
    using yy_ec_classes [unfolded list_all_length, rule_format, of n]
      yy_ec_positive [unfolded list_all_length, rule_format, of "n - 1"]
    by (simp_all add: yy_tables_length nth_tl)
  then show ?thesis
    using False by (simp add: yy_class_def n_def Suc_le_eq)
qed (simp add: yy_class_def)

lemma yy_entry:
  assumes "k < 224" and "yy_chk ! k \<noteq> 0" and "yy_chk ! k \<noteq> 94"
  shows "6 \<le> yy_nxt ! k \<and> yy_nxt ! k \<le> 94"
  using yy_entries [unfolded list_all_length, rule_format, of k] assms by (simp add: yy_tables_length)

lemma yy_jam_entry:
  assumes "196 \<le> k" and "k < 224"
  shows "yy_chk ! k = 94 \<and> yy_nxt ! k = 94"
  using yy_jam(2) [unfolded list_all_length, rule_format, of "k - 196"] assms by (simp add: yy_tables_length)

lemma yy_meta_range: "1 \<le> c \<Longrightarrow> c < 29 \<Longrightarrow> 1 \<le> yy_meta ! c \<and> yy_meta ! c < 29"
  using yy_meta_classes [unfolded list_all_length, rule_format, of "c - 1"]
  by (simp add: yy_tables_length nth_tl Suc_le_eq)

lemma yy_def_range: "s < 100 \<Longrightarrow> s \<noteq> 0 \<Longrightarrow> s \<noteq> 94 \<Longrightarrow> 1 \<le> yy_def ! s \<and> yy_def ! s < 100"
  using yy_bounds(2) [unfolded list_all_length, rule_format, of s] by (simp add: yy_tables_length)

lemma defaults_transition:
  assumes "defaults k s = YY_JAM" and "1 \<le> s" and "s < 100" and "1 \<le> c" and "c < 29"
  shows "\<exists>r. yy_transition s c = Some r \<and> 6 \<le> r \<and> r \<le> YY_JAM"
  using assms
proof (induction k arbitrary: s c)
  case (0 s c)
  then show ?case
    using yy_jam_entry [of "195 + c"] yy_jam(1) by (simp add: yy_transition_eq)
next
  case (Suc k s c)
  consider "s = 94" | "s \<noteq> 94" "yy_chk ! (yy_base ! s + c) = s" | "s \<noteq> 94" "yy_chk ! (yy_base ! s + c) \<noteq> s" by blast
  then show ?case
  proof cases
    case 1
    then show ?thesis
      using yy_jam_entry [of "195 + c"] yy_jam(1) Suc.prems by (simp add: yy_transition_eq)
  next
    case 2
    then show ?thesis
      using yy_entry [of "yy_base ! s + c"] yy_base_range [of s] Suc.prems by (simp add: yy_transition_eq)
  next
    case 3
    then have "\<exists>r. yy_transition (yy_def ! s) (if 95 \<le> yy_def ! s then yy_meta ! c else c) = Some r \<and> 6 \<le> r \<and> r \<le> 94"
      using yy_def_range [of s] yy_meta_range [of c] Suc.prems by (intro Suc.IH) auto
    then show ?thesis using 3 Suc.prems by (simp add: yy_transition_eq [of s c] Let_def)
  qed
qed

lemma yy_transition_ok:
  assumes "1 \<le> s" and "s < 94" and "1 \<le> c" and "c < 29"
  shows "\<exists>r. yy_transition s c = Some r \<and> 6 \<le> r \<and> r \<le> YY_JAM"
proof -
  have "s \<in> set ([1..<95] @ [95..<100])" using assms by simp
  then have "defaults 6 s = YY_JAM" using yy_defaults unfolding list_all_iff by blast
  then show ?thesis using assms by (intro defaults_transition) auto
qed

lemma yy_rule: "6 \<le> s \<Longrightarrow> s < 94 \<Longrightarrow> yy_accept ! s \<le> 36"
  using yy_rules(1) [unfolded list_all_length, rule_format, of "s - 6"] by (simp add: yy_tables_length)


section \<open>The input\<close>

text \<open>With one string that is not empty the loop copies once.\<close>

definition single :: "(string \<times> char) list \<Rightarrow> bool" where
  "single strings \<longleftrightarrow> length (filter (\<lambda>p. fst p \<noteq> []) strings) \<le> 1"

lemma single_rest:
  assumes "single (mString s)" and "i < mCount s" and "fst (mString s ! i) \<noteq> []"
  shows "concat (map fst (drop (Suc i) (mString s))) = []"
proof -
  have "mString s = take i (mString s) @ mString s ! i # drop (Suc i) (mString s)"
    using assms(2) by (simp add: mCount_def id_take_nth_drop)
  then have "filter (\<lambda>p. fst p \<noteq> []) (mString s) =
      filter (\<lambda>p. fst p \<noteq> []) (take i (mString s)) @ mString s ! i # filter (\<lambda>p. fst p \<noteq> []) (drop (Suc i) (mString s))"
    using assms(3) by (metis (mono_tags, lifting) filter.simps(2) filter_append)
  then have "filter (\<lambda>p. fst p \<noteq> []) (drop (Suc i) (mString s)) = []"
    using assms(1) by (simp add: single_def)
  then show ?thesis by (simp add: filter_empty_conv)
qed

lemma copyLoop_single:
  assumes "placed s" and "single (mString s)" and "maxRead \<le> maxSize" and "copyLoop maxSize maxRead buf s = Some (b, s')"
  shows "length b \<le> length buf + maxSize"
  using assms
proof (induction maxSize maxRead buf s rule: copyLoop.induct)
  case (1 maxSize maxRead buf s)
  define i where "i = sIndex (mReadLoc s)"
  define c where "c = cIndex (mReadLoc s)"
  show ?case
  proof (cases "0 < maxSize \<and> length buf < maxRead \<and> i < mCount s")
    case False
    then show ?thesis
      using "1.prems"(4) by (auto simp: copyLoop.simps [of maxSize maxRead buf s] i_def)
  next
    case True
    then have c: "c \<le> mLength s i"
      using "1.prems"(1) by (auto simp: placed_def i_def c_def)
    define part where "part = take (min (mLength s i - c) maxSize) (drop c (fst (mString s ! i)))"
    define q where "q = takeWhile (\<lambda>ch. ch \<noteq> CHR 92) part"
    define m where "m = (if length q < length part then length buf + length q else maxRead)"
    define s1 where "s1 = s\<lparr>mReadLoc := if c + length q = mLength s i then \<lparr>sIndex = i + 1, cIndex = 0\<rparr>
                            else \<lparr>sIndex = i, cIndex = c + length q\<rparr>\<rparr>"
    have q_len: "length q \<le> length part"
      by (simp add: q_def length_takeWhile_le)
    have part_len: "length part = min (mLength s i - c) maxSize"
      by (simp add: part_def mLength_def)
    have step: "copyLoop maxSize maxRead buf s = copyLoop maxSize m (buf @ q) s1"
      using True c
      by (simp only: copyLoop.simps [of maxSize maxRead buf s] s1_def Let_def i_def [symmetric] c_def [symmetric]
          part_def [symmetric] q_def [symmetric] m_def [symmetric] input_location.simps) simp
    have s1: "placed s1"
      using "1.prems"(1) True c q_len part_len by (auto simp: s1_def placed_def mCount_def mLength_def)
    show ?thesis
    proof (cases "fst (mString s ! i) = []")
      case True
      then have "q = []" and m: "m = maxRead" by (simp_all add: q_def m_def part_def)
      have "\<not> mLength s i < c" using c by simp
      note IH = "1.IH" [OF i_def c_def _ this part_def q_def m_def refl refl]
      have "length b \<le> length (buf @ q) + maxSize"
        using IH s1 "1.prems" \<open>0 < maxSize \<and> length buf < maxRead \<and> i < mCount s\<close> m step
        by (simp add: s1_def)
      then show ?thesis using \<open>q = []\<close> by simp
    next
      case False
      have "b = buf @ q"
      proof (cases "c + length q = mLength s i")
        case True
        then have "rest s1 = []"
          using single_rest [OF "1.prems"(2) _ False] \<open>0 < maxSize \<and> length buf < maxRead \<and> i < mCount s\<close>
          by (simp add: s1_def rest_def)
        then show ?thesis
          using copyLoop_rest [OF s1, of maxSize m "buf @ q"] "1.prems"(4) \<open>0 < maxSize \<and> length buf < maxRead \<and> i < mCount s\<close>
          by (auto simp: step)
      next
        case not_end: False
        then have "m \<le> length (buf @ q)"
          using q_len part_len "1.prems"(3) c by (auto simp: m_def min_def split: if_splits)
        then have "copyLoop maxSize m (buf @ q) s1 = Some (buf @ q, s1)" by (simp add: copyLoop.simps [of maxSize m])
        then show ?thesis using "1.prems"(4) step by simp
      qed
      then show ?thesis using q_len part_len by simp
    qed
  qed
qed

lemma mString_readContinuation:
  "readContinuation s l = Some (buf, fake, l', s') \<Longrightarrow> mString s' = mString s \<and> length buf \<le> 1"
  by (auto simp: readContinuation_def Let_def bind_eq_Some_conv split: if_splits)

lemma mString_read: "read maxSize l s = Some (chars, l', s') \<Longrightarrow> mString s' = mString s"
  by (auto simp: read_def bind_eq_Some_conv dest!: mString_copyLoop mString_readContinuation split: if_splits)

lemma read_single:
  assumes "placed s" and "single (mString s)" and "0 < maxSize" and "read maxSize l s = Some (chars, l', s')"
  shows "length chars \<le> maxSize + 1"
proof (cases "sIndex (mReadLoc s) < mCount s")
  case True
  then obtain buf fake l1 s1 where s1: "readContinuation s l = Some (buf, fake, l1, s1)" "placed s1"
    using readContinuation_placed [OF assms(1)] by blast
  moreover have "single (mString s1)" and "length buf \<le> 1"
    using mString_readContinuation [OF s1(1)] assms(2) by simp_all
  ultimately show ?thesis
    using True assms(3,4) copyLoop_single [OF s1(2), of maxSize maxSize buf] by (fastforce simp: read_def split: if_splits)
next
  case False
  then show ?thesis
    using assms(4) by (auto simp: read_def copyLoop.simps Let_def)
qed

lemma read_placed:
  assumes "placed s" and "0 < maxSize"
  shows "\<exists>chars l' s'. read maxSize l s = Some (chars, l', s') \<and> placed s' \<and>
           length chars + length (rest s') \<le> length (rest s)"
proof (cases "rest s = []")
  case True
  then show ?thesis using read_at_end [OF assms(1) True assms(2)] by fastforce
next
  case False
  then have "sIndex (mReadLoc s) < mCount s" by (rule rest_index)
  moreover from this obtain buf fake l1 s1 where s1: "readContinuation s l = Some (buf, fake, l1, s1)" "placed s1"
    "length buf + length (rest s1) \<le> length (rest s)"
    using readContinuation_placed [OF assms(1)] by blast
  moreover obtain p s2 where "copyLoop maxSize maxSize buf s1 = Some (buf @ p, s2)" "placed s2" "rest s1 = p @ rest s2"
    using copyLoop_rest [OF s1(2) assms(2), of maxSize buf] by blast
  ultimately show ?thesis
    using assms(2) by (cases fake) (auto simp: read_def)
qed

section \<open>The buffer\<close>

text \<open>What is left to scan.\<close>

definition tz_left :: "tokenizer \<Rightarrow> nat" where
  "tz_left t = length (yy_buf t) + length (rest (tz_input t))"

text \<open>
  A write behind the buffer is ruled out when only one source string is not empty, and for a text that fits into the
  buffer at once. A text of less than \<open>2\<^sup>3\<^sup>0\<close> characters never makes the size of the buffer overflow.
\<close>

definition tz_ok :: "tokenizer \<Rightarrow> bool" where
  "tz_ok t \<longleftrightarrow>
     placed (tz_input t) \<and> YY_BUF_SIZE \<le> yy_buf_size t \<and> yy_buf_size t \<le> 2 ^ 31 - 3 \<and>
     int (length (yy_buf t)) \<le> yy_buf_size t \<and> tz_left t < 2 ^ 30 - 2 \<and>
     (single (mString (tz_input t)) \<or> int (tz_left t) \<le> YY_BUF_SIZE)"

lemma growBuffer_ok:
  assumes "0 < room" "room \<le> 2 ^ 31 - 3" "0 \<le> n" "n < 2 ^ 30 - 2"
  shows "\<exists>room'. growBuffer room n = Some room' \<and> room \<le> room' \<and> n + 1 < room' \<and> room' \<le> 2 ^ 31 - 3"
  using assms(1,2)
proof (induction "nat (n + 2 - room)" arbitrary: room rule: less_induct)
  case less
  have n: "int32 (room - n - 1) = room - n - 1" using less.prems assms(3,4) by (intro int32_id) simp_all
  show ?case
  proof (cases "n + 1 < room")
    case True
    then show ?thesis using less.prems by (simp add: growBuffer.simps [of room] n)
  next
    case False
    then have twice: "int32 (room * 2) = room * 2" "int32 (room * 2 + 2) = room * 2 + 2"
      using less.prems assms(3,4) by (simp_all add: int32_id)
    have "growBuffer room n = growBuffer (room * 2) n"
      using False less.prems by (subst growBuffer.simps) (simp add: n twice Let_def)
    moreover have "\<exists>room'. growBuffer (room * 2) n = Some room' \<and> room * 2 \<le> room' \<and> n + 1 < room' \<and> room' \<le> 2 ^ 31 - 3"
      using False less.prems assms(4) by (intro less.hyps) simp_all
    ultimately show ?thesis using less.prems by fastforce
  qed
qed

lemma yy_get_next_buffer_ok:
  assumes "tz_ok t" and "n = length (yy_buf t)"
  shows "\<exists>act t'. yy_get_next_buffer n t = Some (act, t') \<and> tz_ok t' \<and> tz_left t' \<le> tz_left t \<and>
           (act = EOB_ACT_END_OF_FILE \<longleftrightarrow> n = 0 \<and> act \<noteq> EOB_ACT_CONTINUE_SCAN) \<and>
           (\<exists>chars. yy_buf t' = yy_buf t @ chars \<and> (act = EOB_ACT_CONTINUE_SCAN \<longleftrightarrow> chars \<noteq> []))"
proof -
  have n: "int n < 2 ^ 30 - 2" "n \<le> tz_left t" using assms by (auto simp: tz_ok_def tz_left_def)
  have move: "int32 (int n) = int n" using n by (intro int32_id) simp_all
  show ?thesis
  proof (cases "yy_eof_pending t")
    case True
    have "\<not> yy_buf_size t < int n" using assms by (simp add: tz_ok_def)
    moreover have "int32 0 = 0" by (simp add: int32_id)
    ultimately have "yy_get_next_buffer n t =
        Some (if n = 0 then (EOB_ACT_END_OF_FILE, t\<lparr>yy_eof_pending := False\<rparr>)
              else (EOB_ACT_LAST_MATCH, t\<lparr>yy_eof_pending := True\<rparr>))"
      using True by (simp add: yy_get_next_buffer_def Let_def move)
    moreover have "tz_ok (t\<lparr>yy_eof_pending := b\<rparr>) = tz_ok t" "tz_left (t\<lparr>yy_eof_pending := b\<rparr>) = tz_left t" for b
      by (simp_all add: tz_ok_def tz_left_def)
    ultimately show ?thesis using assms(1) by (cases "n = 0") simp_all
  next
    case False
    have size: "YY_BUF_SIZE \<le> yy_buf_size t" "yy_buf_size t \<le> 2 ^ 31 - 3" using assms(1) by (simp_all add: tz_ok_def)
    obtain room where room: "growBuffer (yy_buf_size t) (int n) = Some room" "yy_buf_size t \<le> room" "int n + 1 < room"
      "room \<le> 2 ^ 31 - 3"
      using growBuffer_ok [of "yy_buf_size t" "int n"] size n(1) by auto
    have num: "int32 (room - int n - 1) = room - int n - 1" using room by (intro int32_id) simp_all
    define m where "m = nat (min YY_READ_BUF_SIZE (room - int n - 1))"
    have m: "0 < m" "int (n + m) < room" using room by (auto simp: m_def)
    have placed: "placed (tz_input t)" using assms(1) by (simp add: tz_ok_def)
    obtain chars l' s' where read: "read m (yylineno t) (tz_input t) = Some (chars, l', s')" "placed s'"
      "length chars + length (rest s') \<le> length (rest (tz_input t))"
      using read_placed [OF placed m(1)] by blast
    have count: "mString s' = mString (tz_input t)" using mString_read [OF read(1)] .
    have fits: "int (n + length chars) \<le> room"
    proof (cases "single (mString (tz_input t))")
      case True
      then show ?thesis using read_single [OF placed True m(1) read(1)] m by linarith
    next
      case False
      then show ?thesis using assms read(3) size room(2) by (auto simp: tz_ok_def tz_left_def)
    qed
    have len: "int (length chars) < 2 ^ 30 - 2" "int (length chars) + int n < 2 ^ 30 - 2"
      using assms read(3) by (auto simp: tz_ok_def tz_left_def)
    then have chars: "int32 (int (length chars)) = int (length chars)"
      "int32 (int (length chars) + int n) = int (length chars) + int n"
      by (simp_all add: int32_id)
    define t' where "t' = t\<lparr>yylineno := l', tz_input := s', yy_buf_size := room\<rparr>"
    have "yy_get_next_buffer n t =
        Some (if chars = []
              then if n = 0 then (EOB_ACT_END_OF_FILE, t'\<lparr>yy_eof_pending := False\<rparr>)
                   else (EOB_ACT_LAST_MATCH, t'\<lparr>yy_eof_pending := True\<rparr>)
              else (EOB_ACT_CONTINUE_SCAN, t'\<lparr>yy_buf := yy_buf t @ chars\<rparr>))"
    proof -
      have small: "\<not> room + 2 < int n + int (length chars)" "\<not> room < int (length chars) + int n" using fits by simp_all
      have zero: "int32 0 = 0" by (simp add: int32_id)
      have "yy_get_next_buffer n t =
        (let (act, u) = (if chars = [] then if n = 0 then (EOB_ACT_END_OF_FILE, t'\<lparr>yy_eof_pending := False\<rparr>)
                   else (EOB_ACT_LAST_MATCH, t'\<lparr>yy_eof_pending := True\<rparr>)
              else (EOB_ACT_CONTINUE_SCAN, t'\<lparr>yy_buf := yy_buf t' @ chars\<rparr>))
         in if yy_buf_size u < int (length chars) + int n
            then let new_size = int32 (int (length chars) + int n + int (length chars) div 2)
                 in if new_size < 0 then None else Some (act, u\<lparr>yy_buf_size := int32 (new_size - 2)\<rparr>)
            else Some (act, u))"
        using False unfolding yy_get_next_buffer_def Let_def move
        by (simp only: room(1) num m_def [symmetric] read(1) chars if_False Option.bind.simps prod.case of_nat_add small
            t'_def [symmetric] of_nat_eq_0_iff length_0_conv)
      moreover have "yy_buf_size t' = room" "yy_buf t' = yy_buf t" by (simp_all add: t'_def)
      ultimately show ?thesis using small(2) by (simp add: Let_def)
    qed
    moreover have "tz_ok t'" and "tz_left t' \<le> tz_left t"
      and "tz_ok (t'\<lparr>yy_buf := yy_buf t @ chars\<rparr>)" and "tz_left (t'\<lparr>yy_buf := yy_buf t @ chars\<rparr>) \<le> tz_left t"
    proof -
      have left: "tz_left t' \<le> tz_left t" "tz_left (t'\<lparr>yy_buf := yy_buf t @ chars\<rparr>) \<le> tz_left t"
        using read(3) by (simp_all add: t'_def tz_left_def)
      have sz: "YY_BUF_SIZE \<le> room" using size(1) room(2) by simp
      have le: "int n \<le> room" "int n + int (length chars) \<le> room" using fits by simp_all
      from left show "tz_left t' \<le> tz_left t" and "tz_left (t'\<lparr>yy_buf := yy_buf t @ chars\<rparr>) \<le> tz_left t" by blast+
      show "tz_ok t'"
        using assms read(2) left(1) sz room(4) le(1) count unfolding tz_ok_def by (simp add: t'_def) linarith
      show "tz_ok (t'\<lparr>yy_buf := yy_buf t @ chars\<rparr>)"
        using assms read(2) left(2) sz room(4) le(2) count unfolding tz_ok_def by (simp add: t'_def) linarith
    qed
    moreover have "tz_ok (t'\<lparr>yy_eof_pending := b\<rparr>) = tz_ok t'" "tz_left (t'\<lparr>yy_eof_pending := b\<rparr>) = tz_left t'" for b
      by (simp_all add: tz_ok_def tz_left_def)
    moreover have "yy_buf t' = yy_buf t" by (simp add: t'_def)
    ultimately show ?thesis by (cases "chars = []"; cases "n = 0") simp_all
  qed
qed


section \<open>Every match consumes a character\<close>

text \<open>Where the matcher is: in a start state at the first character, or behind a rule that can match.\<close>

definition yy_matching :: "nat \<Rightarrow> nat \<Rightarrow> (nat \<times> nat) option \<Rightarrow> bool" where
  "yy_matching s n la \<longleftrightarrow>
     (if n = 0 then (s = 1 \<or> s = 3) \<and> la = None
      else 6 \<le> s \<and> s < YY_JAM \<and> (la \<noteq> None \<or> yy_accept ! s \<noteq> 0) \<and>
        (\<forall>s' n'. la = Some (s', n') \<longrightarrow> s' < 95 \<and> 1 \<le> n' \<and> n' \<le> n \<and> 1 \<le> yy_accept ! s' \<and> yy_accept ! s' \<le> 36))"

lemma yy_matching_start [simp]: "yy_matching (if b then 3 else 1) 0 None"
  by (simp add: yy_matching_def)

lemma yy_matching_step:
  assumes "yy_matching s n la"
  defines "la' \<equiv> (if yy_accept ! s \<noteq> 0 then Some (s, n) else la)"
  obtains r where "yy_transition s (yy_class c) = Some r"
    and "r = YY_JAM \<Longrightarrow> n \<noteq> 0 \<and> (\<exists>s' n'. la' = Some (s', n') \<and> s' < 95 \<and> 1 \<le> n' \<and> n' \<le> n \<and>
                                1 \<le> yy_accept ! s' \<and> yy_accept ! s' \<le> 36)"
    and "r \<noteq> YY_JAM \<Longrightarrow> yy_matching r (n + 1) la'"
proof (cases "n = 0")
  case True
  then have s: "s = 1 \<or> s = 3" "la' = None"
    using assms yy_rules(2,3) by (auto simp: yy_matching_def)
  obtain r where "yy_transition s (yy_class c) = Some r" "r \<noteq> YY_JAM" "yy_accept ! r \<noteq> 0"
    using yy_first [OF s(1)] yy_class_range by blast
  moreover from this have "6 \<le> r \<and> r \<le> YY_JAM"
    using yy_transition_ok [of s "yy_class c"] yy_class_range [of c] s(1) by auto
  ultimately show ?thesis
    using that [of r] s(2) True by (simp add: yy_matching_def)
next
  case False
  then have s: "6 \<le> s" "s < YY_JAM" and la: "la \<noteq> None \<or> yy_accept ! s \<noteq> 0"
    and last: "\<And>s' n'. la = Some (s', n') \<Longrightarrow> s' < 95 \<and> 1 \<le> n' \<and> n' \<le> n \<and> 1 \<le> yy_accept ! s' \<and> yy_accept ! s' \<le> 36"
    using assms(1) by (auto simp: yy_matching_def)
  obtain s' n' where la': "la' = Some (s', n')" "s' < 95" "1 \<le> n'" "n' \<le> n" "1 \<le> yy_accept ! s'" "yy_accept ! s' \<le> 36"
    using la last yy_rule [OF s] s False by (cases "yy_accept ! s = 0") (auto simp: la'_def)
  obtain r where "yy_transition s (yy_class c) = Some r" "6 \<le> r" "r \<le> YY_JAM"
    using yy_transition_ok [of s "yy_class c"] yy_class_range [of c] s by auto
  then show ?thesis
    using that [of r] la' False by (simp add: yy_matching_def)
qed

lemma yy_match_ok:
  assumes "tz_ok t" and "n \<le> length (yy_buf t)" and "yy_matching s n la"
  shows "\<exists>m t'. yy_match s n la t = Some (m, t') \<and> tz_ok t' \<and> tz_left t' \<le> tz_left t \<and>
           (case m of AtEnd \<Rightarrow> n = 0
            | Matched act k \<Rightarrow> 1 \<le> act \<and> act \<le> 36 \<and> 1 \<le> k \<and> k \<le> length (yy_buf t'))"
  using assms
proof (induction "length (rest (tz_input t)) + (tz_left t - n)" arbitrary: s n la t rule: less_induct)
  case less
  have "s < 95" using less.prems(3) by (auto simp: yy_matching_def split: if_splits)
  then have acc: "table_at yy_accept s = Some (yy_accept ! s)" by (simp add: yy_tables_length)
  show ?case
  proof (cases "n < length (yy_buf t)")
    case True
    define la' where "la' = (if yy_accept ! s \<noteq> 0 then Some (s, n) else la)"
    obtain r where r: "yy_transition s (yy_class (yy_buf t ! n)) = Some r"
      and jam: "r = YY_JAM \<Longrightarrow> n \<noteq> 0 \<and> (\<exists>s' n'. la' = Some (s', n') \<and> s' < 95 \<and> 1 \<le> n' \<and> n' \<le> n \<and>
                                1 \<le> yy_accept ! s' \<and> yy_accept ! s' \<le> 36)"
      and step: "r \<noteq> YY_JAM \<Longrightarrow> yy_matching r (n + 1) la'"
      using yy_matching_step [OF less.prems(3), of "yy_buf t ! n"] unfolding la'_def by metis
    have eq: "yy_match s n la t =
        (if r = YY_JAM then yy_longest la' t else yy_match r (n + 1) la' t)"
      using True r acc by (subst yy_match.simps) (simp add: la'_def Let_def)
    show ?thesis
    proof (cases "r = YY_JAM")
      case True
      then show ?thesis
        using eq jam less.prems(1) \<open>n < length (yy_buf t)\<close> by (fastforce simp: yy_longest_def yy_tables_length)
    next
      case False
      have "length (rest (tz_input t)) + (tz_left t - (n + 1)) < length (rest (tz_input t)) + (tz_left t - n)"
        using True by (simp add: tz_left_def)
      then have "\<exists>m t'. yy_match r (n + 1) la' t = Some (m, t') \<and> tz_ok t' \<and> tz_left t' \<le> tz_left t \<and>
           (case m of AtEnd \<Rightarrow> n + 1 = 0
            | Matched act k \<Rightarrow> 1 \<le> act \<and> act \<le> 36 \<and> 1 \<le> k \<and> k \<le> length (yy_buf t'))"
        using less.prems(1) step [OF False] True by (intro less.hyps) simp_all
      then obtain m t' where "yy_match r (n + 1) la' t = Some (m, t')" "tz_ok t'" "tz_left t' \<le> tz_left t"
        "case m of AtEnd \<Rightarrow> n + 1 = 0
         | Matched act k \<Rightarrow> 1 \<le> act \<and> act \<le> 36 \<and> 1 \<le> k \<and> k \<le> length (yy_buf t')"
        by blast
      then show ?thesis
        using eq False by (intro exI [of _ m] exI [of _ t']) (simp split: match.splits)
    qed
  next
    case False
    then have n: "n = length (yy_buf t)" using less.prems(2) by simp
    obtain act t' chars where t': "yy_get_next_buffer n t = Some (act, t')" "tz_ok t'" "tz_left t' \<le> tz_left t"
      "act = EOB_ACT_END_OF_FILE \<longleftrightarrow> n = 0 \<and> act \<noteq> EOB_ACT_CONTINUE_SCAN"
      "yy_buf t' = yy_buf t @ chars" "act = EOB_ACT_CONTINUE_SCAN \<longleftrightarrow> chars \<noteq> []"
      using yy_get_next_buffer_ok [OF less.prems(1) n] by blast
    have eq: "yy_match s n la t = Option.bind (yy_get_next_buffer n t) (\<lambda>(act, t).
              case act of
                EOB_ACT_END_OF_FILE \<Rightarrow> Some (AtEnd, t)
              | EOB_ACT_CONTINUE_SCAN \<Rightarrow> yy_match s n la t
              | EOB_ACT_LAST_MATCH \<Rightarrow> yy_longest (if yy_accept ! s \<noteq> 0 then Some (s, n) else la) t)"
      using False acc by (subst yy_match.simps) (simp add: Let_def cong: option.case_cong)
    show ?thesis
    proof (cases act)
      case EOB_ACT_END_OF_FILE
      then have "yy_match s n la t = Some (AtEnd, t')" using False t'(1) by (subst eq) simp
      then show ?thesis using t' EOB_ACT_END_OF_FILE by auto
    next
      case EOB_ACT_CONTINUE_SCAN
      then have "length (rest (tz_input t')) < length (rest (tz_input t))"
        using t' by (cases chars) (auto simp: tz_left_def)
      then have "\<exists>m t''. yy_match s n la t' = Some (m, t'') \<and> tz_ok t'' \<and> tz_left t'' \<le> tz_left t' \<and>
           (case m of AtEnd \<Rightarrow> n = 0
            | Matched act k \<Rightarrow> 1 \<le> act \<and> act \<le> 36 \<and> 1 \<le> k \<and> k \<le> length (yy_buf t''))"
        using t'(2,3,5) n less.prems(3) by (intro less.hyps) auto
      then show ?thesis
        using False t'(1,3) EOB_ACT_CONTINUE_SCAN by (auto simp: eq intro: le_trans)
    next
      case EOB_ACT_LAST_MATCH
      then have "n \<noteq> 0" using t'(4) by simp
      then have s: "6 \<le> s" "s < YY_JAM" and la: "la \<noteq> None \<or> yy_accept ! s \<noteq> 0"
        and last: "\<And>s' n'. la = Some (s', n') \<Longrightarrow> s' < 95 \<and> 1 \<le> n' \<and> n' \<le> n \<and> 1 \<le> yy_accept ! s' \<and> yy_accept ! s' \<le> 36"
        using less.prems(3) by (auto simp: yy_matching_def)
      have "yy_match s n la t = yy_longest (if yy_accept ! s \<noteq> 0 then Some (s, n) else la) t'"
        using False t'(1) EOB_ACT_LAST_MATCH by (subst eq) simp
      moreover have "n \<le> length (yy_buf t')" using t'(5) n by simp
      ultimately show ?thesis
        using t'(2,3) la last yy_rule [OF s] \<open>n \<noteq> 0\<close> \<open>s < 95\<close>
        by (cases "yy_accept ! s = 0") (fastforce simp: yy_longest_def yy_tables_length)+
    qed
  qed
qed


section \<open>The actions\<close>

lemma nextStrings_simps:
  "tz_input (nextStrings t) = tz_input t" "yy_buf (nextStrings t) = yy_buf t"
  "yy_buf_size (nextStrings t) = yy_buf_size t"
  "yy_init (nextStrings t) = yy_init t" "yy_comment (nextStrings t) = yy_comment t"
proof (induction t rule: nextStrings.induct)
  case (1 t)
  {
    case 1
    then show ?case using "1.IH" by (subst nextStrings.simps) (simp add: Let_def)
  next
    case 2
    then show ?case using "1.IH" by (subst nextStrings.simps) (simp add: Let_def)
  next
    case 3
    then show ?case using "1.IH" by (subst nextStrings.simps) (simp add: Let_def)
  next
    case 4
    then show ?case using "1.IH" by (subst nextStrings.simps) (simp add: Let_def)
  next
    case 5
    then show ?case using "1.IH" by (subst nextStrings.simps) (simp add: Let_def)
  }
qed

lemma tz_same:
  assumes "tz_input t' = tz_input t" and "yy_buf t' = yy_buf t" and "yy_buf_size t' = yy_buf_size t"
  shows "tz_ok t' = tz_ok t" and "tz_left t' = tz_left t"
  using assms by (simp_all add: tz_ok_def tz_left_def)

lemma yy_user_action_ok:
  assumes "yy_user_action n t = (loc, t')"
  shows "tz_ok t' = tz_ok t" and "tz_left t' = tz_left t"
proof -
  have "t' = (nextStrings t)\<lparr>scanLoc := (scanLoc (nextStrings t))\<lparr>cIndex := cIndex (scanLoc (nextStrings t)) + n\<rparr>\<rparr>"
    using assms by (simp add: yy_user_action_def Let_def)
  then have "tz_input t' = tz_input t \<and> yy_buf t' = yy_buf t \<and> yy_buf_size t' = yy_buf_size t"
    by (simp add: nextStrings_simps)
  then show "tz_ok t' = tz_ok t" and "tz_left t' = tz_left t" using tz_same by blast+
qed

lemma yy_action_ok:
  assumes "1 \<le> act" and "act \<le> 36"
  shows "\<exists>r t'. yy_action act text t = Some (r, t') \<and> tz_ok t' = tz_ok t \<and> tz_left t' = tz_left t"
proof -
  obtain loc u where u: "yy_user_action (length text) t = (loc, u)" by fastforce
  have change: "tz_ok (u\<lparr>yy_comment := b\<rparr>) = tz_ok u" "tz_left (u\<lparr>yy_comment := b\<rparr>) = tz_left u"
    "tz_ok (u\<lparr>yylineno := l\<rparr>) = tz_ok u" "tz_left (u\<lparr>yylineno := l\<rparr>) = tz_left u"
    "tz_ok (u\<lparr>leadingSpace := b\<rparr>) = tz_ok u" "tz_left (u\<lparr>leadingSpace := b\<rparr>) = tz_left u"
    "tz_ok (u\<lparr>leadingSpace := b, yy_comment := c\<rparr>) = tz_ok u"
    "tz_left (u\<lparr>leadingSpace := b, yy_comment := c\<rparr>) = tz_left u" for b l c
    by (intro tz_same; simp)+
  have "\<exists>r t'. yy_action act text t = Some (r, t') \<and> tz_ok t' = tz_ok u \<and> tz_left t' = tz_left u"
  proof -
    have "yy_action act text t \<noteq> None"
      using assms unfolding yy_action_def u Let_def prod.case by (auto split: if_splits, arith)
    moreover have "tz_ok t' = tz_ok u \<and> tz_left t' = tz_left u" if "yy_action act text t = Some (r, t')" for r t'
      using that unfolding yy_action_def u Let_def prod.case by (auto simp: change split: if_splits)
    ultimately show ?thesis by auto
  qed
  then show ?thesis using yy_user_action_ok [OF u] by simp
qed

lemma yy_eof_ok:
  assumes "yy_eof t sh = (scanned, t', sh')"
  shows "tz_ok t' = tz_ok t" and "tz_left t' = tz_left t" and "fst scanned = LAST"
    and "wf_shared sh' = wf_shared sh" and "evolves x sh' = evolves x sh" and "store sh' = store sh"
proof -
  have "tz_input t' = tz_input t \<and> yy_buf t' = yy_buf t \<and> yy_buf_size t' = yy_buf_size t"
    using assms by (auto simp: yy_eof_def Let_def)
  then show "tz_ok t' = tz_ok t" and "tz_left t' = tz_left t" using tz_same by blast+
  show "fst scanned = LAST" "wf_shared sh' = wf_shared sh" "evolves x sh' = evolves x sh" "store sh' = store sh"
    using assms by (auto simp: yy_eof_def Let_def split: if_splits)
qed

lemma yylex_loop_ok:
  assumes "tz_ok t"
  shows "\<exists>scanned t' sh'. yylex_loop t sh = Some (scanned, t', sh') \<and> tz_ok t' \<and>
           (tz_left t' < tz_left t \<or> fst scanned = LAST \<and> tz_left t' \<le> tz_left t) \<and>
           (wf_shared sh \<longrightarrow> wf_shared sh') \<and> evolves sh sh' \<and> store sh' = store sh"
  using assms
proof (induction "tz_left t" arbitrary: t rule: less_induct)
  case less
  obtain m t1 where t1: "yy_match (if yy_comment t then 3 else 1) 0 None t = Some (m, t1)" "tz_ok t1"
    "tz_left t1 \<le> tz_left t"
    "case m of AtEnd \<Rightarrow> True | Matched act k \<Rightarrow> 1 \<le> act \<and> act \<le> 36 \<and> 1 \<le> k \<and> k \<le> length (yy_buf t1)"
    using yy_match_ok [OF less.prems le0 yy_matching_start [of "yy_comment t"]] by (fastforce split: match.splits)
  show ?case
  proof (cases m)
    case AtEnd
    obtain scanned t' sh' where e: "yy_eof t1 sh = (scanned, t', sh')" by (cases "yy_eof t1 sh") auto
    show ?thesis
      using t1 yy_eof_ok [OF e] by (subst yylex_loop.simps) (simp add: AtEnd e)
  next
    case (Matched act k)
    define t2 where "t2 = t1\<lparr>yy_buf := drop k (yy_buf t1)\<rparr>"
    have t2: "tz_ok t2" "tz_left t2 < tz_left t1"
      using t1 Matched by (auto simp: t2_def tz_ok_def tz_left_def)
    obtain r t3 where t3: "yy_action act (take k (yy_buf t1)) t2 = Some (r, t3)" "tz_ok t3" "tz_left t3 < tz_left t"
      using yy_action_ok [of act "take k (yy_buf t1)" t2] t1(3,4) t2 Matched by auto
    have eq: "yylex_loop t sh = (case r of None \<Rightarrow> yylex_loop t3 sh | Some scanned \<Rightarrow> Some (scanned, t3, sh))"
      using t1(1) t3(1) by (subst yylex_loop.simps) (simp add: Matched t2_def)
    show ?thesis
    proof (cases r)
      case None
      then show ?thesis using eq less.hyps [OF t3(3,2)] t3(3) by (auto intro: less_trans)
    next
      case (Some scanned)
      then show ?thesis using eq t3 by (cases scanned) auto
    qed
  qed
qed

text \<open>\<open>Tokenizer::lex\<close> keeps the contract of a lexer.\<close>

interpretation tokenizer: lexer tz_lex tz_ok tz_left False
proof
  fix sh t
  assume sh: "wf_shared sh" and t: "tz_ok t"
  define t0 where "t0 = (if yy_init t then t
       else t\<lparr>yy_init := True, yyfileno := 0, yylineno := 1, leadingSpace := False, lineStart := True\<rparr>)"
  have t0: "tz_ok t0" "tz_left t0 = tz_left t" using t by (simp_all add: t0_def tz_ok_def tz_left_def)
  obtain ty str loc t1 sh1 where r: "yylex_loop t0 sh = Some ((ty, str, loc), t1, sh1)" "tz_ok t1"
    "tz_left t1 < tz_left t \<or> ty = LAST \<and> tz_left t1 \<le> tz_left t"
    "wf_shared sh1" "evolves sh sh1" "store sh1 = store sh"
    using yylex_loop_ok [OF t0(1), of sh] t0(2) sh by fastforce
  then have yylex: "tz_yylex t sh = Some ((ty, str, loc), t1, sh1)"
    by (simp add: tz_yylex_def t0_def [symmetric])
  show "\<exists>tok t' sh'. tz_lex t sh = Some (tok, t', sh') \<and> tz_ok t' \<and> wf_shared sh' \<and> evolves sh sh' \<and>
      (tz_left t' < tz_left t \<or> tk_type tok = LAST \<and> tz_left t' = tz_left t \<and> length (store sh') = length (store sh)) \<and>
      (\<not> False \<longrightarrow> length (store sh') = length (store sh))"
    using r
    by (auto simp: tz_lex_def yylex Let_def tz_ok_def tz_left_def)
qed

section \<open>The start\<close>

text \<open>The sources that are scanned without a write behind the buffer.\<close>

definition scannable :: "(string \<times> char) list \<Rightarrow> bool" where
  "scannable strings \<longleftrightarrow> empty_ends strings \<and> length (concat (map fst strings)) < 2 ^ 30 - 2 \<and>
     (single strings \<or> int (length (concat (map fst strings))) \<le> YY_BUF_SIZE)"

lemma tz_ok_Tokenizer:
  assumes "scannable strings"
  shows "tz_ok (Tokenizer strings)" and "tz_left (Tokenizer strings) = length (concat (map fst strings))"
  using assms placed_Input [of strings] rest_Input [of strings]
  by (auto simp: tz_ok_def tz_left_def Tokenizer_def Input_def scannable_def)

section \<open>Properties\<close>

text \<open>
  C28. The scanner always ends, whatever the characters of the text, for sources of less than \<open>2\<^sup>3\<^sup>0 - 2\<close> characters of which
  only one string is not empty, or that have at most 16384 characters together; an empty string has no backslash and no
  end of line behind it in memory (it has a 0 when the API is called without lengths). No table is read outside of its
  bounds, no state is without a transition, the buffer is not written behind its end and its size does not overflow,
  there are at most as many tokens as characters, and the end of the text is reached. Macros are left alone.
\<close>

theorem tokenizer_ends:
  assumes "scannable strings" and "wf_shared sh"
  shows "\<exists>ts t sh'. lexAll tz_lex (Tokenizer strings) sh = Some (ts, t, sh') \<and>
           length ts \<le> length (concat (map fst strings)) \<and> evolves sh sh' \<and> length (store sh') = length (store sh)"
  using tokenizer.lexAll_ok [OF assms(2) tz_ok_Tokenizer(1) [OF assms(1)]] tz_ok_Tokenizer(2) [OF assms(1)]
  by auto

theorem tokenizer_ends_witness:
  "\<exists>ts t sh'. lexAll tz_lex (Tokenizer [(''int a /* '' @ [CHR 92, CHR 10], CHR 0x00), ([], CHR 0x00), (''*/=1.0e+;'', CHR 0x00)])
     \<lparr>store = [], macroSet = Map.empty, diags = []\<rparr> = Some (ts, t, sh') \<and> length ts \<le> 21"
proof -
  let ?s = "[(''int a /* '' @ [CHR 92, CHR 10], CHR 0x00), ([], CHR 0x00), (''*/=1.0e+;'', CHR 0x00)]"
  have "scannable ?s" by (simp add: scannable_def empty_ends_def)
  moreover have "wf_shared \<lparr>store = [], macroSet = Map.empty, diags = []\<rparr>" by (simp add: wf_shared_def)
  ultimately show ?thesis using tokenizer_ends [of ?s] by fastforce
qed

section \<open>Where the refill writes behind its buffer\<close>

text \<open>
  A token of five characters is at the end of the buffer when it is filled from the last 8191 characters of
  one string and from another string: the 16383 characters of \<open>read\<close> do not fit behind the five.
\<close>

definition overrun_input :: pp_input where
  "overrun_input = Input [(replicate 8191 CHR ''a'', CHR 0x00), (replicate 8192 CHR ''b'', CHR 0x00)]"

lemma takeWhile_replicate_other: "c \<noteq> d \<Longrightarrow> takeWhile (\<lambda>ch. ch \<noteq> d) (replicate n c) = replicate n c"
  by (induction n) simp_all

lemma overrun_read: "\<exists>s. read 8192 1 overrun_input = Some (replicate 8191 CHR ''a'' @ replicate 8192 CHR ''b'', 1, s)"
  by (simp add: overrun_input_def Input_def read_def readContinuation_def charAt_def mCount_def mLength_def Let_def
      copyLoop.simps takeWhile_replicate_other nth_replicate take_replicate)

lemma refill_overruns_buffer:
  "yy_get_next_buffer 5 ((Tokenizer [])\<lparr>tz_input := overrun_input, yylineno := 1, yy_buf := ''abcde''\<rparr>) = None"
  using overrun_read
  by (auto simp: yy_get_next_buffer_def Tokenizer_def growBuffer.simps int32_def Let_def)

end
