(* ===== verification/Pp_Directives_Ends.thy ===== *)
theory Pp_Directives_Ends
  imports Pp_Directives Pp_Tokenizer_Ends
begin

text \<open>
  The directive parser ends on every tokenizer that does, keeps the macros well-formed and its conditional
  stack nested; so it is a lexer with the contract of the macro expander again. Each operation is shown to
  return in a state that has been reached from the one before (\<open>later\<close>, \<open>ran\<close>), by rules for the sequence
  of two computations.
\<close>

section \<open>Total correctness\<close>

text \<open>A computation returns, and its result is as it should be.\<close>

definition ends :: "'a option \<Rightarrow> ('a \<Rightarrow> bool) \<Rightarrow> bool" where
  "ends r Q \<longleftrightarrow> (\<exists>a. r = Some a \<and> Q a)"

lemma ends_Some [simp]: "ends (Some a) Q \<longleftrightarrow> Q a"
  by (simp add: ends_def)

lemma ends_bind: "ends r Q \<Longrightarrow> (\<And>a. Q a \<Longrightarrow> ends (f a) R) \<Longrightarrow> ends (Option.bind r f) R"
  by (auto simp: ends_def)

lemma ends_bind_pair:
  "ends r (\<lambda>(a, b). Q a b) \<Longrightarrow> (\<And>a b. Q a b \<Longrightarrow> ends (f a b) R) \<Longrightarrow> ends (Option.bind r (\<lambda>(a, b). f a b)) R"
  by (auto simp: ends_def)

lemma ends_bind_triple:
  "ends r (\<lambda>(a, b, c). Q a b c) \<Longrightarrow> (\<And>a b c. Q a b c \<Longrightarrow> ends (f a b c) R) \<Longrightarrow>
   ends (Option.bind r (\<lambda>(a, b, c). f a b c)) R"
  by (auto simp: ends_def)

lemma ends_mono: "ends r Q \<Longrightarrow> (\<And>a. Q a \<Longrightarrow> R a) \<Longrightarrow> ends r R"
  by (auto simp: ends_def)

lemma at_EOD:
  "isEOD (ds_token s) \<Longrightarrow> skipUntilEOD tc s = Some s" "isEOD (ds_token s) \<Longrightarrow> restOfLine tc s = Some ([], s)"
  by (simp_all add: skipUntilEOD.simps restOfLine.simps)

section \<open>Changes of the macro set\<close>

lemma wf_shared_define:
  assumes "wf_shared sh" and "wf_macro m"
  shows "wf_shared (sh\<lparr>store := store sh @ [m], macroSet := (macroSet sh)(mc_name m \<mapsto> length (store sh))\<rparr>)"
  using assms by (auto simp: wf_shared_def nth_append less_SucI)

lemma wf_shared_undef: "wf_shared sh \<Longrightarrow> wf_shared (sh\<lparr>macroSet := (macroSet sh)(n := None)\<rparr>)"
  by (auto simp: wf_shared_def)

lemma evolves_define: "evolves sh sh' \<Longrightarrow> evolves sh (sh'\<lparr>store := store sh' @ ms, macroSet := f\<rparr>)"
  by (auto simp: evolves_def nth_append)

lemma evolves_undef: "evolves sh (sh'\<lparr>macroSet := f\<rparr>) = evolves sh sh'"
  by (simp add: evolves_def)

lemma PredefineMacro_eq:
  "PredefineMacro name i sh =
     (let m = Macro\<lparr>predefined := True, mc_name := name,
                   replacements := [reset_token\<lparr>tk_type := CONST_INT, tk_text := integer_text i\<rparr>]\<rparr>
      in sh\<lparr>store := store sh @ [m], macroSet := (macroSet sh)(mc_name m \<mapsto> length (store sh))\<rparr>)"
  by (simp add: PredefineMacro_def new_macro_def Let_def)

lemma wf_PredefineMacro: "wf_shared sh \<Longrightarrow> wf_shared (PredefineMacro name i sh)"
  unfolding PredefineMacro_eq Let_def
  by (rule wf_shared_define) (simp_all add: wf_macro_def Macro_def)

lemma evolves_PredefineMacro: "evolves sh sh' \<Longrightarrow> evolves sh (PredefineMacro name i sh')"
  unfolding PredefineMacro_eq Let_def by (rule evolves_define)

lemma replacementList_types: "map tk_type (replacementList ts) = map tk_type ts"
  by (cases ts) (simp_all add: comp_def)

lemma wf_new_macro:
  assumes "\<forall>t \<in> set ts. tk_type t \<noteq> LAST"
  shows "wf_macro (Macro\<lparr>mc_type := ty, mc_name := name, parameters := ps, replacements := replacementList ts\<rparr>)"
proof -
  have "set (map tk_type (replacementList ts)) = set (map tk_type ts)" by (simp only: replacementList_types)
  then have "\<forall>t \<in> set (replacementList ts). tk_type t \<noteq> LAST" using assms by (metis image_iff list.set_map)
  then show ?thesis by (simp add: wf_macro_def Macro_def)
qed

lemma ds_token_report [simp]: "ds_token (ds_report d s) = ds_token s" "ds_type (ds_report d s) = ds_type s"
  by (simp_all add: ds_report_def ds_report_text_def ds_type_def)

section \<open>The conditional stack\<close>

text \<open>
  A block inside a group that is skipped is skipped as a whole; a block that is not has had no valid group
  as long as all its groups were skipped, and nothing but its last group may be behind \<open>#else\<close>.
\<close>

definition skips :: "conditional_block list \<Rightarrow> bool" where
  "skips st \<longleftrightarrow> (case st of [] \<Rightarrow> False | b # _ \<Rightarrow> skipBlock b \<or> skipGroup b)"

lemma skipping_skips: "skipping s = skips (mConditionalStack s)"
  by (simp add: skipping_def skips_def)

definition block_ok :: "conditional_block \<Rightarrow> bool" where
  "block_ok b \<longleftrightarrow>
     (foundElseGroup b \<longrightarrow> foundValidGroup b) \<and> (skipBlock b \<longrightarrow> \<not> foundValidGroup b \<and> \<not> skipGroup b) \<and>
     (\<not> skipBlock b \<and> \<not> foundValidGroup b \<longrightarrow> skipGroup b)"

fun nested_blocks :: "conditional_block list \<Rightarrow> bool" where
  "nested_blocks [] \<longleftrightarrow> True"
| "nested_blocks (b # st) \<longleftrightarrow> nested_blocks st \<and> (skipBlock b \<longleftrightarrow> skips st) \<and> block_ok b"

lemma nested_skips: "nested_blocks st \<Longrightarrow> skips st \<longleftrightarrow> (\<exists>b \<in> set st. skipBlock b \<or> skipGroup b)"
  by (induction st) (auto simp: skips_def)

section \<open>What a tokenizer promises\<close>

locale directive_source = lexer "tc_lex tc" ok left grows
  for tc :: "'l tokenizer_class" and ok :: "'l \<Rightarrow> bool" and left :: "'l \<Rightarrow> nat" and grows :: bool +
  assumes set_line: "ok l \<Longrightarrow> ok (tc_setLineNumber tc i l) \<and> left (tc_setLineNumber tc i l) = left l"
    and set_file: "ok l \<Longrightarrow> ok (tc_setFileNumber tc i l) \<and> left (tc_setFileNumber tc i l) = left l"
begin

text \<open>A state that has been reached from another one, and one with the same conditions.\<close>

definition reached :: "'l directive_state \<Rightarrow> 'l directive_state \<Rightarrow> bool" where
  "reached s0 s \<longleftrightarrow>
     ok (mTokenizer s) \<and> wf_shared (ds_shared s) \<and> evolves (ds_shared s0) (ds_shared s) \<and>
     left (mTokenizer s) \<le> left (mTokenizer s0)"

definition later :: "'l directive_state \<Rightarrow> 'l directive_state \<Rightarrow> bool" where
  "later s0 s \<longleftrightarrow> reached s0 s \<and> mConditionalStack s = mConditionalStack s0"

definition ran :: "'l directive_state \<Rightarrow> 'l directive_state \<Rightarrow> bool" where
  "ran s0 s \<longleftrightarrow> reached s0 s \<and> (nested_blocks (mConditionalStack s0) \<longrightarrow> nested_blocks (mConditionalStack s))"

lemma reached_trans: "reached a b \<Longrightarrow> reached b c \<Longrightarrow> reached a c"
  using evolves_trans by (fastforce simp: reached_def)

lemma later_trans: "later a b \<Longrightarrow> later b c \<Longrightarrow> later a c"
  using reached_trans by (auto simp: later_def)

lemma later_ran: "later a b \<Longrightarrow> ran a b"
  by (simp add: later_def ran_def)

lemma ran_trans: "ran a b \<Longrightarrow> ran b c \<Longrightarrow> ran a c"
  using reached_trans by (auto simp: ran_def)

lemma later_reached: "later a b \<Longrightarrow> reached a b"
  by (simp add: later_def)

lemma reached_start: "reached a b \<Longrightarrow> later b b"
  by (auto simp: later_def reached_def)

lemma later_changes [simp]:
  "later s0 (ds_report d s) = later s0 s" "later s0 (ds_report_text d t s) = later s0 s"
  "later s0 (ds_handle e s) = later s0 s" "later s0 (s\<lparr>mPastFirstStatement := b\<rparr>) = later s0 s"
  "later s0 (s\<lparr>mSeenNonPreprocessorToken := b\<rparr>) = later s0 s" "later s0 (s\<lparr>mShaderVersion := i\<rparr>) = later s0 s"
  by (simp_all add: later_def reached_def ds_report_def ds_report_text_def ds_handle_def)

lemma reached_changes [simp]:
  "reached s0 (s\<lparr>mConditionalStack := st\<rparr>) = reached s0 s" "reached s0 (ds_block f s) = reached s0 s"
  "reached s0 (ds_report d s) = reached s0 s" "reached s0 (s\<lparr>mPastFirstStatement := b\<rparr>) = reached s0 s"
  "reached s0 (s\<lparr>mSeenNonPreprocessorToken := b\<rparr>) = reached s0 s"
  by (simp_all add: reached_def ds_block_def ds_report_def ds_report_text_def)

lemma ran_changes [simp]:
  "ran s0 (ds_report d s) = ran s0 s" "ran s0 (s\<lparr>mPastFirstStatement := b\<rparr>) = ran s0 s"
  "ran s0 (s\<lparr>mSeenNonPreprocessorToken := b\<rparr>) = ran s0 s"
  by (simp_all add: ran_def) (simp add: ds_report_def ds_report_text_def)

text \<open>A token is read.\<close>

lemma ds_lex_step:
  assumes "reached s0 s"
  shows "ends (ds_lex tc s) (\<lambda>s'. later s s' \<and>
    (left (mTokenizer s') < left (mTokenizer s) \<or>
     ds_type s' = LAST \<and> left (mTokenizer s') = left (mTokenizer s) \<and>
       length (store (ds_shared s')) = length (store (ds_shared s))))"
  using lexes [of "ds_shared s" "mTokenizer s"] assms
  by (fastforce simp: reached_def later_def ds_lex_def ends_def ds_type_def)

lemma ds_lex_ends:
  assumes "later s0 s"
  shows "ends (ds_lex tc s) (later s0)"
  using ends_mono [OF ds_lex_step [OF later_reached [OF assms]]] later_trans [OF assms] by blast

lemma isEOD_LAST: "ds_type s = LAST \<Longrightarrow> isEOD (ds_token s)"
  by (simp add: isEOD_def ds_type_def)

text \<open>Loops over the rest of a line: a token that does not end the line is some progress.\<close>

lemma ds_lex_progress:
  assumes "later s0 s"
  shows "ends (ds_lex tc s) (\<lambda>s'. later s0 s' \<and> (\<not> isEOD (ds_token s') \<longrightarrow> left (mTokenizer s') < left (mTokenizer s)))"
proof (rule ends_mono [OF ds_lex_step [OF later_reached [OF assms]]], intro conjI impI)
  fix s' assume s': "later s s' \<and> (left (mTokenizer s') < left (mTokenizer s) \<or>
     ds_type s' = LAST \<and> left (mTokenizer s') = left (mTokenizer s) \<and>
       length (store (ds_shared s')) = length (store (ds_shared s)))"
  show "later s0 s'" using later_trans [OF assms] s' by blast
  show "left (mTokenizer s') < left (mTokenizer s)" if "\<not> isEOD (ds_token s')"
    using s' that isEOD_LAST [of s'] by auto
qed

lemma skipUntilEOD_ends:
  assumes "later s0 s"
  shows "ends (skipUntilEOD tc s) (\<lambda>s'. later s0 s' \<and> isEOD (ds_token s'))"
proof -
  have "ends (skipUntilEOD tc s) (\<lambda>s'. later s0 s' \<and> isEOD (ds_token s'))"
    if "later s0 s" "left (mTokenizer s) < n" for n s
    using that
  proof (induction n arbitrary: s)
    case (Suc n)
    show ?case
    proof (cases "isEOD (ds_token s)")
      case False
      have "ends (Option.bind (ds_lex tc s) (skipUntilEOD tc)) (\<lambda>s'. later s0 s' \<and> isEOD (ds_token s'))"
      proof (rule ends_bind [OF ds_lex_progress [OF Suc.prems(1)]])
        fix s' assume s': "later s0 s' \<and> (\<not> isEOD (ds_token s') \<longrightarrow> left (mTokenizer s') < left (mTokenizer s))"
        show "ends (skipUntilEOD tc s') (\<lambda>s'. later s0 s' \<and> isEOD (ds_token s'))"
        proof (cases "isEOD (ds_token s')")
          case False
          then show ?thesis using s' Suc.prems(2) by (intro Suc.IH) auto
        qed (use s' in \<open>simp add: at_EOD\<close>)
      qed
      then show ?thesis using False by (subst skipUntilEOD.simps) simp
    qed (use Suc.prems in \<open>simp add: at_EOD\<close>)
  qed simp
  then show ?thesis using assms by blast
qed

lemma skipUntilEOD_later: "later s0 s \<Longrightarrow> ends (skipUntilEOD tc s) (later s0)"
  using ends_mono [OF skipUntilEOD_ends] by blast

lemma restOfLine_ends:
  assumes "later s0 s"
  shows "ends (restOfLine tc s) (\<lambda>(ts, s'). later s0 s' \<and> isEOD (ds_token s') \<and> (\<forall>t \<in> set ts. tk_type t \<noteq> LAST))"
proof -
  have "ends (restOfLine tc s) (\<lambda>(ts, s'). later s0 s' \<and> isEOD (ds_token s') \<and> (\<forall>t \<in> set ts. tk_type t \<noteq> LAST))"
    if "later s0 s" "left (mTokenizer s) < n" for n s
    using that
  proof (induction n arbitrary: s)
    case (Suc n)
    show ?case
    proof (cases "isEOD (ds_token s)")
      case False
      then have "tk_type (ds_token s) \<noteq> LAST" by (simp add: isEOD_def)
      have "ends (Option.bind (ds_lex tc s) (\<lambda>s'. Option.bind (restOfLine tc s') (\<lambda>(ts, s'). Some (ds_token s # ts, s'))))
        (\<lambda>(ts, s'). later s0 s' \<and> isEOD (ds_token s') \<and> (\<forall>t \<in> set ts. tk_type t \<noteq> LAST))"
      proof (rule ends_bind [OF ds_lex_progress [OF Suc.prems(1)]])
        fix s' assume s': "later s0 s' \<and> (\<not> isEOD (ds_token s') \<longrightarrow> left (mTokenizer s') < left (mTokenizer s))"
        have "ends (restOfLine tc s') (\<lambda>(ts, s'). later s0 s' \<and> isEOD (ds_token s') \<and> (\<forall>t \<in> set ts. tk_type t \<noteq> LAST))"
        proof (cases "isEOD (ds_token s')")
          case False
          then show ?thesis using s' Suc.prems(2) by (intro Suc.IH) auto
        qed (use s' in \<open>simp add: at_EOD\<close>)
        then show "ends (Option.bind (restOfLine tc s') (\<lambda>(ts, s'). Some (ds_token s # ts, s')))
            (\<lambda>(ts, s'). later s0 s' \<and> isEOD (ds_token s') \<and> (\<forall>t \<in> set ts. tk_type t \<noteq> LAST))"
          using \<open>tk_type (ds_token s) \<noteq> LAST\<close> by (auto simp: ends_def)
      qed
      then show ?thesis using False by (subst restOfLine.simps) simp
    qed (use Suc.prems in \<open>simp add: at_EOD\<close>)
  qed simp
  then show ?thesis using assms by blast
qed

lemma parameterLoop_ends:
  assumes "later s0 s"
  shows "ends (parameterLoop tc params s) (\<lambda>(r, s'). later s0 s')"
proof -
  have "ends (parameterLoop tc params s) (\<lambda>(r, s'). later s0 s')" if "later s0 s" "left (mTokenizer s) < n" for n params s
    using that
  proof (induction n arbitrary: params s)
    case (Suc n)
    show ?case
    proof (subst parameterLoop.simps, rule ends_bind [OF ds_lex_progress [OF Suc.prems(1)]])
      fix s1 assume s1: "later s0 s1 \<and> (\<not> isEOD (ds_token s1) \<longrightarrow> left (mTokenizer s1) < left (mTokenizer s))"
      have "ends (do {
          s \<leftarrow> ds_lex tc s1;
          if ds_type s = COMMA then parameterLoop tc (params @ [ds_text s1]) s else Some (Some (params @ [ds_text s1]), s) })
          (\<lambda>(r, s'). later s0 s')" if "ds_type s1 = IDENTIFIER"
      proof (rule ends_bind [OF ds_lex_progress])
        show "later s0 s1" using s1 by simp
        fix s2 assume s2: "later s0 s2 \<and> (\<not> isEOD (ds_token s2) \<longrightarrow> left (mTokenizer s2) < left (mTokenizer s1))"
        have "left (mTokenizer s2) < n" if "ds_type s2 = COMMA"
          using that \<open>ds_type s1 = IDENTIFIER\<close> s1 s2 Suc.prems(2) by (auto simp: isEOD_def ds_type_def)
        then show "ends (if ds_type s2 = COMMA then parameterLoop tc (params @ [ds_text s1]) s2
            else Some (Some (params @ [ds_text s1]), s2)) (\<lambda>(r, s'). later s0 s')"
          using s2 Suc.IH by auto
      qed
      then show "ends (if ds_type s1 \<noteq> IDENTIFIER then Some (Some params, s1)
         else if ds_text s1 \<in> set params then Some (None, ds_report PP_MACRO_DUPLICATE_PARAMETER_NAMES s1)
         else let params = params @ [ds_text s1]
              in do {
                s \<leftarrow> ds_lex tc s1;
                if ds_type s = COMMA then parameterLoop tc params s else Some (Some params, s) }) (\<lambda>(r, s'). later s0 s')"
        using s1 by (simp add: Let_def)
    qed
  qed simp
  then show ?thesis using assms by blast
qed

lemma parseParameters_ends:
  assumes "later s0 s"
  shows "ends (parseParameters tc s) (\<lambda>(r, s'). later s0 s')"
  unfolding parseParameters_def
proof (rule ends_bind [OF ds_lex_ends [OF assms]])
  fix s1 assume s1: "later s0 s1"
  have "ends (do {
      (params, s) \<leftarrow> parameterLoop tc [] s1;
      case params of
        None \<Rightarrow> Some (None, s)
      | Some params \<Rightarrow>
          if ds_type s \<noteq> RIGHT_PAREN then Some (None, ds_report PP_UNEXPECTED_TOKEN s)
          else do { s \<leftarrow> ds_lex tc s; Some (Some (kTypeFunc, params), s) } }) (\<lambda>(r, s'). later s0 s')"
  proof (rule ends_bind_pair [OF parameterLoop_ends [OF s1]])
    fix r :: "string list option" and s2 assume s2: "later s0 s2"
    have "ends (do { s \<leftarrow> ds_lex tc s2; Some (Some (kTypeFunc, params), s) }) (\<lambda>(r, s'). later s0 s')"
      for params :: "string list"
      by (rule ends_bind [OF ds_lex_ends [OF s2]]) simp
    then show "ends (case r of
        None \<Rightarrow> Some (None, s2)
      | Some params \<Rightarrow>
          if ds_type s2 \<noteq> RIGHT_PAREN then Some (None, ds_report PP_UNEXPECTED_TOKEN s2)
          else do { s \<leftarrow> ds_lex tc s2; Some (Some (kTypeFunc, params), s) }) (\<lambda>(r, s'). later s0 s')"
      using s2 by (simp split: option.split)
  qed
  then show "ends (if ds_type s1 = LEFT_PAREN \<and> \<not> hasLeadingSpace (ds_token s1)
     then do {
       (params, s) \<leftarrow> parameterLoop tc [] s1;
       case params of
         None \<Rightarrow> Some (None, s)
       | Some params \<Rightarrow>
           if ds_type s \<noteq> RIGHT_PAREN then Some (None, ds_report PP_UNEXPECTED_TOKEN s)
           else do { s \<leftarrow> ds_lex tc s; Some (Some (kTypeFunc, params), s) } }
     else Some (Some (kTypeObj, []), s1)) (\<lambda>(r, s'). later s0 s')"
    using s1 by simp
qed

lemma defineMacro_later:
  assumes "later s0 s" and "wf_macro m"
  shows "later s0 (defineMacro m s)"
  using assms wf_shared_define [of "ds_shared s" m] evolves_define [where sh = "ds_shared s0" and sh' = "ds_shared s" and ms = "[m]"]
  by (simp add: defineMacro_def new_macro_def Let_def later_def reached_def ds_report_text_def split: option.split)

lemma parseDefine_ends:
  assumes "later s0 s"
  shows "ends (parseDefine tc s) (later s0)"
  unfolding parseDefine_def
proof (rule ends_bind [OF ds_lex_ends [OF assms]])
  fix s1 assume s1: "later s0 s1"
  let ?s2 = "if hasDoubleUnderscores (ds_text s1) then ds_report PP_WARNING_MACRO_NAME_RESERVED s1 else s1"
  have "later s0 ?s2" using s1 by simp
  then have "ends (do {
       (r, s) \<leftarrow> parseParameters tc ?s2;
       case r of
         None \<Rightarrow> Some s
       | Some (type, params) \<Rightarrow> do {
           (ts, s) \<leftarrow> restOfLine tc s;
           Some (defineMacro
             (Macro\<lparr>mc_type := type, mc_name := ds_text s1, parameters := params, replacements := replacementList ts\<rparr>) s) } })
      (later s0)"
  proof (rule ends_bind_pair [OF parseParameters_ends])
    fix r s3 assume s3: "later s0 s3"
    have "ends (do {
           (ts, s) \<leftarrow> restOfLine tc s3;
           Some (defineMacro
             (Macro\<lparr>mc_type := ty, mc_name := ds_text s1, parameters := params, replacements := replacementList ts\<rparr>) s) })
      (later s0)" for ty params
      by (rule ends_bind_pair [OF restOfLine_ends [OF s3]]) (auto intro!: defineMacro_later wf_new_macro)
    then show "ends (case r of
         None \<Rightarrow> Some s3
       | Some (type, params) \<Rightarrow> do {
           (ts, s) \<leftarrow> restOfLine tc s3;
           Some (defineMacro
             (Macro\<lparr>mc_type := type, mc_name := ds_text s1, parameters := params, replacements := replacementList ts\<rparr>) s) })
      (later s0)"
      using s3 by (auto split: option.split)
  qed
  then show "ends (if ds_type s1 \<noteq> IDENTIFIER then Some (ds_report PP_UNEXPECTED_TOKEN s1)
     else if isMacroPredefined (ds_text s1) (ds_shared s1) then Some (ds_report PP_MACRO_PREDEFINED_REDEFINED s1)
     else if isMacroNameReserved (ds_text s1) then Some (ds_report PP_MACRO_NAME_RESERVED s1)
     else let name = ds_text s1;
              s = if hasDoubleUnderscores name then ds_report PP_WARNING_MACRO_NAME_RESERVED s1 else s1
          in do {
       (r, s) \<leftarrow> parseParameters tc s;
       case r of
         None \<Rightarrow> Some s
       | Some (type, params) \<Rightarrow> do {
           (ts, s) \<leftarrow> restOfLine tc s;
           Some (defineMacro
             (Macro\<lparr>mc_type := type, mc_name := name, parameters := params, replacements := replacementList ts\<rparr>) s) } })
      (later s0)"
    using s1 unfolding Let_def by simp
qed

lemma endConditional_ends:
  assumes "later s0 s"
  shows "ends (endConditional tc s) (later s0)"
  unfolding endConditional_def
proof (rule ends_bind [OF ds_lex_ends [OF assms]])
  fix s1 assume "later s0 s1"
  then show "ends (if isEOD (ds_token s1) then Some s1
      else skipUntilEOD tc (ds_report PP_CONDITIONAL_UNEXPECTED_TOKEN s1)) (later s0)"
    using skipUntilEOD_later [of s0 "ds_report PP_CONDITIONAL_UNEXPECTED_TOKEN s1"] by simp
qed

lemma parseUndef_ends:
  assumes "later s0 s"
  shows "ends (parseUndef tc s) (later s0)"
  unfolding parseUndef_def
proof (rule ends_bind [OF ds_lex_ends [OF assms]])
  fix s1 assume s1: "later s0 s1"
  let ?s2 = "s1\<lparr>ds_shared := (ds_shared s1)\<lparr>macroSet := (macroSet (ds_shared s1))(ds_text s1 := None)\<rparr>\<rparr>"
  have "later s0 ?s2"
    using s1 wf_shared_undef [of "ds_shared s1"] by (simp add: later_def reached_def evolves_undef)
  then have "ends (do {
      s \<leftarrow> ds_lex tc ?s2;
      if isEOD (ds_token s) then Some s else skipUntilEOD tc (ds_report PP_UNEXPECTED_TOKEN s) }) (later s0)"
  proof (rule ends_bind [OF ds_lex_ends])
    fix s3 assume "later s0 s3"
    then show "ends (if isEOD (ds_token s3) then Some s3 else skipUntilEOD tc (ds_report PP_UNEXPECTED_TOKEN s3)) (later s0)"
      using skipUntilEOD_later [of s0 "ds_report PP_UNEXPECTED_TOKEN s3"] by simp
  qed
  then show "ends (if ds_type s1 \<noteq> IDENTIFIER then Some (ds_report PP_UNEXPECTED_TOKEN s1)
     else let name = ds_text s1; found = macroSet (ds_shared s1) name
          in if found \<noteq> None \<and> predefined (store (ds_shared s1) ! the found)
             then Some (ds_report PP_MACRO_PREDEFINED_UNDEFINED s1)
             else if found \<noteq> None \<and> 0 < expansionCount (store (ds_shared s1) ! the found)
             then Some (ds_report PP_MACRO_UNDEFINED_WHILE_INVOKED s1)
             else let s = s1\<lparr>ds_shared := (ds_shared s1)\<lparr>macroSet := (macroSet (ds_shared s1))(name := None)\<rparr>\<rparr>
                  in do {
         s \<leftarrow> ds_lex tc s;
         if isEOD (ds_token s) then Some s else skipUntilEOD tc (ds_report PP_UNEXPECTED_TOKEN s) }) (later s0)"
    using s1 unfolding Let_def by simp
qed


section \<open>Conditions\<close>

text \<open>An expander on the tokenizer, and what it may do there.\<close>

lemma ds_expander_ok: "later s0 s \<Longrightarrow> expander_ok (ds_shared s) (ds_expander s) (ds_expander s)"
  by (simp add: expander_ok_def ds_expander_def later_def reached_def MacroExpander_inv not_after_def)

lemma ds_return_later:
  assumes "later s0 s" and "expander_ok (ds_shared s) (ds_expander s) x"
  shows "later s0 (ds_return t x s)"
  using assms x_inv_evolves [of "ds_shared s" x] evolves_trans [of "ds_shared s0" "ds_shared s" "mShared x"]
  by (auto simp: later_def reached_def ds_return_def expander_ok_def x_inv_def not_after_def ds_expander_def)

lemma parse_ends:
  assumes "expander_ok sh x0 x"
  shows "ends (parseExpression (ds_source tc st pd) t v preset es valid x) (\<lambda>(_, _, _, _, x'). expander_ok sh x0 x')"
  using expressions.parseExpression_ok [OF assms] by (fastforce simp: ends_def)

lemma parseExpressionIf_ends:
  assumes "later s0 s"
  shows "ends (parseExpressionIf tc st s) (\<lambda>(v, s'). later s0 s')"
proof -
  obtain r t v w x where p: "parseExpression (ds_source tc st True) (ds_token s) 0 False
        \<lparr>unexpectedIdentifier = PP_CONDITIONAL_UNEXPECTED_TOKEN, integerLiteralsMustFit32BitSignedRange = False\<rparr>
        True (ds_expander s) = Some (r, t, v, w, x)" "expander_ok (ds_shared s) (ds_expander s) x"
    using parse_ends [OF ds_expander_ok [OF assms]] by (fastforce simp: ends_def)
  have "later s0 (ds_return t x s)" using ds_return_later [OF assms p(2)] .
  then have "ends (if isEOD t then Some (ds_return t x s)
      else skipUntilEOD tc (ds_report PP_CONDITIONAL_UNEXPECTED_TOKEN (ds_return t x s))) (later s0)"
    by (auto intro!: skipUntilEOD_later)
  then show ?thesis
    unfolding parseExpressionIf_def p(1) by (auto simp: ends_def Let_def)
qed

lemma parseExpressionIfdef_ends:
  assumes "later s0 s"
  shows "ends (parseExpressionIfdef tc s) (\<lambda>(v, s'). later s0 s')"
  unfolding parseExpressionIfdef_def
proof (rule ends_bind [OF ds_lex_ends [OF assms]])
  fix s1 assume s1: "later s0 s1"
  have a: "ends (do { s \<leftarrow> skipUntilEOD tc (ds_report PP_UNEXPECTED_TOKEN s1); Some (0 :: i32, s) }) (\<lambda>(v, s'). later s0 s')"
    using s1 by (intro ends_bind [OF skipUntilEOD_later [of s0]]) auto
  have "ends (do {
       s \<leftarrow> endConditional tc s1;
       Some (v, s) }) (\<lambda>(v, s'). later s0 s')" for v :: i32
    by (rule ends_bind [OF endConditional_ends [OF s1]]) simp
  with a show "ends (if ds_type s1 \<noteq> IDENTIFIER
     then do { s \<leftarrow> skipUntilEOD tc (ds_report PP_UNEXPECTED_TOKEN s1); Some (0 :: i32, s) }
     else let expression :: i32 = if macroSet (ds_shared s1) (ds_text s1) \<noteq> None then 1 else 0
          in do {
            s \<leftarrow> ds_lex tc s1;
            s \<leftarrow> (if isEOD (ds_token s) then Some s else skipUntilEOD tc (ds_report PP_CONDITIONAL_UNEXPECTED_TOKEN s));
            Some (expression, s) }) (\<lambda>(v, s'). later s0 s')"
    by (simp add: Let_def endConditional_def)
qed

lemma parseConditionalIf_ends:
  assumes "later s s"
  shows "ends (parseConditionalIf tc st s) (ran s)"
proof (cases "skipping s")
  case True
  have "ends (do {
           s' \<leftarrow> skipUntilEOD tc s;
           Some (s'\<lparr>mConditionalStack := \<lparr>cb_type = ds_text s, cb_location = tk_location (ds_token s), skipBlock = True,
             skipGroup = False, foundValidGroup = False, foundElseGroup = False\<rparr> # mConditionalStack s'\<rparr>) }) (ran s)"
    by (rule ends_bind [OF skipUntilEOD_later [OF assms]])
      (use True in \<open>auto simp: ran_def later_def block_ok_def skipping_skips\<close>)
  then show ?thesis using True by (simp add: parseConditionalIf_def Let_def)
next
  case False
  let ?e = "if getDirective (ds_token s) = DIRECTIVE_IF then parseExpressionIf tc st s
              else do {
                (expression, s') \<leftarrow> parseExpressionIfdef tc s;
                Some (if getDirective (ds_token s) = DIRECTIVE_IFDEF then expression else if expression = 0 then 1 else 0, s') }"
  have "ends ?e (\<lambda>(v, s'). later s s')"
    using parseExpressionIf_ends [OF assms] by (auto intro!: ends_bind_pair [OF parseExpressionIfdef_ends [OF assms]])
  then have "ends (do {
      (expression, s') \<leftarrow> ?e;
      Some (s'\<lparr>mConditionalStack := \<lparr>cb_type = ds_text s, cb_location = tk_location (ds_token s), skipBlock = False,
        skipGroup = (expression = 0), foundValidGroup = (expression \<noteq> 0), foundElseGroup = False\<rparr> # mConditionalStack s'\<rparr>) }) (ran s)"
    by (rule ends_bind_pair) (use False in \<open>auto simp: ran_def later_def block_ok_def skipping_skips\<close>)
  then show ?thesis using False by (simp add: parseConditionalIf_def Let_def)
qed

text \<open>A change of the innermost block, before the rest of the line.\<close>

lemma stack_change:
  assumes "later s s" and "nested_blocks (mConditionalStack s) \<Longrightarrow> nested_blocks st"
    and "ends r (later (s\<lparr>mConditionalStack := st\<rparr>))"
  shows "ends r (ran s)"
  using assms by (auto simp: ends_def ran_def later_def reached_def)

lemma parseEndif_ends:
  assumes "later s s"
  shows "ends (parseEndif tc s) (ran s)"
proof (cases "mConditionalStack s")
  case Nil
  then show ?thesis
    using ends_mono [OF skipUntilEOD_later [of s "ds_report PP_CONDITIONAL_ENDIF_WITHOUT_IF s"]] assms later_ran
    by (simp add: parseEndif_def)
next
  case (Cons b st)
  have "ends (endConditional tc (s\<lparr>mConditionalStack := st\<rparr>)) (ran s)"
    by (rule stack_change [of s st, OF assms])
      (use Cons assms in \<open>auto intro!: endConditional_ends simp: later_def reached_def\<close>)
  then show ?thesis using Cons by (simp add: parseEndif_def)
qed

lemma ds_block_eq: "mConditionalStack s = b # st \<Longrightarrow> ds_block f s = s\<lparr>mConditionalStack := f b # st\<rparr>"
  by (simp add: ds_block_def)

lemma parseElse_ends:
  assumes "later s s"
  shows "ends (parseElse tc s) (ran s)"
proof (cases "mConditionalStack s = [] \<or> skipBlock (hd (mConditionalStack s)) \<or> foundElseGroup (hd (mConditionalStack s))")
  case True
  have "ends (skipUntilEOD tc s) (ran s)" "\<And>d. ends (skipUntilEOD tc (ds_report d s)) (ran s)"
    using assms by (auto intro!: ends_mono [OF skipUntilEOD_later later_ran])
  then show ?thesis using True by (auto simp: parseElse_def Let_def)
next
  case False
  then obtain b st where st: "mConditionalStack s = b # st" "\<not> skipBlock b" "\<not> foundElseGroup b"
    by (cases "mConditionalStack s") auto
  have "ends (endConditional tc (s\<lparr>mConditionalStack :=
      b\<lparr>foundElseGroup := True, skipGroup := foundValidGroup b, foundValidGroup := True\<rparr> # st\<rparr>)) (ran s)"
    by (rule stack_change [where st = "b\<lparr>foundElseGroup := True, skipGroup := foundValidGroup b, foundValidGroup := True\<rparr> # st"])
      (use st assms in \<open>auto intro!: endConditional_ends simp: later_def reached_def block_ok_def\<close>)
  then show ?thesis using st by (simp add: parseElse_def ds_block_eq)
qed

lemma parseElif_ends:
  assumes "later s s"
  shows "ends (parseElif tc st s) (ran s)"
proof (cases "mConditionalStack s = [] \<or> skipBlock (hd (mConditionalStack s)) \<or> foundElseGroup (hd (mConditionalStack s))")
  case True
  have "ends (skipUntilEOD tc s) (ran s)" "\<And>d. ends (skipUntilEOD tc (ds_report d s)) (ran s)"
    using assms by (auto intro!: ends_mono [OF skipUntilEOD_later later_ran])
  then show ?thesis using True by (auto simp: parseElif_def Let_def)
next
  case False
  then obtain b bs where st: "mConditionalStack s = b # bs" "\<not> skipBlock b" "\<not> foundElseGroup b"
    by (cases "mConditionalStack s") auto
  show ?thesis
  proof (cases "foundValidGroup b")
    case True
    have "ends (skipUntilEOD tc (s\<lparr>mConditionalStack := b\<lparr>skipGroup := True\<rparr> # bs\<rparr>)) (ran s)"
      by (rule stack_change [where st = "b\<lparr>skipGroup := True\<rparr> # bs"])
        (use st assms True in \<open>auto intro!: skipUntilEOD_later simp: later_def reached_def block_ok_def\<close>)
    then show ?thesis using st True by (simp add: parseElif_def ds_block_eq)
  next
    case False
    have "ends (do {
       (expression, s) \<leftarrow> parseExpressionIf tc st s;
       Some (ds_block (\<lambda>b. b\<lparr>skipGroup := (expression = 0), foundValidGroup := (expression \<noteq> 0)\<rparr>) s) }) (ran s)"
      by (rule ends_bind_pair [OF parseExpressionIf_ends [OF assms]])
        (use st in \<open>auto simp: ran_def later_def ds_block_eq block_ok_def\<close>)
    then show ?thesis using st False by (simp add: parseElif_def)
  qed
qed


section \<open>The other directives\<close>

lemma parseError_ends:
  assumes "later s0 s"
  shows "ends (parseError tc s) (later s0)"
  unfolding parseError_def
  by (rule ends_bind [OF ds_lex_ends [OF assms]], rule ends_bind_pair [OF restOfLine_ends], assumption) simp

lemma parsePragma_ends:
  assumes "later s0 s"
  shows "ends (parsePragma tc s) (later s0)"
  unfolding parsePragma_def Let_def
proof (rule ends_bind [OF ds_lex_ends [OF assms]], rule ends_bind)
  fix s1 assume s1: "later s0 s1"
  then show "ends (if ds_text s1 = ''STDGL'' then ds_lex tc s1 else Some s1) (later s0)"
    using ds_lex_ends by simp
next
  fix s1 s2 assume "later s0 s2"
  then show "ends (do {
       (ts, s) \<leftarrow> restOfLine tc s2;
       case fold pragmaStep ts (0, True, [], []) of (state, valid, name, value) \<Rightarrow>
       Some (if \<not> (valid \<and> state \<in> {0, 1, 4}) then ds_report_text PP_UNRECOGNIZED_PRAGMA name s
           else if 0 < state then ds_handle (\<lambda>loc. handlePragma loc name value (ds_text s1 = ''STDGL'')) s
           else s) }) (later s0)"
    by (intro ends_bind_pair [OF restOfLine_ends]) (auto split: prod.split)
qed

lemma extensionStep_later: "later s0 s \<Longrightarrow> later s0 (snd (extensionStep n p s))"
  by (cases p) (simp add: extensionStep_def Let_def)

lemma extensionLoop_ends:
  assumes "later s0 s"
  shows "ends (extensionLoop tc n p s) (\<lambda>(_, _, s'). later s0 s')"
proof -
  have "ends (extensionLoop tc n p s) (\<lambda>(_, _, s'). later s0 s')" if "later s0 s" "left (mTokenizer s) < k" for k n p s
    using that
  proof (induction k arbitrary: n p s)
    case (Suc k)
    show ?case
    proof (cases "isEOD (ds_token s)")
      case False
      obtain p1 s1 where p1: "extensionStep n p s = (p1, s1)" by fastforce
      have s1: "later s0 s1" using extensionStep_later [OF Suc.prems(1), of n p] p1 by simp
      have left: "left (mTokenizer s1) = left (mTokenizer s)"
        using p1 by (cases p) (auto simp: extensionStep_def Let_def ds_report_def ds_report_text_def split: if_splits)
      have "ends (Option.bind (ds_lex tc s1) (extensionLoop tc (n + 1) p1)) (\<lambda>(_, _, s'). later s0 s')"
      proof (rule ends_bind [OF ds_lex_progress [OF s1]])
        fix s2 assume s2: "later s0 s2 \<and> (\<not> isEOD (ds_token s2) \<longrightarrow> left (mTokenizer s2) < left (mTokenizer s1))"
        show "ends (extensionLoop tc (n + 1) p1 s2) (\<lambda>(_, _, s'). later s0 s')"
        proof (cases "isEOD (ds_token s2)")
          case True
          then show ?thesis using s2 by (simp add: extensionLoop.simps)
        next
          case False
          then show ?thesis using s2 Suc.prems(2) left by (intro Suc.IH) auto
        qed
      qed
      then show ?thesis using False p1 by (subst extensionLoop.simps) simp
    qed (use Suc.prems in \<open>simp add: extensionLoop.simps\<close>)
  qed simp
  then show ?thesis using assms by blast
qed

lemma parseExtension_ends:
  assumes "later s0 s"
  shows "ends (parseExtension tc st s) (later s0)"
  unfolding parseExtension_def
  by (rule ends_bind [OF ds_lex_ends [OF assms]], rule ends_bind_triple [OF extensionLoop_ends], assumption)
    (auto split: prod.split)

lemma versionStep_later: "later s0 s \<Longrightarrow> later s0 (snd (versionStep st v state s))"
  by (auto simp: versionStep_def Let_def split: version_state.split prod.split)

lemma versionLoop_ends:
  assumes "later s0 s"
  shows "ends (versionLoop tc st valid v state s) (\<lambda>(_, s'). later s0 s')"
proof -
  have "ends (versionLoop tc st valid v state s) (\<lambda>(_, s'). later s0 s')" if "later s0 s" "left (mTokenizer s) < k"
    for k valid v state s
    using that
  proof (induction k arbitrary: valid v state s)
    case (Suc k)
    show ?case
    proof (cases "\<not> valid \<or> isEOD (ds_token s)")
      case False
      obtain valid1 v1 state1 s1 where p1: "versionStep st v state s = ((valid1, v1, state1), s1)"
        by (cases "versionStep st v state s") auto
      have s1: "later s0 s1" using versionStep_later [OF Suc.prems(1), of st v state] p1 by simp
      have left: "left (mTokenizer s1) = left (mTokenizer s)"
        using p1 by (auto simp: versionStep_def Let_def ds_report_def ds_report_text_def
            split: version_state.splits prod.splits if_splits)
      have "ends (do {
          s \<leftarrow> ds_lex tc s1;
          versionLoop tc st valid1 v1
            (if ds_type s = NEWLINE \<and> state1 = VERSION_PROFILE_GL then VERSION_ENDLINE else state1) s }) (\<lambda>(_, s'). later s0 s')"
      proof (rule ends_bind [OF ds_lex_progress [OF s1]])
        fix s2 assume s2: "later s0 s2 \<and> (\<not> isEOD (ds_token s2) \<longrightarrow> left (mTokenizer s2) < left (mTokenizer s1))"
        show "ends (versionLoop tc st valid1 v1
            (if ds_type s2 = NEWLINE \<and> state1 = VERSION_PROFILE_GL then VERSION_ENDLINE else state1) s2) (\<lambda>(_, s'). later s0 s')"
        proof (cases "isEOD (ds_token s2)")
          case True
          then show ?thesis using s2 by (simp add: versionLoop.simps)
        next
          case False
          then show ?thesis using s2 Suc.prems(2) left by (intro Suc.IH) auto
        qed
      qed
      then show ?thesis using False p1 by (subst versionLoop.simps) simp
    qed (use Suc.prems in \<open>auto simp: versionLoop.simps\<close>)
  qed simp
  then show ?thesis using assms by blast
qed

lemma later_predefine: "later s0 s \<Longrightarrow> later s0 (s\<lparr>ds_shared := PredefineMacro name i (ds_shared s)\<rparr>)"
  by (simp add: later_def reached_def wf_PredefineMacro evolves_PredefineMacro)

lemma parseVersion_ends:
  assumes "later s0 s"
  shows "ends (parseVersion tc st s) (later s0)"
proof (cases "mPastFirstStatement s")
  case True
  then show ?thesis using assms by (auto simp: parseVersion_def intro!: skipUntilEOD_later)
next
  case False
  let ?finish = "\<lambda>valid version state s.
      if \<not> valid then s
      else if state \<noteq> VERSION_ENDLINE then ds_report PP_INVALID_VERSION_DIRECTIVE s
      else if 300 \<le> version \<and> 1 < loc_line (tk_location (ds_token s)) then ds_report PP_VERSION_NOT_FIRST_LINE_ESSL3 s
      else (ds_handle (\<lambda>loc. handleVersion loc version (shaderSpec st)) s)
        \<lparr>mShaderVersion := version,
         ds_shared := PredefineMacro ''__VERSION__'' version
           (ds_shared (ds_handle (\<lambda>loc. handleVersion loc version (shaderSpec st)) s))\<rparr>"
  have finished: "later s0 (?finish valid version state s1)" if "later s0 s1" for valid version state s1
  proof -
    let ?s = "ds_handle (\<lambda>loc. handleVersion loc version (shaderSpec st)) s1"
    have "later s0 (?s\<lparr>mShaderVersion := version\<rparr>)" using that by simp
    from later_predefine [OF this, of "''__VERSION__''" version] show ?thesis using that by simp
  qed
  have "ends (do {
        s \<leftarrow> ds_lex tc s;
        ((valid, version, state), s) \<leftarrow> versionLoop tc st True 0 VERSION_NUMBER s;
        Some (?finish valid version state s) }) (later s0)"
    by (rule ends_bind [OF ds_lex_ends [OF assms]], rule ends_bind_pair [OF versionLoop_ends], assumption)
      (use finished in \<open>auto split: prod.split\<close>)
  then show ?thesis using False by (simp only: parseVersion_def Let_def if_False)
qed

lemma lineNumber_ends:
  assumes "expander_ok sh x0 x"
  obtains t' n v x' where "lineNumber tc st d valid t x = Some (t', n, v, x')" and "expander_ok sh x0 x'"
proof -
  obtain r t' n v x' where "parseExpression (ds_source tc st False) t 0 True
      \<lparr>unexpectedIdentifier = d, integerLiteralsMustFit32BitSignedRange = True\<rparr> valid x = Some (r, t', n, v, x')"
    "expander_ok sh x0 x'"
    using expressions.parseExpression_ok [OF assms] by blast
  then show ?thesis using that by (simp add: lineNumber_def)
qed

lemma later_line:
  assumes "later s0 s"
  shows "later s0 (s\<lparr>mTokenizer := (if b then tc_setFileNumber tc f else id) (tc_setLineNumber tc l (mTokenizer s))\<rparr>)"
  using assms set_line [of "mTokenizer s" l] set_file [of "tc_setLineNumber tc l (mTokenizer s)" f]
  by (simp add: later_def reached_def)

lemma parseLine_ends:
  assumes "later s0 s"
  shows "ends (parseLine tc st s) (later s0)"
proof -
  have ok: "expander_ok (ds_shared s) (ds_expander s) (ds_expander s)" by (rule ds_expander_ok [OF assms])
  obtain t x where x: "x_lex (tc_lex tc) (expanderSettings st False) (maxMacroExpansionDepth st) (ds_expander s) = Some (t, x)"
    "expander_ok (ds_shared s) (ds_expander s) x"
    using expander_lexes [OF ok] by blast
  obtain t1 l v1 x1 where 1: "lineNumber tc st PP_INVALID_LINE_NUMBER True t x = Some (t1, l, v1, x1)"
    "expander_ok (ds_shared s) (ds_expander s) x1"
    using lineNumber_ends [OF x(2)] by blast
  obtain t2 f v2 x2 where 2: "(if \<not> isEOD t1 \<and> v1 then lineNumber tc st PP_INVALID_FILE_NUMBER v1 t1 x1
      else Some (t1, 0, v1, x1)) = Some (t2, f, v2, x2)" "expander_ok (ds_shared s) (ds_expander s) x2"
  proof (cases "\<not> isEOD t1 \<and> v1")
    case True
    then show ?thesis using lineNumber_ends [OF 1(2), of st PP_INVALID_FILE_NUMBER v1 t1] that by auto
  next
    case False
    then show ?thesis using that 1(2) by auto
  qed
  let ?s = "ds_return t2 x2 s"
  have s: "later s0 ?s" using ds_return_later [OF assms 2(2)] .
  have "ends (if isEOD t2 then Some (v2, ?s)
      else do { s \<leftarrow> skipUntilEOD tc (if v2 then ds_report PP_UNEXPECTED_TOKEN ?s else ?s); Some (False, s) }) (\<lambda>(v, s'). later s0 s')"
    using s by (auto intro!: ends_bind [OF skipUntilEOD_later [of s0]])
  then obtain v3 s3 where 3: "(if isEOD t2 then Some (v2, ?s)
      else do { s \<leftarrow> skipUntilEOD tc (if v2 then ds_report PP_UNEXPECTED_TOKEN ?s else ?s); Some (False, s) }) = Some (v3, s3)"
      "later s0 s3"
    by (auto simp: ends_def)
  have "parseLine tc st s =
      (if isEOD t then Some (ds_report PP_INVALID_LINE_DIRECTIVE (ds_return t x s))
       else Some (if v3 then s3\<lparr>mTokenizer := (if \<not> isEOD t1 \<and> v1 then tc_setFileNumber tc (sint f) else id)
                                   (tc_setLineNumber tc (sint l) (mTokenizer s3))\<rparr> else s3))"
    unfolding parseLine_def x(1) Option.bind.simps prod.case 1(1) Let_def 2(1) 3(1) ..
  then show ?thesis
    using 3(2) later_line ds_return_later [OF assms x(2)] by simp
qed

section \<open>A lexer again\<close>

lemmas later_directives_end =
  parseDefine_ends parseUndef_ends parseError_ends parsePragma_ends parseExtension_ends parseVersion_ends parseLine_ends

lemma runDirective_ends:
  assumes "later s s"
  shows "ends (runDirective tc st d s) (ran s)"
proof -
  have "ends (skipUntilEOD tc (ds_report PP_DIRECTIVE_INVALID_NAME s)) (later s)"
    using assms by (intro skipUntilEOD_later) simp
  note others = later_directives_end [OF assms, THEN ends_mono, OF later_ran] this [THEN ends_mono, OF later_ran]
  show ?thesis
    using others parseConditionalIf_ends [OF assms] parseElse_ends [OF assms] parseElif_ends [OF assms] parseEndif_ends [OF assms]
    by (cases d) (simp_all add: runDirective_def)
qed

text \<open>A directive ends at the end of its line.\<close>

lemma parseDirective_ends:
  assumes "later s s"
  shows "ends (parseDirective tc st s) (\<lambda>s'. ran s s' \<and> isEOD (ds_token s'))"
  unfolding parseDirective_def
proof (rule ends_bind [OF ds_lex_ends [OF assms]])
  fix s1 assume s1: "later s s1"
  have here: "later s1 s1" using s1 by (auto simp: later_def reached_def)
  have skip: "ends (skipUntilEOD tc s1) (\<lambda>s'. ran s s' \<and> isEOD (ds_token s'))"
    by (rule ends_mono [OF skipUntilEOD_ends [OF s1]]) (auto intro: later_ran)
  have "ends (do {
       s' \<leftarrow> runDirective tc st (getDirective (ds_token s1)) s1;
       s' \<leftarrow> skipUntilEOD tc s';
       Some (if ds_type s' = LAST then ds_report PP_EOF_IN_DIRECTIVE s' else s') }) (\<lambda>s'. ran s s' \<and> isEOD (ds_token s'))"
  proof (rule ends_bind [OF runDirective_ends [OF here]])
    fix s2 assume s2: "ran s1 s2"
    have "later s2 s2" using s2 by (auto simp: ran_def later_def reached_def)
    then show "ends (do {
       s' \<leftarrow> skipUntilEOD tc s2;
       Some (if ds_type s' = LAST then ds_report PP_EOF_IN_DIRECTIVE s' else s') }) (\<lambda>s'. ran s s' \<and> isEOD (ds_token s'))"
    proof (rule ends_bind [OF skipUntilEOD_ends])
      fix s3 assume s3: "later s2 s3 \<and> isEOD (ds_token s3)"
      then have "ran s s3" using ran_trans [OF ran_trans [OF later_ran [OF s1] s2] later_ran] by blast
      then show "ends (Some (if ds_type s3 = LAST then ds_report PP_EOF_IN_DIRECTIVE s3 else s3))
          (\<lambda>s'. ran s s' \<and> isEOD (ds_token s'))"
        using s3 by simp
    qed
  qed
  then show "ends (if isEOD (ds_token s1) then Some s1
     else if skipping s1 \<and> \<not> isConditionalDirective (getDirective (ds_token s1)) then skipUntilEOD tc s1
     else do {
       s' \<leftarrow> runDirective tc st (getDirective (ds_token s1)) s1;
       s' \<leftarrow> skipUntilEOD tc s';
       Some (if ds_type s' = LAST then ds_report PP_EOF_IN_DIRECTIVE s' else s') }) (\<lambda>s'. ran s s' \<and> isEOD (ds_token s'))"
    using skip later_ran [OF s1] by simp
qed


text \<open>One round of the loop takes something from the tokenizer, unless the text has ended.\<close>

lemma directiveOrToken_ends:
  assumes "later s s"
  shows "ends (directiveOrToken tc st s) (\<lambda>s'. ran s s' \<and>
    (left (mTokenizer s') < left (mTokenizer s) \<or>
     ds_type s' = LAST \<and> left (mTokenizer s') = left (mTokenizer s) \<and>
       length (store (ds_shared s')) = length (store (ds_shared s))))"
  unfolding directiveOrToken_def
proof (rule ends_bind [OF ds_lex_step [OF later_reached [OF assms]]])
  fix s1
  assume s1: "later s s1 \<and> (left (mTokenizer s1) < left (mTokenizer s) \<or>
     ds_type s1 = LAST \<and> left (mTokenizer s1) = left (mTokenizer s) \<and>
       length (store (ds_shared s1)) = length (store (ds_shared s)))"
  let ?Q = "\<lambda>s'. ran s s' \<and>
    (left (mTokenizer s') < left (mTokenizer s) \<or>
     ds_type s' = LAST \<and> left (mTokenizer s') = left (mTokenizer s) \<and>
       length (store (ds_shared s')) = length (store (ds_shared s)))"
  have here: "later s1 s1" using s1 by (auto simp: later_def reached_def)
  have "ends (do { s' \<leftarrow> parseDirective tc st s1; Some (s'\<lparr>mPastFirstStatement := True\<rparr>) }) ?Q" if "ds_type s1 = PP_HASH"
  proof (rule ends_bind [OF parseDirective_ends [OF here]])
    fix s2 assume s2: "ran s1 s2 \<and> isEOD (ds_token s2)"
    then have "ran s s2" using ran_trans later_ran s1 by blast
    moreover have "left (mTokenizer s2) < left (mTokenizer s)"
      using s1 s2 that by (auto simp: ran_def reached_def)
    ultimately show "ends (Some (s2\<lparr>mPastFirstStatement := True\<rparr>)) ?Q" by simp
  qed
  then show "ends (if ds_type s1 = PP_HASH then do { s' \<leftarrow> parseDirective tc st s1; Some (s'\<lparr>mPastFirstStatement := True\<rparr>) }
      else Some (if isEOD (ds_token s1) then s1 else s1\<lparr>mSeenNonPreprocessorToken := True\<rparr>)) ?Q"
    using s1 later_ran by (simp add: ds_type_def)
qed

lemma reportUnterminated_simps [simp]:
  "ran s0 (reportUnterminated s) = ran s0 s" "ds_token (reportUnterminated s) = ds_token s"
  "mTokenizer (reportUnterminated s) = mTokenizer s" "length (store (ds_shared (reportUnterminated s))) = length (store (ds_shared s))"
  by (auto simp: reportUnterminated_def ran_def reached_def split: list.split)

lemma directiveLoop_ends:
  assumes "later s s"
  shows "ends (directiveLoop tc st s) (\<lambda>s'. ran s s' \<and>
    (left (mTokenizer s') < left (mTokenizer s) \<or>
     ds_type s' = LAST \<and> left (mTokenizer s') = left (mTokenizer s) \<and>
       length (store (ds_shared s')) = length (store (ds_shared s))) \<and>
    (ds_type s' \<noteq> LAST \<longrightarrow> \<not> skipping s' \<and> ds_type s' \<noteq> NEWLINE))"
    (is "ends _ (?Q s)")
  using assms
proof (induction "left (mTokenizer s)" arbitrary: s rule: less_induct)
  case less
  have "ends (do {
      s' \<leftarrow> directiveOrToken tc st s;
      if ds_type s' = LAST then Some (reportUnterminated s')
      else if skipping s' \<or> ds_type s' = NEWLINE then directiveLoop tc st s' else Some s' }) (?Q s)"
  proof (rule ends_bind [OF directiveOrToken_ends [OF less.prems]])
    fix s1 assume s1: "ran s s1 \<and>
      (left (mTokenizer s1) < left (mTokenizer s) \<or>
       ds_type s1 = LAST \<and> left (mTokenizer s1) = left (mTokenizer s) \<and>
         length (store (ds_shared s1)) = length (store (ds_shared s)))"
    show "ends (if ds_type s1 = LAST then Some (reportUnterminated s1)
        else if skipping s1 \<or> ds_type s1 = NEWLINE then directiveLoop tc st s1 else Some s1) (?Q s)"
    proof (cases "ds_type s1 = LAST")
      case True
      then show ?thesis using s1 by (simp add: ds_type_def)
    next
      case False
      then have fewer: "left (mTokenizer s1) < left (mTokenizer s)" using s1 by blast
      have "later s1 s1" using s1 by (auto simp: ran_def later_def reached_def)
      have "ends (directiveLoop tc st s1) (?Q s)"
      proof (rule ends_mono [OF less.hyps [OF fewer \<open>later s1 s1\<close>]])
        fix s2 assume s2: "?Q s1 s2"
        have "ran s s2" using ran_trans [of s s1 s2] s1 s2 by blast
        moreover have "left (mTokenizer s2) < left (mTokenizer s)" using s2 fewer by linarith
        ultimately show "?Q s s2" using s2 by blast
      qed
      then show ?thesis using False s1 by simp
    qed
  qed
  then show ?case by (subst directiveLoop.simps)
qed

end

text \<open>\<open>DirectiveParser::lex\<close> keeps the contract of a lexer, and its conditional stack well-formed.\<close>

definition dp_ok :: "('l \<Rightarrow> bool) \<Rightarrow> 'l directive_parser \<Rightarrow> bool" where
  "dp_ok ok d \<longleftrightarrow> ok (mTokenizer d) \<and> nested_blocks (mConditionalStack d)"

definition dp_left :: "('l \<Rightarrow> nat) \<Rightarrow> 'l directive_parser \<Rightarrow> nat" where
  "dp_left left d = left (mTokenizer d)"

lemma directive_parser_copies [simp]:
  "mTokenizer (directive_parser.extend d r) = mTokenizer d" "mConditionalStack (directive_parser.extend d r) = mConditionalStack d"
  "mTokenizer (directive_parser.truncate s) = mTokenizer s" "mConditionalStack (directive_parser.truncate s) = mConditionalStack s"
  "ds_shared (directive_parser.extend d \<lparr>ds_token = t, ds_shared = sh\<rparr>) = sh"
  by (simp_all add: directive_parser.defs)

context directive_source
begin

lemma dp_lex_ends:
  assumes "wf_shared sh" and "dp_ok ok d"
  shows "\<exists>t d' sh'. dp_lex tc st d sh = Some (t, d', sh') \<and> dp_ok ok d' \<and> wf_shared sh' \<and> evolves sh sh' \<and>
    (dp_left left d' < dp_left left d \<or>
     tk_type t = LAST \<and> dp_left left d' = dp_left left d \<and> length (store sh') = length (store sh)) \<and>
    (tk_type t \<noteq> LAST \<longrightarrow> \<not> skips (mConditionalStack d') \<and> tk_type t \<noteq> NEWLINE)"
proof -
  let ?s = "directive_parser.extend d \<lparr>ds_token = reset_token, ds_shared = sh\<rparr> :: 'l directive_state"
  have "later ?s ?s" using assms by (simp add: later_def reached_def dp_ok_def)
  from directiveLoop_ends [OF this, of st] show ?thesis
    using assms(2)
    by (auto simp: ends_def dp_lex_def dp_ok_def dp_left_def ran_def reached_def ds_type_def skipping_skips)
qed

end

sublocale directive_source \<subseteq> directives: lexer "dp_lex tc st" "dp_ok ok" "dp_left left" True for st
proof
  fix sh d
  assume "wf_shared sh" and "dp_ok ok d"
  from dp_lex_ends [OF this, of st] show "\<exists>t d' sh'. dp_lex tc st d sh = Some (t, d', sh') \<and> dp_ok ok d' \<and> wf_shared sh' \<and> evolves sh sh' \<and>
      (dp_left left d' < dp_left left d \<or>
       tk_type t = LAST \<and> dp_left left d' = dp_left left d \<and> length (store sh') = length (store sh)) \<and>
      (\<not> True \<longrightarrow> length (store sh') = length (store sh))"
    by blast
qed

section \<open>On the tokenizer\<close>

definition TokenizerClass :: "tokenizer tokenizer_class" where
  "TokenizerClass = \<lparr>tc_lex = tz_lex, tc_setLineNumber = setLineNumber, tc_setFileNumber = setFileNumber\<rparr>"

lemma TokenizerClass_simps [simp]:
  "tc_lex TokenizerClass = tz_lex" "tc_setLineNumber TokenizerClass = setLineNumber"
  "tc_setFileNumber TokenizerClass = setFileNumber"
  by (simp_all add: TokenizerClass_def)

interpretation pipeline: directive_source TokenizerClass tz_ok tz_left False
proof (unfold_locales, unfold TokenizerClass_simps)
  fix sh l assume "wf_shared sh" "tz_ok l"
  then show "\<exists>t l' sh'. tz_lex l sh = Some (t, l', sh') \<and> tz_ok l' \<and> wf_shared sh' \<and> evolves sh sh' \<and>
      (tz_left l' < tz_left l \<or> tk_type t = LAST \<and> tz_left l' = tz_left l \<and> length (store sh') = length (store sh)) \<and>
      (\<not> False \<longrightarrow> length (store sh') = length (store sh))"
    by (rule tokenizer.lexes)
qed (simp_all add: setLineNumber_def setFileNumber_def tz_ok_def tz_left_def)

end
