(* ===== verification/Pp_Lines.thy ===== *)
theory Pp_Lines
  imports Pp_Conditions Pp_Directives_Ends
begin

text \<open>
  What single directives do, on a tokenizer of which the next tokens are known: a line that is read to its
  end, the directives \<open>#define\<close> and \<open>#undef\<close> with all of their errors.
\<close>

section \<open>Reading known tokens\<close>

lemma ends_pair: "ends r (\<lambda>(a, b). Q a b) \<Longrightarrow> \<exists>a b. r = Some (a, b) \<and> Q a b"
  by (auto simp: ends_def)

definition one_line :: "token list \<Rightarrow> bool" where
  "one_line ts \<longleftrightarrow> (\<forall>t \<in> set ts. \<not> isEOD t)"

lemma one_line_simps [simp]:
  "one_line []" "one_line (t # ts) \<longleftrightarrow> \<not> isEOD t \<and> one_line ts" "one_line (ts @ us) \<longleftrightarrow> one_line ts \<and> one_line us"
  by (auto simp: one_line_def)

text \<open>The token is another one, the tokenizer has moved, and there are new reports; nothing else has changed.\<close>

definition reports :: "'l directive_state \<Rightarrow> diagnostic list \<Rightarrow> 'l directive_state \<Rightarrow> bool" where
  "reports s ds s' \<longleftrightarrow>
     s' = s\<lparr>ds_token := ds_token s', mTokenizer := mTokenizer s',
            ds_shared := (ds_shared s)\<lparr>diags := diags (ds_shared s) @ ds\<rparr>\<rparr>"

abbreviation moves :: "'l directive_state \<Rightarrow> 'l directive_state \<Rightarrow> bool" where
  "moves s \<equiv> reports s []"

lemma reports_refl [simp]: "moves s s"
  by (simp add: reports_def)

lemma reports_trans: "reports s ds s' \<Longrightarrow> reports s' es s'' \<Longrightarrow> reports s (ds @ es) s''"
  by (cases s; cases s'; cases s'') (auto simp: reports_def)

lemma reports_simps:
  assumes "reports s ds s'"
  shows "mConditionalStack s' = mConditionalStack s" "macroSet (ds_shared s') = macroSet (ds_shared s)"
    "store (ds_shared s') = store (ds_shared s)" "diags (ds_shared s') = diags (ds_shared s) @ ds"
    "mSeenNonPreprocessorToken s' = mSeenNonPreprocessorToken s" "mPastFirstStatement s' = mPastFirstStatement s"
    "mDirectiveHandler s' = mDirectiveHandler s" "mShaderVersion s' = mShaderVersion s" "skipping s' = skipping s"
  using arg_cong [OF assms [unfolded reports_def], of mConditionalStack]
    arg_cong [OF assms [unfolded reports_def], of ds_shared]
    arg_cong [OF assms [unfolded reports_def], of mSeenNonPreprocessorToken]
    arg_cong [OF assms [unfolded reports_def], of mPastFirstStatement]
    arg_cong [OF assms [unfolded reports_def], of mDirectiveHandler]
    arg_cong [OF assms [unfolded reports_def], of mShaderVersion]
  by (simp_all add: skipping_def)

lemma moves_shared: "moves s s' \<Longrightarrow> ds_shared s' = ds_shared s"
  using reports_simps(2-4) [of s "[]" s'] by (cases "ds_shared s'"; cases "ds_shared s") simp

lemma report_text_simps [simp]:
  "ds_token (ds_report_text d text s) = ds_token s" "mTokenizer (ds_report_text d text s) = mTokenizer s"
  "mTokenizer (ds_report d s) = mTokenizer s"
  by (simp_all add: ds_report_def ds_report_text_def)

lemma reports_text: "reports s [(d, tk_location (ds_token s), text)] (ds_report_text d text s)"
  by (simp add: reports_def ds_report_text_def report_def)

text \<open>The state at the tokens, with another shared part.\<close>

definition shares :: "'l directive_state \<Rightarrow> shared \<Rightarrow> 'l directive_state \<Rightarrow> bool" where
  "shares s sh s' \<longleftrightarrow> s' = s\<lparr>ds_token := ds_token s', mTokenizer := mTokenizer s', ds_shared := sh\<rparr>"

lemma shares_moves: "shares s sh s' \<Longrightarrow> moves s' s'' \<Longrightarrow> shares s sh s''"
  by (cases s; cases s'; cases s'') (auto simp: shares_def reports_def)

lemma moves_shares: "moves s s' \<Longrightarrow> shares s' sh s'' \<Longrightarrow> shares s sh s''"
  by (cases s; cases s'; cases s'') (auto simp: shares_def reports_def)

lemma reports_shares: "reports s ds s' \<longleftrightarrow> shares s ((ds_shared s)\<lparr>diags := diags (ds_shared s) @ ds\<rparr>) s'"
  by (simp add: shares_def reports_def)

locale line_source = listing "tc_lex tc" ok left grows gives
  for tc :: "'l tokenizer_class" and ok :: "'l \<Rightarrow> bool" and left :: "'l \<Rightarrow> nat" and grows :: bool
    and gives :: "'l \<Rightarrow> token list \<Rightarrow> bool"
begin

definition stands :: "'l directive_state \<Rightarrow> token list \<Rightarrow> bool" where
  "stands s ts \<longleftrightarrow> ts \<noteq> [] \<and> ds_token s = hd ts \<and> gives (mTokenizer s) (tl ts)"

lemma stands_Cons [simp]: "stands s (t # ts) \<longleftrightarrow> ds_token s = t \<and> gives (mTokenizer s) ts"
  by (simp add: stands_def)

lemma stands_report [simp]: "stands (ds_report_text d text s) ts = stands s ts" "stands (ds_report d s) ts = stands s ts"
  by (simp_all add: stands_def ds_report_def ds_report_text_def)

lemma ds_lex_gives: "gives (mTokenizer s) (t # ts) \<Longrightarrow> ends (ds_lex tc s) (\<lambda>s'. moves s s' \<and> stands s' (t # ts))"
  using gives_lex [of "mTokenizer s" t ts] by (auto simp: ds_lex_def ends_def reports_def)

lemma ds_lex_stands:
  assumes "stands s (t # ts)" and "ts \<noteq> []"
  shows "ends (ds_lex tc s) (\<lambda>s'. moves s s' \<and> stands s' ts)"
  using ds_lex_gives [of s "hd ts" "tl ts"] assms by simp

lemma skipUntilEOD_gives:
  "stands s (ts @ e # ws) \<Longrightarrow> one_line ts \<Longrightarrow> isEOD e \<Longrightarrow>
   ends (skipUntilEOD tc s) (\<lambda>s'. moves s s' \<and> stands s' (e # ws))"
proof (induction ts arbitrary: s)
  case Nil
  then show ?case by (subst skipUntilEOD.simps) simp
next
  case (Cons t ts)
  have "ends (Option.bind (ds_lex tc s) (skipUntilEOD tc)) (\<lambda>s'. moves s s' \<and> stands s' (e # ws))"
  proof (rule ends_bind [OF ds_lex_stands])
    show "stands s (t # ts @ e # ws)" using Cons.prems by simp
    fix s1 assume s1: "moves s s1 \<and> stands s1 (ts @ e # ws)"
    show "ends (skipUntilEOD tc s1) (\<lambda>s'. moves s s' \<and> stands s' (e # ws))"
      using Cons.IH [of s1] Cons.prems s1 reports_trans [of s "[]" s1 "[]"]
      by (auto elim: ends_mono)
  qed simp
  then show ?case using Cons.prems by (subst skipUntilEOD.simps) simp
qed

lemma restOfLine_gives:
  "stands s (ts @ e # ws) \<Longrightarrow> one_line ts \<Longrightarrow> isEOD e \<Longrightarrow>
   ends (restOfLine tc s) (\<lambda>(us, s'). us = ts \<and> moves s s' \<and> stands s' (e # ws))"
proof (induction ts arbitrary: s)
  case Nil
  then show ?case by (subst restOfLine.simps) simp
next
  case (Cons t ts)
  have "ends (Option.bind (ds_lex tc s) (\<lambda>s'. Option.bind (restOfLine tc s') (\<lambda>(us, s'). Some (ds_token s # us, s'))))
    (\<lambda>(us, s'). us = t # ts \<and> moves s s' \<and> stands s' (e # ws))"
  proof (rule ends_bind [OF ds_lex_stands])
    show "stands s (t # ts @ e # ws)" using Cons.prems by simp
    fix s1 assume s1: "moves s s1 \<and> stands s1 (ts @ e # ws)"
    show "ends (Option.bind (restOfLine tc s1) (\<lambda>(us, s'). Some (ds_token s # us, s')))
      (\<lambda>(us, s'). us = t # ts \<and> moves s s' \<and> stands s' (e # ws))"
      using Cons.IH [of s1] Cons.prems s1 reports_trans [of s "[]" s1 "[]"]
      by (auto simp: ends_def split: prod.splits)
  qed simp
  then show ?case using Cons.prems by (subst restOfLine.simps) simp
qed

end

section \<open>The lines of \<open>#define\<close>\<close>

text \<open>
  The parameters of a macro, as the code accepts them: names with commas between them, where one comma may
  follow the last name. The directive may have a list of parameters only directly behind the name.
\<close>

inductive parameter_names :: "string list \<Rightarrow> token list \<Rightarrow> bool" where
  no_name: "parameter_names [] []"
| last_name: "tk_type p = IDENTIFIER \<Longrightarrow> parameter_names [tk_text p] [p]"
| name_comma: "tk_type p = IDENTIFIER \<Longrightarrow> tk_type c = COMMA \<Longrightarrow> parameter_names ps ts \<Longrightarrow>
    parameter_names (tk_text p # ps) (p # c # ts)"

definition opens_parameters :: "token list \<Rightarrow> bool" where
  "opens_parameters ts \<longleftrightarrow> (\<exists>t us. ts = t # us \<and> tk_type t = LEFT_PAREN \<and> \<not> hasLeadingSpace t)"

definition macro_header :: "token list \<Rightarrow> macro_type \<Rightarrow> string list \<Rightarrow> token list \<Rightarrow> bool" where
  "macro_header ts type ps body \<longleftrightarrow>
     (if opens_parameters ts
      then type = kTypeFunc \<and> distinct ps \<and>
        (\<exists>qs r. tl ts = qs @ r # body \<and> parameter_names ps qs \<and> tk_type r = RIGHT_PAREN)
      else type = kTypeObj \<and> ps = [] \<and> body = ts)"

definition definition_of :: "token list \<Rightarrow> macro \<Rightarrow> bool" where
  "definition_of ts m \<longleftrightarrow>
     (\<exists>n us body. ts = n # us \<and> tk_type n = IDENTIFIER \<and> macro_header us (mc_type m) (parameters m) body \<and>
        m = Macro\<lparr>mc_type := mc_type m, mc_name := tk_text n, parameters := parameters m, replacements := replacementList body\<rparr>)"

text \<open>What a definition does to the shared part; \<open>n\<close> is the token of its name and \<open>e\<close> ends the line.\<close>

definition macro_defined :: "macro \<Rightarrow> token \<Rightarrow> token \<Rightarrow> shared \<Rightarrow> shared" where
  "macro_defined m n e sh =
     (if isMacroPredefined (tk_text n) sh then report PP_MACRO_PREDEFINED_REDEFINED (tk_location n) (tk_text n) sh
      else if isMacroNameReserved (tk_text n) then report PP_MACRO_NAME_RESERVED (tk_location n) (tk_text n) sh
      else
        let sh = (if hasDoubleUnderscores (tk_text n)
                  then report PP_WARNING_MACRO_NAME_RESERVED (tk_location n) (tk_text n) sh else sh)
        in case macroSet sh (tk_text n) of
             None \<Rightarrow> sh\<lparr>store := store sh @ [m], macroSet := (macroSet sh)(tk_text n \<mapsto> length (store sh))\<rparr>
           | Some i \<Rightarrow>
               if macro_equals m (store sh ! i) then sh else report PP_MACRO_REDEFINED (tk_location e) (tk_text n) sh)"

text \<open>What \<open>#undef\<close> does with the name and the tokens behind it. Tokens that should not be there do not stop it.\<close>

definition macro_undefined :: "token \<Rightarrow> token list \<Rightarrow> shared \<Rightarrow> shared" where
  "macro_undefined n extra sh =
     (let error = (\<lambda>d t sh. report d (tk_location t) (tk_text t) sh);
          removed = sh\<lparr>macroSet := (macroSet sh)(tk_text n := None)\<rparr>;
          removed = (case extra of [] \<Rightarrow> removed | t # ts \<Rightarrow> error PP_UNEXPECTED_TOKEN t removed)
      in if tk_type n \<noteq> IDENTIFIER then error PP_UNEXPECTED_TOKEN n sh
         else case macroSet sh (tk_text n) of
                None \<Rightarrow> removed
              | Some i \<Rightarrow>
                  if predefined (store sh ! i) then error PP_MACRO_PREDEFINED_UNDEFINED n sh
                  else if 0 < expansionCount (store sh ! i) then error PP_MACRO_UNDEFINED_WHILE_INVOKED n sh
                  else removed)"

context line_source
begin

lemma parameterLoop_names:
  assumes "parameter_names ps qs" and "distinct (params @ ps)" and "gives (mTokenizer s) (qs @ r # us)"
    and "tk_type r \<noteq> IDENTIFIER" "tk_type r \<noteq> COMMA"
  shows "ends (parameterLoop tc params s) (\<lambda>(res, s'). res = Some (params @ ps) \<and> moves s s' \<and> stands s' (r # us))"
  using assms
proof (induction ps qs arbitrary: params s)
  case no_name
  from ds_lex_gives [of s r us] no_name show ?case
    by (subst parameterLoop.simps) (auto simp: ends_def ds_type_def)
next
  case (last_name p)
  from ds_lex_gives [of s p "r # us"] last_name obtain s1 where
    s1: "ds_lex tc s = Some s1" "moves s s1" "ds_token s1 = p" "gives (mTokenizer s1) (r # us)" by (auto simp: ends_def)
  from ds_lex_gives [OF s1(4)] obtain s2 where
    s2: "ds_lex tc s1 = Some s2" "moves s1 s2" "ds_token s2 = r" "gives (mTokenizer s2) us" by (auto simp: ends_def)
  then show ?case
    using s1 last_name reports_trans [OF s1(2) s2(2)]
    by (subst parameterLoop.simps) (simp add: ds_type_def ds_text_def)
next
  case (name_comma p c ps qs)
  from ds_lex_gives [of s p "c # qs @ r # us"] name_comma.prems obtain s1 where
    s1: "ds_lex tc s = Some s1" "moves s s1" "ds_token s1 = p" "gives (mTokenizer s1) (c # qs @ r # us)"
    by (auto simp: ends_def)
  from ds_lex_gives [OF s1(4)] obtain s2 where
    s2: "ds_lex tc s1 = Some s2" "moves s1 s2" "ds_token s2 = c" "gives (mTokenizer s2) (qs @ r # us)"
    by (auto simp: ends_def)
  have "ends (parameterLoop tc (params @ [tk_text p]) s2) (\<lambda>(res, s'). res = Some ((params @ [tk_text p]) @ ps) \<and>
      moves s2 s' \<and> stands s' (r # us))"
    using name_comma s2 by (intro name_comma.IH) simp_all
  then show ?case
    using s1 s2 name_comma reports_trans [OF s1(2) s2(2)] reports_trans [of s "[]" s2 "[]"]
    by (subst parameterLoop.simps) (auto simp: ds_type_def ds_text_def ends_def)
qed

lemma parameterLoop_gives:
  assumes "gives (mTokenizer s) (ts @ e # ws)" and "one_line ts" and e: "isEOD e" and "distinct params"
  shows "ends (parameterLoop tc params s) (\<lambda>(res, s'). \<exists>qs us ds. ts = qs @ us \<and> stands s' (us @ e # ws) \<and> reports s ds s' \<and>
    (case res of
       None \<Rightarrow> (\<exists>loc text. ds = [(PP_MACRO_DUPLICATE_PARAMETER_NAMES, loc, text)])
     | Some all \<Rightarrow> ds = [] \<and> distinct all \<and> (\<exists>ps. all = params @ ps \<and> parameter_names ps qs)))"
  using assms(1,2,4)
proof (induction "length ts" arbitrary: ts params s rule: less_induct)
  case less
  let ?Q = "\<lambda>s params ts (res, s'). \<exists>qs us ds. ts = qs @ us \<and> stands s' (us @ e # ws) \<and> reports s ds s' \<and>
    (case res of
       None \<Rightarrow> (\<exists>loc text. ds = [(PP_MACRO_DUPLICATE_PARAMETER_NAMES, loc, text)])
     | Some all \<Rightarrow> ds = [] \<and> distinct all \<and> (\<exists>ps. all = params @ ps \<and> parameter_names ps qs))"
  have stop: ?case if "ts @ e # ws = t # us" "tk_type t \<noteq> IDENTIFIER" for t us
  proof -
    from ds_lex_gives [of s t us] less.prems(1) that(1) obtain s1 where
      s1: "ds_lex tc s = Some s1" "moves s s1" "stands s1 (ts @ e # ws)" "ds_token s1 = t" by (auto simp: ends_def)
    have "?Q s params ts (Some params, s1)"
      using s1 less.prems(3) no_name by (intro case_prodI exI [of _ "[]"] exI [of _ ts]) simp
    then show ?thesis
      using s1 that by (subst parameterLoop.simps) (simp add: ds_type_def)
  qed
  show ?case
  proof (cases ts)
    case Nil
    then show ?thesis using stop [of e ws] e by (auto simp: isEOD_def)
  next
    case (Cons p us)
    show ?thesis
    proof (cases "tk_type p = IDENTIFIER")
      case False
      then show ?thesis using stop [of p "us @ e # ws"] Cons by simp
    next
      case True
      from ds_lex_gives [of s p "us @ e # ws"] less.prems Cons obtain s1 where
        s1: "ds_lex tc s = Some s1" "moves s s1" "ds_token s1 = p" "gives (mTokenizer s1) (us @ e # ws)"
        by (auto simp: ends_def)
      show ?thesis
      proof (cases "tk_text p \<in> set params")
        case dup: True
        have "?Q s params ts (None, ds_report PP_MACRO_DUPLICATE_PARAMETER_NAMES s1)"
          using s1 Cons reports_trans [OF s1(2) reports_text [of s1]] unfolding ds_report_def
          by (intro case_prodI exI [of _ "[]"] exI [of _ ts] 
              exI [of _ "[(PP_MACRO_DUPLICATE_PARAMETER_NAMES, tk_location (ds_token s1), ds_text s1)]"]) auto
        then show ?thesis
          using s1 dup True by (subst parameterLoop.simps) (simp add: ds_type_def ds_text_def)
      next
        case new: False
        obtain c vs where vs: "us @ e # ws = c # vs" by (cases us) auto
        from ds_lex_gives [of s1 c vs] s1 vs obtain s2 where
          s2: "ds_lex tc s1 = Some s2" "moves s1 s2" "ds_token s2 = c" "gives (mTokenizer s2) vs"
          by (auto simp: ends_def)
        have m: "moves s s2" using reports_trans [OF s1(2) s2(2)] by simp
        show ?thesis
        proof (cases "tk_type c = COMMA")
          case False
          have "?Q s params ts (Some (params @ [tk_text p]), s2)"
            using Cons m s2 vs new less.prems(3) last_name [OF True]
            by (intro case_prodI exI [of _ "[p]"] exI [of _ us] exI [of _ "[]"]) (simp add: stands_def)
          then show ?thesis
            using s1 s2 False True new by (subst parameterLoop.simps) (simp add: ds_type_def ds_text_def)
        next
          case comma: True
          then obtain us' where us': "us = c # us'" "vs = us' @ e # ws" using vs e by (cases us) (auto simp: isEOD_def)
          have "ends (parameterLoop tc (params @ [tk_text p]) s2) (?Q s2 (params @ [tk_text p]) us')"
            using less.prems new s2 us' Cons by (intro less.hyps) simp_all
          then obtain r where r: "parameterLoop tc (params @ [tk_text p]) s2 = Some r" "?Q s2 (params @ [tk_text p]) us' r"
            unfolding ends_def by blast
          obtain res s' where res: "parameterLoop tc (params @ [tk_text p]) s2 = Some (res, s')"
            "?Q s2 (params @ [tk_text p]) us' (res, s')" using r by (cases r) simp
          from res(2) [unfolded prod.case] obtain qs vs' ds where q: "us' = qs @ vs'" "stands s' (vs' @ e # ws)" "reports s2 ds s'"
            "case res of None \<Rightarrow> (\<exists>loc text. ds = [(PP_MACRO_DUPLICATE_PARAMETER_NAMES, loc, text)])
             | Some all \<Rightarrow> ds = [] \<and> distinct all \<and> (\<exists>ps. all = (params @ [tk_text p]) @ ps \<and> parameter_names ps qs)"
            by blast
          have "?Q s params ts (res, s')"
            using q Cons us' reports_trans [OF m q(3)] name_comma [OF True comma]
            by (intro case_prodI exI [of _ "p # c # qs"] exI [of _ vs'] exI [of _ ds]) (fastforce split: option.splits)
          then show ?thesis
            using s1 s2 comma True new res(1) by (subst parameterLoop.simps) (simp add: ds_type_def ds_text_def)
        qed
      qed
    qed
  qed
qed

lemma tight_paren: "opens_parameters (t # us) \<longleftrightarrow> tk_type t = LEFT_PAREN \<and> \<not> hasLeadingSpace t"
  by (simp add: opens_parameters_def)

lemma EOD_type: "isEOD e \<Longrightarrow> tk_type e \<notin> {IDENTIFIER, COMMA, LEFT_PAREN, RIGHT_PAREN}"
  by (auto simp: isEOD_def)

lemma parseParameters_header:
  assumes s: "stands s (n # ts @ e # ws)" and e: "isEOD e" and h: "macro_header ts type ps body"
  shows "ends (parseParameters tc s) (\<lambda>(r, s'). r = Some (type, ps) \<and> moves s s' \<and> stands s' (body @ e # ws))"
proof (cases "opens_parameters ts")
  case False
  obtain t us where t: "ts @ e # ws = t # us" by (cases ts) auto
  have "\<not> opens_parameters (t # us)"
    using False t EOD_type [OF e] by (cases ts) (auto simp: opens_parameters_def)
  then show ?thesis
    using ds_lex_gives [of s t us] s h False
    by (auto simp: parseParameters_def ends_def t tight_paren ds_type_def macro_header_def)
next
  case True
  then obtain p us where p: "ts = p # us" "tk_type p = LEFT_PAREN" "\<not> hasLeadingSpace p"
    by (auto simp: opens_parameters_def)
  obtain qs r where q: "us = qs @ r # body" "parameter_names ps qs" "tk_type r = RIGHT_PAREN" "type = kTypeFunc" "distinct ps"
    using h True p(1) by (auto simp: macro_header_def)
  from ds_lex_gives [of s p "us @ e # ws"] s p(1) obtain s1 where
    s1: "ds_lex tc s = Some s1" "moves s s1" "ds_token s1 = p" "gives (mTokenizer s1) (qs @ r # body @ e # ws)"
    by (auto simp: ends_def q(1))
  from parameterLoop_names [of ps qs "[]" s1 r "body @ e # ws"] q s1(4) obtain s2 where
    s2: "parameterLoop tc [] s1 = Some (Some ps, s2)" "moves s1 s2" "stands s2 (r # body @ e # ws)"
    by (auto simp: ends_def)
  from ds_lex_stands [OF s2(3)] obtain s3 where s3: "ds_lex tc s2 = Some s3" "moves s2 s3" "stands s3 (body @ e # ws)"
    by (auto simp: ends_def)
  have "moves s s3"
    using reports_trans [OF reports_trans [OF s1(2) s2(2)] s3(2)] by simp
  then show ?thesis
    using s1 s2 s3 p q by (simp add: parseParameters_def ds_type_def)
qed

lemma parseParameters_gives:
  assumes s: "stands s (n # ts @ e # ws)" and ts: "one_line ts" and e: "isEOD e"
  shows "ends (parseParameters tc s) (\<lambda>(r, s'). \<exists>us ds. one_line us \<and> stands s' (us @ e # ws) \<and> reports s ds s' \<and>
    (case r of None \<Rightarrow> \<exists>d \<in> set ds. isError (fst d) | Some (type, ps) \<Rightarrow> ds = [] \<and> macro_header ts type ps us))"
proof (cases "opens_parameters ts")
  case False
  then have "macro_header ts kTypeObj [] ts" by (simp add: macro_header_def)
  from parseParameters_header [OF s e this] show ?thesis
    by (rule ends_mono) (use ts \<open>macro_header ts kTypeObj [] ts\<close> in auto)
next
  case True
  then obtain p us where p: "ts = p # us" "tk_type p = LEFT_PAREN" "\<not> hasLeadingSpace p"
    by (auto simp: opens_parameters_def)
  from ds_lex_gives [of s p "us @ e # ws"] s p(1) obtain s1 where
    s1: "ds_lex tc s = Some s1" "moves s s1" "ds_token s1 = p" "gives (mTokenizer s1) (us @ e # ws)"
    by (auto simp: ends_def)
  have us: "one_line us" using ts p(1) by simp
  from ends_pair [OF parameterLoop_gives [OF s1(4) us e, of "[]"]] obtain res s2 qs vs ds where
    s2: "parameterLoop tc [] s1 = Some (res, s2)" "us = qs @ vs" "stands s2 (vs @ e # ws)" "reports s1 ds s2" and
    res: "case res of None \<Rightarrow> (\<exists>loc text. ds = [(PP_MACRO_DUPLICATE_PARAMETER_NAMES, loc, text)])
     | Some all \<Rightarrow> ds = [] \<and> distinct all \<and> (\<exists>ps. all = [] @ ps \<and> parameter_names ps qs)"
    by fastforce
  have m: "reports s ds s2" using reports_trans [OF s1(2) s2(4)] by simp
  have vs: "one_line vs" using ts p(1) s2(2) by simp
  show ?thesis
  proof (cases res)
    case None
    moreover have "isError PP_MACRO_DUPLICATE_PARAMETER_NAMES" by (simp add: isError_def diag_ids_def)
    ultimately have "\<exists>d \<in> set ds. isError (fst d)" using res by auto
    then show ?thesis using None s1 s2 p m vs by (auto simp: parseParameters_def ds_type_def)
  next
    case (Some ps)
    then have ps: "ds = []" "distinct ps" "parameter_names ps qs" using res by auto
    show ?thesis
    proof (cases "ds_type s2 = RIGHT_PAREN")
      case False
      have "reports s [(PP_UNEXPECTED_TOKEN, tk_location (ds_token s2), ds_text s2)] (ds_report PP_UNEXPECTED_TOKEN s2)"
        using reports_trans [OF m reports_text [of s2]] ps(1) by (simp add: ds_report_def)
      moreover have "isError PP_UNEXPECTED_TOKEN" by (simp add: isError_def diag_ids_def)
      ultimately have "\<exists>us ds. one_line us \<and> stands (ds_report PP_UNEXPECTED_TOKEN s2) (us @ e # ws) \<and>
          reports s ds (ds_report PP_UNEXPECTED_TOKEN s2) \<and> (\<exists>d \<in> set ds. isError (fst d))"
        using vs s2(3) by fastforce
      then show ?thesis
        using False Some s1 s2 p by (simp add: parseParameters_def ds_type_def)
    next
      case True
      then obtain r body where r: "vs = r # body" "tk_type r = RIGHT_PAREN"
        using s2(3) EOD_type [OF e] by (cases vs) (auto simp: ds_type_def)
      then have "macro_header ts kTypeFunc ps body"
        using ps s2(2) p \<open>opens_parameters ts\<close> by (auto simp: macro_header_def)
      from parseParameters_header [OF s e this] show ?thesis
        by (rule ends_mono) (use \<open>macro_header ts kTypeFunc ps body\<close> vs r(1) in auto)
    qed
  qed
qed

section \<open>A whole directive\<close>

lemma parseDirective_runs:
  assumes s: "gives (mTokenizer s) (d # ts @ e # ws)" and ts: "one_line (d # ts)" and e: "tk_type e = NEWLINE"
    and d: "\<not> skipping s \<or> isConditionalDirective (getDirective d)"
    and run: "\<And>s1. moves s s1 \<Longrightarrow> stands s1 (d # ts @ e # ws) \<Longrightarrow>
      ends (runDirective tc st (getDirective d) s1) (\<lambda>s2. \<exists>us. one_line us \<and> stands s2 (us @ e # ws) \<and> Q s2)"
    and Q: "\<And>s2 s3. Q s2 \<Longrightarrow> moves s2 s3 \<Longrightarrow> Q s3"
  shows "ends (parseDirective tc st s) (\<lambda>s'. stands s' (e # ws) \<and> Q s')"
proof -
  have eod: "isEOD e" using e by (simp add: isEOD_def)
  from ds_lex_gives [OF s] obtain s1 where s1: "ds_lex tc s = Some s1" "moves s s1" "stands s1 (d # ts @ e # ws)"
    by (auto simp: ends_def)
  from run [OF s1(2,3)] obtain s2 us where
    s2: "runDirective tc st (getDirective d) s1 = Some s2" "one_line us" "stands s2 (us @ e # ws)" "Q s2"
    unfolding ends_def by blast
  from skipUntilEOD_gives [OF s2(3,2) eod] obtain s3 where
    s3: "skipUntilEOD tc s2 = Some s3" "moves s2 s3" "stands s3 (e # ws)" by (auto simp: ends_def)
  then have "ds_type s3 = NEWLINE" using e by (simp add: ds_type_def)
  then show ?thesis
    using s1 s2 s3 ts d Q [OF s2(4) s3(2)] reports_simps(9) [OF s1(2)] by (auto simp: parseDirective_def)
qed

lemma parseDefine_definition:
  assumes s: "stands s (d # line @ e # ws)" and line: "one_line line" and e: "isEOD e" and m: "definition_of line m"
  shows "ends (parseDefine tc s) (\<lambda>s'. \<exists>us. one_line us \<and> stands s' (us @ e # ws) \<and>
    shares s (macro_defined m (hd line) e (ds_shared s)) s')"
proof -
  from m obtain n ts body where n: "line = n # ts" "tk_type n = IDENTIFIER" "macro_header ts (mc_type m) (parameters m) body"
    and meq: "Macro\<lparr>mc_type := mc_type m, mc_name := tk_text n, parameters := parameters m,
      replacements := replacementList body\<rparr> = m"
    unfolding definition_of_def by metis
  from ds_lex_stands [OF s] n(1) obtain s1 where
    s1: "ds_lex tc s = Some s1" "moves s s1" "stands s1 (n # ts @ e # ws)" by (auto simp: ends_def)
  have tok: "ds_type s1 = IDENTIFIER" "ds_text s1 = tk_text n" "ds_token s1 = n"
    using s1(3) n(2) by (simp_all add: ds_type_def ds_text_def)
  have sh: "ds_shared s1 = ds_shared s" by (rule moves_shared [OF s1(2)])
  have err: ?thesis if "parseDefine tc s = Some (ds_report d' s1)"
    "macro_defined m n e (ds_shared s) = report d' (tk_location n) (tk_text n) (ds_shared s)" for d'
  proof -
    have "shares s (report d' (tk_location n) (tk_text n) (ds_shared s)) (ds_report d' s1)"
      using s1(2) tok by (intro moves_shares [OF s1(2)]) (simp add: shares_def ds_report_def ds_report_text_def sh)
    then show ?thesis
      using that n(1) s1(3) line by (auto intro!: exI [of _ "n # ts"] simp: ends_def)
  qed
  show ?thesis
  proof (cases "isMacroPredefined (tk_text n) (ds_shared s) \<or> isMacroNameReserved (tk_text n)")
    case True
    then show ?thesis
    proof (cases "isMacroPredefined (tk_text n) (ds_shared s)")
      case True
      then show ?thesis using s1(1) tok sh
        by (intro err [of PP_MACRO_PREDEFINED_REDEFINED]) (simp_all add: parseDefine_def macro_defined_def)
    next
      case not_predefined: False
      then show ?thesis using s1(1) tok sh True
        by (intro err [of PP_MACRO_NAME_RESERVED]) (simp_all add: parseDefine_def macro_defined_def)
    qed
  next
    case False
    define s2 where "s2 = (if hasDoubleUnderscores (tk_text n) then ds_report PP_WARNING_MACRO_NAME_RESERVED s1 else s1)"
    have "stands s2 (n # ts @ e # ws)" using s1(3) by (simp add: s2_def)
    from parseParameters_header [OF this e n(3)] obtain s3 where
      s3: "parseParameters tc s2 = Some (Some (mc_type m, parameters m), s3)" "moves s2 s3" "stands s3 (body @ e # ws)"
      by (auto simp: ends_def)
    have "one_line body"
      using line n(1,3) unfolding macro_header_def by (cases ts) (auto split: if_splits)
    from restOfLine_gives [OF s3(3) this e] obtain s4 where
      s4: "restOfLine tc s3 = Some (body, s4)" "moves s3 s4" "stands s4 (e # ws)" by (auto simp: ends_def)
    have run: "parseDefine tc s = Some (defineMacro m s4)"
      using s1(1) tok sh False s3(1) s4(1) meq by (simp add: parseDefine_def s2_def flip: s2_def)
    have m4: "moves s2 s4" using reports_trans [OF s3(2) s4(2)] by simp
    have sh2: "ds_shared s2 = (if hasDoubleUnderscores (tk_text n)
        then report PP_WARNING_MACRO_NAME_RESERVED (tk_location n) (tk_text n) (ds_shared s) else ds_shared s)"
      using tok by (simp add: s2_def ds_report_def ds_report_text_def sh)
    have sh4: "ds_shared s4 = ds_shared s2"
      by (rule moves_shared [OF m4])
    have "shares s1 (ds_shared s2) s2"
      by (simp add: shares_def s2_def ds_report_def ds_report_text_def)
    then have "shares s (ds_shared s2) s4"
      by (intro shares_moves [OF moves_shares [OF s1(2)] m4])
    then have "shares s (ds_shared (defineMacro m s4)) (defineMacro m s4) \<and>
        ds_token (defineMacro m s4) = ds_token s4 \<and> mTokenizer (defineMacro m s4) = mTokenizer s4"
      by (cases s; cases s4; cases "ds_shared s4")
        (auto simp: shares_def defineMacro_def new_macro_def Let_def ds_report_text_def split: option.splits)
    moreover have "mc_name m = tk_text n" using arg_cong [OF meq, of mc_name] by simp
    then have "ds_shared (defineMacro m s4) = macro_defined m n e (ds_shared s)"
      using False s4(3)
      by (auto simp: defineMacro_def macro_defined_def sh4 sh2 new_macro_def Let_def ds_report_text_def report_def
          split: option.splits)
    ultimately show ?thesis
      using run s4(3) n(1) by (auto intro!: exI [of _ "[]"])
  qed
qed

lemma reports_error:
  assumes "reports s ds s'" and "isError d" and "one_line us" and "stands s' (us @ e # ws)"
  shows "\<exists>us ds. one_line us \<and> stands (ds_report d s') (us @ e # ws) \<and> reports s ds (ds_report d s') \<and>
    (\<exists>d \<in> set ds. isError (fst d))"
  using assms reports_trans [OF assms(1) reports_text [of s' d "ds_text s'"]]
  by (intro exI [of _ us] exI [of _ "ds @ [(d, tk_location (ds_token s'), ds_text s')]"]) (simp add: ds_report_def)

lemma parseDefine_rejects:
  assumes s: "stands s (d # line @ e # ws)" and line: "one_line line" and e: "isEOD e" and no: "\<nexists>m. definition_of line m"
  shows "ends (parseDefine tc s) (\<lambda>s'. \<exists>us ds. one_line us \<and> stands s' (us @ e # ws) \<and> reports s ds s' \<and>
    (\<exists>d \<in> set ds. isError (fst d)))"
proof -
  have errors: "isError PP_UNEXPECTED_TOKEN" "isError PP_MACRO_PREDEFINED_REDEFINED" "isError PP_MACRO_NAME_RESERVED"
    by (simp_all add: isError_def diag_ids_def)
  from ds_lex_stands [OF s] obtain s1 where s1: "ds_lex tc s = Some s1" "moves s s1" "stands s1 (line @ e # ws)"
    by (auto simp: ends_def)
  note error = reports_error [OF s1(2) _ line s1(3)]
  show ?thesis
  proof (cases "ds_type s1 = IDENTIFIER")
    case False
    then show ?thesis using s1(1) error [OF errors(1)] by (simp add: parseDefine_def)
  next
    case True
    then obtain n ts where n: "line = n # ts" "tk_type n = IDENTIFIER" "ds_token s1 = n"
      using s1(3) EOD_type [OF e] by (cases line) (auto simp: ds_type_def)
    show ?thesis
    proof (cases "isMacroPredefined (ds_text s1) (ds_shared s1) \<or> isMacroNameReserved (ds_text s1)")
      case True
      then show ?thesis
        using s1(1) \<open>ds_type s1 = IDENTIFIER\<close> error [OF errors(2)] error [OF errors(3)]
        by (cases "isMacroPredefined (ds_text s1) (ds_shared s1)") (simp_all add: parseDefine_def)
    next
      case False
      define s2 where "s2 = (if hasDoubleUnderscores (ds_text s1) then ds_report PP_WARNING_MACRO_NAME_RESERVED s1 else s1)"
      have "stands s2 (n # ts @ e # ws)" using s1(3) n(1) by (simp add: s2_def)
      moreover have "one_line ts" using line n(1) by simp
      ultimately obtain r s3 us ds where s3: "parseParameters tc s2 = Some (r, s3)" "one_line us" "stands s3 (us @ e # ws)"
          "reports s2 ds s3" and
        r: "case r of None \<Rightarrow> \<exists>d \<in> set ds. isError (fst d) | Some (type, ps) \<Rightarrow> ds = [] \<and> macro_header ts type ps us"
        using ends_pair [OF parseParameters_gives [of s2 n ts e ws]] e by fastforce
      have "\<exists>ds. reports s1 ds s2"
        using reports_text [of s1 _ "ds_text s1"] unfolding s2_def ds_report_def
        by (cases "hasDoubleUnderscores (ds_text s1)") (auto intro: exI [of _ "[]"])
      then obtain ds' where "reports s (ds' @ ds) s3"
        using reports_trans [OF s1(2)] reports_trans [OF _ s3(4)] by fastforce
      moreover have "r = None"
      proof (rule ccontr)
        assume "r \<noteq> None"
        then obtain type ps where "macro_header ts type ps us" using r by auto
        then have "definition_of line
          (Macro\<lparr>mc_type := type, mc_name := tk_text n, parameters := ps, replacements := replacementList us\<rparr>)"
          using n by (auto simp: definition_of_def)
        then show False using no by blast
      qed
      moreover have "parseDefine tc s = Some s3"
        using s1(1) True False s3(1) \<open>r = None\<close> by (simp add: parseDefine_def s2_def flip: s2_def)
      moreover have "\<exists>d \<in> set (ds' @ ds). isError (fst d)" using r \<open>r = None\<close> by auto
      ultimately show ?thesis using s3(2,3) unfolding ends_def by blast
    qed
  qed
qed


lemma parseUndef_gives:
  assumes s: "stands s (d # n # extra @ e # ws)" and line: "one_line (n # extra)" and e: "isEOD e"
  shows "ends (parseUndef tc s) (\<lambda>s'. \<exists>us. one_line us \<and> stands s' (us @ e # ws) \<and>
    shares s (macro_undefined n extra (ds_shared s)) s')"
proof -
  from ds_lex_stands [OF s] obtain s1 where
    s1: "ds_lex tc s = Some s1" "moves s s1" "stands s1 (n # extra @ e # ws)" by (auto simp: ends_def)
  have tok: "ds_type s1 = tk_type n" "ds_text s1 = tk_text n" "ds_token s1 = n"
    using s1(3) by (simp_all add: ds_type_def ds_text_def)
  have sh: "ds_shared s1 = ds_shared s" by (rule moves_shared [OF s1(2)])
  let ?found = "macroSet (ds_shared s) (tk_text n)"
  have err: ?thesis if "parseUndef tc s = Some (ds_report d' s1)"
    "macro_undefined n extra (ds_shared s) = report d' (tk_location n) (tk_text n) (ds_shared s)" for d'
  proof -
    have "shares s (report d' (tk_location n) (tk_text n) (ds_shared s)) (ds_report d' s1)"
      using tok by (intro moves_shares [OF s1(2)]) (simp add: shares_def ds_report_def ds_report_text_def sh)
    then show ?thesis
      using that s1(3) line by (auto intro!: exI [of _ "n # extra"] simp: ends_def)
  qed
  define bad where "bad = (if tk_type n \<noteq> IDENTIFIER then Some PP_UNEXPECTED_TOKEN
    else case ?found of None \<Rightarrow> None
      | Some i \<Rightarrow> if predefined (store (ds_shared s) ! i) then Some PP_MACRO_PREDEFINED_UNDEFINED
          else if 0 < expansionCount (store (ds_shared s) ! i) then Some PP_MACRO_UNDEFINED_WHILE_INVOKED else None)"
  show ?thesis
  proof (cases bad)
    case (Some d')
    then show ?thesis
      using s1(1) tok sh unfolding bad_def
      by (intro err [of d']) (auto simp: parseUndef_def macro_undefined_def Let_def split: if_splits option.splits)
  next
    case None
    define sh' where "sh' = (ds_shared s)\<lparr>macroSet := (macroSet (ds_shared s))(tk_text n := None)\<rparr>"
    define s2 where "s2 = s1\<lparr>ds_shared := sh'\<rparr>"
    have s2: "stands s2 (n # extra @ e # ws)" "shares s sh' s2"
      using s1(3) moves_shares [OF s1(2), of sh' s2] by (simp_all add: s2_def shares_def)
    from ds_lex_stands [OF s2(1)] obtain s3 where
      s3: "ds_lex tc s2 = Some s3" "moves s2 s3" "stands s3 (extra @ e # ws)" by (auto simp: ends_def)
    have sh3: "shares s sh' s3" "ds_shared s3 = sh'"
      using shares_moves [OF s2(2) s3(2)] by (auto simp: shares_def dest: arg_cong [of _ _ ds_shared])
    have run: "parseUndef tc s = (if isEOD (ds_token s3) then Some s3 else skipUntilEOD tc (ds_report PP_UNEXPECTED_TOKEN s3))"
      using None s1(1) tok sh s3(1) unfolding bad_def s2_def sh'_def
      by (auto simp: parseUndef_def Let_def split: if_splits option.splits)
    have res: "macro_undefined n extra (ds_shared s) =
        (case extra of [] \<Rightarrow> sh' | t # ts \<Rightarrow> report PP_UNEXPECTED_TOKEN (tk_location t) (tk_text t) sh')"
      using None unfolding bad_def sh'_def macro_undefined_def Let_def by (cases ?found) (auto split: if_splits)
    show ?thesis
    proof (cases extra)
      case Nil
      then show ?thesis using run res s3(3) sh3(1) e by (auto intro!: exI [of _ "[]"])
    next
      case (Cons t ts)
      have t: "ds_token s3 = t" "\<not> isEOD t" using s3(3) line Cons by auto
      have "shares s3 (report PP_UNEXPECTED_TOKEN (tk_location t) (tk_text t) sh') (ds_report PP_UNEXPECTED_TOKEN s3)"
        using t sh3(2) by (simp add: shares_def ds_report_def ds_report_text_def ds_text_def)
      then have "shares s (report PP_UNEXPECTED_TOKEN (tk_location t) (tk_text t) sh') (ds_report PP_UNEXPECTED_TOKEN s3)"
        using sh3(1) by (cases s; cases s3) (simp add: shares_def ds_report_def ds_report_text_def)
      moreover from skipUntilEOD_gives [of "ds_report PP_UNEXPECTED_TOKEN s3" extra e ws] obtain s4 where
        "skipUntilEOD tc (ds_report PP_UNEXPECTED_TOKEN s3) = Some s4" "moves (ds_report PP_UNEXPECTED_TOKEN s3) s4"
        "stands s4 (e # ws)" using s3(3) line e by (auto simp: ends_def)
      ultimately show ?thesis
        using run t res Cons shares_moves by (fastforce intro!: exI [of _ "[]"])
    qed
  qed
qed

lemma directive_define:
  assumes "gives (mTokenizer s) (d # line @ e # ws)" and "tk_type d = IDENTIFIER" "tk_text d = ''define''"
    and "one_line line" and "tk_type e = NEWLINE" and "\<not> skipping s" and m: "definition_of line m"
  shows "ends (parseDirective tc st s) (\<lambda>s'. stands s' (e # ws) \<and> shares s (macro_defined m (hd line) e (ds_shared s)) s')"
proof (rule parseDirective_runs [OF assms(1)])
  have d: "getDirective d = DIRECTIVE_DEFINE" using assms(2,3) by (simp add: getDirective_def)
  show "one_line (d # line)" using assms(2,4) by (simp add: isEOD_def)
  fix s1 assume s1: "moves s s1" "stands s1 (d # line @ e # ws)"
  have e: "isEOD e" using assms(5) by (simp add: isEOD_def)
  show "ends (runDirective tc st (getDirective d) s1) (\<lambda>s2. \<exists>us. one_line us \<and> stands s2 (us @ e # ws) \<and>
      shares s (macro_defined m (hd line) e (ds_shared s)) s2)"
    unfolding d runDirective_def directive_type.case
    by (rule ends_mono [OF parseDefine_definition [OF s1(2) assms(4) e m]])
      (use moves_shares [OF s1(1)] moves_shared [OF s1(1)] in auto)
qed (use assms(5,6) shares_moves in \<open>auto simp: isConditionalDirective_def\<close>)

lemma directive_define_rejects:
  assumes "gives (mTokenizer s) (d # line @ e # ws)" and "tk_type d = IDENTIFIER" "tk_text d = ''define''"
    and "one_line line" and "tk_type e = NEWLINE" and "\<not> skipping s" and no: "\<nexists>m. definition_of line m"
  shows "ends (parseDirective tc st s) (\<lambda>s'. stands s' (e # ws) \<and> (\<exists>ds. reports s ds s' \<and> (\<exists>d \<in> set ds. isError (fst d))))"
proof (rule parseDirective_runs [OF assms(1)])
  have d: "getDirective d = DIRECTIVE_DEFINE" using assms(2,3) by (simp add: getDirective_def)
  show "one_line (d # line)" using assms(2,4) by (simp add: isEOD_def)
  show "\<exists>ds. reports s ds s3 \<and> (\<exists>d \<in> set ds. isError (fst d))"
    if "\<exists>ds. reports s ds s2 \<and> (\<exists>d \<in> set ds. isError (fst d))" "moves s2 s3" for s2 s3
    using that reports_trans [of s _ s2 "[]" s3] by auto
  fix s1 assume s1: "moves s s1" "stands s1 (d # line @ e # ws)"
  have "isEOD e" using assms(5) by (simp add: isEOD_def)
  from parseDefine_rejects [OF s1(2) assms(4) this no]
  show "ends (runDirective tc st (getDirective d) s1) (\<lambda>s2. \<exists>us. one_line us \<and> stands s2 (us @ e # ws) \<and>
      (\<exists>ds. reports s ds s2 \<and> (\<exists>d \<in> set ds. isError (fst d))))"
    unfolding d runDirective_def directive_type.case
    by (rule ends_mono) (use reports_trans [OF s1(1)] in fastforce)
qed (use assms(5,6) in simp_all)

lemma directive_undef:
  assumes "gives (mTokenizer s) (d # n # extra @ e # ws)" and "tk_type d = IDENTIFIER" "tk_text d = ''undef''"
    and "one_line (n # extra)" and "tk_type e = NEWLINE" and "\<not> skipping s"
  shows "ends (parseDirective tc st s) (\<lambda>s'. stands s' (e # ws) \<and> shares s (macro_undefined n extra (ds_shared s)) s')"
proof (rule parseDirective_runs)
  have d: "getDirective d = DIRECTIVE_UNDEF" using assms(2,3) by (simp add: getDirective_def)
  show "gives (mTokenizer s) (d # (n # extra) @ e # ws)" using assms(1) by simp
  show "one_line (d # n # extra)" using assms(2,4) by (simp add: isEOD_def)
  fix s1 assume s1: "moves s s1" "stands s1 (d # (n # extra) @ e # ws)"
  have e: "isEOD e" using assms(5) by (simp add: isEOD_def)
  show "ends (runDirective tc st (getDirective d) s1) (\<lambda>s2. \<exists>us. one_line us \<and> stands s2 (us @ e # ws) \<and>
      shares s (macro_undefined n extra (ds_shared s)) s2)"
    unfolding d runDirective_def directive_type.case
    by (rule ends_mono [OF parseUndef_gives [OF s1(2) [unfolded append_Cons] assms(4) e]])
      (use moves_shares [OF s1(1)] moves_shared [OF s1(1)] in auto)
qed (use assms(5,6) shares_moves in \<open>auto simp: isConditionalDirective_def\<close>)

end

section \<open>A tokenizer on a list\<close>

definition TokenListClass :: "token list tokenizer_class" where
  "TokenListClass = \<lparr>tc_lex = TokenLexer, tc_setLineNumber = (\<lambda>_ l. l), tc_setFileNumber = (\<lambda>_ l. l)\<rparr>"

lemma TokenListClass_simps [simp]:
  "tc_lex TokenListClass = TokenLexer" "tc_setLineNumber TokenListClass i l = l" "tc_setFileNumber TokenListClass i l = l"
  by (simp_all add: TokenListClass_def)

interpretation token_lines: line_source TokenListClass no_last length False gives_list
  by (unfold_locales, unfold TokenListClass_simps)
    (fact tokens.lexes token_list.gives_ok token_list.gives_lex)+

definition line_state :: "token list \<Rightarrow> shared \<Rightarrow> token list directive_state" where
  "line_state ts sh = directive_parser.extend (DirectiveParser ts) \<lparr>ds_token = reset_token, ds_shared = sh\<rparr>"

lemma line_state_simps [simp]:
  "mTokenizer (line_state ts sh) = ts" "ds_shared (line_state ts sh) = sh" "\<not> skipping (line_state ts sh)"
  by (simp_all add: line_state_def DirectiveParser_def directive_parser.defs skipping_def)

lemma gives_list_self: "no_last ts \<Longrightarrow> gives_list ts ts"
  by (auto simp: gives_list_def intro: exI [of _ 0])

text \<open>A list of parameters may end with a comma, which the grammar of the language does not allow.\<close>

lemma trailing_comma_accepted:
  "\<exists>s. parseDirective TokenListClass st (line_state
       [ident_token ''define'', ident_token ''F'', char_token LEFT_PAREN, ident_token ''a'', char_token COMMA,
        char_token RIGHT_PAREN, char_token NEWLINE] \<lparr>store = [], macroSet = Map.empty, diags = []\<rparr>) = Some s \<and>
     diags (ds_shared s) = [] \<and> macroSet (ds_shared s) = [''F'' \<mapsto> 0]"
  by (simp add: line_state_def DirectiveParser_def directive_parser.defs parseDirective_def ds_lex_def ds_type_def ds_text_def
      ident_token_def char_token_def reset_token_def isEOD_def skipping_def getDirective_def runDirective_def parseDefine_def
      isMacroPredefined_def isMacroNameReserved_def hasDoubleUnderscores.simps parseParameters_def hasLeadingSpace_def
      parameterLoop.simps restOfLine.simps defineMacro_def new_macro_def Macro_def skipUntilEOD.simps Let_def)

section \<open>Properties\<close>

text \<open>
  C0. A line that defines a macro by the grammar of \<open>#define\<close> does exactly that: the macro that the line
  describes enters the set under its name, a name with two underscores is warned of, and nothing but the
  set and the reports changes. A second definition is accepted if it is the same macro; names that are
  predefined or reserved, and other second definitions, are reported and leave all macros as they were.
\<close>

theorem macro_definitions:
  assumes "line_source tc ok left grows gives" and "gives (mTokenizer s) (d # line @ e # ws)"
    and "tk_type d = IDENTIFIER" and "tk_text d = ''define''" and "one_line line" and "tk_type e = NEWLINE"
    and "\<not> skipping s" and "definition_of line m"
  shows "\<exists>s'. parseDirective tc st s = Some s' \<and> ds_token s' = e \<and> gives (mTokenizer s') ws \<and>
    s' = s\<lparr>ds_token := e, mTokenizer := mTokenizer s', ds_shared := macro_defined m (hd line) e (ds_shared s)\<rparr>"
  using line_source.directive_define [OF assms, of st]
  by (auto simp: ends_def shares_def line_source.stands_Cons [OF assms(1)])

text \<open>The line \<open>#define F(a, b) b a\<close>.\<close>

definition definition_line :: "token list" where
  "definition_line =
     [ident_token ''F'', char_token LEFT_PAREN, ident_token ''a'', char_token COMMA, ident_token ''b'',
      char_token RIGHT_PAREN, ident_token ''b'', ident_token ''a'']"

definition defined_macro :: macro where
  "defined_macro =
     Macro\<lparr>mc_type := kTypeFunc, mc_name := ''F'', parameters := [''a'', ''b''],
           replacements := [ident_token ''b'', ident_token ''a'']\<rparr>"

lemma definition_line_one: "one_line (definition_line @ [ident_token ''define''])"
  by (simp add: definition_line_def isEOD_def ident_token_def char_token_def reset_token_def)

lemma definition_line_defines: "definition_of definition_line defined_macro"
proof -
  have "parameter_names [tk_text (ident_token ''a''), tk_text (ident_token ''b'')] [ident_token ''a'', char_token COMMA, ident_token ''b'']"
    by (intro parameter_names.intros) (simp_all add: ident_token_def char_token_def)
  moreover have "opens_parameters (tl definition_line)"
    by (simp add: definition_line_def opens_parameters_def char_token_def hasLeadingSpace_def reset_token_def)
  ultimately have "macro_header (tl definition_line) kTypeFunc [''a'', ''b''] [ident_token ''b'', ident_token ''a'']"
    unfolding macro_header_def
    by (auto simp: definition_line_def ident_token_def char_token_def
        intro!: exI [of _ "[ident_token ''a'', char_token COMMA, ident_token ''b'']"])
  then show ?thesis
    by (auto simp: definition_of_def definition_line_def defined_macro_def Macro_def ident_token_def char_token_def
        reset_token_def SourceLocation_def setHasLeadingSpace_def set_flag_def)
qed

theorem macro_definitions_witness:
  "\<exists>s'. parseDirective TokenListClass (PreprocessorSettings SH_GLES3_SPEC)
      (line_state (ident_token ''define'' # definition_line @ [char_token NEWLINE]) object_macros) = Some s' \<and>
     macroSet (ds_shared s') ''F'' = Some 2 \<and> store (ds_shared s') ! 2 = defined_macro \<and> diags (ds_shared s') = []"
  using macro_definitions [OF token_lines.line_source_axioms, of "line_state (ident_token ''define'' # definition_line @ [char_token NEWLINE]) object_macros"
      "ident_token ''define''" definition_line "char_token NEWLINE" "[]" defined_macro "PreprocessorSettings SH_GLES3_SPEC"]
    definition_line_one definition_line_defines
  by (auto simp: gives_list_def no_last_def definition_line_def ident_token_def char_token_def reset_token_def
      macro_defined_def isMacroPredefined_def isMacroNameReserved_def object_macros_def Let_def
      dest!: arg_cong [of _ _ ds_shared])



text \<open>
  C0. \<open>#undef\<close> takes exactly its name out of the macro set, also when tokens follow that are then reported. A
  macro that is predefined or being expanded stays, with an error, and so do all macros if there is no name.
\<close>

theorem undefined_macros:
  assumes "line_source tc ok left grows gives" and "gives (mTokenizer s) (d # n # extra @ e # ws)"
    and "tk_type d = IDENTIFIER" and "tk_text d = ''undef''" and "one_line (n # extra)" and "tk_type e = NEWLINE"
    and "\<not> skipping s"
  shows "\<exists>s'. parseDirective tc st s = Some s' \<and> ds_token s' = e \<and> gives (mTokenizer s') ws \<and>
    s' = s\<lparr>ds_token := e, mTokenizer := mTokenizer s', ds_shared := macro_undefined n extra (ds_shared s)\<rparr>"
  using line_source.directive_undef [OF assms, of st]
  by (auto simp: ends_def shares_def line_source.stands_Cons [OF assms(1)])

text \<open>The line \<open>#undef a b\<close>.\<close>

theorem undefined_macros_witness:
  "\<exists>s'. parseDirective TokenListClass (PreprocessorSettings SH_GLES3_SPEC)
      (line_state [ident_token ''undef'', ident_token ''a'', ident_token ''b'', char_token NEWLINE] object_macros) = Some s' \<and>
     macroSet (ds_shared s') = [''b'' \<mapsto> 1] \<and> map fst (diags (ds_shared s')) = [PP_UNEXPECTED_TOKEN]"
  using undefined_macros [OF token_lines.line_source_axioms,
      of "line_state [ident_token ''undef'', ident_token ''a'', ident_token ''b'', char_token NEWLINE] object_macros"
      "ident_token ''undef''" "ident_token ''a''" "[ident_token ''b'']" "char_token NEWLINE" "[]" "PreprocessorSettings SH_GLES3_SPEC"]
  by (auto simp: gives_list_def no_last_def ident_token_def char_token_def reset_token_def isEOD_def macro_undefined_def
      object_macros_def Macro_def report_def fun_eq_iff dest!: arg_cong [of _ _ ds_shared])

end
