(* ===== verification/Pp_Groups.thy ===== *)
theory Pp_Groups
  imports Pp_Lines Pp_Expander_Inv
begin

text \<open>
  The meaning of conditional groups: which tokens of a text the directives select, with the macros that the
  selected lines define. The reference is a relation over texts; the directive parser with its stack of
  conditional blocks implements it.
\<close>

section \<open>The reference\<close>

definition keyword :: "string \<Rightarrow> token \<Rightarrow> bool" where
  "keyword w t \<longleftrightarrow> tk_type t = IDENTIFIER \<and> tk_text t = w"

definition hash_token :: "token \<Rightarrow> bool" where
  "hash_token t \<longleftrightarrow> tk_type t = PP_HASH"

definition line_end :: "token \<Rightarrow> bool" where
  "line_end t \<longleftrightarrow> tk_type t = NEWLINE"

text \<open>The tokens behind \<open>#if\<close> are an expression that has a value, with object-like macros only.\<close>

definition condition :: "shared \<Rightarrow> token list \<Rightarrow> bool \<Rightarrow> bool" where
  "condition sh ts c \<longleftrightarrow>
     one_line ts \<and> newline_free_macros sh \<and> (\<forall>m \<in> set (store sh). object_macro True m) \<and>
     (\<exists>us e i. resolve True sh ts = Some us \<and> phrase False 1 e (expandObjects sh (off sh) us) \<and>
        length (expandObjects sh (off sh) us) < 5000 \<and> value_of e = Some i \<and> c = (i \<noteq> 0))"

inductive opens_block :: "shared \<Rightarrow> token list \<Rightarrow> bool \<Rightarrow> bool" where
  if_defined: "keyword ''ifdef'' k \<Longrightarrow> tk_type n = IDENTIFIER \<Longrightarrow> opens_block sh [k, n] (macroSet sh (tk_text n) \<noteq> None)"
| if_not_defined: "keyword ''ifndef'' k \<Longrightarrow> tk_type n = IDENTIFIER \<Longrightarrow> opens_block sh [k, n] (macroSet sh (tk_text n) = None)"
| if_condition: "keyword ''if'' k \<Longrightarrow> condition sh ts c \<Longrightarrow> opens_block sh (k # ts) c"

text \<open>
  A text that is left out: only the names of its conditional directives count. \<open>excluded_groups\<close> is the rest of
  a block inside of it, up to its \<open>#endif\<close>.
\<close>

inductive excluded :: "token list \<Rightarrow> bool" and excluded_groups :: "token list \<Rightarrow> bool" where
  nothing_excluded: "excluded []"
| text_excluded: "tk_type t \<notin> {PP_HASH, LAST} \<Longrightarrow> excluded ts \<Longrightarrow> excluded (t # ts)"
| null_excluded: "hash_token h \<Longrightarrow> line_end e \<Longrightarrow> excluded ts \<Longrightarrow> excluded (h # e # ts)"
| directive_excluded: "hash_token h \<Longrightarrow> one_line (k # line) \<Longrightarrow> line_end e \<Longrightarrow>
    \<not> isConditionalDirective (getDirective k) \<Longrightarrow> excluded ts \<Longrightarrow> excluded (h # k # line @ e # ts)"
| block_excluded: "hash_token h \<Longrightarrow> one_line (k # line) \<Longrightarrow> line_end e \<Longrightarrow>
    getDirective k \<in> {DIRECTIVE_IF, DIRECTIVE_IFDEF, DIRECTIVE_IFNDEF} \<Longrightarrow>
    excluded_groups ts \<Longrightarrow> excluded us \<Longrightarrow> excluded (h # k # line @ e # ts @ us)"
| excluded_end: "excluded ts \<Longrightarrow> hash_token h \<Longrightarrow> getDirective k = DIRECTIVE_ENDIF \<Longrightarrow> line_end e \<Longrightarrow>
    excluded_groups (ts @ [h, k, e])"
| excluded_next: "excluded ts \<Longrightarrow> hash_token h \<Longrightarrow> one_line (k # line) \<Longrightarrow> line_end e \<Longrightarrow>
    getDirective k \<in> {DIRECTIVE_ELSE, DIRECTIVE_ELIF} \<Longrightarrow> excluded_groups us \<Longrightarrow>
    excluded_groups (ts @ h # k # line @ e # us)"

text \<open>
  \<open>selects sh ts out sh'\<close>: with the macros \<open>sh\<close>, the text \<open>ts\<close> stands for the tokens \<open>out\<close> and leaves the
  macros \<open>sh'\<close>. \<open>group\<close> is a group that is taken or not, \<open>groups\<close> the rest of a block, given whether one
  of its groups has been taken already.
\<close>

inductive selects :: "shared \<Rightarrow> token list \<Rightarrow> token list \<Rightarrow> shared \<Rightarrow> bool"
  and group :: "shared \<Rightarrow> bool \<Rightarrow> token list \<Rightarrow> token list \<Rightarrow> shared \<Rightarrow> bool"
  and groups :: "shared \<Rightarrow> bool \<Rightarrow> token list \<Rightarrow> token list \<Rightarrow> shared \<Rightarrow> bool" where
  nothing: "selects sh [] [] sh"
| newline: "line_end t \<Longrightarrow> selects sh ts out sh' \<Longrightarrow> selects sh (t # ts) out sh'"
| token: "tk_type t \<notin> {PP_HASH, NEWLINE, LAST} \<Longrightarrow> selects sh ts out sh' \<Longrightarrow> selects sh (t # ts) (t # out) sh'"
| define_line: "hash_token h \<Longrightarrow> keyword ''define'' d \<Longrightarrow> one_line line \<Longrightarrow> line_end e \<Longrightarrow> definition_of line m \<Longrightarrow>
    selects (macro_defined m (hd line) e sh) ts out sh' \<Longrightarrow> selects sh (h # d # line @ e # ts) out sh'"
| undef_line: "hash_token h \<Longrightarrow> keyword ''undef'' d \<Longrightarrow> one_line (n # extra) \<Longrightarrow> line_end e \<Longrightarrow>
    selects (macro_undefined n extra sh) ts out sh' \<Longrightarrow> selects sh (h # d # n # extra @ e # ts) out sh'"
| block: "hash_token h \<Longrightarrow> opens_block sh (k # line) c \<Longrightarrow> line_end e \<Longrightarrow> group sh c ts out sh1 \<Longrightarrow>
    groups sh1 c us out' sh2 \<Longrightarrow> selects sh2 vs out'' sh3 \<Longrightarrow>
    selects sh (h # k # line @ e # ts @ us @ vs) (out @ out' @ out'') sh3"
| taken: "selects sh ts out sh' \<Longrightarrow> group sh True ts out sh'"
| left_out: "excluded ts \<Longrightarrow> group sh False ts [] sh"
| end_block: "hash_token h \<Longrightarrow> keyword ''endif'' k \<Longrightarrow> line_end e \<Longrightarrow> groups sh c [h, k, e] [] sh"
| last_group: "hash_token h \<Longrightarrow> keyword ''else'' k \<Longrightarrow> line_end e \<Longrightarrow> group sh (\<not> c) ts out sh' \<Longrightarrow>
    hash_token h' \<Longrightarrow> keyword ''endif'' k' \<Longrightarrow> line_end e' \<Longrightarrow>
    groups sh c (h # k # e # ts @ [h', k', e']) out sh'"
| next_group: "hash_token h \<Longrightarrow> keyword ''elif'' k \<Longrightarrow> condition sh line c \<Longrightarrow> line_end e \<Longrightarrow> group sh c ts out sh1 \<Longrightarrow>
    groups sh1 c us out' sh2 \<Longrightarrow> groups sh False (h # k # line @ e # ts @ us) (out @ out') sh2"
| after_group: "hash_token h \<Longrightarrow> keyword ''elif'' k \<Longrightarrow> one_line line \<Longrightarrow> line_end e \<Longrightarrow> excluded ts \<Longrightarrow>
    groups sh True us out sh' \<Longrightarrow> groups sh True (h # k # line @ e # ts @ us) out sh'"

lemma resolvedDefined_end:
  "resolveDefined sh us = Some vs \<Longrightarrow> us \<noteq> [] \<Longrightarrow> line_end (last us) \<Longrightarrow> last us \<in> set vs"
proof (induction "length us" arbitrary: us vs rule: less_induct)
  case less
  then obtain t ts where us: "us = t # ts" by (cases us) auto
  have IH: "last ns \<in> set ws" if "resolveDefined sh ns = Some ws" "length ns < length us" "ns \<noteq> []" "last ns = last us" for ns ws
    using less.hyps [OF that(2,1,3)] less.prems(3) that(4) by simp
  show ?case
  proof (cases "is_defined t")
    case False
    then show ?thesis using less.prems(1) IH [of ts] us by (cases "ts = []") auto
  next
    case True
    then obtain n ns where ts: "ts = n # ns" using less.prems(1) us by (cases ts) auto
    show ?thesis
    proof (cases "tk_type n = IDENTIFIER")
      case i: True
      then have "ns \<noteq> []" using less.prems(3) us ts by (auto simp: line_end_def)
      then show ?thesis using less.prems(1) IH [of ns] us ts True i by auto
    next
      case i: False
      then obtain m r ms where ns: "ns = m # r # ms" "tk_type r = RIGHT_PAREN"
        using less.prems(1) us ts True by (auto split: list.splits if_splits)
      then have "ms \<noteq> []" using less.prems(3) us ts by (auto simp: line_end_def)
      then show ?thesis using less.prems(1) IH [of ms] us ts ns True i by (auto split: if_splits)
    qed
  qed
qed

lemma resolved_end:
  "resolve pd sh us = Some vs \<Longrightarrow> us \<noteq> [] \<Longrightarrow> line_end (last us) \<Longrightarrow> last us \<in> set vs"
  by (auto simp: resolve_def resolvedDefined_end split: if_splits)
section \<open>Continuing the loop\<close>

text \<open>The same macros, whatever the reports.\<close>

definition like :: "shared \<Rightarrow> shared \<Rightarrow> bool" where
  "like sh sh' \<longleftrightarrow> store sh' = store sh \<and> macroSet sh' = macroSet sh"

lemma like_refl [simp]: "like sh sh"
  by (simp add: like_def)

lemma like_trans: "like a b \<Longrightarrow> like b c \<Longrightarrow> like a c"
  by (simp add: like_def)

lemma like_report [simp]: "like sh (report d l t sh') = like sh sh'" "like sh (sh'\<lparr>diags := ds\<rparr>) = like sh sh'"
  by (simp_all add: like_def report_def)

lemma like_eq: "like sh sh' \<Longrightarrow> \<exists>ds. sh' = sh\<lparr>diags := ds\<rparr>"
  by (cases sh; cases sh') (auto simp: like_def)

lemma like_reports: "reports s ds s' \<Longrightarrow> like sh (ds_shared s') = like sh (ds_shared s)"
  by (simp add: like_def reports_simps)

lemma like_wf: "like sh sh' \<Longrightarrow> wf_shared sh' = wf_shared sh"
  by (simp add: like_def wf_shared_def)

lemma like_condition: "like sh sh' \<Longrightarrow> condition sh' ts c = condition sh ts c"
  by (drule like_eq) (clarsimp simp: condition_def newline_free_macros_def)

lemma like_macro_defined: "like sh sh' \<Longrightarrow> like (macro_defined m n e sh) (macro_defined m n e sh')"
  by (auto simp: like_def macro_defined_def isMacroPredefined_def Let_def report_def split: option.splits)

lemma like_macro_undefined: "like sh sh' \<Longrightarrow> like (macro_undefined n ts sh) (macro_undefined n ts sh')"
  by (auto simp: like_def macro_undefined_def Let_def report_def split: option.splits list.splits)

lemma definition_wf:
  assumes "definition_of line m" and "one_line line"
  shows "wf_macro m"
proof -
  from assms(1) obtain n ts body where n: "line = n # ts" "macro_header ts (mc_type m) (parameters m) body"
    and m: "m = Macro\<lparr>mc_type := mc_type m, mc_name := tk_text n, parameters := parameters m,
      replacements := replacementList body\<rparr>"
    unfolding definition_of_def by blast
  have "one_line body"
    using assms(2) n unfolding macro_header_def by (cases ts) (auto split: if_splits)
  then have "\<forall>t \<in> set body. tk_type t \<noteq> LAST" by (auto simp: one_line_def isEOD_def)
  from wf_new_macro [OF this] show ?thesis by (subst m) blast
qed

lemma macro_defined_wf:
  assumes "wf_shared sh" and "definition_of line m" and "one_line line"
  shows "wf_shared (macro_defined m (hd line) e sh)"
proof -
  have "mc_name m = tk_text (hd line)"
    using assms(2) by (auto simp: definition_of_def dest: arg_cong [of _ _ mc_name])
  then show ?thesis
    using assms(1) definition_wf [OF assms(2,3)]
    by (auto simp: macro_defined_def Let_def wf_shared_def report_def nth_append less_Suc_eq split: option.splits)
qed

lemma macro_undefined_wf: "wf_shared sh \<Longrightarrow> wf_shared (macro_undefined n ts sh)"
  by (auto simp: macro_undefined_def Let_def wf_shared_def report_def split: option.splits list.splits)

context line_source
begin

text \<open>The loop of \<open>lex\<close> goes on at the end of a line, and in a group that is left out.\<close>

lemma line_step:
  assumes "gives (mTokenizer s) (h # k # line @ e # ws)" and h: "hash_token h" and line: "one_line (k # line)" and e: "line_end e"
    and d: "\<not> skipping s \<or> isConditionalDirective (getDirective k)"
    and run: "\<And>s1. mConditionalStack s1 = mConditionalStack s \<Longrightarrow> ds_shared s1 = ds_shared s \<Longrightarrow>
      stands s1 (k # line @ e # ws) \<Longrightarrow>
      ends (runDirective tc st (getDirective k) s1) (\<lambda>s2. \<exists>us. one_line us \<and> stands s2 (us @ e # ws) \<and>
        Q (mConditionalStack s2) \<and> like sh (ds_shared s2))"
  shows "\<exists>s'. directiveLoop tc st s = directiveLoop tc st s' \<and> gives (mTokenizer s') ws \<and>
    Q (mConditionalStack s') \<and> like sh (ds_shared s')"
proof -
  from ds_lex_gives [OF assms(1)] obtain s1 where s1: "ds_lex tc s = Some s1" "moves s s1" "ds_token s1 = h"
    "gives (mTokenizer s1) (k # line @ e # ws)" by (auto simp: ends_def)
  have e': "tk_type e = NEWLINE" using e by (simp add: line_end_def)
  have "ends (parseDirective tc st s1) (\<lambda>s'. stands s' (e # ws) \<and> (Q (mConditionalStack s') \<and> like sh (ds_shared s')))"
  proof (rule parseDirective_runs [OF s1(4) line e'])
    show "\<not> skipping s1 \<or> isConditionalDirective (getDirective k)"
      using d reports_simps(9) [OF s1(2)] by simp
    show "Q (mConditionalStack s3) \<and> like sh (ds_shared s3)"
      if "Q (mConditionalStack s2) \<and> like sh (ds_shared s2)" "moves s2 s3" for s2 s3
      using that reports_simps(1) [OF that(2)] moves_shared [OF that(2)] by simp
    fix s2 assume s2: "moves s1 s2" "stands s2 (k # line @ e # ws)"
    have "moves s s2" using reports_trans [OF s1(2) s2(1)] by simp
    then show "ends (runDirective tc st (getDirective k) s2) (\<lambda>s2. \<exists>us. one_line us \<and> stands s2 (us @ e # ws) \<and>
        Q (mConditionalStack s2) \<and> like sh (ds_shared s2))"
      using run [OF _ _ s2(2)] reports_simps(1) [of s "[]" s2] moves_shared [of s s2] by simp
  qed
  then obtain s2 where s2: "parseDirective tc st s1 = Some s2" "stands s2 (e # ws)" "Q (mConditionalStack s2)"
    "like sh (ds_shared s2)" by (auto simp: ends_def)
  let ?s = "s2\<lparr>mPastFirstStatement := True\<rparr>"
  have "directiveLoop tc st s = directiveLoop tc st ?s"
    using s1(1,3) s2(1,2) h e'
    by (subst directiveLoop.simps) (simp add: directiveOrToken_def ds_type_def hash_token_def)
  then show ?thesis using s2 by (intro exI [of _ ?s]) simp
qed

lemma null_step:
  assumes "gives (mTokenizer s) (h # e # ws)" and "hash_token h" and "line_end e"
  shows "\<exists>s'. directiveLoop tc st s = directiveLoop tc st s' \<and> gives (mTokenizer s') ws \<and>
    mConditionalStack s' = mConditionalStack s \<and> like (ds_shared s) (ds_shared s')"
proof -
  from ds_lex_gives [OF assms(1)] obtain s1 where s1: "ds_lex tc s = Some s1" "moves s s1" "ds_token s1 = h"
    "gives (mTokenizer s1) (e # ws)" by (auto simp: ends_def)
  from ds_lex_gives [OF s1(4)] obtain s2 where s2: "ds_lex tc s1 = Some s2" "moves s1 s2" "ds_token s2 = e"
    "gives (mTokenizer s2) ws" by (auto simp: ends_def)
  let ?s = "s2\<lparr>mPastFirstStatement := True\<rparr>"
  have "moves s s2" using reports_trans [OF s1(2) s2(2)] by simp
  moreover have "directiveLoop tc st s = directiveLoop tc st ?s"
    using s1 s2 assms(2,3)
    by (subst directiveLoop.simps)
      (simp add: directiveOrToken_def parseDirective_def ds_type_def hash_token_def line_end_def isEOD_def)
  ultimately show ?thesis
    using s2(4) by (intro exI [of _ ?s]) (simp add: reports_simps like_def)
qed

lemma token_step:
  assumes "gives (mTokenizer s) (t # ws)" and "tk_type t \<notin> {PP_HASH, LAST}" and "skipping s \<or> line_end t"
  shows "\<exists>s'. directiveLoop tc st s = directiveLoop tc st s' \<and> gives (mTokenizer s') ws \<and>
    mConditionalStack s' = mConditionalStack s \<and> like (ds_shared s) (ds_shared s')"
proof -
  from ds_lex_gives [OF assms(1)] obtain s1 where s1: "ds_lex tc s = Some s1" "moves s s1" "ds_token s1 = t"
    "gives (mTokenizer s1) ws" by (auto simp: ends_def)
  let ?s = "if isEOD t then s1 else s1\<lparr>mSeenNonPreprocessorToken := True\<rparr>"
  have sk: "skipping ?s = skipping s" using reports_simps(9) [OF s1(2)] by (simp add: skipping_def)
  have "directiveLoop tc st s = directiveLoop tc st ?s"
    using s1 assms(2,3) sk
    by (subst directiveLoop.simps) (auto simp: directiveOrToken_def ds_type_def line_end_def)
  then show ?thesis
    using s1 by (intro exI [of _ ?s]) (simp add: reports_simps like_def)
qed

section \<open>Text that is left out\<close>

lemma skipped_directive_step:
  assumes "gives (mTokenizer s) (h # k # line @ e # ws)" and h: "hash_token h" and line: "one_line (k # line)" and e: "line_end e"
    and sk: "skipping s" and k: "\<not> isConditionalDirective (getDirective k)"
  shows "\<exists>s'. directiveLoop tc st s = directiveLoop tc st s' \<and> gives (mTokenizer s') ws \<and>
    mConditionalStack s' = mConditionalStack s \<and> like (ds_shared s) (ds_shared s')"
proof -
  from ds_lex_gives [OF assms(1)] obtain s1 where s1: "ds_lex tc s = Some s1" "moves s s1" "ds_token s1 = h"
    "gives (mTokenizer s1) (k # line @ e # ws)" by (auto simp: ends_def)
  from ds_lex_gives [OF s1(4)] obtain s2 where s2: "ds_lex tc s1 = Some s2" "moves s1 s2" "stands s2 (k # line @ e # ws)"
    by (auto simp: ends_def)
  have "isEOD e" using e by (simp add: isEOD_def line_end_def)
  from skipUntilEOD_gives [OF _ line this, of s2 ws] s2(3) obtain s3 where
    s3: "skipUntilEOD tc s2 = Some s3" "moves s2 s3" "stands s3 (e # ws)" by (auto simp: ends_def)
  have m2: "moves s s2" using reports_trans [OF s1(2) s2(2)] by simp
  have m3: "moves s s3" using reports_trans [OF m2 s3(2)] by simp
  let ?s = "s3\<lparr>mPastFirstStatement := True\<rparr>"
  have "parseDirective tc st s1 = Some s3"
    using s2 s3(1) line sk k reports_simps(9) [OF m2] by (simp add: parseDirective_def)
  then have "directiveLoop tc st s = directiveLoop tc st ?s"
    using s1(1,3) s3(3) h e
    by (subst directiveLoop.simps) (simp add: directiveOrToken_def ds_type_def hash_token_def line_end_def)
  then show ?thesis
    using s3(3) m3 by (intro exI [of _ ?s]) (simp add: reports_simps like_def)
qed

lemma EOD_gives:
  assumes "stands s (ts @ e # ws)" and "one_line ts" and "line_end e"
  shows "ends (skipUntilEOD tc s) (\<lambda>s'. stands s' (e # ws) \<and> mConditionalStack s' = mConditionalStack s \<and>
    (\<forall>sh. like sh (ds_shared s') = like sh (ds_shared s)))"
proof (rule ends_mono [OF skipUntilEOD_gives [OF assms(1,2)]])
  show "isEOD e" using assms(3) by (simp add: isEOD_def line_end_def)
  fix s' assume s': "moves s s' \<and> stands s' (e # ws)"
  then have m: "moves s s'" by blast
  show "stands s' (e # ws) \<and> mConditionalStack s' = mConditionalStack s \<and>
      (\<forall>sh. like sh (ds_shared s') = like sh (ds_shared s))"
    using s' reports_simps(1) [OF m] like_reports [OF m] by simp
qed

lemma endConditional_gives:
  assumes "stands s (k # e # ws)" and "line_end e"
  shows "ends (endConditional tc s) (\<lambda>s'. stands s' (e # ws) \<and> mConditionalStack s' = mConditionalStack s \<and>
    (\<forall>sh. like sh (ds_shared s') = like sh (ds_shared s)))"
proof -
  from ds_lex_stands [OF assms(1)] obtain s1 where "ds_lex tc s = Some s1" "moves s s1" "stands s1 (e # ws)"
    by (auto simp: ends_def)
  then show ?thesis
    using assms(2) by (auto simp: endConditional_def isEOD_def line_end_def reports_simps like_reports)
qed

lemma excluded_skipped:
  "excluded ts \<Longrightarrow> gives (mTokenizer s) (ts @ ws) \<Longrightarrow> skipping s \<Longrightarrow>
   \<exists>s'. directiveLoop tc st s = directiveLoop tc st s' \<and> gives (mTokenizer s') ws \<and>
     mConditionalStack s' = mConditionalStack s \<and> like (ds_shared s) (ds_shared s')"
  "excluded_groups us \<Longrightarrow> gives (mTokenizer s) (us @ ws) \<Longrightarrow> mConditionalStack s = b # blocks \<Longrightarrow> skipBlock b \<Longrightarrow>
   \<exists>s'. directiveLoop tc st s = directiveLoop tc st s' \<and> gives (mTokenizer s') ws \<and>
     mConditionalStack s' = blocks \<and> like (ds_shared s) (ds_shared s')"
proof (induction arbitrary: s ws and s ws b blocks rule: excluded_excluded_groups.inducts)
  case nothing_excluded
  then show ?case by (intro exI [of _ s]) simp
next
  case (text_excluded t ts)
  from token_step [of s t "ts @ ws" st] text_excluded obtain s1 where
    s1: "directiveLoop tc st s = directiveLoop tc st s1" "gives (mTokenizer s1) (ts @ ws)"
      "mConditionalStack s1 = mConditionalStack s" "like (ds_shared s) (ds_shared s1)" by auto
  then have "skipping s1" using text_excluded.prems(2) by (simp add: skipping_def)
  from text_excluded.IH [OF s1(2) this] show ?case using s1 like_trans by fastforce
next
  case (null_excluded h e ts)
  from null_step [of s h e "ts @ ws" st] null_excluded obtain s1 where
    s1: "directiveLoop tc st s = directiveLoop tc st s1" "gives (mTokenizer s1) (ts @ ws)"
      "mConditionalStack s1 = mConditionalStack s" "like (ds_shared s) (ds_shared s1)" by auto
  then have "skipping s1" using null_excluded.prems(2) by (simp add: skipping_def)
  from null_excluded.IH [OF s1(2) this] show ?case using s1 like_trans by fastforce
next
  case (directive_excluded h k line e ts)
  from skipped_directive_step [of s h k line e "ts @ ws" st] directive_excluded obtain s1 where
    s1: "directiveLoop tc st s = directiveLoop tc st s1" "gives (mTokenizer s1) (ts @ ws)"
      "mConditionalStack s1 = mConditionalStack s" "like (ds_shared s) (ds_shared s1)" by auto
  then have "skipping s1" using directive_excluded.prems(2) by (simp add: skipping_def)
  from directive_excluded.IH [OF s1(2) this] show ?case using s1 like_trans by fastforce
next
  case (block_excluded h k line e ts us)
  have g: "gives (mTokenizer s) (h # k # line @ e # ts @ us @ ws)" using block_excluded.prems(1) by simp
  have "\<exists>s'. directiveLoop tc st s = directiveLoop tc st s' \<and> gives (mTokenizer s') (ts @ us @ ws) \<and>
      (\<exists>b. mConditionalStack s' = b # mConditionalStack s \<and> skipBlock b) \<and> like (ds_shared s) (ds_shared s')"
  proof (rule line_step [OF g])
    show "\<not> skipping s \<or> isConditionalDirective (getDirective k)"
      using block_excluded.hyps by (auto simp: isConditionalDirective_def)
    fix s1 :: "'l directive_state"
    assume s1: "mConditionalStack s1 = mConditionalStack s" "ds_shared s1 = ds_shared s" "stands s1 (k # line @ e # ts @ us @ ws)"
    have sk: "skipping s1" using s1(1) block_excluded.prems(2) by (simp add: skipping_def)
    from EOD_gives [of s1 "k # line" e "ts @ us @ ws"] s1(3) block_excluded.hyps obtain s2 where
      s2: "skipUntilEOD tc s1 = Some s2" "stands s2 (e # ts @ us @ ws)" "mConditionalStack s2 = mConditionalStack s1"
        "\<forall>sh. like sh (ds_shared s2) = like sh (ds_shared s1)" by (auto simp: ends_def)
    have "runDirective tc st (getDirective k) s1 = parseConditionalIf tc st s1"
      using block_excluded.hyps by (auto simp: runDirective_def)
    then show "ends (runDirective tc st (getDirective k) s1) (\<lambda>s2. \<exists>us'. one_line us' \<and> stands s2 (us' @ e # ts @ us @ ws) \<and>
        (\<exists>b. mConditionalStack s2 = b # mConditionalStack s \<and> skipBlock b) \<and> like (ds_shared s) (ds_shared s2))"
      using s1 s2 sk by (auto simp: parseConditionalIf_def Let_def intro!: exI [of _ "[]"])
  qed (use block_excluded.hyps in auto)
  then obtain s1 b where s1: "directiveLoop tc st s = directiveLoop tc st s1" "gives (mTokenizer s1) (ts @ us @ ws)"
      "mConditionalStack s1 = b # mConditionalStack s" "skipBlock b" "like (ds_shared s) (ds_shared s1)" by blast
  from block_excluded.IH(1) [OF s1(2-4)] obtain s2 where
    s2: "directiveLoop tc st s1 = directiveLoop tc st s2" "gives (mTokenizer s2) (us @ ws)"
      "mConditionalStack s2 = mConditionalStack s" "like (ds_shared s1) (ds_shared s2)" by blast
  have "skipping s2" using s2(3) block_excluded.prems(2) by (simp add: skipping_def)
  from block_excluded.IH(2) [OF s2(2) this] obtain s3 where
    "directiveLoop tc st s2 = directiveLoop tc st s3" "gives (mTokenizer s3) ws"
      "mConditionalStack s3 = mConditionalStack s2" "like (ds_shared s2) (ds_shared s3)" by blast
  then show ?case
    using s1(1) s2(1,3) like_trans [OF like_trans [OF s1(5) s2(4)]] by (intro exI [of _ s3]) simp
next
  case (excluded_end ts h k e)
  have "skipping s" using excluded_end.prems by (simp add: skipping_def)
  from excluded_end.IH [OF _ this, of "h # k # e # ws"] excluded_end.prems(1) obtain s1 where
    s1: "directiveLoop tc st s = directiveLoop tc st s1" "gives (mTokenizer s1) (h # k # e # ws)"
      "mConditionalStack s1 = b # blocks" "like (ds_shared s) (ds_shared s1)" using excluded_end.prems(2) by auto
  have kt: "\<not> isEOD k" using excluded_end.hyps by (auto simp: getDirective_def isEOD_def split: if_splits)
  have "\<exists>s'. directiveLoop tc st s1 = directiveLoop tc st s' \<and> gives (mTokenizer s') ws \<and>
      mConditionalStack s' = blocks \<and> like (ds_shared s) (ds_shared s')"
  proof (rule line_step [where Q = "\<lambda>x. x = blocks"])
    show "gives (mTokenizer s1) (h # k # [] @ e # ws)" using s1(2) by simp
    show "\<not> skipping s1 \<or> isConditionalDirective (getDirective k)"
      using excluded_end.hyps by (auto simp: isConditionalDirective_def)
    fix s2 :: "'l directive_state"
    assume s2: "mConditionalStack s2 = mConditionalStack s1" "ds_shared s2 = ds_shared s1" "stands s2 (k # [] @ e # ws)"
    from endConditional_gives [of "s2\<lparr>mConditionalStack := blocks\<rparr>" k e ws] s2 excluded_end.hyps obtain s3 where
      "endConditional tc (s2\<lparr>mConditionalStack := blocks\<rparr>) = Some s3" "stands s3 (e # ws)" "mConditionalStack s3 = blocks"
      "\<forall>sh. like sh (ds_shared s3) = like sh (ds_shared s2)" by (auto simp: ends_def)
    then show "ends (runDirective tc st (getDirective k) s2) (\<lambda>s2. \<exists>us. one_line us \<and> stands s2 (us @ e # ws) \<and>
        mConditionalStack s2 = blocks \<and> like (ds_shared s) (ds_shared s2))"
      using excluded_end.hyps s1 s2 by (auto simp: runDirective_def parseEndif_def intro!: exI [of _ "[]"])
  qed (use excluded_end.hyps kt in auto)
  then show ?case using s1(1) by metis
next
  case (excluded_next ts h k line e us)
  have "skipping s" using excluded_next.prems by (simp add: skipping_def)
  from excluded_next.IH(1) [OF _ this, of "h # k # line @ e # us @ ws"] excluded_next.prems(1) obtain s1 where
    s1: "directiveLoop tc st s = directiveLoop tc st s1" "gives (mTokenizer s1) (h # k # line @ e # us @ ws)"
      "mConditionalStack s1 = b # blocks" "like (ds_shared s) (ds_shared s1)" using excluded_next.prems(2) by auto
  have "\<exists>s'. directiveLoop tc st s1 = directiveLoop tc st s' \<and> gives (mTokenizer s') (us @ ws) \<and>
      mConditionalStack s' = b # blocks \<and> like (ds_shared s) (ds_shared s')"
  proof (rule line_step [OF s1(2), where Q = "\<lambda>x. x = b # blocks"])
    show "\<not> skipping s1 \<or> isConditionalDirective (getDirective k)"
      using excluded_next.hyps by (auto simp: isConditionalDirective_def)
    fix s2 :: "'l directive_state"
    assume s2: "mConditionalStack s2 = mConditionalStack s1" "ds_shared s2 = ds_shared s1" "stands s2 (k # line @ e # us @ ws)"
    from EOD_gives [of s2 "k # line" e "us @ ws"] s2 excluded_next.hyps obtain s3 where
      "skipUntilEOD tc s2 = Some s3" "stands s3 (e # us @ ws)" "mConditionalStack s3 = mConditionalStack s2"
      "\<forall>sh. like sh (ds_shared s3) = like sh (ds_shared s2)" by (auto simp: ends_def)
    then show "ends (runDirective tc st (getDirective k) s2) (\<lambda>s2. \<exists>us'. one_line us' \<and> stands s2 (us' @ e # us @ ws) \<and>
        mConditionalStack s2 = b # blocks \<and> like (ds_shared s) (ds_shared s2))"
      using excluded_next.hyps excluded_next.prems(3) s1 s2
      by (auto simp: runDirective_def parseElse_def parseElif_def Let_def intro!: exI [of _ "[]"])
  qed (use excluded_next.hyps in auto)
  then obtain s2 where s2: "directiveLoop tc st s1 = directiveLoop tc st s2" "gives (mTokenizer s2) (us @ ws)"
      "mConditionalStack s2 = b # blocks" "like (ds_shared s) (ds_shared s2)" by blast
  from excluded_next.IH(2) [OF s2(2,3) excluded_next.prems(3)] obtain s3 where
    "directiveLoop tc st s2 = directiveLoop tc st s3" "gives (mTokenizer s3) ws"
      "mConditionalStack s3 = blocks" "like (ds_shared s2) (ds_shared s3)" by blast
  then show ?case
    using s1(1) s2(1) like_trans [OF s2(4)] by (intro exI [of _ s3]) simp
qed

section \<open>Conditions\<close>

text \<open>The tokens up to the end \<open>e\<close> of a line, and then \<open>ws\<close>.\<close>

lemma listing_line:
  "listing (tc_lex tc) ok left grows (\<lambda>l us. gives l (us @ ws) \<and> (us = [] \<or> last us = e))"
proof unfold_locales
  fix l t ts
  show "gives l (ts @ ws) \<and> (ts = [] \<or> last ts = e) \<Longrightarrow> ok l" using gives_ok by blast
  assume "gives l ((t # ts) @ ws) \<and> (t # ts = [] \<or> last (t # ts) = e)"
  then show "\<exists>l'. (\<forall>sh. tc_lex tc l sh = Some (t, l', sh)) \<and> gives l' (ts @ ws) \<and> (ts = [] \<or> last ts = e)"
    using gives_lex [of l t "ts @ ws"] by (auto split: if_splits)
qed

lemma parseExpressionIf_gives:
  assumes s: "stands s (k # ts @ e # ws)" and e: "line_end e" and c: "condition (ds_shared s) ts c" and wf: "wf_shared (ds_shared s)"
  shows "ends (parseExpressionIf tc st s) (\<lambda>(w, s'). (w \<noteq> 0) = c \<and> stands s' (e # ws) \<and>
    mConditionalStack s' = mConditionalStack s \<and> (\<forall>sh. like sh (ds_shared s') = like sh (ds_shared s)))"
proof -
  let ?sh = "ds_shared s" and ?es = "expanderSettings st True"
  let ?settings = "\<lparr>unexpectedIdentifier = PP_CONDITIONAL_UNEXPECTED_TOKEN, integerLiteralsMustFit32BitSignedRange = False\<rparr>"
  have pd: "mParseDefined ?es" by (simp add: expanderSettings_def)
  have et: "tk_type e = NEWLINE" using e by (simp add: line_end_def)
  from c obtain us ex i where u: "resolve True ?sh ts = Some us" "phrase False 1 ex (expandObjects ?sh (off ?sh) us)"
    "length (expandObjects ?sh (off ?sh) us) < 5000" "value_of ex = Some i" "c = (i \<noteq> 0)"
    and m: "newline_free_macros ?sh" "\<forall>m \<in> set (store ?sh). object_macro True m"
    unfolding condition_def by blast
  have g: "gives (mTokenizer s) ((ts @ [e]) @ ws) \<and> (ts @ [e] = [] \<or> last (ts @ [e]) = e)" using s by simp
  have p: "\<forall>m \<in> set (store ?sh). object_macro (mParseDefined ?es) m" "resolve (mParseDefined ?es) ?sh ts = Some us"
    "phrase (integerLiteralsMustFit32BitSignedRange ?settings) 1 ex (expandObjects ?sh (off ?sh) us)"
    using u m pd by simp_all
  from listing.condition_line [OF listing_line wf g p u(3) et m(1), of "maxMacroExpansionDepth st" "ds_token s" 0 True]
  obtain w x ds ts' us' where x: "parseExpression (ds_source tc st True) (ds_token s) 0 False ?settings True
      (MacroExpander (mTokenizer s) ?sh) = Some (True, e, w, True \<and> value_of ex \<noteq> None, x)"
      "\<forall>i. value_of ex = Some i \<longrightarrow> sint w = i"
    and r: "gives (mLexer x) (ts' @ ws) \<and> (ts' = [] \<or> last ts' = e)" "resolve (mParseDefined ?es) ?sh ts' = Some us'"
      "expandObjects ?sh (off ?sh) us' = []" "mShared x = ?sh\<lparr>diags := ds\<rparr>"
    by blast
  have "ts' = []"
  proof (rule ccontr)
    assume "ts' \<noteq> []"
    then have "e \<in> set us'" using resolved_end [OF r(2)] r(1) e by auto
    then obtain as bs where "us' = as @ e # bs" by (meson split_list)
    then have "expandObjects ?sh (off ?sh) us' \<noteq> []"
      using expandObjects_append [of ?sh "off ?sh" as "e # bs"] et by (simp add: macroOf_def)
    then show False using r(3) by simp
  qed
  then have "stands (ds_return e x s) (e # ws)" using r(1) by (simp add: ds_return_def)
  moreover have "(w \<noteq> 0) = c" using x(2) u(4,5) sint_eq [of w 0] by simp
  moreover have "like sh (ds_shared (ds_return e x s)) = like sh ?sh" for sh
    by (simp add: ds_return_def r(4))
  ultimately show ?thesis
    using x(1) et u(4) by (simp add: parseExpressionIf_def ds_expander_def isEOD_def) (simp add: ds_return_def)
qed

section \<open>The directives of a block\<close>

lemma parseExpressionIfdef_gives:
  assumes s: "stands s (k # n # e # ws)" and n: "tk_type n = IDENTIFIER" and e: "line_end e"
  shows "ends (parseExpressionIfdef tc s) (\<lambda>(w, s'). (w \<noteq> 0) = (macroSet (ds_shared s) (tk_text n) \<noteq> None) \<and>
    stands s' (e # ws) \<and> mConditionalStack s' = mConditionalStack s \<and> (\<forall>sh. like sh (ds_shared s') = like sh (ds_shared s)))"
proof -
  from ds_lex_stands [OF s] obtain s1 where s1: "ds_lex tc s = Some s1" "moves s s1" "stands s1 (n # e # ws)"
    by (auto simp: ends_def)
  from ds_lex_stands [OF s1(3)] obtain s2 where s2: "ds_lex tc s1 = Some s2" "moves s1 s2" "stands s2 (e # ws)"
    by (auto simp: ends_def)
  have m: "moves s s2" using reports_trans [OF s1(2) s2(2)] by simp
  show ?thesis
    using s1 s2 n e moves_shared [OF s1(2)] reports_simps(1) [OF m] like_reports [OF m]
    by (simp add: parseExpressionIfdef_def ds_type_def ds_text_def isEOD_def line_end_def)
qed

text \<open>A new block, with a first group that is taken or not.\<close>

definition new_block :: "bool \<Rightarrow> conditional_block \<Rightarrow> bool" where
  "new_block c b \<longleftrightarrow> \<not> skipBlock b \<and> \<not> foundElseGroup b \<and> foundValidGroup b = c \<and> skipGroup b = (\<not> c)"

lemma opens_block_gives:
  assumes s: "stands s (k # line @ e # ws)" and e: "line_end e" and o: "opens_block (ds_shared s) (k # line) c"
    and wf: "wf_shared (ds_shared s)" and sk: "\<not> skipping s"
  shows "ends (runDirective tc st (getDirective k) s) (\<lambda>s'. stands s' (e # ws) \<and>
    (\<exists>b. mConditionalStack s' = b # mConditionalStack s \<and> new_block c b) \<and> like (ds_shared s) (ds_shared s'))"
  using o
proof (cases rule: opens_block.cases)
  case (if_defined n)
  have d: "getDirective k = DIRECTIVE_IFDEF" using if_defined by (simp add: getDirective_def keyword_def)
  from parseExpressionIfdef_gives [of s k n e ws] s e if_defined obtain w s1 where
    "parseExpressionIfdef tc s = Some (w, s1)" "(w \<noteq> 0) = c" "stands s1 (e # ws)"
    "mConditionalStack s1 = mConditionalStack s" "\<forall>sh. like sh (ds_shared s1) = like sh (ds_shared s)"
    by (auto simp: ends_def)
  then show ?thesis
    using s sk d by (auto simp: runDirective_def parseConditionalIf_def Let_def new_block_def)
next
  case (if_not_defined n)
  have d: "getDirective k = DIRECTIVE_IFNDEF" using if_not_defined by (simp add: getDirective_def keyword_def)
  from parseExpressionIfdef_gives [of s k n e ws] s e if_not_defined obtain w s1 where
    "parseExpressionIfdef tc s = Some (w, s1)" "(w = 0) = c" "stands s1 (e # ws)"
    "mConditionalStack s1 = mConditionalStack s" "\<forall>sh. like sh (ds_shared s1) = like sh (ds_shared s)"
    by (auto simp: ends_def)
  then show ?thesis
    using s sk d by (auto simp: runDirective_def parseConditionalIf_def Let_def new_block_def)
next
  case if_condition
  have d: "getDirective k = DIRECTIVE_IF" using if_condition by (simp add: getDirective_def keyword_def)
  from ends_pair [OF parseExpressionIf_gives [OF s e if_condition(2) wf, of st]] obtain w s1 where
    "parseExpressionIf tc st s = Some (w, s1)" "(w \<noteq> 0) = c" "stands s1 (e # ws)"
    "mConditionalStack s1 = mConditionalStack s" "\<forall>sh. like sh (ds_shared s1) = like sh (ds_shared s)" by blast
  then show ?thesis
    using s sk d by (auto simp: runDirective_def parseConditionalIf_def Let_def new_block_def)
qed

lemma parseEndif_gives:
  assumes "stands s (k # e # ws)" and "line_end e" and "mConditionalStack s = b # blocks"
  shows "ends (parseEndif tc s) (\<lambda>s'. stands s' (e # ws) \<and> mConditionalStack s' = blocks \<and>
    (\<forall>sh. like sh (ds_shared s') = like sh (ds_shared s)))"
  using endConditional_gives [of "s\<lparr>mConditionalStack := blocks\<rparr>" k e ws] assms
  by (simp add: parseEndif_def)

lemma parseElse_gives:
  assumes "stands s (k # e # ws)" and "line_end e" and "mConditionalStack s = b # blocks"
    and "\<not> skipBlock b" "\<not> foundElseGroup b"
  shows "ends (parseElse tc s) (\<lambda>s'. stands s' (e # ws) \<and>
    (\<exists>b'. mConditionalStack s' = b' # blocks \<and> \<not> skipBlock b' \<and> skipGroup b' = foundValidGroup b) \<and>
    (\<forall>sh. like sh (ds_shared s') = like sh (ds_shared s)))"
proof -
  let ?b = "b\<lparr>foundElseGroup := True, skipGroup := foundValidGroup b, foundValidGroup := True\<rparr>"
  have "parseElse tc s = endConditional tc (s\<lparr>mConditionalStack := ?b # blocks\<rparr>)"
    using assms(3-5) by (simp add: parseElse_def ds_block_def)
  moreover have "stands (s\<lparr>mConditionalStack := ?b # blocks\<rparr>) (k # e # ws)" using assms(1) by simp
  ultimately show ?thesis
    using endConditional_gives [of "s\<lparr>mConditionalStack := ?b # blocks\<rparr>" k e ws] assms(2,4) by (auto elim!: ends_mono)
qed

lemma parseElif_gives:
  assumes s: "stands s (k # line @ e # ws)" and e: "line_end e" and b: "mConditionalStack s = b # blocks"
    "\<not> skipBlock b" "\<not> foundElseGroup b" "\<not> foundValidGroup b"
    and c: "condition (ds_shared s) line c" and wf: "wf_shared (ds_shared s)"
  shows "ends (parseElif tc st s) (\<lambda>s'. stands s' (e # ws) \<and>
    (\<exists>b'. mConditionalStack s' = b' # blocks \<and> new_block c b') \<and>
    (\<forall>sh. like sh (ds_shared s') = like sh (ds_shared s)))"
proof -
  from ends_pair [OF parseExpressionIf_gives [OF s e c wf, of st]] obtain w s1 where
    "parseExpressionIf tc st s = Some (w, s1)" "(w \<noteq> 0) = c" "stands s1 (e # ws)"
    "mConditionalStack s1 = mConditionalStack s" "\<forall>sh. like sh (ds_shared s1) = like sh (ds_shared s)" by blast
  then show ?thesis
    using b by (auto simp: parseElif_def ds_block_def new_block_def)
qed

lemma parseElif_after:
  assumes "stands s (k # line @ e # ws)" and e: "line_end e" and "one_line (k # line)"
    and b: "mConditionalStack s = b # blocks" "\<not> skipBlock b" "\<not> foundElseGroup b" "foundValidGroup b"
  shows "ends (parseElif tc st s) (\<lambda>s'. stands s' (e # ws) \<and>
    mConditionalStack s' = b\<lparr>skipGroup := True\<rparr> # blocks \<and> (\<forall>sh. like sh (ds_shared s') = like sh (ds_shared s)))"
proof -
  have "parseElif tc st s = skipUntilEOD tc (s\<lparr>mConditionalStack := b\<lparr>skipGroup := True\<rparr> # blocks\<rparr>)"
    using b by (simp add: parseElif_def ds_block_def)
  then show ?thesis
    using EOD_gives [of "s\<lparr>mConditionalStack := b\<lparr>skipGroup := True\<rparr> # blocks\<rparr>" "k # line" e ws] assms(1-3)
    by simp
qed

end

section \<open>Tokens one after the other\<close>

text \<open>The state from which the next call of \<open>lex\<close> starts, and the tokens of several calls.\<close>

definition next_call :: "'l directive_state \<Rightarrow> 'l directive_state" where
  "next_call s = s\<lparr>mPastFirstStatement := True, ds_token := reset_token\<rparr>"

primrec emits ::
  "'l tokenizer_class \<Rightarrow> preprocessor_settings \<Rightarrow> 'l directive_state \<Rightarrow> token list \<Rightarrow> 'l directive_state \<Rightarrow> bool" where
  "emits tc st s [] s' \<longleftrightarrow> directiveLoop tc st s = directiveLoop tc st s'"
| "emits tc st s (t # ts) s' \<longleftrightarrow>
     (\<exists>s1. directiveLoop tc st s = Some s1 \<and> ds_token s1 = t \<and> emits tc st (next_call s1) ts s')"

lemma emitted_start: "directiveLoop tc st s = directiveLoop tc st s1 \<Longrightarrow> emits tc st s1 out s' \<Longrightarrow> emits tc st s out s'"
  by (cases out) auto

lemma emitted_append: "emits tc st s out s1 \<Longrightarrow> emits tc st s1 out' s2 \<Longrightarrow> emits tc st s (out @ out') s2"
  by (induction out arbitrary: s) (auto intro: emitted_start)

definition start_call :: "'l directive_parser \<Rightarrow> shared \<Rightarrow> 'l directive_state" where
  "start_call d sh = directive_parser.extend d \<lparr>ds_token = reset_token, ds_shared = sh\<rparr>"

lemma dp_lex_call:
  "dp_lex tc st d sh = map_option (\<lambda>s. (ds_token s, directive_parser.truncate (next_call s), ds_shared s))
     (directiveLoop tc st (start_call d sh))"
  by (cases "directiveLoop tc st (start_call d sh)")
    (simp_all add: dp_lex_def start_call_def next_call_def directive_parser.defs)

lemma start_next: "start_call (directive_parser.truncate (next_call s)) (ds_shared s) = next_call s"
  by (simp add: start_call_def next_call_def directive_parser.defs)

lemma lexAll_emits:
  assumes "emits tc st (start_call d sh) out s'" and "directiveLoop tc st s' = Some s2" and "ds_type s2 = LAST"
    and "no_last out"
  shows "lexAll (dp_lex tc st) d sh = Some (out, directive_parser.truncate (next_call s2), ds_shared s2)"
  using assms
proof (induction out arbitrary: d sh)
  case Nil
  then show ?case by (subst lexAll.simps) (simp add: dp_lex_call ds_type_def)
next
  case (Cons t ts)
  then obtain s1 where s1: "directiveLoop tc st (start_call d sh) = Some s1" "ds_token s1 = t" "emits tc st (next_call s1) ts s'"
    by auto
  have "lexAll (dp_lex tc st) (directive_parser.truncate (next_call s1)) (ds_shared s1) =
      Some (ts, directive_parser.truncate (next_call s2), ds_shared s2)"
    using s1(3) Cons.prems by (intro Cons.IH) (simp_all add: start_next no_last_def)
  then show ?case
    using s1 Cons.prems(4) by (subst lexAll.simps) (simp add: dp_lex_call no_last_def)
qed

lemma opens_block_like: "opens_block sh line c \<Longrightarrow> like sh sh' \<Longrightarrow> opens_block sh' line c"
proof (induction rule: opens_block.cases)
  case (if_defined k n sh)
  then show ?thesis using opens_block.if_defined [of k n sh'] by (simp add: like_def)
next
  case (if_not_defined k n sh)
  then show ?thesis using opens_block.if_not_defined [of k n sh'] by (simp add: like_def)
next
  case (if_condition k sh ts c)
  then show ?thesis by (auto intro!: opens_block.if_condition simp: like_condition)
qed

lemma opens_block_line: "opens_block sh (k # line) c \<Longrightarrow> one_line (k # line)"
  by (auto elim!: opens_block.cases simp: keyword_def isEOD_def condition_def)

section \<open>The selected tokens\<close>

context line_source
begin

lemma token_emitted:
  assumes "gives (mTokenizer s) (t # ws)" and "tk_type t \<notin> {PP_HASH, NEWLINE, LAST}" and "\<not> skipping s"
  shows "\<exists>s'. emits tc st s [t] s' \<and> gives (mTokenizer s') ws \<and> mConditionalStack s' = mConditionalStack s \<and>
    like (ds_shared s) (ds_shared s')"
proof -
  from ds_lex_gives [OF assms(1)] obtain s1 where s1: "ds_lex tc s = Some s1" "moves s s1" "ds_token s1 = t"
    "gives (mTokenizer s1) ws" by (auto simp: ends_def)
  let ?s = "s1\<lparr>mSeenNonPreprocessorToken := True\<rparr>"
  have "\<not> skipping ?s" using reports_simps(9) [OF s1(2)] assms(3) by (simp add: skipping_def)
  then have "directiveLoop tc st s = Some ?s"
    using s1 assms(2) by (subst directiveLoop.simps) (simp add: directiveOrToken_def ds_type_def isEOD_def)
  then show ?thesis
    using s1 reports_simps(1) [OF s1(2)] like_reports [OF s1(2)]
    by (intro exI [of _ "next_call ?s"]) (simp add: next_call_def)
qed

lemma line_run:
  assumes "gives (mTokenizer s) (h # k # line @ e # ws)" and "hash_token h" and "one_line (k # line)" and "line_end e"
    and "\<not> skipping s \<or> isConditionalDirective (getDirective k)"
    and run: "\<And>s1. mConditionalStack s1 = mConditionalStack s \<Longrightarrow> ds_shared s1 = ds_shared s \<Longrightarrow>
      stands s1 (k # line @ e # ws) \<Longrightarrow>
      ends (runDirective tc st (getDirective k) s1) (\<lambda>s2. stands s2 (e # ws) \<and> Q (mConditionalStack s2) \<and> like sh (ds_shared s2))"
  shows "\<exists>s'. emits tc st s [] s' \<and> gives (mTokenizer s') ws \<and> Q (mConditionalStack s') \<and> like sh (ds_shared s')"
  unfolding emits.simps
proof (rule line_step [OF assms(1-5)])
  fix s1 assume "mConditionalStack s1 = mConditionalStack s" "ds_shared s1 = ds_shared s" "stands s1 (k # line @ e # ws)"
  from run [OF this] show "ends (runDirective tc st (getDirective k) s1) (\<lambda>s2. \<exists>us. one_line us \<and> stands s2 (us @ e # ws) \<and>
      Q (mConditionalStack s2) \<and> like sh (ds_shared s2))"
    by (rule ends_mono) (auto intro!: exI [of _ "[]"])
qed

lemma define_run:
  assumes g: "gives (mTokenizer s) (h # d # line @ e # ws)" and h: "hash_token h" and d: "keyword ''define'' d"
    and line: "one_line line" and e: "line_end e" and sk: "\<not> skipping s" and m: "definition_of line m"
    and sh: "like sh (ds_shared s)"
  shows "\<exists>s'. emits tc st s [] s' \<and> gives (mTokenizer s') ws \<and> mConditionalStack s' = mConditionalStack s \<and>
    like (macro_defined m (hd line) e sh) (ds_shared s')"
  unfolding emits.simps
proof (rule line_step [OF g h])
  have k: "getDirective d = DIRECTIVE_DEFINE" using d by (simp add: getDirective_def keyword_def)
  fix s1 assume s1: "mConditionalStack s1 = mConditionalStack s" "ds_shared s1 = ds_shared s" "stands s1 (d # line @ e # ws)"
  have eod: "isEOD e" using e by (simp add: isEOD_def line_end_def)
  from parseDefine_definition [OF s1(3) line eod m] obtain s2 us where
    s2: "parseDefine tc s1 = Some s2" "one_line us" "stands s2 (us @ e # ws)" "shares s1 (macro_defined m (hd line) e (ds_shared s1)) s2"
    unfolding ends_def by blast
  then have "mConditionalStack s2 = mConditionalStack s1" "ds_shared s2 = macro_defined m (hd line) e (ds_shared s1)"
    unfolding shares_def by (auto dest: arg_cong [of _ _ mConditionalStack] arg_cong [of _ _ ds_shared])
  then show "ends (runDirective tc st (getDirective d) s1) (\<lambda>s2. \<exists>us. one_line us \<and> stands s2 (us @ e # ws) \<and>
      mConditionalStack s2 = mConditionalStack s \<and> like (macro_defined m (hd line) e sh) (ds_shared s2))"
    using s1 s2(1-3) k like_macro_defined [OF sh] by (auto simp: runDirective_def)
qed (use d e line sk in \<open>auto simp: keyword_def isEOD_def\<close>)

lemma undef_run:
  assumes g: "gives (mTokenizer s) (h # d # n # extra @ e # ws)" and h: "hash_token h" and d: "keyword ''undef'' d"
    and line: "one_line (n # extra)" and e: "line_end e" and sk: "\<not> skipping s" and sh: "like sh (ds_shared s)"
  shows "\<exists>s'. emits tc st s [] s' \<and> gives (mTokenizer s') ws \<and> mConditionalStack s' = mConditionalStack s \<and>
    like (macro_undefined n extra sh) (ds_shared s')"
  unfolding emits.simps
proof (rule line_step)
  show "gives (mTokenizer s) (h # d # (n # extra) @ e # ws)" using g by simp
  have k: "getDirective d = DIRECTIVE_UNDEF" using d by (simp add: getDirective_def keyword_def)
  fix s1 assume s1: "mConditionalStack s1 = mConditionalStack s" "ds_shared s1 = ds_shared s" "stands s1 (d # (n # extra) @ e # ws)"
  have eod: "isEOD e" using e by (simp add: isEOD_def line_end_def)
  from parseUndef_gives [OF s1(3) [unfolded append_Cons] line eod] obtain s2 us where
    s2: "parseUndef tc s1 = Some s2" "one_line us" "stands s2 (us @ e # ws)" "shares s1 (macro_undefined n extra (ds_shared s1)) s2"
    unfolding ends_def by blast
  then have "mConditionalStack s2 = mConditionalStack s1" "ds_shared s2 = macro_undefined n extra (ds_shared s1)"
    unfolding shares_def by (auto dest: arg_cong [of _ _ mConditionalStack] arg_cong [of _ _ ds_shared])
  then show "ends (runDirective tc st (getDirective d) s1) (\<lambda>s2. \<exists>us. one_line us \<and> stands s2 (us @ e # ws) \<and>
      mConditionalStack s2 = mConditionalStack s \<and> like (macro_undefined n extra sh) (ds_shared s2))"
    using s1 s2(1-3) k like_macro_undefined [OF sh] by (auto simp: runDirective_def)
qed (use h d e line sk in \<open>auto simp: keyword_def isEOD_def\<close>)

text \<open>The directive parser behind a text: it has given the tokens and is at the rest, with these blocks.\<close>

definition ran_to ::
  "preprocessor_settings \<Rightarrow> 'l directive_state \<Rightarrow> token list \<Rightarrow> token list \<Rightarrow> conditional_block list \<Rightarrow> shared \<Rightarrow> bool" where
  "ran_to st s out ws blocks sh \<longleftrightarrow>
     (\<exists>s'. emits tc st s out s' \<and> gives (mTokenizer s') ws \<and> mConditionalStack s' = blocks \<and> like sh (ds_shared s'))"

lemma ran_toI:
  "emits tc st s out s' \<Longrightarrow> gives (mTokenizer s') ws \<Longrightarrow> mConditionalStack s' = blocks \<Longrightarrow> like sh (ds_shared s') \<Longrightarrow>
   ran_to st s out ws blocks sh"
  by (auto simp: ran_to_def)

lemma ran_to_then:
  assumes "ran_to st s out ws blocks sh"
    and "\<And>s1. gives (mTokenizer s1) ws \<Longrightarrow> mConditionalStack s1 = blocks \<Longrightarrow> like sh (ds_shared s1) \<Longrightarrow>
      ran_to st s1 out' ws' blocks' sh'"
  shows "ran_to st s (out @ out') ws' blocks' sh'"
  using assms emitted_append by (fastforce simp: ran_to_def)

lemma ran_to_first:
  assumes "\<exists>s'. emits tc st s [] s' \<and> gives (mTokenizer s') ws \<and> Q (mConditionalStack s') \<and> like sh (ds_shared s')"
    and "\<And>s1. gives (mTokenizer s1) ws \<Longrightarrow> Q (mConditionalStack s1) \<Longrightarrow> like sh (ds_shared s1) \<Longrightarrow>
      ran_to st s1 out ws' blocks sh'"
  shows "ran_to st s out ws' blocks sh'"
  using assms emitted_append [of tc st s "[]"] by (fastforce simp: ran_to_def)

lemma skipping_block: "mConditionalStack s = b # blocks \<Longrightarrow> skipping s = (skipBlock b \<or> skipGroup b)"
  by (simp add: skipping_def)

lemma excluded_runs:
  assumes "excluded ts" and "gives (mTokenizer s) (ts @ ws)" and "skipping s" and "like sh (ds_shared s)"
  shows "ran_to st s [] ws (mConditionalStack s) sh"
  using excluded_skipped(1) [OF assms(1-3), of st] assms(4) like_trans by (fastforce simp: ran_to_def)

lemma selects_runs:
  "selects sh ts out sh' \<Longrightarrow> gives (mTokenizer s) (ts @ ws) \<Longrightarrow> like sh (ds_shared s) \<Longrightarrow> wf_shared sh \<Longrightarrow> \<not> skipping s \<Longrightarrow>
   ran_to st s out ws (mConditionalStack s) sh' \<and> wf_shared sh'"
  "group sh c ts out sh' \<Longrightarrow> gives (mTokenizer s) (ts @ ws) \<Longrightarrow> like sh (ds_shared s) \<Longrightarrow> wf_shared sh \<Longrightarrow> skipping s = (\<not> c) \<Longrightarrow>
   ran_to st s out ws (mConditionalStack s) sh' \<and> wf_shared sh'"
  "groups sh c ts out sh' \<Longrightarrow> gives (mTokenizer s) (ts @ ws) \<Longrightarrow> like sh (ds_shared s) \<Longrightarrow> wf_shared sh \<Longrightarrow>
   mConditionalStack s = b # blocks \<Longrightarrow> \<not> skipBlock b \<Longrightarrow> \<not> foundElseGroup b \<Longrightarrow> foundValidGroup b = c \<Longrightarrow>
   ran_to st s out ws blocks sh' \<and> wf_shared sh'"
proof (induction arbitrary: s ws and s ws and s ws b blocks rule: selects_group_groups.inducts)
  case (nothing sh)
  then show ?case using ran_toI [of st s "[]" s] by simp
next
  case (newline t sh ts out sh')
  from token_step [of s t "ts @ ws" st] newline.prems newline.hyps obtain s1 where
    s1: "emits tc st s [] s1" "gives (mTokenizer s1) (ts @ ws)" "mConditionalStack s1 = mConditionalStack s"
      "like (ds_shared s) (ds_shared s1)" by (auto simp: line_end_def)
  then have "\<not> skipping s1" "like sh (ds_shared s1)"
    using newline.prems like_trans by (auto simp: skipping_def)
  from newline.IH [OF s1(2) this(2) newline.prems(3) this(1)] show ?case
    using s1(1,3) emitted_append [of tc st s "[]" s1] by (fastforce simp: ran_to_def)
next
  case (token t sh ts out sh')
  from token_emitted [of s t "ts @ ws" st] token.prems token.hyps obtain s1 where
    s1: "emits tc st s [t] s1" "gives (mTokenizer s1) (ts @ ws)" "mConditionalStack s1 = mConditionalStack s"
      "like (ds_shared s) (ds_shared s1)" by auto
  then have "\<not> skipping s1" "like sh (ds_shared s1)"
    using token.prems like_trans by (auto simp: skipping_def)
  from token.IH [OF s1(2) this(2) token.prems(3) this(1)] show ?case
    using s1(3) emitted_append [OF s1(1)] by (fastforce simp: ran_to_def)
next
  case (define_line h d line e m sh ts out sh')
  let ?sh = "macro_defined m (hd line) e sh"
  have g: "gives (mTokenizer s) (h # d # line @ e # ts @ ws)" using define_line.prems(1) by simp
  from define_run [OF g define_line.hyps(1-4) define_line.prems(4) define_line.hyps(5) define_line.prems(2), of st]
  obtain s1 where s1: "emits tc st s [] s1" "gives (mTokenizer s1) (ts @ ws)" "mConditionalStack s1 = mConditionalStack s"
    "like ?sh (ds_shared s1)" by blast
  have "\<not> skipping s1" using s1(3) define_line.prems(4) by (simp add: skipping_def)
  from define_line.IH [OF s1(2,4) macro_defined_wf [OF define_line.prems(3) define_line.hyps(5,3)] this] show ?case
    using s1(3) emitted_append [OF s1(1)] by (fastforce simp: ran_to_def)
next
  case (undef_line h d n extra e sh ts out sh')
  have g: "gives (mTokenizer s) (h # d # n # extra @ e # ts @ ws)" using undef_line.prems(1) by simp
  from undef_run [OF g undef_line.hyps(1-4) undef_line.prems(4,2), of st]
  obtain s1 where s1: "emits tc st s [] s1" "gives (mTokenizer s1) (ts @ ws)" "mConditionalStack s1 = mConditionalStack s"
    "like (macro_undefined n extra sh) (ds_shared s1)" by blast
  have "\<not> skipping s1" using s1(3) undef_line.prems(4) by (simp add: skipping_def)
  from undef_line.IH [OF s1(2,4) macro_undefined_wf [OF undef_line.prems(3)] this] show ?case
    using s1(3) emitted_append [OF s1(1)] by (fastforce simp: ran_to_def)
next
  case (block h sh k line c e ts out sh1 us out' sh2 vs out'' sh3)
  have g: "gives (mTokenizer s) (h # k # line @ e # ts @ us @ vs @ ws)" using block.prems(1) by simp
  have "\<exists>s'. emits tc st s [] s' \<and> gives (mTokenizer s') (ts @ us @ vs @ ws) \<and>
      (\<exists>b. mConditionalStack s' = b # mConditionalStack s \<and> new_block c b) \<and> like sh (ds_shared s')"
  proof (rule line_run [OF g block.hyps(1) opens_block_line [OF block.hyps(2)] block.hyps(3)])
    fix s1 assume s1: "mConditionalStack s1 = mConditionalStack s" "ds_shared s1 = ds_shared s"
      "stands s1 (k # line @ e # ts @ us @ vs @ ws)"
    have "\<not> skipping s1" "opens_block (ds_shared s1) (k # line) c" "wf_shared (ds_shared s1)"
      using s1 block.prems block.hyps(2) opens_block_like like_wf by (auto simp: skipping_def)
    from opens_block_gives [OF s1(3) block.hyps(3) this(2,3,1), of st]
    show "ends (runDirective tc st (getDirective k) s1) (\<lambda>s2. stands s2 (e # ts @ us @ vs @ ws) \<and>
        (\<exists>b. mConditionalStack s2 = b # mConditionalStack s \<and> new_block c b) \<and> like sh (ds_shared s2))"
      by (rule ends_mono) (use s1 block.prems(2) like_trans in auto)
  qed (use block.prems in simp)
  then obtain s1 b' where s1: "emits tc st s [] s1" "gives (mTokenizer s1) (ts @ us @ vs @ ws)"
    "mConditionalStack s1 = b' # mConditionalStack s" "new_block c b'" "like sh (ds_shared s1)" by blast
  have b': "\<not> skipBlock b'" "\<not> foundElseGroup b'" "foundValidGroup b' = c" "skipping s1 = (\<not> c)"
    using s1(4) skipping_block [OF s1(3)] by (auto simp: new_block_def)
  from block.IH(1) [OF s1(2,5) block.prems(3) b'(4)] obtain s2 where
    s2: "emits tc st s1 out s2" "gives (mTokenizer s2) (us @ vs @ ws)" "mConditionalStack s2 = b' # mConditionalStack s"
      "like sh1 (ds_shared s2)" "wf_shared sh1" using s1(3) by (auto simp: ran_to_def)
  from block.IH(2) [OF s2(2,4,5,3) b'(1-3)] obtain s3 where
    s3: "emits tc st s2 out' s3" "gives (mTokenizer s3) (vs @ ws)" "mConditionalStack s3 = mConditionalStack s"
      "like sh2 (ds_shared s3)" "wf_shared sh2" by (auto simp: ran_to_def)
  have "\<not> skipping s3" using s3(3) block.prems(4) by (simp add: skipping_def)
  from block.IH(3) [OF s3(2,4,5) this] obtain s4 where
    s4: "emits tc st s3 out'' s4" "gives (mTokenizer s4) ws" "mConditionalStack s4 = mConditionalStack s"
      "like sh3 (ds_shared s4)" "wf_shared sh3" using s3(3) by (auto simp: ran_to_def)
  have "emits tc st s ([] @ out @ out' @ out'') s4"
    by (intro emitted_append [OF s1(1)] emitted_append [OF s2(1)] emitted_append [OF s3(1)] s4(1))
  then show ?case using s4 by (auto intro: ran_toI)
next
  case (taken sh ts out sh')
  then show ?case by simp
next
  case (left_out ts sh)
  then show ?case using excluded_runs by simp
next
  case (end_block h k e sh c)
  have k: "getDirective k = DIRECTIVE_ENDIF" "one_line [k]"
    using end_block.hyps by (simp_all add: getDirective_def keyword_def isEOD_def)
  have "\<exists>s'. emits tc st s [] s' \<and> gives (mTokenizer s') ws \<and> mConditionalStack s' = blocks \<and> like sh (ds_shared s')"
  proof (rule line_run [OF _ end_block.hyps(1) k(2) end_block.hyps(3)])
    show "gives (mTokenizer s) (h # k # [] @ e # ws)" using end_block.prems(1) by simp
    fix s1 assume s1: "mConditionalStack s1 = mConditionalStack s" "ds_shared s1 = ds_shared s" "stands s1 (k # [] @ e # ws)"
    from parseEndif_gives [OF s1(3) [unfolded append_Nil] end_block.hyps(3), of b blocks]
    show "ends (runDirective tc st (getDirective k) s1) (\<lambda>s2. stands s2 (e # ws) \<and> mConditionalStack s2 = blocks \<and>
        like sh (ds_shared s2))"
      using s1 end_block.prems k(1) by (auto simp: runDirective_def elim!: ends_mono)
  qed (use k(1) in \<open>simp add: isConditionalDirective_def\<close>)
  then show ?case using end_block.prems(3) by (auto simp: ran_to_def)
next
  case (last_group h k e sh c ts out sh' h' k' e')
  have k: "getDirective k = DIRECTIVE_ELSE" "one_line [k]" "getDirective k' = DIRECTIVE_ENDIF" "one_line [k']"
    using last_group.hyps by (simp_all add: getDirective_def keyword_def isEOD_def)
  have "\<exists>s'. emits tc st s [] s' \<and> gives (mTokenizer s') (ts @ h' # k' # [] @ e' # ws) \<and>
      (\<exists>b'. mConditionalStack s' = b' # blocks \<and> \<not> skipBlock b' \<and> skipGroup b' = c) \<and> like sh (ds_shared s')"
  proof (rule line_run [OF _ last_group.hyps(1) k(2) last_group.hyps(3)])
    show "gives (mTokenizer s) (h # k # [] @ e # ts @ h' # k' # [] @ e' # ws)" using last_group.prems(1) by simp
    fix s1 assume s1: "mConditionalStack s1 = mConditionalStack s" "ds_shared s1 = ds_shared s"
      "stands s1 (k # [] @ e # ts @ h' # k' # [] @ e' # ws)"
    from parseElse_gives [OF s1(3) [unfolded append_Nil] last_group.hyps(3), of b blocks]
    show "ends (runDirective tc st (getDirective k) s1) (\<lambda>s2. stands s2 (e # ts @ h' # k' # [] @ e' # ws) \<and>
        (\<exists>b'. mConditionalStack s2 = b' # blocks \<and> \<not> skipBlock b' \<and> skipGroup b' = c) \<and> like sh (ds_shared s2))"
      using s1 last_group.prems k(1) by (auto simp: runDirective_def elim!: ends_mono)
  qed (use k(1) in \<open>simp add: isConditionalDirective_def\<close>)
  then obtain s1 b' where s1: "emits tc st s [] s1" "gives (mTokenizer s1) (ts @ h' # k' # [] @ e' # ws)"
    "mConditionalStack s1 = b' # blocks" "\<not> skipBlock b'" "skipGroup b' = c" "like sh (ds_shared s1)" by blast
  have "skipping s1 = (\<not> \<not> c)" using skipping_block [OF s1(3)] s1(4,5) by simp
  from last_group.IH [OF s1(2,6) last_group.prems(3) this] obtain s2 where
    s2: "emits tc st s1 out s2" "gives (mTokenizer s2) (h' # k' # [] @ e' # ws)" "mConditionalStack s2 = b' # blocks"
      "like sh' (ds_shared s2)" "wf_shared sh'" using s1(3) by (auto simp: ran_to_def)
  have "\<exists>s'. emits tc st s2 [] s' \<and> gives (mTokenizer s') ws \<and> mConditionalStack s' = blocks \<and> like sh' (ds_shared s')"
  proof (rule line_run [OF s2(2) last_group.hyps(5) k(4) last_group.hyps(7)])
    fix s3 assume s3: "mConditionalStack s3 = mConditionalStack s2" "ds_shared s3 = ds_shared s2" "stands s3 (k' # [] @ e' # ws)"
    from parseEndif_gives [OF s3(3) [unfolded append_Nil] last_group.hyps(7), of b' blocks]
    show "ends (runDirective tc st (getDirective k') s3) (\<lambda>s2. stands s2 (e' # ws) \<and> mConditionalStack s2 = blocks \<and>
        like sh' (ds_shared s2))"
      using s3 s2 k(3) by (auto simp: runDirective_def elim!: ends_mono)
  qed (use k(3) in \<open>simp add: isConditionalDirective_def\<close>)
  then obtain s3 where s3: "emits tc st s2 [] s3" "gives (mTokenizer s3) ws" "mConditionalStack s3 = blocks" "like sh' (ds_shared s3)"
    by blast
  have "emits tc st s ([] @ out @ []) s3"
    by (intro emitted_append [OF s1(1)] emitted_append [OF s2(1)] s3(1))
  then show ?case using s2(5) s3 by (auto intro: ran_toI)
next
  case (next_group h k sh line c e ts out sh1 us out' sh2)
  have k: "getDirective k = DIRECTIVE_ELIF" "one_line (k # line)"
    using next_group.hyps by (simp_all add: getDirective_def keyword_def isEOD_def condition_def)
  have g: "gives (mTokenizer s) (h # k # line @ e # ts @ us @ ws)" using next_group.prems(1) by simp
  have "\<exists>s'. emits tc st s [] s' \<and> gives (mTokenizer s') (ts @ us @ ws) \<and>
      (\<exists>b'. mConditionalStack s' = b' # blocks \<and> new_block c b') \<and> like sh (ds_shared s')"
  proof (rule line_run [OF g next_group.hyps(1) k(2) next_group.hyps(4)])
    fix s1 assume s1: "mConditionalStack s1 = mConditionalStack s" "ds_shared s1 = ds_shared s" "stands s1 (k # line @ e # ts @ us @ ws)"
    have "condition (ds_shared s1) line c" "wf_shared (ds_shared s1)" "mConditionalStack s1 = b # blocks" "\<not> foundValidGroup b"
      using s1 next_group.prems next_group.hyps(3) like_condition like_wf by auto
    from parseElif_gives [OF s1(3) next_group.hyps(4) this(3) next_group.prems(5,6) this(4,1,2), of st]
    show "ends (runDirective tc st (getDirective k) s1) (\<lambda>s2. stands s2 (e # ts @ us @ ws) \<and>
        (\<exists>b'. mConditionalStack s2 = b' # blocks \<and> new_block c b') \<and> like sh (ds_shared s2))"
      using s1(2) next_group.prems(2) k(1) by (auto simp: runDirective_def elim!: ends_mono)
  qed (use k(1) in \<open>simp add: isConditionalDirective_def\<close>)
  then obtain s1 b' where s1: "emits tc st s [] s1" "gives (mTokenizer s1) (ts @ us @ ws)"
    "mConditionalStack s1 = b' # blocks" "new_block c b'" "like sh (ds_shared s1)" by blast
  have b': "\<not> skipBlock b'" "\<not> foundElseGroup b'" "foundValidGroup b' = c" "skipping s1 = (\<not> c)"
    using s1(4) skipping_block [OF s1(3)] by (auto simp: new_block_def)
  from next_group.IH(1) [OF s1(2,5) next_group.prems(3) b'(4)] obtain s2 where
    s2: "emits tc st s1 out s2" "gives (mTokenizer s2) (us @ ws)" "mConditionalStack s2 = b' # blocks"
      "like sh1 (ds_shared s2)" "wf_shared sh1" using s1(3) by (auto simp: ran_to_def)
  from next_group.IH(2) [OF s2(2,4,5,3) b'(1-3)] obtain s3 where
    s3: "emits tc st s2 out' s3" "gives (mTokenizer s3) ws" "mConditionalStack s3 = blocks"
      "like sh2 (ds_shared s3)" "wf_shared sh2" by (auto simp: ran_to_def)
  have "emits tc st s ([] @ out @ out') s3"
    by (intro emitted_append [OF s1(1)] emitted_append [OF s2(1)] s3(1))
  then show ?case using s3 by (auto intro: ran_toI)
next
  case (after_group h k line e ts sh us out sh')
  have k: "getDirective k = DIRECTIVE_ELIF" "one_line (k # line)"
    using after_group.hyps by (simp_all add: getDirective_def keyword_def isEOD_def)
  have g: "gives (mTokenizer s) (h # k # line @ e # ts @ us @ ws)" using after_group.prems(1) by simp
  let ?b = "b\<lparr>skipGroup := True\<rparr>"
  have "\<exists>s'. emits tc st s [] s' \<and> gives (mTokenizer s') (ts @ us @ ws) \<and> mConditionalStack s' = ?b # blocks \<and>
      like sh (ds_shared s')"
  proof (rule line_run [OF g after_group.hyps(1) k(2) after_group.hyps(4)])
    fix s1 assume s1: "mConditionalStack s1 = mConditionalStack s" "ds_shared s1 = ds_shared s" "stands s1 (k # line @ e # ts @ us @ ws)"
    from parseElif_after [OF s1(3) after_group.hyps(4) k(2), of b blocks st]
    show "ends (runDirective tc st (getDirective k) s1) (\<lambda>s2. stands s2 (e # ts @ us @ ws) \<and>
        mConditionalStack s2 = ?b # blocks \<and> like sh (ds_shared s2))"
      using s1 after_group.prems k(1) by (auto simp: runDirective_def elim!: ends_mono)
  qed (use k(1) in \<open>simp add: isConditionalDirective_def\<close>)
  then obtain s1 where s1: "emits tc st s [] s1" "gives (mTokenizer s1) (ts @ us @ ws)"
    "mConditionalStack s1 = ?b # blocks" "like sh (ds_shared s1)" by blast
  have "skipping s1" using skipping_block [OF s1(3)] by simp
  from excluded_runs [OF after_group.hyps(5) s1(2) this s1(4), of st] obtain s2 where
    s2: "emits tc st s1 [] s2" "gives (mTokenizer s2) (us @ ws)" "mConditionalStack s2 = ?b # blocks" "like sh (ds_shared s2)"
    using s1(3) by (auto simp: ran_to_def)
  have "\<not> skipBlock ?b" "\<not> foundElseGroup ?b" "foundValidGroup ?b = True" using after_group.prems by simp_all
  from after_group.IH [OF s2(2,4) after_group.prems(3) s2(3) this] obtain s3 where
    s3: "emits tc st s2 out s3" "gives (mTokenizer s3) ws" "mConditionalStack s3 = blocks"
      "like sh' (ds_shared s3)" "wf_shared sh'" by (auto simp: ran_to_def)
  have "emits tc st s ([] @ [] @ out) s3"
    by (intro emitted_append [OF s1(1)] emitted_append [OF s2(1)] s3(1))
  then show ?case using s3 by (auto intro: ran_toI)
qed

end

section \<open>The end of the text\<close>

lemma selects_no_last:
  "selects sh ts out sh' \<Longrightarrow> no_last out" "group sh c ts out sh' \<Longrightarrow> no_last out" "groups sh c ts out sh' \<Longrightarrow> no_last out"
  by (induction rule: selects_group_groups.inducts) (auto simp: no_last_def)

context line_source
begin

lemma text_selected:
  assumes g: "gives (mTokenizer d) (ts @ e # ws)" and e: "tk_type e = LAST" and blocks: "mConditionalStack d = []"
    and wf: "wf_shared sh" and sel: "selects sh ts out sh'"
  shows "\<exists>d' sh''. lexAll (dp_lex tc st) d sh = Some (out, d', sh'') \<and> mConditionalStack d' = [] \<and> like sh' sh''"
proof -
  let ?s = "start_call d sh"
  have s: "mTokenizer ?s = mTokenizer d" "mConditionalStack ?s = []" "ds_shared ?s = sh"
    using blocks by (simp_all add: start_call_def directive_parser.defs)
  have "ran_to st ?s out (e # ws) [] sh'"
    using selects_runs(1) [OF sel, of ?s "e # ws" st] g wf s by (simp add: skipping_def)
  then obtain s1 where s1: "emits tc st ?s out s1" "gives (mTokenizer s1) (e # ws)" "mConditionalStack s1 = []"
    "like sh' (ds_shared s1)" unfolding ran_to_def by blast
  from ds_lex_gives [OF s1(2)] obtain s2 where s2: "ds_lex tc s1 = Some s2" "moves s1 s2" "ds_token s2 = e"
    by (auto simp: ends_def)
  have s2': "mConditionalStack s2 = []" "like sh' (ds_shared s2)"
    using s1(3,4) reports_simps(1) [OF s2(2)] moves_shared [OF s2(2)] by simp_all
  have "directiveLoop tc st s1 = Some s2"
    using s2(1,3) s2'(1) e
    by (subst directiveLoop.simps) (simp add: directiveOrToken_def ds_type_def isEOD_def reportUnterminated_def)
  from lexAll_emits [OF s1(1) this _ selects_no_last(1) [OF sel]] show ?thesis
    using s2(3) s2' e by (simp add: ds_type_def next_call_def)
qed

end

section \<open>Properties\<close>

text \<open>
  C32. Conditional groups select as the language says. When a text, with its definitions, conditions and nested
  blocks, stands for certain tokens by the reference, reading it through the directive parser up to the end
  gives exactly these tokens, leaves exactly the macros that the selected lines define, and closes all
  blocks. Groups that are not taken may hold any tokens and directives; they have no effect, but their nested
  blocks are matched.
\<close>

theorem conditional_groups_select:
  assumes "line_source tc ok left grows gives" and "gives (mTokenizer d) (ts @ e # ws)" and "tk_type e = LAST"
    and "mConditionalStack d = []" and "wf_shared sh" and "selects sh ts out sh'"
  shows "\<exists>d' sh''. lexAll (dp_lex tc st) d sh = Some (out, d', sh'') \<and> mConditionalStack d' = [] \<and>
    store sh'' = store sh' \<and> macroSet sh'' = macroSet sh'"
  using line_source.text_selected [OF assms, of st] by (simp add: like_def)

text \<open>
  The text
    \<open>#define A / #ifdef B / y / #nonsense / #elif defined A / x / #else / z / #endif / w\<close>,
  which stands for \<open>x w\<close>.
\<close>

definition selection_text :: "token list" where
  "selection_text =
     (let h = char_token PP_HASH; e = char_token NEWLINE
      in [h, ident_token ''define'', ident_token ''A'', e,
          h, ident_token ''ifdef'', ident_token ''B'', e, ident_token ''y'', e, h, ident_token ''nonsense'', e,
          h, ident_token ''elif'', ident_token ''defined'', ident_token ''A'', e, ident_token ''x'', e,
          h, ident_token ''else'', e, ident_token ''z'', e, h, ident_token ''endif'', e, ident_token ''w''])"

definition no_macros :: shared where
  "no_macros = \<lparr>store = [], macroSet = Map.empty, diags = []\<rparr>"

definition macro_A :: shared where
  "macro_A = \<lparr>store = [Macro\<lparr>mc_name := ''A''\<rparr>], macroSet = [''A'' \<mapsto> 0], diags = []\<rparr>"

lemma selection_tokens:
  "hash_token (char_token PP_HASH)" "line_end (char_token NEWLINE)" "keyword w (ident_token w)"
  "tk_type (ident_token w) = IDENTIFIER" "tk_text (ident_token w) = w" "\<not> isEOD (ident_token w)"
  "tk_type (char_token c) = c"
  by (simp_all add: hash_token_def line_end_def keyword_def ident_token_def char_token_def isEOD_def)

lemma selection_condition: "condition macro_A [ident_token ''defined'', ident_token ''A''] True"
proof -
  have "resolve True macro_A [ident_token ''defined'', ident_token ''A''] = Some [int_token ''1'']"
    by (simp add: resolve_def is_defined_def defined_value_def ident_token_def int_token_def macro_A_def reset_token_def)
  moreover have "expandObjects macro_A (off macro_A) [int_token ''1''] = [int_token ''1'']"
    by (simp add: macroOf_def int_token_def)
  moreover have "phrase False 1 (Literal 1) [int_token ''1'']" by (intro literal_token) simp
  moreover have "newline_free_macros macro_A" "\<forall>m \<in> set (store macro_A). object_macro True m"
    by (simp_all add: macro_A_def newline_free_macros_def newline_free_def object_macro_def Macro_def)
  ultimately show ?thesis
    unfolding condition_def by (auto simp: selection_tokens wrap_def intro!: exI [of _ "Literal 1"])
qed

lemma selection_selects: "selects no_macros selection_text [ident_token ''x'', ident_token ''w''] macro_A"
proof -
  let ?h = "char_token PP_HASH" and ?e = "char_token NEWLINE" and ?i = ident_token
  have w: "selects macro_A [?i ''w''] [?i ''w''] macro_A"
    by (intro token) (simp_all add: selection_tokens selects_group_groups.nothing)
  have x: "group macro_A True [?i ''x'', ?e] [?i ''x''] macro_A"
    by (intro taken token newline) (simp_all add: selection_tokens selects_group_groups.nothing)
  have one: "excluded [?i v, ?e]" for v
    by (intro text_excluded) (simp_all add: selection_tokens nothing_excluded)
  have "group macro_A False [?i ''z'', ?e] [] macro_A"
    by (rule left_out [OF one])
  then have z: "groups macro_A True ([?h, ?i ''else'', ?e] @ [?i ''z'', ?e] @ [?h, ?i ''endif'', ?e]) [] macro_A"
    using last_group [of ?h "?i ''else''" ?e macro_A True "[?i ''z'', ?e]" "[]" macro_A ?h "?i ''endif''" ?e]
    by (simp add: selection_tokens)
  have elif: "groups macro_A False (?h # ?i ''elif'' # [?i ''defined'', ?i ''A''] @ ?e # [?i ''x'', ?e] @
      [?h, ?i ''else'', ?e] @ [?i ''z'', ?e] @ [?h, ?i ''endif'', ?e]) ([?i ''x''] @ []) macro_A"
    by (rule next_group [OF _ _ selection_condition _ x z]) (simp_all add: selection_tokens)
  have "excluded (?h # ?i ''nonsense'' # [] @ ?e # [])"
    by (rule directive_excluded) (simp_all add: selection_tokens isConditionalDirective_def getDirective_def nothing_excluded)
  then have y: "group macro_A False [?i ''y'', ?e, ?h, ?i ''nonsense'', ?e] [] macro_A"
    by (intro left_out text_excluded [of "?i ''y''"] text_excluded [of ?e]) (simp_all add: selection_tokens)
  have "opens_block macro_A (?i ''ifdef'' # [?i ''B'']) False"
    using if_defined [of "?i ''ifdef''" "?i ''B''" macro_A] by (simp add: selection_tokens macro_A_def)
  from block [OF selection_tokens(1) this selection_tokens(2) y elif w]
  have rest_of_text: "selects macro_A (?h # ?i ''ifdef'' # [?i ''B''] @ ?e # [?i ''y'', ?e, ?h, ?i ''nonsense'', ?e] @
      (?h # ?i ''elif'' # [?i ''defined'', ?i ''A''] @ ?e # [?i ''x'', ?e] @
      [?h, ?i ''else'', ?e] @ [?i ''z'', ?e] @ [?h, ?i ''endif'', ?e]) @ [?i ''w'']) [?i ''x'', ?i ''w''] macro_A"
    by simp
  have "definition_of [?i ''A''] (Macro\<lparr>mc_name := ''A''\<rparr>)"
    by (simp add: definition_of_def macro_header_def opens_parameters_def selection_tokens Macro_def)
  moreover have "macro_defined (Macro\<lparr>mc_name := ''A''\<rparr>) (hd [?i ''A'']) ?e no_macros = macro_A"
    by (simp add: macro_defined_def isMacroPredefined_def isMacroNameReserved_def no_macros_def macro_A_def selection_tokens)
  ultimately show ?thesis
    using define_line [of ?h "?i ''define''" "[?i ''A'']" ?e "Macro\<lparr>mc_name := ''A''\<rparr>" no_macros] rest_of_text
    by (simp add: selection_text_def Let_def selection_tokens)
qed

theorem conditional_groups_select_witness:
  "\<exists>d' sh''. lexAll (dp_lex TokenListClass (PreprocessorSettings SH_GLES3_SPEC)) (DirectiveParser selection_text) no_macros =
     Some ([ident_token ''x'', ident_token ''w''], d', sh'') \<and> mConditionalStack d' = [] \<and> macroSet sh'' = [''A'' \<mapsto> 0]"
proof -
  have "no_last selection_text"
    by (simp add: selection_text_def Let_def no_last_def ident_token_def char_token_def)
  then have "gives_list selection_text (selection_text @ reset_token # [])"
    by (auto simp: gives_list_def intro: exI [of _ 1])
  moreover have "wf_shared no_macros" by (simp add: no_macros_def wf_shared_def)
  ultimately show ?thesis
    using conditional_groups_select [OF token_lines.line_source_axioms _ _ _ _ selection_selects,
        of "DirectiveParser selection_text" reset_token "[]" "PreprocessorSettings SH_GLES3_SPEC"]
    by (auto simp: DirectiveParser_def macro_A_def reset_token_def)
qed

section \<open>Excluded text counts\<close>

text \<open>
  The flag for tokens that are not the preprocessor's is also set for tokens of groups that are left out: an
  \<open>#extension\<close> behind them is an error, although the shader has no token before it.
\<close>

definition skipped_then_extension :: "token list" where
  "skipped_then_extension =
     [char_token PP_HASH, ident_token ''ifdef'', ident_token ''A'', char_token NEWLINE,
      ident_token ''x'', char_token NEWLINE,
      char_token PP_HASH, ident_token ''endif'', char_token NEWLINE,
      char_token PP_HASH, ident_token ''extension'', ident_token ''GL_e'', char_token COLON, ident_token ''enable'',
      char_token NEWLINE]"

lemma skipped_text_blocks_extension:
  "\<exists>d sh. dp_lex TokenListClass (PreprocessorSettings SH_GLES3_SPEC) (DirectiveParser skipped_then_extension) no_macros =
       Some (reset_token, d, sh) \<and>
     map fst (diags sh) = [PP_NON_PP_TOKEN_BEFORE_EXTENSION_ESSL] \<and> mDirectiveHandler d = []"
  by (simp add: dp_lex_def skipped_then_extension_def no_macros_def directive_parser.defs DirectiveParser_def
     directiveLoop.simps directiveOrToken_def ds_lex_def char_token_def ident_token_def reset_token_def
     ds_type_def ds_text_def parseDirective_def isEOD_def getDirective_def skipping_def isConditionalDirective_def
     runDirective_def parseConditionalIf_def parseExpressionIfdef_def skipUntilEOD.simps parseEndif_def endConditional_def
     parseExtension_def extensionLoop.simps extensionStep_def ds_report_def ds_report_text_def report_def
     PreprocessorSettings_def reportUnterminated_def)

end
