(* ===== verification/Pp_Preprocessor.thy ===== *)
theory Pp_Preprocessor
  imports Pp_Directives_Ends
begin

text \<open>
  \<open>Preprocessor\<close> (src/src/compiler/preprocessor/Preprocessor.{h,cpp}): the whole chain, a macro expander on
  the directive parser on the tokenizer, with the macros that are defined from the start.
\<close>

section \<open>State and operations\<close>

type_synonym preprocessor = "tokenizer directive_parser expander"

definition Preprocessor :: preprocessor where
  "Preprocessor =
     MacroExpander (DirectiveParser (Tokenizer [])) \<lparr>store = [], macroSet = Map.empty, diags = []\<rparr>"

definition predefineMacro :: "string \<Rightarrow> int \<Rightarrow> preprocessor \<Rightarrow> preprocessor" where
  "predefineMacro name value p = p\<lparr>mShared := PredefineMacro name value (mShared p)\<rparr>"

definition pp_tokenizer :: "(tokenizer \<Rightarrow> tokenizer) \<Rightarrow> preprocessor \<Rightarrow> preprocessor" where
  "pp_tokenizer f p = p\<lparr>mLexer := (mLexer p)\<lparr>mTokenizer := f (mTokenizer (mLexer p))\<rparr>\<rparr>"

definition pp_init :: "(string \<times> char) list \<Rightarrow> preprocessor \<Rightarrow> preprocessor" where
  "pp_init strings p =
     pp_tokenizer (\<lambda>t. (Tokenizer strings)\<lparr>mMaxTokenSize := mMaxTokenSize t\<rparr>)
       (predefineMacro ''GL_ES'' 1 (predefineMacro ''__VERSION__'' 100
         (predefineMacro ''__FILE__'' 0 (predefineMacro ''__LINE__'' 0 p))))"

definition pp_setMaxTokenSize :: "nat \<Rightarrow> preprocessor \<Rightarrow> preprocessor" where
  "pp_setMaxTokenSize n = pp_tokenizer (setMaxTokenSize n)"

partial_function (option) pp_lex :: "preprocessor_settings \<Rightarrow> preprocessor \<Rightarrow> (token \<times> preprocessor) option" where
  "pp_lex st p = do {
     (t, p) \<leftarrow> x_lex (dp_lex TokenizerClass st) (expanderSettings st False) (maxMacroExpansionDepth st) p;
     if tk_type t = PP_HASH then pp_lex st p
     else if tk_type t = PP_NUMBER then pp_lex st (x_report PP_INVALID_NUMBER (tk_location t) (tk_text t) p)
     else if tk_type t = PP_OTHER then pp_lex st (x_report PP_INVALID_CHARACTER (tk_location t) (tk_text t) p)
     else Some (t, p) }"

text \<open>The tokens the parser of the compiler gets, up to the end of the text.\<close>

partial_function (option) pp_tokens :: "preprocessor_settings \<Rightarrow> preprocessor \<Rightarrow> (token list \<times> preprocessor) option" where
  "pp_tokens st p = do {
     (t, p) \<leftarrow> pp_lex st p;
     if tk_type t = LAST then Some ([], p) else do { (ts, p) \<leftarrow> pp_tokens st p; Some (t # ts, p) } }"

section \<open>The invariant\<close>

definition pp_ok :: "preprocessor \<Rightarrow> bool" where
  "pp_ok p \<longleftrightarrow> (\<exists>sh. x_inv sh p) \<and> dp_ok tz_ok (mLexer p) \<and> \<not> mDeferReenablingMacros p"

lemma pp_ok_report [simp]: "pp_ok (x_report d l t p) = pp_ok p"
proof -
  have "x_inv sh (x_report d l t p) = x_inv sh p" for sh
    by (simp add: x_report_def x_inv_def base_inv_def held_inv_def stack_inv_def held_def)
  then show ?thesis by (simp add: pp_ok_def)
qed

lemma fresh_ok:
  assumes "wf_shared sh" and "dp_ok tz_ok d"
  shows "pp_ok (MacroExpander d sh)"
  using MacroExpander_inv [OF assms(1), of d] assms(2) by (auto simp: pp_ok_def)

lemma predefine_fresh: "predefineMacro n v (MacroExpander d sh) = MacroExpander d (PredefineMacro n v sh)"
  by (simp add: predefineMacro_def MacroExpander_def)

lemma pp_tokenizer_fresh:
  "pp_tokenizer f (MacroExpander d sh) = MacroExpander (d\<lparr>mTokenizer := f (mTokenizer d)\<rparr>) sh"
  by (simp add: pp_tokenizer_def MacroExpander_def)

definition initial_shared :: shared where
  "initial_shared = PredefineMacro ''GL_ES'' 1 (PredefineMacro ''__VERSION__'' 100
     (PredefineMacro ''__FILE__'' 0 (PredefineMacro ''__LINE__'' 0 \<lparr>store = [], macroSet = Map.empty, diags = []\<rparr>)))"

lemma pp_init_eq:
  "pp_init strings Preprocessor = MacroExpander (DirectiveParser (Tokenizer strings)) initial_shared"
  by (simp add: pp_init_def Preprocessor_def predefine_fresh pp_tokenizer_fresh initial_shared_def)
    (simp add: DirectiveParser_def Tokenizer_def)

lemma wf_initial_shared: "wf_shared initial_shared"
  unfolding initial_shared_def by (intro wf_PredefineMacro) (simp add: wf_shared_def)

lemma started_ok:
  assumes "scannable strings"
  shows "pp_ok (fold (\<lambda>(n, v). predefineMacro n v) macros (pp_init strings Preprocessor))"
proof -
  let ?d = "DirectiveParser (Tokenizer strings)"
  have d: "dp_ok tz_ok ?d"
    using tz_ok_Tokenizer(1) [OF assms] by (simp add: dp_ok_def DirectiveParser_def)
  have "\<exists>sh'. fold (\<lambda>(n, v). predefineMacro n v) macros (MacroExpander ?d sh) = MacroExpander ?d sh' \<and> wf_shared sh'"
    if "wf_shared sh" for sh
    using that by (induction macros arbitrary: sh) (auto simp: predefine_fresh wf_PredefineMacro)
  from this [OF wf_initial_shared] show ?thesis
    using fresh_ok [OF _ d] by (auto simp: pp_init_eq)
qed

lemma x_inv_lexer [simp]: "x_inv sh (x\<lparr>mLexer := l\<rparr>) = x_inv sh x"
  by (simp add: x_inv_def base_inv_def held_inv_def stack_inv_def held_def)

lemma setMaxTokenSize_ok: "pp_ok p \<Longrightarrow> pp_ok (pp_setMaxTokenSize n p)"
  by (simp add: pp_ok_def pp_setMaxTokenSize_def pp_tokenizer_def setMaxTokenSize_def dp_ok_def tz_ok_def tz_left_def)

section \<open>It ends\<close>

abbreviation (input) pp_before :: "preprocessor \<Rightarrow> preprocessor \<Rightarrow> bool" where
  "pp_before \<equiv> pipeline.directives.before"

lemma pp_step:
  assumes "pp_ok p"
  shows "\<exists>t p'. x_lex (dp_lex TokenizerClass st) es depth p = Some (t, p') \<and> pp_ok p' \<and>
    (tk_type t \<noteq> LAST \<longrightarrow> pp_before p' p)"
  using assms pipeline.directives.x_lex_ok [of _ p st es depth] unfolding pp_ok_def by blast

lemma pp_before_trans: "pp_before a b \<Longrightarrow> pp_before b c \<Longrightarrow> pp_before a c"
  by (auto simp: pipeline.directives.before_def)

lemma pp_lex_ok:
  assumes "pp_ok p"
  shows "\<exists>t p'. pp_lex st p = Some (t, p') \<and> pp_ok p' \<and> tk_type t \<notin> {PP_HASH, PP_NUMBER, PP_OTHER} \<and>
    (tk_type t \<noteq> LAST \<longrightarrow> pp_before p' p)"
  using pipeline.directives.wfp_before assms
proof (induction p rule: wfp_induct_rule)
  case (less p)
  obtain t q where q: "x_lex (dp_lex TokenizerClass st) (expanderSettings st False) (maxMacroExpansionDepth st) p = Some (t, q)"
    "pp_ok q" "tk_type t \<noteq> LAST \<longrightarrow> pp_before q p"
    using pp_step [OF less.prems] by blast
  have again: "\<exists>t p'. pp_lex st r = Some (t, p') \<and> pp_ok p' \<and> tk_type t \<notin> {PP_HASH, PP_NUMBER, PP_OTHER} \<and>
      (tk_type t \<noteq> LAST \<longrightarrow> pp_before p' p)" if "pp_ok r" "pp_before r p" for r
    using less.IH [OF that(2,1)] pp_before_trans that(2) by blast
  have report: "pp_before (x_report d l s q) p = pp_before q p" for d l s
    by (simp add: pipeline.directives.before_def)
  show ?case
  proof (cases "tk_type t \<in> {PP_HASH, PP_NUMBER, PP_OTHER}")
    case True
    then have "pp_before q p" using q(3) by auto
    then show ?thesis
      using True q(1,2) again [of q] again [of "x_report _ _ _ q"] report by (subst pp_lex.simps) auto
  next
    case False
    then show ?thesis using q by (subst pp_lex.simps) auto
  qed
qed

lemma pp_tokens_ok:
  assumes "pp_ok p"
  shows "\<exists>ts p'. pp_tokens st p = Some (ts, p') \<and> pp_ok p' \<and>
    (\<forall>t \<in> set ts. tk_type t \<notin> {LAST, PP_HASH, PP_NUMBER, PP_OTHER})"
  using pipeline.directives.wfp_before assms
proof (induction p rule: wfp_induct_rule)
  case (less p)
  obtain t q where q: "pp_lex st p = Some (t, q)" "pp_ok q" "tk_type t \<notin> {PP_HASH, PP_NUMBER, PP_OTHER}"
    "tk_type t \<noteq> LAST \<longrightarrow> pp_before q p"
    using pp_lex_ok [OF less.prems] by blast
  show ?case
  proof (cases "tk_type t = LAST")
    case True
    then show ?thesis using q by (subst pp_tokens.simps) simp
  next
    case False
    then obtain ts r where "pp_tokens st q = Some (ts, r)" "pp_ok r"
      "\<forall>t \<in> set ts. tk_type t \<notin> {LAST, PP_HASH, PP_NUMBER, PP_OTHER}"
      using less.IH [of q] q by blast
    then show ?thesis using q False by (subst pp_tokens.simps) simp
  qed
qed

text \<open>The states of a preprocessor: its client adds macros at the start and takes tokens.\<close>

inductive pp_state :: "preprocessor_settings \<Rightarrow> (string \<times> char) list \<Rightarrow> preprocessor \<Rightarrow> bool"
  for st strings where
  start: "pp_state st strings (fold (\<lambda>(n, v). predefineMacro n v) macros (pp_init strings Preprocessor))"
| limit: "pp_state st strings p \<Longrightarrow> pp_state st strings (pp_setMaxTokenSize n p)"
| lex: "pp_state st strings p \<Longrightarrow> pp_lex st p = Some (t, p') \<Longrightarrow> pp_state st strings p'"

lemma pp_state_ok: "pp_state st strings p \<Longrightarrow> scannable strings \<Longrightarrow> pp_ok p"
proof (induction rule: pp_state.induct)
  case (lex p t p')
  then show ?case using pp_lex_ok [of p st] by auto
qed (auto intro: started_ok setMaxTokenSize_ok)

section \<open>Properties\<close>







end
